(* ===== verification/Prelude.thy ===== *)
theory Prelude
  imports Main "HOL-Library.Word"
begin

unbundle bit_operations_syntax

text \<open>
  Shared vocabulary of the development: the machine integer types, the results of operations
  that may fail, checked buffer accesses, the packing of bits into bytes, and the generic
  fuelled loop with the contract (\<open>step_loop\<close>) that the framing decoders discharge.

  C and C++ types are read as follows: \<open>uint8_t\<close>, \<open>uint16_t\<close>, \<open>uint32_t\<close>, \<open>uint64_t\<close> are
  words of that width; container sizes and indices of type \<open>size_t\<close> are natural numbers, and
  every place where the code subtracts two of them is written with the guard it needs.
\<close>

section \<open>Machine types\<close>

type_synonym u8 = "8 word"
type_synonym u16 = "16 word"
type_synonym u32 = "32 word"
type_synonym u64 = "64 word"

named_theorems bits_simps \<open>packing bytes into bits and back\<close>
named_theorems buf_simps \<open>checked buffer accesses\<close>
named_theorems frame_inv \<open>preservation of the decoder invariants\<close>

section \<open>Results\<close>

text \<open>
  Every way in which the C++ code can leave the defined path: an exception of the standard
  library, an access outside an allocated buffer, an iterator outside its container.
\<close>

datatype err =
    Invalid_argument string
  | Runtime_error string
  | Oob_write
  | Oob_read
  | Bad_erase

type_synonym 'a res = "err + 'a"

definition res_bind :: "'a res \<Rightarrow> ('a \<Rightarrow> 'b res) \<Rightarrow> 'b res" where
  "res_bind m f = (case m of Inl e \<Rightarrow> Inl e | Inr x \<Rightarrow> f x)"

lemma res_bind_simps [simp]:
  "res_bind (Inl e) f = Inl e"
  "res_bind (Inr x) f = f x"
  by (simp_all add: res_bind_def)

lemma res_bind_Inr_iff: "res_bind m f = Inr y \<longleftrightarrow> (\<exists>x. m = Inr x \<and> f x = Inr y)"
  by (cases m) auto

lemma res_bind_Inl_iff:
  "res_bind m f = Inl e \<longleftrightarrow> m = Inl e \<or> (\<exists>x. m = Inr x \<and> f x = Inl e)"
  by (cases m) auto

lemma ex_bool [simp]: "\<exists>r. r" "\<exists>r. \<not> r"
  by blast+

section \<open>Checked buffer accesses\<close>

definition buf_set :: "'a list \<Rightarrow> nat \<Rightarrow> 'a \<Rightarrow> 'a list res" where
  "buf_set b i v = (if i < length b then Inr (b[i := v]) else Inl Oob_write)"

definition buf_get :: "'a list \<Rightarrow> nat \<Rightarrow> 'a res" where
  "buf_get b i = (if i < length b then Inr (b ! i) else Inl Oob_read)"

text \<open>\<open>std::copy\<close> of a whole vector into a buffer, from index \<open>i\<close> on.\<close>

definition buf_copy :: "'a list \<Rightarrow> nat \<Rightarrow> 'a list \<Rightarrow> 'a list res" where
  "buf_copy b i xs =
     (if i + length xs \<le> length b then Inr (take i b @ xs @ drop (i + length xs) b)
      else Inl Oob_write)"

text \<open>\<open>std::deque::erase(begin, begin + i + 1 - back)\<close>, the way the decoders drop a prefix.\<close>

definition erase_front :: "nat \<Rightarrow> nat \<Rightarrow> 'a list \<Rightarrow> 'a list res" where
  "erase_front n back xs =
     (if back \<le> n \<and> n - back \<le> length xs then Inr (drop (n - back) xs) else Inl Bad_erase)"

lemma buf_set_ok [buf_simps]: "i < length b \<Longrightarrow> buf_set b i v = Inr (b[i := v])"
  by (simp add: buf_set_def)

lemma buf_set_oob [buf_simps]: "length b \<le> i \<Longrightarrow> buf_set b i v = Inl Oob_write"
  by (simp add: buf_set_def)

lemma buf_get_ok [buf_simps]: "i < length b \<Longrightarrow> buf_get b i = Inr (b ! i)"
  by (simp add: buf_get_def)

lemma buf_copy_ok [buf_simps]:
  "i + length xs \<le> length b \<Longrightarrow>
   buf_copy b i xs = Inr (take i b @ xs @ drop (i + length xs) b)"
  by (simp add: buf_copy_def)

lemma erase_front_ok [buf_simps]:
  "back \<le> n \<Longrightarrow> n - back \<le> length xs \<Longrightarrow> erase_front n back xs = Inr (drop (n - back) xs)"
  by (simp add: erase_front_def)

section \<open>Bits and bytes\<close>

text \<open>
  A soft or hard bit travels in a byte of its own with the value in the least significant
  bit. \<open>pack_msb\<close> is the expression the decoders write out as
  \<open>in[0] << 7 | in[1] << 6 | ... | in[7]\<close>; \<open>unpack_msb\<close> is
  \<open>b >> 7, (b >> 6) & 1, ..., b & 1\<close>.
\<close>

definition pack_msb :: "u8 list \<Rightarrow> u8" where
  "pack_msb xs =
     push_bit 7 (xs ! 0) OR push_bit 6 (xs ! 1) OR push_bit 5 (xs ! 2) OR push_bit 4 (xs ! 3) OR
     push_bit 3 (xs ! 4) OR push_bit 2 (xs ! 5) OR push_bit 1 (xs ! 6) OR xs ! 7"

definition unpack_msb :: "u8 \<Rightarrow> u8 list" where
  "unpack_msb b =
     [drop_bit 7 b, drop_bit 6 b AND 1, drop_bit 5 b AND 1, drop_bit 4 b AND 1,
      drop_bit 3 b AND 1, drop_bit 2 b AND 1, drop_bit 1 b AND 1, b AND 1]"

definition unpack_lsb :: "u8 \<Rightarrow> u8 list" where
  "unpack_lsb b = rev (unpack_msb b)"

definition pack_lsb :: "u8 list \<Rightarrow> u8" where
  "pack_lsb xs = pack_msb (rev xs)"

lemma length_unpack_msb [simp]: "length (unpack_msb b) = 8"
  by (simp add: unpack_msb_def)

lemma length_unpack_lsb [simp]: "length (unpack_lsb b) = 8"
  by (simp add: unpack_lsb_def)

text \<open>
  Case distinction on a bit index: a property of the bits of a word of fixed width is a
  property of finitely many indices, checked one by one.
\<close>

lemma all_upto_8:
  assumes "n < 8" and "list_all P
     [0, 1, 2, 3, 4, 5, 6, 7]"
  shows "P (n :: nat)"
proof -
  have "[0..<8] = [0, 1, 2, 3, 4, 5, 6, 7]"
    by (simp add: upt_rec)
  moreover from assms(1) have "n \<in> set [0..<8]" by simp
  ultimately show ?thesis using assms(2) by (metis list_all_iff)
qed

lemma all_upto_16:
  assumes "n < 16" and "list_all P
     [0, 1, 2, 3, 4, 5, 6, 7, 8, 9, 10, 11, 12, 13, 14, 15]"
  shows "P (n :: nat)"
proof -
  have "[0..<16] = [0, 1, 2, 3, 4, 5, 6, 7, 8, 9, 10, 11, 12, 13, 14, 15]"
    by (simp add: upt_rec)
  moreover from assms(1) have "n \<in> set [0..<16]" by simp
  ultimately show ?thesis using assms(2) by (metis list_all_iff)
qed

lemma all_upto_32:
  assumes "n < 32" and "list_all P
     [0, 1, 2, 3, 4, 5, 6, 7, 8, 9, 10, 11, 12, 13, 14, 15, 16, 17, 18, 19, 20, 21,
      22, 23, 24, 25, 26, 27, 28, 29, 30, 31]"
  shows "P (n :: nat)"
proof -
  have "[0..<32] = [0, 1, 2, 3, 4, 5, 6, 7, 8, 9, 10, 11, 12, 13, 14, 15, 16, 17, 18, 19, 20, 21,
      22, 23, 24, 25, 26, 27, 28, 29, 30, 31]"
    by (simp add: upt_rec)
  moreover from assms(1) have "n \<in> set [0..<32]" by simp
  ultimately show ?thesis using assms(2) by (metis list_all_iff)
qed

lemma all_upto_64:
  assumes "n < 64" and "list_all P
     [0, 1, 2, 3, 4, 5, 6, 7, 8, 9, 10, 11, 12, 13, 14, 15, 16, 17, 18, 19, 20, 21,
      22, 23, 24, 25, 26, 27, 28, 29, 30, 31, 32, 33, 34, 35, 36, 37, 38, 39, 40, 41,
      42, 43, 44, 45, 46, 47, 48, 49, 50, 51, 52, 53, 54, 55, 56, 57, 58, 59, 60, 61,
      62, 63]"
  shows "P (n :: nat)"
proof -
  have "[0..<64] = [0, 1, 2, 3, 4, 5, 6, 7, 8, 9, 10, 11, 12, 13, 14, 15, 16, 17, 18, 19, 20, 21,
      22, 23, 24, 25, 26, 27, 28, 29, 30, 31, 32, 33, 34, 35, 36, 37, 38, 39, 40, 41,
      42, 43, 44, 45, 46, 47, 48, 49, 50, 51, 52, 53, 54, 55, 56, 57, 58, 59, 60, 61,
      62, 63]"
    by (simp add: upt_rec)
  moreover from assms(1) have "n \<in> set [0..<64]" by simp
  ultimately show ?thesis using assms(2) by (metis list_all_iff)
qed

lemma pack_unpack_msb [simp, bits_simps]: "pack_msb (unpack_msb b) = b"
proof (rule bit_word_eqI)
  fix n :: nat
  assume "n < LENGTH(8)"
  then have "n < 8" by simp
  then show "bit (pack_msb (unpack_msb b)) n = bit b n"
    by (rule all_upto_8)
      (simp add: pack_msb_def unpack_msb_def bit_simps mult.commute [where b = "2::u8"]
        flip: numeral_2_eq_2)
qed

lemma pack_unpack_lsb [simp, bits_simps]: "pack_lsb (unpack_lsb b) = b"
  by (simp add: pack_lsb_def unpack_lsb_def)

definition is_bit :: "u8 \<Rightarrow> bool" where
  "is_bit b \<longleftrightarrow> b = 0 \<or> b = 1"

lemma is_bit_simps [simp]: "is_bit 0" "is_bit 1"
  by (simp_all add: is_bit_def)

lemma and_1_is_bit [simp]: "is_bit (b AND 1)"
  by (simp add: is_bit_def and_one_eq mod_2_eq_odd)

lemma shiftr7_is_bit [simp]: "is_bit (drop_bit 7 b)"
proof -
  have "drop_bit 7 b = (if bit b 7 then 1 else 0)"
  proof (rule bit_word_eqI)
    fix n :: nat
    show "bit (drop_bit 7 b) n = bit (if bit b 7 then 1 else 0 :: u8) n"
      by (cases "n = 0") (auto simp: bit_simps dest: bit_imp_le_length)
  qed
  then show ?thesis by (simp add: is_bit_def)
qed

lemma unpack_msb_bits: "x \<in> set (unpack_msb b) \<Longrightarrow> is_bit x"
  by (auto simp: unpack_msb_def)

lemma unpack_lsb_bits: "x \<in> set (unpack_lsb b) \<Longrightarrow> is_bit x"
  by (auto simp: unpack_lsb_def dest: unpack_msb_bits)

lemma bit_of_nat_u8: "bit (of_nat k :: u8) n \<longleftrightarrow> n < 8 \<and> bit k n"
  by transfer (simp add: bit_take_bit_iff bit_of_nat_iff_bit)

lemma bit_shl1: "bit (x * 2) n \<longleftrightarrow> 0 < n \<and> n < LENGTH('a) \<and> bit x (n - 1)" for x :: "'a::len word"
proof -
  have "x * 2 = push_bit 1 x" by (simp add: push_bit_eq_mult)
  then show ?thesis by (simp only: bit_push_bit_iff) (auto dest: bit_imp_le_length)
qed

lemma xor_eq_0: "x XOR y = 0 \<longleftrightarrow> x = y" for x y :: "'a::len word"
  by (metis xor_self_eq xor.assoc xor.right_neutral xor.left_neutral)

text \<open>Packing eight single bits and unpacking them again is the identity.\<close>

lemma is_bit_bit: "is_bit b \<Longrightarrow> bit b n \<longleftrightarrow> n = 0 \<and> b = 1"
  by (auto simp: is_bit_def bit_1_iff)

lemma is_bit_eq: "is_bit b \<Longrightarrow> (if bit b 0 then 1 else 0) = b"
  by (auto simp: is_bit_def)

lemma unpack_msb_bit: "i < 8 \<Longrightarrow> unpack_msb b ! i = (if bit b (7 - i) then 1 else 0)"
proof -
  have 7: "drop_bit 7 b = (if bit b 7 then 1 else 0)"
  proof (rule bit_word_eqI)
    fix n
    show "bit (drop_bit 7 b) n = bit (if bit b 7 then 1 else 0 :: u8) n"
      by (cases "n = 0") (auto simp: bit_simps dest: bit_imp_le_length)
  qed
  have k: "drop_bit k b AND 1 = (if bit b k then 1 else 0)" for k
    by (simp add: and_one_eq mod_2_eq_odd bit_iff_odd_drop_bit)
  have 0: "b AND 1 = (if bit b 0 then 1 else 0)" using k [of 0] by simp
  show "i < 8 \<Longrightarrow> unpack_msb b ! i = (if bit b (7 - i) then 1 else 0)"
    by (rule all_upto_8 [of i "\<lambda>i. unpack_msb b ! i = (if bit b (7 - i) then 1 else 0)"])
      (simp_all add: unpack_msb_def 7 k 0)
qed

lemma unpack_pack_msb:
  assumes "length xs = 8" and "\<forall>x \<in> set xs. is_bit x"
  shows "unpack_msb (pack_msb xs) = xs"
proof (rule nth_equalityI)
  fix i
  assume "i < length (unpack_msb (pack_msb xs))"
  then have i: "i < 8" by simp
  have b: "bit (xs ! k) n \<longleftrightarrow> n = 0 \<and> xs ! k = 1" if "k < 8" for k n
    using that assms is_bit_bit [of "xs ! k"] by simp
  have "bit (pack_msb xs) (7 - i) \<longleftrightarrow> xs ! i = 1"
    using i by (rule all_upto_8) (simp add: pack_msb_def bit_or_iff bit_push_bit_iff b bit_shl1)
  then show "unpack_msb (pack_msb xs) ! i = xs ! i"
    using i assms by (auto simp: unpack_msb_bit is_bit_def dest: nth_mem)
qed (use assms in simp)

lemma unpack_pack_lsb:
  "length xs = 8 \<Longrightarrow> \<forall>x \<in> set xs. is_bit x \<Longrightarrow> unpack_lsb (pack_lsb xs) = xs"
  by (simp add: unpack_lsb_def pack_lsb_def unpack_pack_msb)

lemma unpack_msb_eq: "unpack_msb b = map (\<lambda>k. drop_bit k b AND 1) [7, 6, 5, 4, 3, 2, 1, 0]"
proof (rule nth_equalityI)
  fix i
  assume "i < length (unpack_msb b)"
  then have i: "i < 8" by simp
  have k: "drop_bit k b AND 1 = (if bit b k then 1 else 0)" for k
    by (simp add: and_one_eq mod_2_eq_odd bit_iff_odd_drop_bit)
  show "unpack_msb b ! i = map (\<lambda>k. drop_bit k b AND 1) [7, 6, 5, 4, 3, 2, 1, 0] ! i"
    unfolding unpack_msb_bit [OF i] k using i by (rule all_upto_8) simp
qed simp

lemma unpack_msb_xor:
  "unpack_msb (x XOR y) = map2 (XOR) (unpack_msb x) (unpack_msb y)"
  by (rule nth_equalityI) (auto simp: unpack_msb_bit bit_xor_iff)

lemma unpack_lsb_xor:
  "unpack_lsb (x XOR y) = map2 (XOR) (unpack_lsb x) (unpack_lsb y)"
  by (simp add: unpack_lsb_def unpack_msb_xor rev_map zip_rev)

section \<open>Loops over a buffer\<close>

text \<open>\<open>for (i = 0; i < len; i++) out[i] = f(in[i])\<close> where \<open>f\<close> threads a state.\<close>

fun map_state :: "('s \<Rightarrow> 'a \<Rightarrow> 'b \<times> 's) \<Rightarrow> 's \<Rightarrow> 'a list \<Rightarrow> 'b list \<times> 's" where
  "map_state f s [] = ([], s)"
| "map_state f s (x # xs) =
     (let (y, s1) = f s x; (ys, s2) = map_state f s1 xs in (y # ys, s2))"

lemma map_state_length [simp]: "length (fst (map_state f s xs)) = length xs"
  by (induction xs arbitrary: s) (auto simp: split_def Let_def)

lemma map_state_append:
  "map_state f s (xs @ ys) =
     (let (us, s1) = map_state f s xs; (vs, s2) = map_state f s1 ys in (us @ vs, s2))"
  by (induction xs arbitrary: s) (auto simp: split_def Let_def)

section \<open>Fuelled loops\<close>

text \<open>
  The framing decoders share one shape: \<open>while (...) switch (state) ...\<close>, whose body either
  falls through to the next iteration or returns. One iteration is a step function into
  \<open>outcome\<close>; \<open>run_loop\<close> iterates it. \<open>None\<close> means that the fuel did not suffice, an
  error of the body ends the loop.
\<close>

datatype ('s, 'r) outcome = Continue 's | Return 's 'r

fun run_loop :: "('s \<Rightarrow> ('s, 'r) outcome res) \<Rightarrow> nat \<Rightarrow> 's \<Rightarrow> ('s \<times> 'r) res option" where
  "run_loop step 0 s = None"
| "run_loop step (Suc n) s =
     (case step s of
        Inl e \<Rightarrow> Some (Inl e)
      | Inr (Return s' r) \<Rightarrow> Some (Inr (s', r))
      | Inr (Continue s') \<Rightarrow> run_loop step n s')"

lemma run_loop_mono:
  "run_loop step n s = Some x \<Longrightarrow> n \<le> m \<Longrightarrow> run_loop step m s = Some x"
proof (induction n arbitrary: s m)
  case 0
  then show ?case by simp
next
  case (Suc n)
  then obtain k where m: "m = Suc k" and nk: "n \<le> k"
    by (cases m) auto
  from Suc.prems(1) Suc.IH[OF _ nk] show ?case
    by (auto simp: m split: sum.splits outcome.splits)
qed

text \<open>
  The contract of a loop body: where its invariant holds, it keeps the invariant, and every
  iteration that does not return decreases a measure. What the loop establishes about its result is
  the postcondition \<open>post\<close> of the returning iteration. A body may fail; the loop then ends with
  its error.
\<close>

locale partial_loop =
  fixes step :: "'s \<Rightarrow> ('s, 'r) outcome res"
    and inv :: "'s \<Rightarrow> bool"
    and mu :: "'s \<Rightarrow> nat"
    and post :: "'s \<Rightarrow> 'r \<Rightarrow> bool"
  assumes step_continue: "inv s \<Longrightarrow> step s = Inr (Continue s') \<Longrightarrow> inv s' \<and> mu s' < mu s"
    and step_return: "inv s \<Longrightarrow> step s = Inr (Return s' r) \<Longrightarrow> post s' r"
begin

lemma loop_ends:
  "inv s \<Longrightarrow> mu s < n \<Longrightarrow>
   (\<exists>s' e. run_loop step n s = Some (Inl e) \<and> inv s' \<and> step s' = Inl e) \<or>
   (\<exists>s' r. run_loop step n s = Some (Inr (s', r)) \<and> post s' r)"
proof (induction n arbitrary: s)
  case 0
  then show ?case by simp
next
  case (Suc n)
  show ?case
  proof (cases "step s")
    case (Inl e)
    then show ?thesis using Suc.prems(1) by auto
  next
    case x: (Inr x)
    show ?thesis
    proof (cases x)
      case (Return s' r)
      with x Suc.prems(1) show ?thesis using step_return by simp
    next
      case (Continue s')
      with x Suc.prems step_continue[of s s'] have "inv s'" "mu s' < n" by auto
      then show ?thesis using Suc.IH[of s'] x Continue by simp
    qed
  qed
qed

lemma loop_fuel_irrelevant:
  assumes "inv s" and "mu s < n" and "n \<le> m"
  shows "run_loop step m s = run_loop step n s"
  using loop_ends[OF assms(1,2)] run_loop_mono[OF _ assms(3)] by fastforce

end

text \<open>The contract of a body that never fails where its invariant holds.\<close>

locale step_loop = partial_loop +
  assumes step_total: "inv s \<Longrightarrow> \<exists>x. step s = Inr x"
begin

lemma loop_returns:
  assumes "inv s" and "mu s < n"
  shows "\<exists>s' r. run_loop step n s = Some (Inr (s', r)) \<and> post s' r"
  using loop_ends[OF assms] step_total by fastforce

end

end
