(* ===== verification/Utils.thy ===== *)
theory Utils
  imports Prelude
begin

text \<open>
  \<open>lib/utils.cc\<close> and \<open>include/satnogs/utils.h\<close>: population count, byte and word reversal,
  64-bit byte order conversion. The population count is shown equal to the number of set bits
  (\<open>popcount\<close>), on which the Golay decoder and the shift register searches build.
  \<open>mape\<close> (floating point) and \<open>print_pdu\<close> (output) are not modelled.
\<close>

section \<open>The operations\<close>

definition bit_count :: "u32 \<Rightarrow> u32" where
  "bit_count x0 =
     (let x1 = x0 - (drop_bit 1 x0 AND 0x55555555);
          x2 = (x1 AND 0x33333333) + (drop_bit 2 x1 AND 0x33333333)
      in drop_bit 24 (((x2 + drop_bit 4 x2) AND 0x0F0F0F0F) * 0x01010101))"

definition s_bytes_reversed :: "u8 list" where
  "s_bytes_reversed = [
    0, 0x80, 0x40, 0xC0, 0x20, 0xA0, 0x60, 0xE0, 0x10, 0x90, 0x50, 0xD0, 0x30, 0xB0, 0x70, 0xF0,
    8, 0x88, 0x48, 0xC8, 0x28, 0xA8, 0x68, 0xE8, 0x18, 0x98, 0x58, 0xD8, 0x38, 0xB8, 0x78, 0xF8,
    4, 0x84, 0x44, 0xC4, 0x24, 0xA4, 0x64, 0xE4, 0x14, 0x94, 0x54, 0xD4, 0x34, 0xB4, 0x74, 0xF4,
    0xC, 0x8C, 0x4C, 0xCC, 0x2C, 0xAC, 0x6C, 0xEC, 0x1C, 0x9C, 0x5C, 0xDC, 0x3C, 0xBC, 0x7C, 0xFC,
    2, 0x82, 0x42, 0xC2, 0x22, 0xA2, 0x62, 0xE2, 0x12, 0x92, 0x52, 0xD2, 0x32, 0xB2, 0x72, 0xF2,
    0xA, 0x8A, 0x4A, 0xCA, 0x2A, 0xAA, 0x6A, 0xEA, 0x1A, 0x9A, 0x5A, 0xDA, 0x3A, 0xBA, 0x7A, 0xFA,
    6, 0x86, 0x46, 0xC6, 0x26, 0xA6, 0x66, 0xE6, 0x16, 0x96, 0x56, 0xD6, 0x36, 0xB6, 0x76, 0xF6,
    0xE, 0x8E, 0x4E, 0xCE, 0x2E, 0xAE, 0x6E, 0xEE, 0x1E, 0x9E, 0x5E, 0xDE, 0x3E, 0xBE, 0x7E, 0xFE,
    1, 0x81, 0x41, 0xC1, 0x21, 0xA1, 0x61, 0xE1, 0x11, 0x91, 0x51, 0xD1, 0x31, 0xB1, 0x71, 0xF1,
    9, 0x89, 0x49, 0xC9, 0x29, 0xA9, 0x69, 0xE9, 0x19, 0x99, 0x59, 0xD9, 0x39, 0xB9, 0x79, 0xF9,
    5, 0x85, 0x45, 0xC5, 0x25, 0xA5, 0x65, 0xE5, 0x15, 0x95, 0x55, 0xD5, 0x35, 0xB5, 0x75, 0xF5,
    0xD, 0x8D, 0x4D, 0xCD, 0x2D, 0xAD, 0x6D, 0xED, 0x1D, 0x9D, 0x5D, 0xDD, 0x3D, 0xBD, 0x7D, 0xFD,
    3, 0x83, 0x43, 0xC3, 0x23, 0xA3, 0x63, 0xE3, 0x13, 0x93, 0x53, 0xD3, 0x33, 0xB3, 0x73, 0xF3,
    0xB, 0x8B, 0x4B, 0xCB, 0x2B, 0xAB, 0x6B, 0xEB, 0x1B, 0x9B, 0x5B, 0xDB, 0x3B, 0xBB, 0x7B, 0xFB,
    7, 0x87, 0x47, 0xC7, 0x27, 0xA7, 0x67, 0xE7, 0x17, 0x97, 0x57, 0xD7, 0x37, 0xB7, 0x77, 0xF7,
    0xF, 0x8F, 0x4F, 0xCF, 0x2F, 0xAF, 0x6F, 0xEF, 0x1F, 0x9F, 0x5F, 0xDF, 0x3F, 0xBF, 0x7F, 0xFF]"

definition reverse_byte :: "u8 \<Rightarrow> u8" where
  "reverse_byte b = s_bytes_reversed ! unat b"

definition reverse_uint32_bytes :: "u32 \<Rightarrow> u32" where
  "reverse_uint32_bytes i =
     push_bit 24 (ucast (s_bytes_reversed ! unat (i AND 0xff))) OR
     push_bit 16 (ucast (s_bytes_reversed ! unat (drop_bit 8 i AND 0xff))) OR
     push_bit 8 (ucast (s_bytes_reversed ! unat (drop_bit 16 i AND 0xff))) OR
     ucast (s_bytes_reversed ! unat (drop_bit 24 i AND 0xff))"

definition reverse_uint64_bytes :: "u64 \<Rightarrow> u64" where
  "reverse_uint64_bytes x0 =
     (let x1 = push_bit 32 (x0 AND 0x00000000FFFFFFFF) OR drop_bit 32 (x0 AND 0xFFFFFFFF00000000);
          x2 = push_bit 16 (x1 AND 0x0000FFFF0000FFFF) OR drop_bit 16 (x1 AND 0xFFFF0000FFFF0000)
      in push_bit 8 (x2 AND 0x00FF00FF00FF00FF) OR drop_bit 8 (x2 AND 0xFF00FF00FF00FF00))"

text \<open>
  \<open>htonl\<close> and \<open>ntohl\<close> of the C library: the identity on a big endian host, the byte swap on a
  little endian one.
\<close>

definition bswap32 :: "u32 \<Rightarrow> u32" where
  "bswap32 x =
     push_bit 24 (x AND 0xff) OR push_bit 8 (x AND 0xff00) OR
     (drop_bit 8 x AND 0xff00) OR drop_bit 24 x"

definition htonl :: "bool \<Rightarrow> u32 \<Rightarrow> u32" where
  "htonl big_endian x = (if big_endian then x else bswap32 x)"

definition htonll :: "bool \<Rightarrow> u64 \<Rightarrow> u64" where
  "htonll big_endian x =
     (if 1 = htonl big_endian 1 then x
      else push_bit 32 (ucast (htonl big_endian (ucast x)) AND 0xFFFFFFFF) OR
           ucast (htonl big_endian (ucast (drop_bit 32 x))))"

definition ntohll :: "bool \<Rightarrow> u64 \<Rightarrow> u64" where
  "ntohll big_endian x =
     (if 1 = htonl big_endian 1 then x
      else push_bit 32 (ucast (htonl big_endian (ucast x)) AND 0xFFFFFFFF) OR
           ucast (htonl big_endian (ucast (drop_bit 32 x))))"

text \<open>The bytes of a 64-bit number in the memory of the host.\<close>

definition mem64 :: "bool \<Rightarrow> u64 \<Rightarrow> u8 list" where
  "mem64 be x =
     (let bs = map (\<lambda>k. ucast (drop_bit (8 * k) x)) [0, 1, 2, 3, 4, 5, 6, 7]
      in if be then rev bs else bs)"

lemma length_mem64 [simp]: "length (mem64 be x) = 8"
  by (simp add: mem64_def Let_def)

section \<open>Population count\<close>

definition popcount :: "'a::len word \<Rightarrow> nat" where
  "popcount x = (\<Sum>i = 0..<LENGTH('a). of_bool (bit x i))"


text \<open>
  The parallel count works on the four-bit digits of the word. The lemmas below push each of
  its masked shifts through one digit; the count itself is then a computation on digits.
\<close>

lemma digit_and:
  fixes l :: nat
  assumes "l < 16" "ml < 16"
  shows "(l + 16 * h) AND (ml + 16 * mh) = (l AND ml) + 16 * (h AND mh)"
proof -
  have "take_bit 4 ((l + 16 * h) AND (ml + 16 * mh)) = take_bit 4 (l + 16 * h) AND take_bit 4 (ml + 16 * mh)"
    by simp
  then have m: "((l + 16 * h) AND (ml + 16 * mh)) mod 16 = l AND ml"
    using assms by (simp add: take_bit_eq_mod)
  have "drop_bit 4 ((l + 16 * h) AND (ml + 16 * mh)) = drop_bit 4 (l + 16 * h) AND drop_bit 4 (ml + 16 * mh)"
    by simp
  then have dv: "((l + 16 * h) AND (ml + 16 * mh)) div 16 = h AND mh"
    using assms by (simp add: drop_bit_eq_div)
  show ?thesis using m dv by (metis div_mult_mod_eq add.commute mult.commute)
qed

lemma nibble_all:
  assumes "l < 16" and "list_all P [0, 1, 2, 3, 4, 5, 6, 7, 8, 9, 10, 11, 12, 13, 14, 15]"
  shows "P (l :: nat)"
proof -
  have "[0..<16] = [0, 1, 2, 3, 4, 5, 6, 7, 8, 9, 10, 11, 12, 13, 14, 15 :: nat]"
    by (simp add: upt_rec)
  moreover from assms(1) have "l \<in> set [0..<16]" by simp
  ultimately show ?thesis using assms(2) by (metis list_all_iff)
qed

lemma digit_shift1:
  fixes l :: nat
  assumes "l < 16"
  shows "drop_bit 1 (l + 16 * h) AND (5 + 16 * mh) = (drop_bit 1 l AND 5) + 16 * (drop_bit 1 h AND mh)"
proof -
  have "drop_bit 1 (l + 16 * h) = (drop_bit 1 l + 8 * (h mod 2)) + 16 * drop_bit 1 h"
    by (simp add: drop_bit_eq_div) presburger
  then have "drop_bit 1 (l + 16 * h) AND (5 + 16 * mh) =
      ((drop_bit 1 l + 8 * (h mod 2)) AND 5) + 16 * (drop_bit 1 h AND mh)"
    using assms by (subst digit_and [symmetric]) (auto simp: drop_bit_eq_div)
  moreover have "\<forall>p \<in> {0, 1}. (drop_bit 1 l + 8 * p) AND 5 = drop_bit 1 l AND 5"
    by (rule nibble_all [OF assms]) (simp add: drop_bit_eq_div)
  moreover have "h mod 2 \<in> {0, 1}" by auto
  ultimately show ?thesis by (metis (no_types))
qed

lemma digit_shift2:
  fixes l :: nat
  assumes "l < 16"
  shows "drop_bit 2 (l + 16 * h) AND (3 + 16 * mh) = (drop_bit 2 l AND 3) + 16 * (drop_bit 2 h AND mh)"
proof -
  have "(l + 16 * h) div 4 = l div 4 + 4 * h"
    using div_mult_self1 [of 4 l "4 * h"] by (simp add: algebra_simps)
  also have "4 * h = 4 * (h mod 4) + 16 * (h div 4)"
    using mult_div_mod_eq [of 4 h] by linarith
  finally have e: "drop_bit 2 (l + 16 * h) = (drop_bit 2 l + 4 * (h mod 4)) + 16 * drop_bit 2 h"
    by (simp add: drop_bit_eq_div)
  have "\<forall>p \<in> {0, 1, 2, 3}. (drop_bit 2 l + 4 * p) AND 3 = drop_bit 2 l AND 3"
    by (rule nibble_all [OF assms]) (simp add: drop_bit_eq_div)
  moreover have "h mod 4 \<in> {0, 1, 2, 3}" by auto
  moreover have "drop_bit 2 (l + 16 * h) AND (3 + 16 * mh) =
      ((drop_bit 2 l + 4 * (h mod 4)) AND 3) + 16 * (drop_bit 2 h AND mh)"
    unfolding e
  proof (rule digit_and)
    from assms have "l div 4 < 4" "h mod 4 < 4" by auto
    then show "drop_bit 2 l + 4 * (h mod 4) < 16" unfolding drop_bit_eq_div by simp
  qed simp
  ultimately show ?thesis by (metis (no_types))
qed

text \<open>The little endian value of a list of four-bit digits.\<close>

fun digits_val :: "nat list \<Rightarrow> nat" where
  "digits_val [] = 0"
| "digits_val (l # ls) = l + 16 * digits_val ls"

definition pairs_step :: "nat \<Rightarrow> nat" where
  "pairs_step l = l - (drop_bit 1 l AND 5)"

definition nibble_step :: "nat \<Rightarrow> nat" where
  "nibble_step l = (l AND 3) + (drop_bit 2 l AND 3)"

lemma and_digits:
  "\<forall>l \<in> set ls. l < 16 \<Longrightarrow> m < 16 \<Longrightarrow>
   digits_val ls AND digits_val (replicate (length ls) m) = digits_val (map (\<lambda>l. l AND m) ls)"
  by (induction ls) (auto simp: digit_and)

lemma and_digits2:
  "length xs = length ms \<Longrightarrow> \<forall>l \<in> set xs. l < 16 \<Longrightarrow> \<forall>l \<in> set ms. l < 16 \<Longrightarrow>
   digits_val xs AND digits_val ms = digits_val (map2 (AND) xs ms)"
  by (induction xs ms rule: list_induct2) (auto simp: digit_and)

lemma shift1_digits:
  "\<forall>l \<in> set ls. l < 16 \<Longrightarrow>
   drop_bit 1 (digits_val ls) AND digits_val (replicate (length ls) 5) =
   digits_val (map (\<lambda>l. drop_bit 1 l AND 5) ls)"
  by (induction ls) (use digit_shift1 in auto)

lemma shift2_digits:
  "\<forall>l \<in> set ls. l < 16 \<Longrightarrow>
   drop_bit 2 (digits_val ls) AND digits_val (replicate (length ls) 3) =
   digits_val (map (\<lambda>l. drop_bit 2 l AND 3) ls)"
  by (induction ls) (use digit_shift2 in auto)

lemma minus_digits:
  "\<forall>l \<in> set ls. f l \<le> l \<Longrightarrow> digits_val (map f ls) \<le> digits_val ls \<and>
     digits_val ls - digits_val (map f ls) = digits_val (map (\<lambda>l. l - f l) ls)"
  by (induction ls) auto

lemma plus_digits:
  "digits_val (map f ls) + digits_val (map g ls) = digits_val (map (\<lambda>l. f l + g l) ls)"
  by (induction ls) auto

lemma pairs_step_lt: "l < 16 \<Longrightarrow> drop_bit 1 l AND 5 \<le> l \<and> pairs_step l < 16"
  by (erule nibble_all) (simp add: pairs_step_def drop_bit_eq_div)

lemma pairs_digits:
  "\<forall>l \<in> set ls. l < 16 \<Longrightarrow>
   digits_val ls - (drop_bit 1 (digits_val ls) AND digits_val (replicate (length ls) 5)) =
   digits_val (map pairs_step ls)"
  using minus_digits[of ls "\<lambda>l. drop_bit 1 l AND 5"] pairs_step_lt
  unfolding pairs_step_def[abs_def] by (simp only: shift1_digits) blast

lemma nibble_digits:
  assumes "\<forall>l \<in> set ls. l < 16"
  shows "(digits_val ls AND digits_val (replicate (length ls) 3)) +
         (drop_bit 2 (digits_val ls) AND digits_val (replicate (length ls) 3)) =
         digits_val (map nibble_step ls)"
  using assms by (simp only: and_digits shift2_digits plus_digits) (simp add: and_digits shift2_digits plus_digits nibble_step_def[abs_def])

lemma nibble_count:
  assumes "l < 16"
  shows "nibble_step (pairs_step l) = l mod 2 + l div 2 mod 2 + l div 4 mod 2 + l div 8 mod 2"
  by (rule nibble_all [OF assms]) (simp add: pairs_step_def nibble_step_def drop_bit_eq_div)

definition bit_count_nat :: "nat \<Rightarrow> nat" where
  "bit_count_nat x0 =
     (let x1 = x0 - (drop_bit 1 x0 AND 0x55555555);
          x2 = (x1 AND 0x33333333) + (drop_bit 2 x1 AND 0x33333333)
      in ((x2 + drop_bit 4 x2) AND 0x0F0F0F0F) * 0x01010101 mod 2 ^ 32 div 2 ^ 24)"

fun digits_of :: "nat \<Rightarrow> nat \<Rightarrow> nat list" where
  "digits_of 0 x = []"
| "digits_of (Suc n) x = x mod 16 # digits_of n (x div 16)"

lemma length_digits_of [simp]: "length (digits_of n x) = n"
  by (induction n arbitrary: x) auto

lemma digits_of_lt: "\<forall>l \<in> set (digits_of n x). l < 16"
  by (induction n arbitrary: x) auto

lemma digits_of_val: "x < 16 ^ n \<Longrightarrow> digits_val (digits_of n x) = x"
  by (induction n arbitrary: x) (auto simp: less_mult_imp_div_less)

definition nibble_pop :: "nat \<Rightarrow> nat" where
  "nibble_pop l = l mod 2 + l div 2 mod 2 + l div 4 mod 2 + l div 8 mod 2"

lemma bytes_sum:
  fixes p :: "nat list"
  assumes "length p = 8" "\<forall>x \<in> set p. x \<le> 4"
  shows "((digits_val p + drop_bit 4 (digits_val p)) AND 0x0F0F0F0F) * 0x01010101 mod 2 ^ 32 div 2 ^ 24
    = sum_list p"
proof -
  from assms(1) obtain a b c d e f g h where p: "p = [a, b, c, d, e, f, g, h]"
    by (auto simp: length_Suc_conv eval_nat_numeral)
  have le: "a \<le> 4" "b \<le> 4" "c \<le> 4" "d \<le> 4" "e \<le> 4" "f \<le> 4" "g \<le> 4" "h \<le> 4"
    using assms(2) by (auto simp: p)
  have sh: "drop_bit 4 (digits_val p) = digits_val [b, c, d, e, f, g, h, 0]"
    using le by (simp add: p drop_bit_eq_div)
  have s: "digits_val p + drop_bit 4 (digits_val p) =
      digits_val [a + b, b + c, c + d, d + e, e + f, f + g, g + h, h]"
    unfolding sh by (simp add: p)
  have m: "(0x0F0F0F0F :: nat) = digits_val [15, 0, 15, 0, 15, 0, 15, 0]" by simp
  have a15: "x AND 15 = x" if "x < 16" for x :: nat
    using that take_bit_eq_mask [of 4 x] by (simp add: take_bit_eq_mod mask_eq_exp_minus_1)
  have "(digits_val p + drop_bit 4 (digits_val p)) AND 0x0F0F0F0F =
      digits_val [a + b, 0, c + d, 0, e + f, 0, g + h, 0]"
    unfolding s m using le by (subst and_digits2) (simp_all add: a15 del: digits_val.simps)
  then have e: "((digits_val p + drop_bit 4 (digits_val p)) AND 0x0F0F0F0F) * 0x01010101 =
      (a + b) + 256 * (a + b + c + d) + 65536 * (a + b + c + d + e + f) +
      2 ^ 24 * (a + b + c + d + e + f + g + h) +
      2 ^ 32 * ((c + d + e + f + g + h) + 256 * (e + f + g + h) + 65536 * (g + h))"
    by simp
  have "(x + 2 ^ 24 * y + 2 ^ 32 * z) mod 2 ^ 32 div 2 ^ 24 = y"
    if "x < 2 ^ 24 \<and> y < 256" for x y z :: nat
  proof -
    have "(x + 2 ^ 24 * y + 2 ^ 32 * z) mod 2 ^ 32 = x + 2 ^ 24 * y" using that by simp
    then show ?thesis using that by simp
  qed
  then show ?thesis
    unfolding e using le by (subst \<open>\<And>z y x. x < 2 ^ 24 \<and> y < 256 \<Longrightarrow> (x + 2 ^ 24 * y + 2 ^ 32 * z) mod 2 ^ 32 div 2 ^ 24 = y\<close>) (simp_all add: p)
qed

lemma nibble_pop_le: "l < 16 \<Longrightarrow> nibble_pop l \<le> 4"
  by (erule nibble_all) (simp add: nibble_pop_def)

lemma steps_pop:
  "l < 16 \<Longrightarrow> nibble_step (pairs_step l) = nibble_pop l"
  by (simp add: nibble_count nibble_pop_def)

lemma bit_count_nat_digits:
  assumes "x < 2 ^ 32"
  shows "bit_count_nat x = sum_list (map nibble_pop (digits_of 8 x))"
proof -
  let ?d = "digits_of 8 x"
  have v: "digits_val ?d = x" using assms by (intro digits_of_val) simp
  have lt: "\<forall>l \<in> set ?d. l < 16" by (rule digits_of_lt)
  have m5: "(0x55555555 :: nat) = digits_val (replicate (length ?d) 5)"
    and m3: "(0x33333333 :: nat) = digits_val (replicate (length (map pairs_step ?d)) 3)"
  proof -
    have "replicate 8 m = [m, m, m, m, m, m, m, m]" for m :: nat
      by (simp add: numeral_eq_Suc)
    then have "digits_val (replicate 8 5) = 0x55555555" "digits_val (replicate 8 3) = 0x33333333"
      by simp_all
    then show "(0x55555555 :: nat) = digits_val (replicate (length ?d) 5)"
      and "(0x33333333 :: nat) = digits_val (replicate (length (map pairs_step ?d)) 3)"
      by simp_all
  qed
  have lt2: "\<forall>l \<in> set (map pairs_step ?d). l < 16" using lt pairs_step_lt by auto
  have x1: "x - (drop_bit 1 x AND 0x55555555) = digits_val (map pairs_step ?d)"
    using pairs_digits [OF lt] unfolding m5 v .
  have x2: "(digits_val (map pairs_step ?d) AND 0x33333333) +
      (drop_bit 2 (digits_val (map pairs_step ?d)) AND 0x33333333) =
      digits_val (map nibble_step (map pairs_step ?d))"
    using nibble_digits [OF lt2] unfolding m3 .
  have pop: "map nibble_step (map pairs_step ?d) = map nibble_pop ?d"
    using lt by (auto simp: steps_pop)
  have le4: "\<forall>y \<in> set (map nibble_pop ?d). y \<le> 4"
    using lt nibble_pop_le by auto
  show ?thesis
    unfolding bit_count_nat_def Let_def x1 x2 pop
    by (rule bytes_sum [OF _ le4]) simp
qed

lemma and_nat_le: "x AND m \<le> m" "x AND m \<le> x" for x m :: nat
  by (simp_all add: and_nat_def nat_le_iff)

lemma bit_count_as_nat: "unat (bit_count x) = bit_count_nat (unat x)"
proof -
  define x1 where "x1 = x - (drop_bit 1 x AND 0x55555555)"
  define n1 where "n1 = unat x - (drop_bit 1 (unat x) AND 0x55555555)"
  define x2 where "x2 = (x1 AND 0x33333333) + (drop_bit 2 x1 AND 0x33333333)"
  define n2 where "n2 = (n1 AND 0x33333333) + (drop_bit 2 n1 AND 0x33333333)"
  have "unat (drop_bit 1 x AND 0x55555555) = drop_bit 1 (unat x) AND 0x55555555"
    by (simp add: unsigned_and_eq unat_drop_bit_eq)
  moreover have "drop_bit 1 (unat x) AND 0x55555555 \<le> unat x"
    using and_nat_le(2) [of "drop_bit 1 (unat x)"] by (rule order_trans) (simp add: drop_bit_eq_div)
  ultimately have e1: "unat x1 = n1"
    by (simp add: x1_def n1_def unat_sub word_le_nat_alt)
  have b2: "n2 \<le> 0x33333333 + 0x33333333"
    unfolding n2_def by (intro add_mono and_nat_le)
  then have e2: "unat x2 = n2"
    unfolding x2_def n2_def
    by (simp add: unat_word_ariths unsigned_and_eq unat_drop_bit_eq e1)
  have "n2 div 16 \<le> 0x33333333" using b2 by simp
  then have e3: "unat (x2 + drop_bit 4 x2) = n2 + drop_bit 4 n2"
    using b2 by (simp add: unat_word_ariths unat_drop_bit_eq e2 drop_bit_eq_div)
  define y where "y = x2 + drop_bit 4 x2"
  have "unat (drop_bit 24 ((y AND 0x0F0F0F0F) * 0x01010101)) =
      (unat y AND 0x0F0F0F0F) * 0x01010101 mod 2 ^ 32 div 2 ^ 24"
    by (simp add: unat_drop_bit_eq unat_word_ariths unsigned_and_eq drop_bit_eq_div)
  with e3 show ?thesis
    unfolding bit_count_def bit_count_nat_def Let_def x1_def [symmetric] x2_def [symmetric]
      n1_def [symmetric] n2_def [symmetric] y_def [symmetric] by simp
qed

lemma digits_pop_bits:
  "sum_list (map nibble_pop (digits_of n x)) = (\<Sum>i = 0..<4 * n. of_bool (bit x i))"
proof (induction n arbitrary: x)
  case 0
  then show ?case by simp
next
  case (Suc n)
  have pop: "nibble_pop (x mod 16) = (\<Sum>i = 0..<4. of_bool (bit x i))"
  proof -
    have np: "nibble_pop l = (\<Sum>i \<in> {0, 1, 2, 3}. of_bool (bit l i))" for l
      by (simp add: nibble_pop_def bit_iff_odd mod_2_eq_odd)
    have b: "bit (x mod 16) i = bit x i" if "i \<in> {0, 1, 2, 3}" for i
    proof -
      have "bit (take_bit 4 x) i = bit x i" using that by (auto simp: bit_take_bit_iff)
      then show ?thesis by (simp add: take_bit_eq_mod)
    qed
    have "{0..<4} = {0, 1, 2, 3 :: nat}" by auto
    then show ?thesis
      unfolding np by (simp only:) (rule sum.cong [OF refl], simp only: b)
  qed
  have "(\<Sum>i = 0..<4 * n. of_bool (bit (x div 16) i)) = (\<Sum>i = 4..<4 + 4 * n. of_bool (bit x i) :: nat)"
    by (rule sum.reindex_bij_witness [of _ "\<lambda>i. i - 4" "\<lambda>i. i + 4"])
      (auto simp: bit_iff_odd div_mult2_eq [symmetric] power_add mult.commute)
  with Suc pop show ?case
    by (simp add: sum.atLeastLessThan_concat del: sum_of_bool_eq)
qed

theorem bit_count_popcount: "unat (bit_count x) = popcount x"
proof -
  have "unat x < 2 ^ 32" using unsigned_less [of x] by simp
  then have "unat (bit_count x) = (\<Sum>i = 0..<4 * 8. of_bool (bit (unat x) i))"
    by (simp only: bit_count_as_nat bit_count_nat_digits digits_pop_bits)
  also have "\<dots> = popcount x"
    unfolding popcount_def by (rule sum.cong) (auto simp: bit_unsigned_iff)
  finally show ?thesis .
qed

lemma s_bytes_reversed_table:
  "s_bytes_reversed = map (\<lambda>i. pack_msb (unpack_lsb (of_nat i))) [0..<256]"
  by code_simp

lemma bswap32_bswap32 [simp]: "bswap32 (bswap32 x) = x"
proof (rule bit_word_eqI)
  fix n :: nat
  assume "n < LENGTH(32)"
  then have n: "n < 32" by simp
  show "bit (bswap32 (bswap32 x)) n = bit x n"
    by (rule all_upto_32 [OF n]) (auto simp: bswap32_def bit_simps dest: bit_imp_le_length)
qed

lemma reverse_uint64_involution: "reverse_uint64_bytes (reverse_uint64_bytes x) = x"
proof (rule bit_word_eqI)
  fix n :: nat
  assume "n < LENGTH(64)"
  then have n: "n < 64" by simp
  show "bit (reverse_uint64_bytes (reverse_uint64_bytes x)) n = bit x n"
    by (rule all_upto_64 [OF n]) (simp add: reverse_uint64_bytes_def Let_def bit_simps)
qed

lemma s_bytes_reversed_nth: "k < 256 \<Longrightarrow> bit (s_bytes_reversed ! k) n \<longleftrightarrow> n < 8 \<and> bit k (7 - n)"
proof -
  assume k: "k < 256"
  have "bit (pack_msb (unpack_lsb (of_nat k))) n \<longleftrightarrow> bit k (7 - n)" if "n < 8"
    by (rule all_upto_8 [OF that])
      (simp add: pack_msb_def unpack_lsb_def unpack_msb_def bit_simps bit_of_nat_u8
        mult.commute [where b = "2::u8"] flip: numeral_2_eq_2)
  with k show ?thesis
    by (cases "n < 8") (auto simp: s_bytes_reversed_table dest: bit_imp_le_length)
qed

theorem reverse_byte_bits: "n < 8 \<Longrightarrow> bit (reverse_byte b) n = bit b (7 - n)"
proof -
  have "unat b < 256" using unsigned_less [of b] by simp
  then show "n < 8 \<Longrightarrow> bit (reverse_byte b) n = bit b (7 - n)"
    by (simp add: reverse_byte_def s_bytes_reversed_nth bit_unsigned_iff)
qed

theorem reverse_byte_involution: "reverse_byte (reverse_byte b) = b"
  by (rule bit_word_eqI) (simp add: reverse_byte_bits)

theorem reverse_uint32_bits: "n < 32 \<Longrightarrow> bit (reverse_uint32_bytes x) n = bit x (31 - n)"
proof -
  have lt: "unat (y AND 255) < 256" for y :: u32
    using word_and_le1 [of y 255] by (simp add: word_le_nat_alt)
  assume n: "n < 32"
  show ?thesis
    unfolding reverse_uint32_bytes_def
    by (rule all_upto_32 [OF n])
      (simp add: s_bytes_reversed_nth [OF lt] bit_simps bit_unsigned_iff)
qed

lemma ntohll_htonll: "ntohll e (htonll e x) = x"
proof (cases e)
  case True
  then show ?thesis by (simp add: ntohll_def htonll_def htonl_def)
next
  case False
  have "bit (ntohll False (htonll False x)) n = bit x n" if n: "n < 64" for n
    by (rule all_upto_64 [OF n]) (auto simp: ntohll_def htonll_def htonl_def bswap32_def bit_simps dest: bit_imp_le_length)
  then show ?thesis using False by (intro bit_word_eqI) simp
qed

section \<open>The number of set bits\<close>

lemma popcount_zero [simp]: "popcount (0 :: 'a::len word) = 0"
  by (simp add: popcount_def)

lemma popcount_eq_0: "popcount a = 0 \<Longrightarrow> a = 0" for a :: "'a::len word"
  by (rule bit_word_eqI) (auto simp: popcount_def)

lemma odd_popcount_xor:
  "odd (popcount (a XOR b)) \<longleftrightarrow> odd (popcount a) \<noteq> odd (popcount b)" for a b :: "'a::len word"
proof -
  have "odd (\<Sum>i \<in> A. of_bool (bit (a XOR b) i) :: nat) \<longleftrightarrow>
      odd (\<Sum>i \<in> A. of_bool (bit a i) :: nat) \<noteq> odd (\<Sum>i \<in> A. of_bool (bit b i) :: nat)"
    if "finite A" for A :: "nat set"
    using that by (induction A) (auto simp: bit_xor_iff simp del: sum_of_bool_eq)
  from this [of "{0..<LENGTH('a)}"] show ?thesis by (simp add: popcount_def del: sum_of_bool_eq)
qed

end
