(* ===== verification/Shift_Reg.thy ===== *)
theory Shift_Reg
  imports Utils
begin

text \<open>
  \<open>lib/shift_reg.cc\<close>: the bit shift register on which the frame decoders compare the incoming
  bits with a preamble or a sync word. The register is a deque of a fixed length; pushing at the
  back drops the front. The stream insertion operator is output only and not modelled.
\<close>

section \<open>State and operations\<close>

record shift_reg =
  d_len :: nat
  d_reg :: "bool list"

definition sr_make :: "nat \<Rightarrow> shift_reg" where
  "sr_make len = \<lparr>d_len = len, d_reg = replicate len False\<rparr>"

fun sr_fill :: "bool \<Rightarrow> nat \<Rightarrow> bool list \<Rightarrow> bool list res" where
  "sr_fill v 0 r = Inr r"
| "sr_fill v (Suc n) r = res_bind (sr_fill v n r) (\<lambda>r'. buf_set r' n v)"

definition sr_reset :: "shift_reg \<Rightarrow> shift_reg res" where
  "sr_reset s = res_bind (sr_fill False (d_len s) (d_reg s)) (\<lambda>r. Inr (s\<lparr>d_reg := r\<rparr>))"

definition sr_set :: "shift_reg \<Rightarrow> shift_reg res" where
  "sr_set s = res_bind (sr_fill True (d_len s) (d_reg s)) (\<lambda>r. Inr (s\<lparr>d_reg := r\<rparr>))"

definition sr_size :: "shift_reg \<Rightarrow> nat" where
  "sr_size s = d_len s"

definition sr_count :: "shift_reg \<Rightarrow> nat" where
  "sr_count s = fold (\<lambda>b cnt. cnt + of_bool b) (d_reg s) 0"

text \<open>
  The three bitwise operators run over the positions of the left operand and index the right one;
  a right operand that is too short is read out of range.
\<close>

definition sr_zip :: "(bool \<Rightarrow> bool \<Rightarrow> bool) \<Rightarrow> shift_reg \<Rightarrow> shift_reg \<Rightarrow> shift_reg res" where
  "sr_zip f s rhs =
     (if d_len s \<le> length (d_reg s) \<and> d_len s \<le> length (d_reg rhs)
      then Inr \<lparr>d_len = d_len s, d_reg = map (\<lambda>i. f (d_reg s ! i) (d_reg rhs ! i)) [0..<d_len s]\<rparr>
      else Inl Oob_read)"

definition sr_or :: "shift_reg \<Rightarrow> shift_reg \<Rightarrow> shift_reg res" where
  "sr_or = sr_zip (\<or>)"

definition sr_and :: "shift_reg \<Rightarrow> shift_reg \<Rightarrow> shift_reg res" where
  "sr_and = sr_zip (\<and>)"

definition sr_xor :: "shift_reg \<Rightarrow> shift_reg \<Rightarrow> shift_reg res" where
  "sr_xor = sr_zip (\<noteq>)"

definition sr_push_front :: "bool \<Rightarrow> shift_reg \<Rightarrow> shift_reg res" where
  "sr_push_front b s =
     (if d_reg s = [] then Inl Bad_erase else Inr (s\<lparr>d_reg := b # butlast (d_reg s)\<rparr>))"

definition sr_push_back :: "bool \<Rightarrow> shift_reg \<Rightarrow> shift_reg res" where
  "sr_push_back b s =
     (if d_reg s = [] then Inl Bad_erase else Inr (s\<lparr>d_reg := tl (d_reg s) @ [b]\<rparr>))"

definition sr_shr :: "shift_reg \<Rightarrow> bool \<Rightarrow> shift_reg res" where
  "sr_shr s b = sr_push_front b s"

definition sr_shl :: "shift_reg \<Rightarrow> bool \<Rightarrow> shift_reg res" where
  "sr_shl s b = sr_push_back b s"

definition sr_get :: "shift_reg \<Rightarrow> nat \<Rightarrow> bool res" where
  "sr_get s pos = buf_get (d_reg s) pos"

definition sr_put :: "shift_reg \<Rightarrow> nat \<Rightarrow> bool \<Rightarrow> shift_reg res" where
  "sr_put s pos v = res_bind (buf_set (d_reg s) pos v) (\<lambda>r. Inr (s\<lparr>d_reg := r\<rparr>))"

definition sr_front :: "shift_reg \<Rightarrow> bool res" where
  "sr_front s = (if d_reg s = [] then Inl Oob_read else Inr (hd (d_reg s)))"

definition sr_back :: "shift_reg \<Rightarrow> bool res" where
  "sr_back s = (if d_reg s = [] then Inl Oob_read else Inr (last (d_reg s)))"

section \<open>Well-formedness\<close>

definition sr_wf :: "shift_reg \<Rightarrow> bool" where
  "sr_wf s \<longleftrightarrow> length (d_reg s) = d_len s"

lemma sr_wf_make [frame_inv]: "sr_wf (sr_make n)"
  by (simp add: sr_wf_def sr_make_def)

lemma sr_fill_eq: "n \<le> length r \<Longrightarrow> sr_fill v n r = Inr (replicate n v @ drop n r)"
proof (induction n)
  case 0
  then show ?case by simp
next
  case (Suc n)
  then have "(replicate n v @ drop n r)[n := v] = replicate (Suc n) v @ drop (Suc n) r"
    by (simp add: list_update_append Cons_nth_drop_Suc [symmetric] replicate_append_same [symmetric])
  with Suc show ?case by (simp add: buf_simps)
qed

lemma sr_reset_eq: "sr_wf s \<Longrightarrow> sr_reset s = Inr (sr_make (d_len s))"
  by (simp add: sr_wf_def sr_reset_def sr_fill_eq sr_make_def)

lemma sr_set_eq: "sr_wf s \<Longrightarrow> sr_set s = Inr \<lparr>d_len = d_len s, d_reg = replicate (d_len s) True\<rparr>"
  by (simp add: sr_wf_def sr_set_def sr_fill_eq)

lemma sr_push_back_eq:
  "sr_wf s \<Longrightarrow> 0 < d_len s \<Longrightarrow> sr_push_back b s = Inr (s\<lparr>d_reg := tl (d_reg s) @ [b]\<rparr>)"
  by (auto simp: sr_wf_def sr_push_back_def)

lemma sr_wf_push_back [frame_inv]:
  "sr_wf s \<Longrightarrow> sr_push_back b s = Inr s' \<Longrightarrow> sr_wf s' \<and> d_len s' = d_len s"
  by (cases "d_reg s") (auto simp: sr_wf_def sr_push_back_def)

lemma sr_wf_push_front [frame_inv]:
  "sr_wf s \<Longrightarrow> sr_push_front b s = Inr s' \<Longrightarrow> sr_wf s' \<and> d_len s' = d_len s"
  by (cases "d_reg s") (auto simp: sr_wf_def sr_push_front_def)

lemma sr_wf_zip [frame_inv]: "sr_zip f s t = Inr u \<Longrightarrow> sr_wf u \<and> d_len u = d_len s"
  by (auto simp: sr_wf_def sr_zip_def split: if_splits)

section \<open>Counting and distance\<close>

lemma fold_count: "fold (\<lambda>b cnt. cnt + of_bool b) xs c = c + length (filter id xs)"
  by (induction xs arbitrary: c) auto

lemma sr_count_eq: "sr_count s = length (filter id (d_reg s))"
  by (simp add: sr_count_def fold_count)

lemma sr_count_le: "sr_wf s \<Longrightarrow> sr_count s \<le> d_len s"
  by (simp add: sr_count_eq sr_wf_def) (metis length_filter_le)

definition hamming :: "bool list \<Rightarrow> bool list \<Rightarrow> nat" where
  "hamming xs ys = length (filter (\<lambda>(a, b). a \<noteq> b) (zip xs ys))"

lemma hamming_refl [simp]: "hamming xs xs = 0"
  by (auto simp: hamming_def zip_same_conv_map filter_map o_def)

lemma hamming_zero: "length xs = length ys \<Longrightarrow> hamming xs ys = 0 \<longleftrightarrow> xs = ys"
  by (induction xs ys rule: list_induct2) (auto simp: hamming_def)

lemma hamming_map2:
  "length xs = length ys \<Longrightarrow> length (filter id (map2 (\<noteq>) xs ys)) = hamming xs ys"
  by (induction xs ys rule: list_induct2) (auto simp: hamming_def)

lemma map_upt_map2:
  "length xs = n \<Longrightarrow> length ys = n \<Longrightarrow> map (\<lambda>i. f (xs ! i) (ys ! i)) [0..<n] = map2 f xs ys"
  by (auto intro: nth_equalityI)

text \<open>The comparison of the searches: exclusive or, then population count, is the distance.\<close>

lemma sr_xor_eq:
  assumes "sr_wf s" and "sr_wf t" and "d_len s = d_len t"
  shows "\<exists>u. sr_xor s t = Inr u \<and> sr_count u = hamming (d_reg s) (d_reg t)"
proof -
  have "map (\<lambda>i. d_reg s ! i \<noteq> d_reg t ! i) [0..<d_len s] = map2 (\<noteq>) (d_reg s) (d_reg t)"
    using assms by (intro map_upt_map2) (auto simp: sr_wf_def)
  then show ?thesis
    using assms hamming_map2 [of "d_reg s" "d_reg t"]
    by (simp add: sr_xor_def sr_zip_def sr_wf_def sr_count_eq del: length_filter_map)
qed

section \<open>Pushing a stream\<close>

fun sr_push_all :: "bool list \<Rightarrow> shift_reg \<Rightarrow> shift_reg res" where
  "sr_push_all [] s = Inr s"
| "sr_push_all (b # bs) s = res_bind (sr_shl s b) (sr_push_all bs)"

lemma sr_push_all_eq:
  assumes "sr_wf s" and "0 < d_len s"
  shows "sr_push_all bs s = Inr (s\<lparr>d_reg := drop (length bs) (d_reg s @ bs)\<rparr>)"
  using assms
proof (induction bs arbitrary: s)
  case Nil
  then show ?case by simp
next
  case (Cons b bs)
  let ?s = "s\<lparr>d_reg := tl (d_reg s) @ [b]\<rparr>"
  from Cons.prems have ne: "d_reg s \<noteq> []" and wf: "sr_wf ?s" "0 < d_len ?s"
    by (auto simp: sr_wf_def)
  from Cons.IH [OF wf] Cons.prems ne show ?case
    by (cases "d_reg s") (simp_all add: sr_shl_def sr_push_back_eq)
qed

text \<open>after a stream at least as long as the register, it holds the last bits of the stream.\<close>

theorem shift_reg_holds_last_bits:
  assumes "sr_wf s" and "0 < d_len s" and "d_len s \<le> length bs"
  shows "sr_push_all bs s = Inr (s\<lparr>d_reg := drop (length bs - d_len s) bs\<rparr>)"
  using assms by (simp add: sr_push_all_eq sr_wf_def)

theorem shift_reg_holds_last_bits_witness:
  "sr_push_all [True, False, True] (sr_make 2) = Inr \<lparr>d_len = 2, d_reg = [False, True]\<rparr>"
  using shift_reg_holds_last_bits [of "sr_make 2" "[True, False, True]"]
  by (simp add: sr_make_def sr_wf_def)

end
