(* ===== verification/Golay.thy ===== *)
theory Golay
  imports Utils
begin

text \<open>
  \<open>lib/golay24.cc\<close>: the extended binary Golay code (24,12,8). \<open>encode12\<close> and \<open>decode24\<close> are the
  routines of the class, loops and early returns included. Both are reduced to the linear map
  \<open>pmul\<close> given by the matrix \<open>G_P\<close>, which is its own inverse; the minimum distance 8 is computed
  from the combinations of at most three rows, and the decoder is shown to be the complete
  bounded distance decoder of radius three.
\<close>

unbundle bit_operations_syntax

section \<open>The code\<close>

definition G_P :: "u32 list" where
  "G_P = [0x8ED, 0x1DB, 0x3B5, 0x769, 0xED1, 0xDA3, 0xB47, 0x68F, 0xD1D, 0xA3B, 0x477, 0xFFE]"

definition G_I :: "u32 list" where
  "G_I = [0x800, 0x400, 0x200, 0x100, 0x080, 0x040, 0x020, 0x010, 0x008, 0x004, 0x002, 0x001]"

definition weight :: "u32 \<Rightarrow> u32" where
  "weight x = bit_count (x AND 0xFFF)"

definition syndrome :: "u16 \<Rightarrow> u16 \<Rightarrow> u32" where
  "syndrome x y =
     fold (\<lambda>i s. push_bit 1 s OR (weight (ucast y AND G_P ! i) mod 2)) [0..<12] 0 XOR ucast x"

definition encode12 :: "u16 \<Rightarrow> bool \<Rightarrow> u32" where
  "encode12 inp lsb_parity =
     (let c0 = ucast inp AND 0xFFF;
          row = (\<lambda>i. fold (\<lambda>j tmp. tmp XOR (drop_bit j (c0 AND G_P ! i) AND 0x01)) [0..<12] 0);
          c1 = fold (\<lambda>i c. push_bit 1 c XOR row i) [0..<12] 0
      in if lsb_parity then push_bit 12 (c0 AND 0xFFF) OR (c1 AND 0xFFF)
         else push_bit 12 (c1 AND 0xFFF) OR (c0 AND 0xFFF))"

text \<open>The two correction loops of \<open>decode24\<close>, each returning at its first hit.\<close>

fun try_rows :: "u32 \<Rightarrow> u32 \<Rightarrow> u32 \<Rightarrow> nat list \<Rightarrow> u32 option" where
  "try_rows s r0 r1 [] = None"
| "try_rows s r0 r1 (i # is) =
     (let tmp = ucast (s XOR G_P ! i) :: u16
      in if weight (ucast tmp) \<le> 2
         then Some (push_bit 12 (r0 XOR ucast tmp) OR (r1 XOR G_I ! i))
         else try_rows s r0 r1 is)"

fun try_cols :: "u32 \<Rightarrow> u32 \<Rightarrow> u32 \<Rightarrow> nat list \<Rightarrow> u32 option" where
  "try_cols sP r0 r1 [] = None"
| "try_cols sP r0 r1 (i # is) =
     (let tmp = ucast (sP XOR G_P ! i) :: u16
      in if weight (ucast tmp) = 2
         then Some (push_bit 12 (r0 XOR G_I ! i) OR (r1 XOR ucast tmp))
         else try_cols sP r0 r1 is)"

definition decode24 :: "u32 \<Rightarrow> u32 option" where
  "decode24 inp =
     (let r0 = drop_bit 12 inp AND 0xFFF;
          r1 = inp AND 0xFFF;
          s = syndrome (ucast r0) (ucast r1)
      in if weight s \<le> 3 then Some (push_bit 12 (r0 XOR s) OR r1)
         else case try_rows s r0 r1 [0..<12] of
           Some x \<Rightarrow> Some x
         | None \<Rightarrow>
             (let sP = fold (\<lambda>i v. push_bit 1 v OR (weight (s AND G_P ! i) mod 2)) [0..<12] 0
              in if weight sP = 2 \<or> weight sP = 3 then Some (push_bit 12 r0 OR (r1 XOR sP))
                 else try_cols sP r0 r1 [0..<12]))"

section \<open>Population counts\<close>

lemma popcount_xor_le: "popcount (a XOR b) \<le> popcount a + popcount b" for a b :: "'a::len word"
  unfolding popcount_def sum.distrib [symmetric]
  by (rule sum_mono) (simp add: bit_xor_iff)


abbreviation low12 :: "u32 \<Rightarrow> bool" where
  "low12 x \<equiv> x AND 0xFFF = x"

lemma mask12: "(0xFFF :: u32) = mask 12"
  by (simp add: mask_eq_exp_minus_1)

lemma low12_bit: "low12 x \<Longrightarrow> 12 \<le> n \<Longrightarrow> \<not> bit x n"
  unfolding mask12 by (metis bit_and_iff bit_mask_iff not_less)

lemma low12I: "(\<And>n. 12 \<le> n \<Longrightarrow> \<not> bit x n) \<Longrightarrow> low12 x"
  unfolding mask12 by (rule bit_word_eqI) (auto simp: bit_simps, meson not_less)

lemma low12_xor: "low12 x \<Longrightarrow> low12 y \<Longrightarrow> low12 (x XOR y)"
  by (rule low12I) (auto simp: bit_xor_iff dest: low12_bit)

lemma low12_and [simp]: "low12 (x AND 0xFFF)"
  by (simp add: and.assoc)

lemma low12_ucast: "low12 x \<Longrightarrow> ucast (ucast x :: u16) = x"
proof (rule bit_word_eqI)
  fix n
  assume "low12 x"
  then show "bit (ucast (ucast x :: u16) :: u32) n = bit x n"
    using low12_bit [of x n] by (cases "n < 12") (auto simp: bit_simps)
qed

lemma weight_popcount: "unat (weight x) = popcount (x AND 0xFFF)"
  by (simp add: weight_def bit_count_popcount)

lemma weight_low: "low12 x \<Longrightarrow> unat (weight x) = popcount x"
  by (simp add: weight_popcount)

text \<open>The 24-bit word made of two halves.\<close>

definition word24 :: "u32 \<Rightarrow> u32 \<Rightarrow> u32" where
  "word24 a b = push_bit 12 a OR b"

lemma bit_word24:
  "low12 a \<Longrightarrow> low12 b \<Longrightarrow> bit (word24 a b) n \<longleftrightarrow> (if n < 12 then bit b n else bit a (n - 12))"
  using low12_bit [of a "n - 12"] low12_bit [of b n]
  by (cases "n < 24") (auto simp: word24_def bit_or_iff bit_push_bit_iff not_less)

lemma popcount_word24:
  assumes "low12 a" and "low12 b"
  shows "popcount (word24 a b) = popcount a + popcount b"
proof -
  have b: "popcount b = (\<Sum>i = 0..<12. of_bool (bit b i))"
    unfolding popcount_def using low12_bit [OF assms(2)]
    by (intro sum.mono_neutral_right) auto
  have a: "popcount a = (\<Sum>i = 0..<20. of_bool (bit a i))"
    unfolding popcount_def using low12_bit [OF assms(1)]
    by (intro sum.mono_neutral_right) auto
  have "popcount (word24 a b) = (\<Sum>i = 0..<12 + 20. of_bool (bit (word24 a b) i))"
    by (simp add: popcount_def)
  also have "\<dots> = (\<Sum>i = 0..<12. of_bool (bit (word24 a b) i)) +
      (\<Sum>i = 12..<12 + 20. of_bool (bit (word24 a b) i))"
    by (rule sum.atLeastLessThan_concat [symmetric]) simp_all
  also have "(\<Sum>i = 0..<12. of_bool (bit (word24 a b) i)) = popcount b"
    unfolding b using assms by (intro sum.cong) (auto simp: bit_word24)
  also have "(\<Sum>i = 12..<12 + 20. of_bool (bit (word24 a b) i)) = popcount a"
    unfolding a using assms
    by (intro sum.reindex_bij_witness [of _ "\<lambda>i. i + 12" "\<lambda>i. i - 12"]) (auto simp: bit_word24)
  finally show ?thesis by simp
qed

lemma word24_xor:
  assumes "low12 a" "low12 b" "low12 c" "low12 d"
  shows "word24 a b XOR word24 c d = word24 (a XOR c) (b XOR d)"
  using assms by (intro bit_word_eqI) (auto simp: bit_word24 bit_xor_iff low12_xor)

lemma word24_inj:
  assumes "low12 a" "low12 b" "low12 c" "low12 d" "word24 a b = word24 c d"
  shows "a = c \<and> b = d"
proof -
  from assms(5) have "word24 (a XOR c) (b XOR d) = 0"
    using word24_xor [OF assms(1-4)] by simp
  then have "popcount (a XOR c) + popcount (b XOR d) = 0"
    using assms by (simp flip: popcount_word24 add: low12_xor)
  then have "a XOR c = 0" "b XOR d = 0" by (auto intro: popcount_eq_0)
  then show ?thesis by (metis xor.assoc xor_self_eq xor.left_neutral xor.right_neutral)
qed

section \<open>The parity map\<close>

text \<open>
  \<open>pmul y\<close> is the product of the row vector \<open>y\<close> with the matrix \<open>P\<close>; the encoder, the syndrome
  and the vector \<open>sP\<close> of the decoder all compute it.
\<close>

definition pmul :: "u32 \<Rightarrow> u32" where
  "pmul y = fold (\<lambda>i v. push_bit 1 v OR (weight (y AND G_P ! i) mod 2)) [0..<12] 0"

lemma bit_parity_fold:
  assumes "\<And>i. p i = of_bool (f i)"
  shows "k \<le> 32 \<Longrightarrow> bit (fold (\<lambda>i v. push_bit 1 v OR p i) [0..<k] (0 :: u32)) n \<longleftrightarrow> n < k \<and> f (k - 1 - n)"
proof (induction k arbitrary: n)
  case 0
  then show ?case by simp
next
  case (Suc k)
  let ?v = "fold (\<lambda>i v. push_bit 1 v OR p i) [0..<k] 0"
  have f: "fold (\<lambda>i v. push_bit 1 v OR p i) [0..<Suc k] 0 = push_bit 1 ?v OR p k" by simp
  have IH: "bit ?v m \<longleftrightarrow> m < k \<and> f (k - 1 - m)" for m using Suc by simp
  show ?case
    unfolding f
    unfolding bit_or_iff bit_push_bit_iff IH
    unfolding assms using Suc.prems
    by (cases n) (auto simp: of_bool_def bit_1_iff)
qed

lemma parity_bit: "x mod 2 = of_bool (odd (unat x))" for x :: u32
proof -
  have "odd x \<longleftrightarrow> odd (unat x)" by (simp flip: bit_0 add: bit_unsigned_iff)
  then show ?thesis by (simp add: mod_2_eq_odd)
qed

lemma pmul_bit:
  "bit (pmul y) n \<longleftrightarrow> n < 12 \<and> odd (popcount (y AND G_P ! (11 - n) AND 0xFFF))"
proof -
  have "weight x mod 2 = of_bool (odd (popcount (x AND 0xFFF)))" for x
    by (simp add: parity_bit weight_popcount)
  then show ?thesis
    unfolding pmul_def by (subst bit_parity_fold) (auto simp: and.assoc)
qed

lemma pmul_low [simp]: "low12 (pmul y)"
  by (rule low12I) (simp add: pmul_bit)

lemma pmul_xor: "pmul (x XOR y) = pmul x XOR pmul y"
proof (rule bit_word_eqI)
  fix n
  have "(x XOR y) AND g = (x AND g) XOR (y AND g)" for g :: u32
    by (rule bit_word_eqI) (auto simp: bit_simps)
  then show "bit (pmul (x XOR y)) n = bit (pmul x XOR pmul y) n"
    by (auto simp: pmul_bit bit_xor_iff odd_popcount_xor and.assoc)
qed

lemma syndrome_eq: "low12 x \<Longrightarrow> low12 y \<Longrightarrow> syndrome (ucast x) (ucast y) = pmul y XOR x"
  by (simp add: syndrome_def pmul_def low12_ucast)

lemma encode12_row:
  "fold (\<lambda>j tmp. tmp XOR (drop_bit j c AND 0x01)) [0..<k] 0 =
   of_bool (odd (\<Sum>j = 0..<k. of_bool (bit c j) :: nat))" for c :: u32
proof (induction k)
  case 0
  then show ?case by simp
next
  case (Suc k)
  have "drop_bit k c AND 1 = of_bool (bit c k)"
    by (simp add: and_one_eq mod_2_eq_odd bit_iff_odd_drop_bit)
  with Suc show ?case by (auto simp del: sum_of_bool_eq)
qed

lemma popcount_low:
  "(\<Sum>j = 0..<12. of_bool (bit c j)) = popcount (c AND 0xFFF)" for c :: u32
  unfolding popcount_def mask12
  by (rule sum.mono_neutral_cong_left) (auto simp: bit_simps)

lemma encode12_eq:
  "encode12 m lsb =
   (let c = ucast m AND 0xFFF in if lsb then word24 c (pmul c) else word24 (pmul c) c)"
proof -
  let ?c = "ucast m AND 0xFFF :: u32"
  have row: "fold (\<lambda>j tmp. tmp XOR (drop_bit j (?c AND G_P ! i) AND 0x01)) [0..<12] 0 =
      weight (?c AND G_P ! i) mod 2" for i
    by (simp only: encode12_row popcount_low parity_bit weight_popcount)
  have x: "push_bit 1 v XOR (weight x mod 2) = push_bit 1 v OR (weight x mod 2)" for v x :: u32
    by (rule bit_word_eqI) (auto simp: parity_bit bit_xor_iff bit_or_iff bit_shl1 bit_1_iff)
  have "fold (\<lambda>i c. push_bit 1 c XOR
      fold (\<lambda>j tmp. tmp XOR (drop_bit j (?c AND G_P ! i) AND 0x01)) [0..<12] 0) [0..<12] 0 = pmul ?c"
    by (simp only: row x pmul_def)
  then show ?thesis
    unfolding encode12_def Let_def word24_def by (simp only: low12_and pmul_low)
qed



text \<open>A linear map is determined by, and its values on words of given weight range over, the
  images of the powers of two.\<close>

fun combs :: "nat \<Rightarrow> u32 list \<Rightarrow> u32 list" where
  "combs 0 rs = [0]"
| "combs (Suc k) [] = []"
| "combs (Suc k) (r # rs) = map (\<lambda>v. r XOR v) (combs k rs) @ combs (Suc k) rs"

lemma popcount_clear:
  fixes x :: "'a::len word"
  assumes "bit x p"
  shows "popcount x = Suc (popcount (2 ^ p XOR x))"
proof -
  have p: "p \<in> {0..<LENGTH('a)}" using assms bit_imp_le_length by auto
  have "popcount x = of_bool (bit x p) + (\<Sum>i \<in> {0..<LENGTH('a)} - {p}. of_bool (bit x i))"
    unfolding popcount_def using p by (intro sum.remove) auto
  also have "(\<Sum>i \<in> {0..<LENGTH('a)} - {p}. of_bool (bit x i)) = popcount (2 ^ p XOR x)"
    unfolding popcount_def using assms
    by (intro sum.mono_neutral_cong_left) (auto simp: bit_simps)
  finally show ?thesis using assms by simp
qed

lemma linear_combs:
  fixes L :: "u32 \<Rightarrow> u32"
  assumes lin: "\<And>x y. L (x XOR y) = L x XOR L y"
  shows "(\<And>i. bit x i \<Longrightarrow> i \<in> set ps) \<Longrightarrow> distinct ps \<Longrightarrow>
    L x \<in> set (combs (popcount x) (map (\<lambda>p. L (2 ^ p)) ps))"
proof (induction ps arbitrary: x)
  case Nil
  then have "x = 0" by (intro bit_word_eqI) auto
  moreover have "L 0 = 0" using lin [of 0 0] by simp
  ultimately show ?case by simp
next
  case (Cons p ps)
  show ?case
  proof (cases "bit x p")
    case True
    have "i \<in> set ps" if "bit (2 ^ p XOR x) i" for i
      using that Cons.prems(1) [of i] True by (auto simp: bit_simps dest: bit_imp_le_length)
    then have "L (2 ^ p XOR x) \<in> set (combs (popcount (2 ^ p XOR x)) (map (\<lambda>p. L (2 ^ p)) ps))"
      using Cons.prems(2) by (intro Cons.IH) auto
    moreover have "L x = L (2 ^ p) XOR L (2 ^ p XOR x)"
      by (simp flip: lin add: xor.assoc [symmetric])
    ultimately show ?thesis using popcount_clear [OF True] by auto
  next
    case False
    then have "i \<in> set ps" if "bit x i" for i
      using that Cons.prems(1) [of i] by auto
    then have "L x \<in> set (combs (popcount x) (map (\<lambda>p. L (2 ^ p)) ps))"
      using Cons.prems(2) by (intro Cons.IH) auto
    then show ?thesis by (cases "popcount x") auto
  qed
qed

lemma rev_upt_12: "rev [0..<12] = [11, 10, 9, 8, 7, 6, 5, 4, 3, 2, 1, 0 :: nat]"
  by (simp add: upt_rec)

lemma pmul_rows: "map (\<lambda>p. pmul (2 ^ p)) (rev [0..<12]) = G_P"
  by (simp add: rev_upt_12 pmul_def upt_rec weight_def bit_count_def Let_def G_P_def)

lemma pmul_cols: "map pmul G_P = map (\<lambda>p. 2 ^ p) (rev [0..<12])"
  by (simp add: rev_upt_12 pmul_def upt_rec weight_def bit_count_def Let_def G_P_def)

lemma popcount_code: "popcount x = unat (bit_count x)"
  by (simp add: bit_count_popcount)

lemma rows_weight_1: "list_all (\<lambda>v. 7 \<le> popcount v) (combs (Suc 0) G_P)"
  by (simp add: G_P_def popcount_code bit_count_def Let_def)

lemma rows_weight_2: "list_all (\<lambda>v. 6 \<le> popcount v) (combs (Suc (Suc 0)) G_P)"
  by (simp add: G_P_def popcount_code bit_count_def Let_def)

lemma rows_weight_3: "list_all (\<lambda>v. 5 \<le> popcount v) (combs (Suc (Suc (Suc 0))) G_P)"
  by (simp add: G_P_def popcount_code bit_count_def Let_def)

lemma pmul_weight:
  assumes "low12 x" and "x \<noteq> 0" and "popcount x \<le> 3"
  shows "8 \<le> popcount x + popcount (pmul x)"
proof -
  have "pmul x \<in> set (combs (popcount x) (map (\<lambda>p. pmul (2 ^ p)) (rev [0..<12])))"
    using low12_bit [OF assms(1)] by (intro linear_combs [OF pmul_xor]) (auto simp: not_le [symmetric])
  then have m: "pmul x \<in> set (combs (popcount x) G_P)" by (simp only: pmul_rows)
  have "popcount x \<noteq> 0" using assms(2) popcount_eq_0 by blast
  with assms(3) have "popcount x = Suc 0 \<or> popcount x = Suc (Suc 0) \<or> popcount x = Suc (Suc (Suc 0))"
    by linarith
  then show ?thesis
  proof (elim disjE)
    assume p: "popcount x = Suc 0"
    with m rows_weight_1 have "7 \<le> popcount (pmul x)" by (simp only: list_all_iff)
    with p show ?thesis by simp
  next
    assume p: "popcount x = Suc (Suc 0)"
    with m rows_weight_2 have "6 \<le> popcount (pmul x)" by (simp only: list_all_iff)
    with p show ?thesis by simp
  next
    assume p: "popcount x = Suc (Suc (Suc 0))"
    with m rows_weight_3 have "5 \<le> popcount (pmul x)" by (simp only: list_all_iff)
    with p show ?thesis by simp
  qed
qed

lemma pmul_0 [simp]: "pmul 0 = 0"
  using pmul_xor [of 0 0] by simp

lemma xor_self_cancel [simp]: "x XOR (x XOR y) = y" for x y :: "'a::len word"
  by (simp flip: xor.assoc)

lemma xor_flip: "x XOR y = z \<longleftrightarrow> x = z XOR y" for x y z :: "'a::len word"
  by (auto simp: xor.assoc)

text \<open>A linear map that fixes the powers of two is the identity on their span.\<close>

lemma linear_ext:
  fixes L :: "u32 \<Rightarrow> u32"
  assumes lin: "\<And>x y. L (x XOR y) = L x XOR L y"
  shows "(\<And>i. bit x i \<Longrightarrow> i \<in> set ps) \<Longrightarrow> distinct ps \<Longrightarrow> \<forall>p \<in> set ps. L (2 ^ p) = 2 ^ p \<Longrightarrow> L x = x"
proof (induction ps arbitrary: x)
  case Nil
  then have "x = 0" by (intro bit_word_eqI) auto
  then show ?case using lin [of 0 0] by simp
next
  case (Cons p ps)
  show ?case
  proof (cases "bit x p")
    case True
    have "i \<in> set ps" if "bit (2 ^ p XOR x) i" for i
      using that Cons.prems(1) [of i] True by (auto simp: bit_simps dest: bit_imp_le_length)
    then have "L (2 ^ p XOR x) = 2 ^ p XOR x"
      using Cons.prems(2,3) by (intro Cons.IH) auto
    then have "2 ^ p XOR L x = 2 ^ p XOR x" using Cons.prems(3) by (simp add: lin)
    then have "2 ^ p XOR (2 ^ p XOR L x) = 2 ^ p XOR (2 ^ p XOR x)" by (rule arg_cong)
    then show ?thesis by (simp only: xor_self_cancel)
  next
    case False
    then have "i \<in> set ps" if "bit x i" for i
      using that Cons.prems(1) [of i] by auto
    then show ?thesis using Cons.prems(2,3) by (intro Cons.IH) auto
  qed
qed

lemma pmul_pmul:
  assumes "low12 x"
  shows "pmul (pmul x) = x"
proof (rule linear_ext [of "\<lambda>x. pmul (pmul x)" x "rev [0..<12]"])
  have "map pmul (map (\<lambda>p. pmul (2 ^ p)) (rev [0..<12])) = map (\<lambda>p. 2 ^ p) (rev [0..<12])"
    unfolding pmul_rows by (rule pmul_cols)
  then have "map (\<lambda>p. pmul (pmul (2 ^ p))) (rev [0..<12]) = map (\<lambda>p. 2 ^ p) (rev [0..<12])"
    unfolding map_map o_def .
  then show "\<forall>p \<in> set (rev [0..<12]). pmul (pmul (2 ^ p)) = 2 ^ p"
    unfolding map_eq_conv .
qed (use low12_bit [OF assms] in \<open>auto simp: pmul_xor not_le [symmetric]\<close>)

section \<open>Codewords\<close>

definition golay_code :: "u32 \<Rightarrow> bool" where
  "golay_code w \<longleftrightarrow> (\<exists>a b. low12 a \<and> low12 b \<and> w = word24 a b \<and> a = pmul b)"

lemma golay_code_word24:
  assumes "low12 a" and "low12 b"
  shows "golay_code (word24 a b) \<longleftrightarrow> a = pmul b"
proof
  assume "golay_code (word24 a b)"
  then obtain c d where "low12 c" "low12 d" "word24 a b = word24 c d" "c = pmul d"
    unfolding golay_code_def by blast
  then show "a = pmul b" using word24_inj [OF assms] by blast
next
  assume "a = pmul b"
  then show "golay_code (word24 a b)" unfolding golay_code_def using assms by blast
qed

lemma golay_codeI: "low12 b \<Longrightarrow> golay_code (word24 (pmul b) b)"
  by (simp only: golay_code_word24 pmul_low)

lemma golay_code_xor:
  assumes "golay_code v" and "golay_code w"
  shows "golay_code (v XOR w)"
proof -
  from assms obtain b c where b: "low12 b" "v = word24 (pmul b) b" and c: "low12 c" "w = word24 (pmul c) c"
    unfolding golay_code_def by blast
  have "v XOR w = word24 (pmul (b XOR c)) (b XOR c)"
    unfolding b(2) c(2) pmul_xor by (rule word24_xor) (rule pmul_low b(1) c(1))+
  then show ?thesis by (simp only: golay_codeI low12_xor b(1) c(1))
qed

lemma golay_min_weight:
  assumes "golay_code w" and "w \<noteq> 0"
  shows "8 \<le> popcount w"
proof -
  from assms(1) obtain b where b: "low12 b" and w: "w = word24 (pmul b) b"
    unfolding golay_code_def by blast
  have pc: "popcount w = popcount (pmul b) + popcount b"
    using b by (simp add: w popcount_word24)
  have "b \<noteq> 0" using assms(2) w by (auto simp: word24_def)
  then have "pmul b \<noteq> 0" using pmul_pmul [OF b] by auto
  show ?thesis
  proof (cases "popcount b \<le> 3")
    case True
    with \<open>b \<noteq> 0\<close> b show ?thesis using pmul_weight [of b] pc by simp
  next
    case False
    show ?thesis
    proof (cases "popcount (pmul b) \<le> 3")
      case True
      with \<open>pmul b \<noteq> 0\<close> show ?thesis
        using pmul_weight [of "pmul b"] pmul_pmul [OF b] pc by simp
    next
      case 2: False
      with False pc show ?thesis by simp
    qed
  qed
qed

text \<open>Two codewords at distance at most three and four from one word are equal.\<close>

lemma golay_unique:
  assumes "golay_code v" "golay_code w" "popcount (r XOR v) + popcount (r XOR w) \<le> 7"
  shows "v = w"
proof (rule ccontr)
  assume "v \<noteq> w"
  then have "v XOR w \<noteq> 0" by (simp add: xor_eq_0)
  then have "8 \<le> popcount (v XOR w)" by (rule golay_min_weight [OF golay_code_xor [OF assms(1,2)]])
  also have "v XOR w = (r XOR v) XOR (r XOR w)"
    by (simp only: xor.commute [of r v] xor.assoc xor_self_cancel)
  finally show False using assms(3) popcount_xor_le [of "r XOR v" "r XOR w"] by simp
qed

text \<open>A word of weight one is an entry of \<open>G_I\<close>; its image is the same entry of \<open>G_P\<close>.\<close>

lemma G_I_eq: "G_I = map (\<lambda>p. 2 ^ p) (rev [0..<12])"
  by (simp add: G_I_def rev_upt_12)

lemma G_I_low: "i < 12 \<Longrightarrow> low12 (G_I ! i)"
  by (rule low12I) (auto simp: G_I_eq rev_nth bit_simps)

lemma pmul_G_I: "i < 12 \<Longrightarrow> pmul (G_I ! i) = G_P ! i"
  by (simp flip: pmul_rows add: G_I_eq rev_nth)

lemma G_P_low: "i < 12 \<Longrightarrow> low12 (G_P ! i)"
  by (simp flip: pmul_G_I)

lemma pmul_G_P: "i < 12 \<Longrightarrow> pmul (G_P ! i) = G_I ! i"
  by (simp flip: pmul_G_I add: pmul_pmul G_I_low)

lemma popcount_G_I: "i < 12 \<Longrightarrow> popcount (G_I ! i) = 1"
  using popcount_clear [of "2 ^ (11 - i) :: u32" "11 - i"]
  by (simp add: G_I_eq rev_nth bit_simps)

lemma weight_one:
  assumes "low12 x" and "popcount x = 1"
  obtains i where "i < 12" and "x = G_I ! i"
proof -
  obtain p where p: "bit x p" using assms(2) by (metis bit_eqI bit_0_eq bot_apply popcount_zero zero_neq_one bot_bool_def)
  then have "p < 12" using low12_bit [OF assms(1)] not_le by blast
  have "popcount (2 ^ p XOR x) = 0" using popcount_clear [OF p] assms(2) by simp
  then have "2 ^ p XOR x = 0" by (rule popcount_eq_0)
  then have "x = 2 ^ p" by (simp add: xor_eq_0)
  with \<open>p < 12\<close> show thesis by (intro that [of "11 - p"]) (simp_all add: G_I_eq rev_nth)
qed

section \<open>The decoder\<close>

lemma weight_le: "low12 x \<Longrightarrow> weight x \<le> of_nat n \<longleftrightarrow> popcount x \<le> n" if "n < 12"
  using that by (simp add: word_le_nat_alt weight_low unat_of_nat)

lemma weight_eq: "low12 x \<Longrightarrow> weight x = of_nat n \<longleftrightarrow> popcount x = n" if "n < 12"
  using that by (simp add: word_unat_eq_iff weight_low unat_of_nat)

lemma try_rows_Some:
  assumes "try_rows s r0 r1 js = Some w" and "set js \<subseteq> {0..<12}" and s: "low12 s"
  obtains i where "i < 12" and "popcount (s XOR G_P ! i) \<le> 2"
    and "w = word24 (r0 XOR (s XOR G_P ! i)) (r1 XOR G_I ! i)"
proof -
  have "\<exists>i < 12. popcount (s XOR G_P ! i) \<le> 2 \<and> w = word24 (r0 XOR (s XOR G_P ! i)) (r1 XOR G_I ! i)"
    using assms(1,2)
  proof (induction "js")
    case Nil
    then show ?case by simp
  next
    case (Cons i js)
    have low: "low12 (s XOR G_P ! i)" using Cons.prems(2) G_P_low s by (auto intro!: low12_xor)
    show ?case
    proof (cases "popcount (s XOR G_P ! i) \<le> 2")
      case True
      then have "weight (s XOR G_P ! i) \<le> 2" using weight_le [of 2, OF _ low] by simp
      then have "w = word24 (r0 XOR (s XOR G_P ! i)) (r1 XOR G_I ! i)"
        using Cons.prems(1) by (simp add: low12_ucast [OF low] word24_def)
      then show ?thesis using Cons.prems(2) True by auto
    next
      case False
      then have "\<not> weight (s XOR G_P ! i) \<le> 2" using weight_le [of 2, OF _ low] by simp
      then show ?thesis using Cons by (simp add: low12_ucast [OF low])
    qed
  qed
  then show thesis using that by blast
qed

lemma try_rows_hit:
  assumes "i \<in> set js" and "low12 s" and "i < 12" and "popcount (s XOR G_P ! i) \<le> 2"
  shows "try_rows s r0 r1 js \<noteq> None"
proof -
  have low: "low12 (s XOR G_P ! i)" using assms G_P_low by (auto intro!: low12_xor)
  have "weight (s XOR G_P ! i) \<le> 2" using weight_le [of 2, OF _ low] assms(4) by simp
  then show ?thesis
    using assms(1) by (induction "js") (auto simp: Let_def low12_ucast [OF low])
qed

lemma try_cols_Some:
  assumes "try_cols s r0 r1 js = Some w" and "set js \<subseteq> {0..<12}" and s: "low12 s"
  obtains i where "i < 12" and "popcount (s XOR G_P ! i) = 2"
    and "w = word24 (r0 XOR G_I ! i) (r1 XOR (s XOR G_P ! i))"
proof -
  have "\<exists>i < 12. popcount (s XOR G_P ! i) = 2 \<and> w = word24 (r0 XOR G_I ! i) (r1 XOR (s XOR G_P ! i))"
    using assms(1,2)
  proof (induction "js")
    case Nil
    then show ?case by simp
  next
    case (Cons i js)
    have low: "low12 (s XOR G_P ! i)" using Cons.prems(2) G_P_low s by (auto intro!: low12_xor)
    show ?case
    proof (cases "popcount (s XOR G_P ! i) = 2")
      case True
      then have "weight (s XOR G_P ! i) = 2" using weight_eq [of 2, OF _ low] by simp
      then have "w = word24 (r0 XOR G_I ! i) (r1 XOR (s XOR G_P ! i))"
        using Cons.prems(1) by (simp add: low12_ucast [OF low] word24_def)
      then show ?thesis using Cons.prems(2) True by auto
    next
      case False
      then have "\<not> weight (s XOR G_P ! i) = 2" using weight_eq [of 2, OF _ low] by simp
      then show ?thesis using Cons by (simp add: low12_ucast [OF low])
    qed
  qed
  then show thesis using that by blast
qed

lemma try_cols_hit:
  assumes "i \<in> set js" and "low12 s" and "i < 12" and "popcount (s XOR G_P ! i) = 2"
  shows "try_cols s r0 r1 js \<noteq> None"
proof -
  have low: "low12 (s XOR G_P ! i)" using assms G_P_low by (auto intro!: low12_xor)
  have "weight (s XOR G_P ! i) = 2" using weight_eq [of 2, OF _ low] assms(4) by simp
  then show ?thesis
    using assms(1) by (induction "js") (auto simp: Let_def low12_ucast [OF low])
qed

text \<open>The decoder over the two halves of its input.\<close>

definition decode_halves :: "u32 \<Rightarrow> u32 \<Rightarrow> u32 option" where
  "decode_halves r0 r1 =
     (let s = pmul r1 XOR r0; sP = pmul s
      in if popcount s \<le> 3 then Some (word24 (r0 XOR s) r1)
         else case try_rows s r0 r1 [0..<12] of
           Some x \<Rightarrow> Some x
         | None \<Rightarrow> if popcount sP = 2 \<or> popcount sP = 3 then Some (word24 r0 (r1 XOR sP))
                   else try_cols sP r0 r1 [0..<12])"

lemma decode24_halves: "decode24 inp = decode_halves (drop_bit 12 inp AND 0xFFF) (inp AND 0xFFF)"
proof -
  let ?r0 = "drop_bit 12 inp AND 0xFFF" and ?r1 = "inp AND 0xFFF"
  have s: "syndrome (ucast ?r0) (ucast ?r1) = pmul ?r1 XOR ?r0" by (rule syndrome_eq) (rule low12_and)+
  have low: "low12 (pmul ?r1 XOR ?r0)" by (rule low12_xor) (rule pmul_low low12_and)+
  show ?thesis
    unfolding decode24_def decode_halves_def Let_def s pmul_def [symmetric] word24_def
    using weight_le [of 3, OF _ low] weight_eq [of 2, OF _ pmul_low] weight_eq [of 3, OF _ pmul_low]
    by (simp del: low12_and)
qed

lemma word24_zero [simp]: "popcount (word24 0 b) = popcount b" "popcount (word24 a 0) = popcount a"
  if "low12 a" "low12 b" for a b
  using that by (simp_all add: popcount_word24)

lemma decode_halves_sound:
  assumes r: "low12 r0" "low12 r1" and d: "decode_halves r0 r1 = Some w"
  shows "golay_code w \<and> popcount (word24 r0 r1 XOR w) \<le> 3"
proof -
  define s where "s = pmul r1 XOR r0"
  have s: "low12 s" unfolding s_def by (rule low12_xor) (rule pmul_low r)+
  have ps: "pmul s = r1 XOR pmul r0" by (simp only: s_def pmul_xor pmul_pmul [OF r(2)])
  have goal: "golay_code (word24 (r0 XOR x) (r1 XOR y)) \<and>
      popcount (word24 r0 r1 XOR word24 (r0 XOR x) (r1 XOR y)) \<le> 3"
    if "low12 x" "low12 y" "r0 XOR x = pmul (r1 XOR y)" "popcount x + popcount y \<le> 3" for x y
  proof
    show "golay_code (word24 (r0 XOR x) (r1 XOR y))"
      unfolding that(3) by (rule golay_codeI) (rule low12_xor, rule r, rule that)
    have "word24 r0 r1 XOR word24 (r0 XOR x) (r1 XOR y) = word24 x y"
      by (subst word24_xor) (simp_all only: r that(1,2) low12_xor xor_self_cancel)
    then show "popcount (word24 r0 r1 XOR word24 (r0 XOR x) (r1 XOR y)) \<le> 3"
      using that by (simp only: popcount_word24)
  qed
  show ?thesis
  proof (cases "popcount s \<le> 3")
    case True
    then have "w = word24 (r0 XOR s) (r1 XOR 0)"
      using d unfolding decode_halves_def Let_def s_def [symmetric] by (simp del: low12_and)
    moreover have "r0 XOR s = pmul (r1 XOR 0)" by (simp only: s_def xor.commute [of "pmul r1" r0] xor_self_cancel xor.right_neutral)
    ultimately show ?thesis using goal [of s 0] s True by simp
  next
    case 1: False
    note d' = d [unfolded decode_halves_def Let_def s_def [symmetric], simplified 1 if_False]
    show ?thesis
    proof (cases "try_rows s r0 r1 [0..<12]")
      case (Some x)
      then obtain i where i: "i < 12" "popcount (s XOR G_P ! i) \<le> 2"
        and x: "x = word24 (r0 XOR (s XOR G_P ! i)) (r1 XOR G_I ! i)"
        using try_rows_Some [OF Some _ s] by auto
      have "w = x" using d' Some by simp
      moreover have "r0 XOR (s XOR G_P ! i) = pmul (r1 XOR G_I ! i)"
        by (simp only: s_def pmul_xor pmul_G_I [OF i(1)] xor.assoc xor.left_commute [of r0] xor_self_cancel)
      ultimately show ?thesis
        unfolding x using goal [of "s XOR G_P ! i" "G_I ! i"] i s popcount_G_I [OF i(1)]
        by (simp only: G_I_low low12_xor G_P_low)
    next
      case None
      show ?thesis
      proof (cases "popcount (pmul s) = 2 \<or> popcount (pmul s) = 3")
        case True
        then have "w = word24 (r0 XOR 0) (r1 XOR pmul s)" using d' None by auto
        moreover have "r0 XOR 0 = pmul (r1 XOR pmul s)"
          by (simp only: ps xor_self_cancel pmul_pmul [OF r(1)] xor.right_neutral)
        ultimately show ?thesis using goal [of 0 "pmul s"] True by auto
      next
        case False
        then have t: "try_cols (pmul s) r0 r1 [0..<12] = Some w" using d' None by simp
        then obtain i where i: "i < 12" "popcount (pmul s XOR G_P ! i) = 2"
          and w: "w = word24 (r0 XOR G_I ! i) (r1 XOR (pmul s XOR G_P ! i))"
          using try_cols_Some [OF t _ pmul_low] by auto
        have "r0 XOR G_I ! i = pmul (r1 XOR (pmul s XOR G_P ! i))"
          by (simp only: ps pmul_xor pmul_G_P [OF i(1)] pmul_pmul [OF r(1)] pmul_pmul [OF r(2)]
            xor.assoc xor_self_cancel)
        then show ?thesis
          unfolding w using goal [of "G_I ! i" "pmul s XOR G_P ! i"] i popcount_G_I [OF i(1)]
          by (simp only: G_I_low low12_xor G_P_low pmul_low)
      qed
    qed
  qed
qed

lemma decode_halves_complete:
  assumes r: "low12 r0" "low12 r1" and b: "low12 b"
    and e: "popcount (r0 XOR pmul b) + popcount (r1 XOR b) \<le> 3"
  shows "decode_halves r0 r1 \<noteq> None"
proof -
  define e0 e1 where "e0 = r0 XOR pmul b" and "e1 = r1 XOR b"
  have low: "low12 e0" "low12 e1"
    unfolding e0_def e1_def by (rule low12_xor, rule r, rule b pmul_low)+
  have s: "pmul r1 XOR r0 = pmul e1 XOR e0"
    by (simp only: e0_def e1_def pmul_xor xor.assoc xor.left_commute [of "pmul b"] xor.commute [of _ "pmul b"] xor_self_cancel)
  have ps: "pmul (pmul e1 XOR e0) = e1 XOR pmul e0"
    by (simp only: pmul_xor pmul_pmul [OF low(2)])
  have slow: "low12 (pmul e1 XOR e0)" by (rule low12_xor) (rule pmul_low low)+
  note D = decode_halves_def [of r0 r1, unfolded Let_def s]
  from e have "popcount e1 = 0 \<or> popcount e1 = 1 \<and> popcount e0 \<le> 2 \<or>
      popcount e0 = 0 \<and> (popcount e1 = 2 \<or> popcount e1 = 3) \<or> popcount e0 = 1 \<and> popcount e1 = 2"
    unfolding e0_def e1_def by linarith
  then consider "e1 = 0" | "popcount e1 = 1" "popcount e0 \<le> 2"
    | "e0 = 0" "popcount e1 = 2 \<or> popcount e1 = 3" | "popcount e0 = 1" "popcount e1 = 2"
    using popcount_eq_0 [of e0] popcount_eq_0 [of e1] by blast
  then show ?thesis
  proof cases
    case 1
    then have "popcount (pmul e1 XOR e0) \<le> 3" using e by (simp add: e0_def e1_def)
    then show ?thesis unfolding D by simp
  next
    case 2
    obtain i where i: "i < 12" "e1 = G_I ! i" using weight_one [OF low(2) 2(1)] .
    have "(pmul e1 XOR e0) XOR G_P ! i = e0"
      unfolding i(2) pmul_G_I [OF i(1)] by (simp add: xor.commute [of _ "G_P ! i"])
    then have "try_rows (pmul e1 XOR e0) r0 r1 [0..<12] \<noteq> None"
      using try_rows_hit [OF _ slow i(1), of "[0..<12]"] i(1) 2(2) by simp
    then show ?thesis unfolding D by (auto split: option.splits)
  next
    case 3
    then have "popcount (e1 XOR pmul e0) = 2 \<or> popcount (e1 XOR pmul e0) = 3" by simp
    then show ?thesis unfolding D ps by (auto split: option.splits)
  next
    case 4
    obtain i where i: "i < 12" "e0 = G_I ! i" using weight_one [OF low(1) 4(1)] .
    have "(e1 XOR pmul e0) XOR G_P ! i = e1"
      unfolding i(2) pmul_G_I [OF i(1)] by (simp add: xor.assoc)
    then have "try_cols (e1 XOR pmul e0) r0 r1 [0..<12] \<noteq> None"
      using try_cols_hit [OF _ _ i(1), of "[0..<12]" "e1 XOR pmul e0"] i(1) 4(2)
        low12_xor [OF low(2) pmul_low] by simp
    then show ?thesis unfolding D ps by (auto split: option.splits)
  qed
qed

lemma word24_halves: "word24 (drop_bit 12 inp AND 0xFFF) (inp AND 0xFFF) = inp AND 0xFFFFFF"
proof (rule bit_word_eqI)
  fix n
  have m: "(0xFFFFFF :: u32) = mask 24" by (simp add: mask_eq_exp_minus_1)
  show "bit (word24 (drop_bit 12 inp AND 0xFFF) (inp AND 0xFFF)) n = bit (inp AND 0xFFFFFF) n"
    unfolding m by (simp add: bit_word24) (auto simp: mask12 bit_simps)
qed

lemma word24_24:
  assumes "low12 a" and "low12 b"
  shows "word24 a b AND 0xFFFFFF = word24 a b"
proof (rule bit_word_eqI)
  fix n
  have m: "(0xFFFFFF :: u32) = mask 24" by (simp add: mask_eq_exp_minus_1)
  have "bit (word24 a b) n \<Longrightarrow> n < 24"
    using low12_bit [OF assms(1), of "n - 12"]
    by (cases "n < 24") (auto simp: bit_word24 [OF assms] split: if_splits)
  then show "bit (word24 a b AND 0xFFFFFF) n = bit (word24 a b) n"
    unfolding m by (auto simp: bit_and_iff bit_mask_iff)
qed

lemma golay_min_distance:
  assumes "golay_code v" and "golay_code w" and "v \<noteq> w"
  shows "8 \<le> popcount (v XOR w)"
  using assms by (intro golay_min_weight golay_code_xor) (simp_all add: xor_eq_0)

lemma golay_code_encode12: "golay_code (encode12 m lsb)"
  unfolding encode12_eq Let_def
  using golay_codeI [of "pmul (ucast m AND 0xFFF)"] golay_codeI [of "ucast m AND 0xFFF"]
  by (simp add: pmul_pmul)

lemma golay_decode_iff:
  "decode24 inp = Some w \<longleftrightarrow> golay_code w \<and> popcount ((inp AND 0xFFFFFF) XOR w) \<le> 3"
proof -
  define r0 r1 where "r0 = drop_bit 12 inp AND 0xFFF" and "r1 = inp AND 0xFFF"
  have r: "low12 r0" "low12 r1" unfolding r0_def r1_def by (rule low12_and)+
  have in24: "inp AND 0xFFFFFF = word24 r0 r1" unfolding r0_def r1_def word24_halves ..
  have d: "decode24 inp = decode_halves r0 r1" unfolding r0_def r1_def by (rule decode24_halves)
  show ?thesis
    unfolding d in24
  proof
    show "decode_halves r0 r1 = Some w \<Longrightarrow> golay_code w \<and> popcount (word24 r0 r1 XOR w) \<le> 3"
      by (rule decode_halves_sound [OF r])
    assume w: "golay_code w \<and> popcount (word24 r0 r1 XOR w) \<le> 3"
    then obtain b where b: "low12 b" "w = word24 (pmul b) b" unfolding golay_code_def by blast
    have "word24 r0 r1 XOR w = word24 (r0 XOR pmul b) (r1 XOR b)"
      unfolding b(2) by (rule word24_xor) (rule r b pmul_low)+
    with w have "popcount (r0 XOR pmul b) + popcount (r1 XOR b) \<le> 3"
      by (simp only: popcount_word24 low12_xor r b(1) pmul_low)
    then obtain v where v: "decode_halves r0 r1 = Some v"
      using decode_halves_complete [OF r b(1)] by auto
    moreover have "v = w"
      using decode_halves_sound [OF r v] w by (intro golay_unique [of v w "word24 r0 r1"]) simp_all
    ultimately show "decode_halves r0 r1 = Some w" by simp
  qed
qed

text \<open>C4: \<open>decode24\<close> is the complete bounded distance decoder of the extended Golay code: it returns
  a word exactly when that word is the codeword at Hamming distance at most three from the 24
  received bits, and fails otherwise.\<close>

theorem golay_decode24_bounded_distance:
  "decode24 inp = Some w \<longleftrightarrow> golay_code w \<and> popcount ((inp AND 0xFFFFFF) XOR w) \<le> 3"
  by (rule golay_decode_iff)

lemma golay_corrects:
  assumes "e AND 0xFFFFFF = e" and "popcount e \<le> 3"
  shows "decode24 (encode12 m lsb XOR e) = Some (encode12 m lsb)"
proof -
  have c24: "encode12 m lsb AND 0xFFFFFF = encode12 m lsb"
    unfolding encode12_eq Let_def
    using word24_24 [OF low12_and pmul_low] word24_24 [OF pmul_low low12_and] by (cases lsb) simp_all
  have "(encode12 m lsb XOR e) AND 0xFFFFFF = (encode12 m lsb AND 0xFFFFFF) XOR (e AND 0xFFFFFF)"
    by (rule bit_word_eqI) (auto simp: bit_simps)
  then have "((encode12 m lsb XOR e) AND 0xFFFFFF) XOR encode12 m lsb = e"
    unfolding c24 assms(1) by (simp add: xor.commute [of _ "encode12 m lsb"])
  then show ?thesis using golay_code_encode12 assms(2) by (simp only: golay_decode_iff simp_thms)
qed

text \<open>C9: Every pattern of at most three bit errors in an encoded word is corrected, in either
  layout of the message and parity halves, and every pattern of exactly four is detected.\<close>

theorem golay_corrects_three_detects_four:
  assumes "e AND 0xFFFFFF = e"
  shows "(popcount e \<le> 3 \<longrightarrow> decode24 (encode12 m lsb XOR e) = Some (encode12 m lsb)) \<and>
    (popcount e = 4 \<longrightarrow> decode24 (encode12 m lsb XOR e) = None)"
proof -
  define c where "c = encode12 m lsb"
  have c: "golay_code c" unfolding c_def by (rule golay_code_encode12)
  have c24: "c AND 0xFFFFFF = c"
    unfolding c_def encode12_eq Let_def
    using word24_24 [OF low12_and pmul_low] word24_24 [OF pmul_low low12_and] by (cases lsb) simp_all
  have "(c XOR e) AND 0xFFFFFF = (c AND 0xFFFFFF) XOR (e AND 0xFFFFFF)"
    by (rule bit_word_eqI) (auto simp: bit_simps)
  then have ce: "(c XOR e) AND 0xFFFFFF = c XOR e" using c24 assms by simp
  have D: "decode24 (c XOR e) = Some w \<longleftrightarrow> golay_code w \<and> popcount ((c XOR e) XOR w) \<le> 3" for w
    by (simp only: golay_decode_iff ce)
  show ?thesis
    unfolding c_def [symmetric]
  proof (intro conjI impI)
    assume "popcount e \<le> 3"
    then show "decode24 (c XOR e) = Some c" using D [of c] c by (simp add: xor.commute [of _ c])
  next
    assume e: "popcount e = 4"
    show "decode24 (c XOR e) = None"
    proof (rule ccontr)
      assume "decode24 (c XOR e) \<noteq> None"
      then obtain w where w: "golay_code w" "popcount ((c XOR e) XOR w) \<le> 3" using D by auto
      have "popcount ((c XOR e) XOR c) = 4" using e by (simp add: xor.commute [of _ c])
      then have "w = c" using w by (intro golay_unique [OF w(1) c, of "c XOR e"]) simp_all
      with w e show False by (simp add: xor.commute [of _ c])
    qed
  qed
qed

theorem golay_corrects_three_detects_four_witness:
  "decode24 (encode12 0x5A3 True XOR 0x801001) = Some (encode12 0x5A3 True)"
  using golay_corrects_three_detects_four [of "0x801001" "0x5A3" True]
  by (simp add: popcount_code bit_count_def Let_def)

end
