(* ===== verification/Deinterleaver.thy ===== *)
theory Deinterleaver
  imports Prelude
begin

text \<open>
  \<open>lib/convolutional_deinterleaver.cc\<close>: the bank of delay lines of the convolutional
  deinterleaver, one queue per branch, visited in turn. The result of a sequence of calls is
  given in closed form.
\<close>

unbundle bit_operations_syntax

section \<open>The class\<close>

record deinterleaver =
  d_nbranches :: nat
  d_M :: nat
  d_idx :: nat
  d_branches :: "u8 list list"

definition deint_new :: "nat \<Rightarrow> nat \<Rightarrow> deinterleaver" where
  "deint_new branches M =
     \<lparr>d_nbranches = branches, d_M = M, d_idx = 0,
      d_branches = map (\<lambda>i. replicate ((branches - 1 - i) * M) 0) [0..<branches]\<rparr>"

text \<open>\<open>d_branches[d_idx]\<close> needs at least one branch; the queue is never empty when it is read.\<close>

definition decode_bit :: "deinterleaver \<Rightarrow> u8 \<Rightarrow> (u8 \<times> deinterleaver) res" where
  "decode_bit d b =
     (if d_idx d < length (d_branches d)
      then let q = d_branches d ! d_idx d @ [b]
           in Inr (hd q, d\<lparr>d_branches := (d_branches d)[d_idx d := tl q],
                           d_idx := (d_idx d + 1) mod d_nbranches d\<rparr>)
      else Inl Oob_read)"

fun decode_bits :: "deinterleaver \<Rightarrow> u8 list \<Rightarrow> (u8 list \<times> deinterleaver) res" where
  "decode_bits d [] = Inr ([], d)"
| "decode_bits d (b # bs) =
     res_bind (decode_bit d b) (\<lambda>(r, d1).
     res_bind (decode_bits d1 bs) (\<lambda>(rs, d2). Inr (r # rs, d2)))"

text \<open>The eight calls of \<open>decode_byte\<close>, most significant bit first.\<close>

definition decode_byte :: "deinterleaver \<Rightarrow> u8 \<Rightarrow> (u8 \<times> deinterleaver) res" where
  "decode_byte d b =
     res_bind (decode_bits d (unpack_msb b)) (\<lambda>(rs, d1). Inr (pack_msb rs, d1))"

definition deint_reset :: "deinterleaver \<Rightarrow> deinterleaver" where
  "deint_reset d =
     d\<lparr>d_branches := map (\<lambda>i. replicate ((d_nbranches d - 1 - i) * d_M d) 0) [0..<d_nbranches d],
       d_idx := 0\<rparr>"

section \<open>Delays\<close>

text \<open>
  \<open>visits B i n\<close> is how often branch \<open>i\<close> has been visited in the first \<open>n\<close> calls, \<open>delayed\<close>
  what call number \<open>n\<close> returns.
\<close>

definition visits :: "nat \<Rightarrow> nat \<Rightarrow> nat \<Rightarrow> nat" where
  "visits B i n = (n + (B - 1 - i)) div B"

definition delay :: "nat \<Rightarrow> nat \<Rightarrow> nat \<Rightarrow> nat" where
  "delay B M n = (B - 1 - n mod B) * M * B"

definition delayed :: "nat \<Rightarrow> nat \<Rightarrow> u8 list \<Rightarrow> nat \<Rightarrow> u8" where
  "delayed B M xs n = (if n < delay B M n then 0 else xs ! (n - delay B M n))"

lemma visits_0: "i < B \<Longrightarrow> visits B i 0 = 0"
  by (simp add: visits_def)

lemma visits_self: "0 < B \<Longrightarrow> visits B (n mod B) n = n div B"
proof -
  assume B: "0 < B"
  then have m: "n mod B < B" by simp
  have "n + (B - 1 - n mod B) = (B - 1) + B * (n div B)"
    using m mult_div_mod_eq [of B n] by linarith
  moreover have "((B - 1) + B * (n div B)) div B = n div B + (B - 1) div B"
    using B by (intro div_mult_self2) simp
  ultimately show ?thesis using B by (simp only: visits_def) simp
qed

lemma visits_Suc:
  assumes "i < B"
  shows "visits B i (Suc n) = visits B i n + (if n mod B = i then 1 else 0)"
proof -
  have "B dvd Suc (n + (B - 1 - i)) \<longleftrightarrow> n mod B = i"
  proof -
    have "Suc (n + (B - 1 - i)) = n + (B - i)" using assms by simp
    moreover have "B dvd n + (B - i) \<longleftrightarrow> B dvd n mod B + (B - i)"
      by (simp add: dvd_eq_mod_eq_0 mod_simps)
    moreover have "B dvd n mod B + (B - i) \<longleftrightarrow> n mod B = i"
    proof
      have m: "n mod B < B" using assms by simp
      assume "B dvd n mod B + (B - i)"
      then obtain k where k: "n mod B + (B - i) = B * k" ..
      have "0 < B * k" "B * k < B * 2" using k m assms by linarith+
      then have "k = 1" by auto
      then show "n mod B = i" using k assms by simp
    qed (use assms in simp)
    ultimately show ?thesis by (simp only:)
  qed
  then show ?thesis by (simp add: visits_def div_Suc dvd_eq_mod_eq_0)
qed

text \<open>The state after the inputs \<open>xs\<close>.\<close>

definition lines_after :: "nat \<Rightarrow> nat \<Rightarrow> u8 list \<Rightarrow> nat \<Rightarrow> u8 list" where
  "lines_after B M xs i =
     map (\<lambda>j. if j + visits B i (length xs) < (B - 1 - i) * M then 0
              else xs ! ((j + visits B i (length xs) - (B - 1 - i) * M) * B + i))
       [0..<(B - 1 - i) * M]"

definition deint_after :: "nat \<Rightarrow> nat \<Rightarrow> u8 list \<Rightarrow> deinterleaver" where
  "deint_after B M xs =
     \<lparr>d_nbranches = B, d_M = M, d_idx = length xs mod B,
      d_branches = map (lines_after B M xs) [0..<B]\<rparr>"

lemma deint_after_Nil: "deint_new B M = deint_after B M []"
proof -
  have "map (\<lambda>i. replicate ((B - 1 - i) * M) 0) [0..<B] = map (lines_after B M []) [0..<B]"
    by (rule map_cong [OF refl]) (simp add: lines_after_def visits_0 map_replicate_trivial cong: map_cong, rule nth_equalityI, simp_all)
  then show ?thesis by (simp add: deint_new_def deint_after_def)
qed

lemma deint_reset_after: "deint_reset (deint_after B M xs) = deint_after B M []"
  using deint_after_Nil [of B M] by (simp add: deint_reset_def deint_after_def deint_new_def)

lemma lines_after_other:
  assumes "i < B" and "length xs mod B \<noteq> i"
  shows "lines_after B M (xs @ [b]) i = lines_after B M xs i"
proof -
  have v: "visits B i (Suc (length xs)) = visits B i (length xs)"
    using assms visits_Suc by simp
  have "(j + visits B i (length xs) - (B - 1 - i) * M) * B + i < length xs"
    if "j < (B - 1 - i) * M" "\<not> j + visits B i (length xs) < (B - 1 - i) * M" for j
  proof -
    let ?v = "visits B i (length xs)"
    have "j + ?v - (B - 1 - i) * M < ?v" using that by linarith
    then have "Suc (j + ?v - (B - 1 - i) * M) * B \<le> ?v * B" by (intro mult_le_mono1) simp
    also have "\<dots> \<le> length xs + (B - 1 - i)" by (simp add: visits_def)
    finally show ?thesis using assms(1) by simp
  qed
  then show ?thesis
    unfolding lines_after_def length_append_singleton v by (intro map_cong) (auto simp: nth_append)
qed

lemma lines_after_self:
  assumes "0 < B" and i: "i = length xs mod B"
  shows "lines_after B M xs i @ [b] =
    (if length xs < delay B M (length xs) then 0 else (xs @ [b]) ! (length xs - delay B M (length xs)))
      # lines_after B M (xs @ [b]) i"
proof (rule nth_equalityI)
  let ?L = "(B - 1 - i) * M" and ?n = "length xs"
  have iB: "i < B" using assms by simp
  have v: "visits B i ?n = ?n div B" using visits_self [OF assms(1)] i by simp
  have v1: "visits B i (Suc ?n) = Suc (?n div B)" using visits_Suc [OF iB] v i by simp
  have n: "?n = ?n div B * B + i" using i by simp
  have d: "delay B M ?n = ?L * B" by (simp add: delay_def i)
  have lt: "?n < ?L * B \<longleftrightarrow> ?n div B < ?L" using assms(1) by (simp add: div_less_iff_less_mult)
  have sub: "?n - ?L * B = (?n div B - ?L) * B + i" if "\<not> ?n div B < ?L"
  proof -
    have "?L * B \<le> ?n div B * B" using that by (intro mult_le_mono1) simp
    then show ?thesis using n by (simp add: diff_mult_distrib)
  qed
  show "length (lines_after B M xs i @ [b]) = length ((if ?n < delay B M ?n then 0
      else (xs @ [b]) ! (?n - delay B M ?n)) # lines_after B M (xs @ [b]) i)"
    by (simp add: lines_after_def)
  fix j
  assume "j < length (lines_after B M xs i @ [b])"
  then have j: "j < Suc ?L" by (simp add: lines_after_def)
  have old: "(xs @ [b]) ! ((j + ?n div B - ?L) * B + i) = (if j < ?L then xs ! ((j + ?n div B - ?L) * B + i) else b)"
    if "\<not> j + ?n div B < ?L"
  proof (cases "j < ?L")
    case True
    then have "Suc (j + ?n div B - ?L) \<le> ?n div B" using that by linarith
    then have "Suc (j + ?n div B - ?L) * B \<le> ?n div B * B" by (rule mult_le_mono1)
    then have "(j + ?n div B - ?L) * B + i < ?n" using n iB by simp
    then show ?thesis using True by (simp add: nth_append)
  next
    case False
    then have "j = ?L" using j by simp
    then show ?thesis using n by (simp add: nth_append)
  qed
  show "(lines_after B M xs i @ [b]) ! j = ((if ?n < delay B M ?n then 0
      else (xs @ [b]) ! (?n - delay B M ?n)) # lines_after B M (xs @ [b]) i) ! j"
  proof (cases j)
    case 0
    then show ?thesis using old v sub
      unfolding d lt by (cases "?L = 0") (auto simp: lines_after_def nth_append)
  next
    case (Suc k)
    then show ?thesis using old v v1 j
      by (auto simp: lines_after_def nth_append)
  qed
qed

lemma decode_bit_after:
  assumes "0 < B"
  shows "decode_bit (deint_after B M xs) b =
    Inr (delayed B M (xs @ [b]) (length xs), deint_after B M (xs @ [b]))"
proof -
  let ?i = "length xs mod B"
  have i: "?i < B" using assms by simp
  have q: "lines_after B M xs ?i @ [b] = delayed B M (xs @ [b]) (length xs) # lines_after B M (xs @ [b]) ?i"
    using lines_after_self [OF assms refl] by (simp add: delayed_def)
  have "(map (lines_after B M xs) [0..<B])[?i := lines_after B M (xs @ [b]) ?i] =
      map (lines_after B M (xs @ [b])) [0..<B]"
    by (rule nth_equalityI) (auto simp: nth_list_update lines_after_other)
  then show ?thesis
    using i by (simp add: decode_bit_def deint_after_def q mod_Suc_eq)
qed

lemma decode_bits_after:
  assumes "0 < B"
  shows "decode_bits (deint_after B M xs) ys =
    Inr (map (delayed B M (xs @ ys)) [length xs..<length xs + length ys], deint_after B M (xs @ ys))"
proof (induction ys arbitrary: xs)
  case Nil
  then show ?case by simp
next
  case (Cons y ys)
  have "delayed B M (xs @ [y]) (length xs) = delayed B M ((xs @ [y]) @ ys) (length xs)"
    using assms by (auto simp: delayed_def nth_append delay_def)
  moreover have "[length xs..<length xs + length (y # ys)] =
      length xs # [length (xs @ [y])..<length (xs @ [y]) + length ys]"
    by (subst upt_conv_Cons) simp_all
  ultimately show ?case
    using Cons [of "xs @ [y]"]
    by (simp add: decode_bit_after [OF assms] del: upt_Suc)
qed

text \<open>C15: Call number \<open>n\<close> of \<open>decode_bit\<close> on a fresh or reset deinterleaver returns what
  was passed \<open>(B - 1 - n mod B) * M * B\<close> calls earlier, or 0 when there was no such call; no call
  fails.\<close>

theorem deinterleaver_delays:
  assumes "0 < B"
  shows "\<exists>d. decode_bits (deint_new B M) ys = Inr (map (delayed B M ys) [0..<length ys], d) \<and>
    (\<forall>zs. decode_bits (deint_reset d) zs = Inr (map (delayed B M zs) [0..<length zs], deint_after B M zs))"
  using decode_bits_after [OF assms, of M "[]"]
  by (simp add: deint_after_Nil deint_reset_after)

theorem deinterleaver_delays_witness:
  "\<exists>d. decode_bits (deint_new 2 1) [1, 1, 0, 1] = Inr ([0, 1, 1, 1], d)"
  using deinterleaver_delays [of 2 1 "[1, 1, 0, 1]"]
  by (simp add: delayed_def delay_def upt_rec) blast

text \<open>\<open>decode_byte\<close> packs the eight bits that \<open>decode_bit\<close> returns for the bits of its
  argument, so a byte stream is deinterleaved as the stream of its bits.\<close>

theorem decode_byte_delays:
  assumes "0 < B" and "\<forall>x \<in> set xs. is_bit x"
  shows "\<exists>r. decode_byte (deint_after B M xs) b = Inr (r, deint_after B M (xs @ unpack_msb b)) \<and>
    unpack_msb r = map (delayed B M (xs @ unpack_msb b)) [length xs..<length xs + 8]"
proof -
  let ?rs = "map (delayed B M (xs @ unpack_msb b)) [length xs..<length xs + 8]"
  have "is_bit x" if "x \<in> set ?rs" for x
  proof -
    obtain n where n: "n < length (xs @ unpack_msb b)" "x = delayed B M (xs @ unpack_msb b) n"
      using \<open>x \<in> set ?rs\<close> by auto
    then have "x = 0 \<or> x \<in> set (xs @ unpack_msb b)"
      by (auto simp: delayed_def simp del: set_append intro!: nth_mem)
    then show ?thesis using assms(2) by (auto dest: unpack_msb_bits)
  qed
  then have "unpack_msb (pack_msb ?rs) = ?rs" by (intro unpack_pack_msb) auto
  then show ?thesis
    by (simp add: decode_byte_def decode_bits_after [OF assms(1)] del: upt_Suc)
qed

theorem decode_byte_delays_witness:
  "\<exists>r. decode_byte (deint_after 2 1 [1]) 0x81 = Inr (r, deint_after 2 1 ([1] @ unpack_msb 0x81)) \<and>
    unpack_msb r = map (delayed 2 1 ([1] @ unpack_msb 0x81)) [length [1 :: u8]..<length [1 :: u8] + 8]"
  by (rule decode_byte_delays) simp_all

end
