(* ===== verification/Crc.thy ===== *)
theory Crc
  imports Utils
begin

text \<open>
  \<open>lib/crc.cc\<close>: the checksums, table driven except for CRC-16/IBM, the checksum sizes, and
  \<open>crc::append\<close>, which stores a checksum in network or in host byte order. Every table is
  shown equal to the bitwise polynomial division it stands for, so each routine equals a
  bit-serial reference.
\<close>

section \<open>The tables\<close>

definition crc16_ccitt_table_reverse :: "u16 list" where
  "crc16_ccitt_table_reverse = [
    0, 0x1189, 0x2312, 0x329B, 0x4624, 0x57AD, 0x6536, 0x74BF, 0x8C48, 0x9DC1, 0xAF5A, 0xBED3,
    0xCA6C, 0xDBE5, 0xE97E, 0xF8F7, 0x1081, 0x108, 0x3393, 0x221A, 0x56A5, 0x472C, 0x75B7, 0x643E,
    0x9CC9, 0x8D40, 0xBFDB, 0xAE52, 0xDAED, 0xCB64, 0xF9FF, 0xE876, 0x2102, 0x308B, 0x210, 0x1399,
    0x6726, 0x76AF, 0x4434, 0x55BD, 0xAD4A, 0xBCC3, 0x8E58, 0x9FD1, 0xEB6E, 0xFAE7, 0xC87C, 0xD9F5,
    0x3183, 0x200A, 0x1291, 0x318, 0x77A7, 0x662E, 0x54B5, 0x453C, 0xBDCB, 0xAC42, 0x9ED9, 0x8F50,
    0xFBEF, 0xEA66, 0xD8FD, 0xC974, 0x4204, 0x538D, 0x6116, 0x709F, 0x420, 0x15A9, 0x2732, 0x36BB,
    0xCE4C, 0xDFC5, 0xED5E, 0xFCD7, 0x8868, 0x99E1, 0xAB7A, 0xBAF3, 0x5285, 0x430C, 0x7197, 0x601E,
    0x14A1, 0x528, 0x37B3, 0x263A, 0xDECD, 0xCF44, 0xFDDF, 0xEC56, 0x98E9, 0x8960, 0xBBFB, 0xAA72,
    0x6306, 0x728F, 0x4014, 0x519D, 0x2522, 0x34AB, 0x630, 0x17B9, 0xEF4E, 0xFEC7, 0xCC5C, 0xDDD5,
    0xA96A, 0xB8E3, 0x8A78, 0x9BF1, 0x7387, 0x620E, 0x5095, 0x411C, 0x35A3, 0x242A, 0x16B1, 0x738,
    0xFFCF, 0xEE46, 0xDCDD, 0xCD54, 0xB9EB, 0xA862, 0x9AF9, 0x8B70, 0x8408, 0x9581, 0xA71A, 0xB693,
    0xC22C, 0xD3A5, 0xE13E, 0xF0B7, 0x840, 0x19C9, 0x2B52, 0x3ADB, 0x4E64, 0x5FED, 0x6D76, 0x7CFF,
    0x9489, 0x8500, 0xB79B, 0xA612, 0xD2AD, 0xC324, 0xF1BF, 0xE036, 0x18C1, 0x948, 0x3BD3, 0x2A5A,
    0x5EE5, 0x4F6C, 0x7DF7, 0x6C7E, 0xA50A, 0xB483, 0x8618, 0x9791, 0xE32E, 0xF2A7, 0xC03C, 0xD1B5,
    0x2942, 0x38CB, 0xA50, 0x1BD9, 0x6F66, 0x7EEF, 0x4C74, 0x5DFD, 0xB58B, 0xA402, 0x9699, 0x8710,
    0xF3AF, 0xE226, 0xD0BD, 0xC134, 0x39C3, 0x284A, 0x1AD1, 0xB58, 0x7FE7, 0x6E6E, 0x5CF5, 0x4D7C,
    0xC60C, 0xD785, 0xE51E, 0xF497, 0x8028, 0x91A1, 0xA33A, 0xB2B3, 0x4A44, 0x5BCD, 0x6956, 0x78DF,
    0xC60, 0x1DE9, 0x2F72, 0x3EFB, 0xD68D, 0xC704, 0xF59F, 0xE416, 0x90A9, 0x8120, 0xB3BB, 0xA232,
    0x5AC5, 0x4B4C, 0x79D7, 0x685E, 0x1CE1, 0xD68, 0x3FF3, 0x2E7A, 0xE70E, 0xF687, 0xC41C, 0xD595,
    0xA12A, 0xB0A3, 0x8238, 0x93B1, 0x6B46, 0x7ACF, 0x4854, 0x59DD, 0x2D62, 0x3CEB, 0xE70, 0x1FF9,
    0xF78F, 0xE606, 0xD49D, 0xC514, 0xB1AB, 0xA022, 0x92B9, 0x8330, 0x7BC7, 0x6A4E, 0x58D5, 0x495C,
    0x3DE3, 0x2C6A, 0x1EF1, 0xF78]"

definition crc16_ccitt_table :: "u16 list" where
  "crc16_ccitt_table = [
    0, 0x1021, 0x2042, 0x3063, 0x4084, 0x50A5, 0x60C6, 0x70E7, 0x8108, 0x9129, 0xA14A, 0xB16B,
    0xC18C, 0xD1AD, 0xE1CE, 0xF1EF, 0x1231, 0x210, 0x3273, 0x2252, 0x52B5, 0x4294, 0x72F7, 0x62D6,
    0x9339, 0x8318, 0xB37B, 0xA35A, 0xD3BD, 0xC39C, 0xF3FF, 0xE3DE, 0x2462, 0x3443, 0x420, 0x1401,
    0x64E6, 0x74C7, 0x44A4, 0x5485, 0xA56A, 0xB54B, 0x8528, 0x9509, 0xE5EE, 0xF5CF, 0xC5AC, 0xD58D,
    0x3653, 0x2672, 0x1611, 0x630, 0x76D7, 0x66F6, 0x5695, 0x46B4, 0xB75B, 0xA77A, 0x9719, 0x8738,
    0xF7DF, 0xE7FE, 0xD79D, 0xC7BC, 0x48C4, 0x58E5, 0x6886, 0x78A7, 0x840, 0x1861, 0x2802, 0x3823,
    0xC9CC, 0xD9ED, 0xE98E, 0xF9AF, 0x8948, 0x9969, 0xA90A, 0xB92B, 0x5AF5, 0x4AD4, 0x7AB7, 0x6A96,
    0x1A71, 0xA50, 0x3A33, 0x2A12, 0xDBFD, 0xCBDC, 0xFBBF, 0xEB9E, 0x9B79, 0x8B58, 0xBB3B, 0xAB1A,
    0x6CA6, 0x7C87, 0x4CE4, 0x5CC5, 0x2C22, 0x3C03, 0xC60, 0x1C41, 0xEDAE, 0xFD8F, 0xCDEC, 0xDDCD,
    0xAD2A, 0xBD0B, 0x8D68, 0x9D49, 0x7E97, 0x6EB6, 0x5ED5, 0x4EF4, 0x3E13, 0x2E32, 0x1E51, 0xE70,
    0xFF9F, 0xEFBE, 0xDFDD, 0xCFFC, 0xBF1B, 0xAF3A, 0x9F59, 0x8F78, 0x9188, 0x81A9, 0xB1CA, 0xA1EB,
    0xD10C, 0xC12D, 0xF14E, 0xE16F, 0x1080, 0xA1, 0x30C2, 0x20E3, 0x5004, 0x4025, 0x7046, 0x6067,
    0x83B9, 0x9398, 0xA3FB, 0xB3DA, 0xC33D, 0xD31C, 0xE37F, 0xF35E, 0x2B1, 0x1290, 0x22F3, 0x32D2,
    0x4235, 0x5214, 0x6277, 0x7256, 0xB5EA, 0xA5CB, 0x95A8, 0x8589, 0xF56E, 0xE54F, 0xD52C, 0xC50D,
    0x34E2, 0x24C3, 0x14A0, 0x481, 0x7466, 0x6447, 0x5424, 0x4405, 0xA7DB, 0xB7FA, 0x8799, 0x97B8,
    0xE75F, 0xF77E, 0xC71D, 0xD73C, 0x26D3, 0x36F2, 0x691, 0x16B0, 0x6657, 0x7676, 0x4615, 0x5634,
    0xD94C, 0xC96D, 0xF90E, 0xE92F, 0x99C8, 0x89E9, 0xB98A, 0xA9AB, 0x5844, 0x4865, 0x7806, 0x6827,
    0x18C0, 0x8E1, 0x3882, 0x28A3, 0xCB7D, 0xDB5C, 0xEB3F, 0xFB1E, 0x8BF9, 0x9BD8, 0xABBB, 0xBB9A,
    0x4A75, 0x5A54, 0x6A37, 0x7A16, 0xAF1, 0x1AD0, 0x2AB3, 0x3A92, 0xFD2E, 0xED0F, 0xDD6C, 0xCD4D,
    0xBDAA, 0xAD8B, 0x9DE8, 0x8DC9, 0x7C26, 0x6C07, 0x5C64, 0x4C45, 0x3CA2, 0x2C83, 0x1CE0, 0xCC1,
    0xEF1F, 0xFF3E, 0xCF5D, 0xDF7C, 0xAF9B, 0xBFBA, 0x8FD9, 0x9FF8, 0x6E17, 0x7E36, 0x4E55, 0x5E74,
    0x2E93, 0x3EB2, 0xED1, 0x1EF0]"

definition crc32_c_table :: "u32 list" where
  "crc32_c_table = [
    0, 0xF26B8303, 0xE13B70F7, 0x1350F3F4, 0xC79A971F, 0x35F1141C, 0x26A1E7E8, 0xD4CA64EB,
    0x8AD958CF, 0x78B2DBCC, 0x6BE22838, 0x9989AB3B, 0x4D43CFD0, 0xBF284CD3, 0xAC78BF27, 0x5E133C24,
    0x105EC76F, 0xE235446C, 0xF165B798, 0x30E349B, 0xD7C45070, 0x25AFD373, 0x36FF2087, 0xC494A384,
    0x9A879FA0, 0x68EC1CA3, 0x7BBCEF57, 0x89D76C54, 0x5D1D08BF, 0xAF768BBC, 0xBC267848, 0x4E4DFB4B,
    0x20BD8EDE, 0xD2D60DDD, 0xC186FE29, 0x33ED7D2A, 0xE72719C1, 0x154C9AC2, 0x61C6936, 0xF477EA35,
    0xAA64D611, 0x580F5512, 0x4B5FA6E6, 0xB93425E5, 0x6DFE410E, 0x9F95C20D, 0x8CC531F9, 0x7EAEB2FA,
    0x30E349B1, 0xC288CAB2, 0xD1D83946, 0x23B3BA45, 0xF779DEAE, 0x5125DAD, 0x1642AE59, 0xE4292D5A,
    0xBA3A117E, 0x4851927D, 0x5B016189, 0xA96AE28A, 0x7DA08661, 0x8FCB0562, 0x9C9BF696, 0x6EF07595,
    0x417B1DBC, 0xB3109EBF, 0xA0406D4B, 0x522BEE48, 0x86E18AA3, 0x748A09A0, 0x67DAFA54, 0x95B17957,
    0xCBA24573, 0x39C9C670, 0x2A993584, 0xD8F2B687, 0xC38D26C, 0xFE53516F, 0xED03A29B, 0x1F682198,
    0x5125DAD3, 0xA34E59D0, 0xB01EAA24, 0x42752927, 0x96BF4DCC, 0x64D4CECF, 0x77843D3B, 0x85EFBE38,
    0xDBFC821C, 0x2997011F, 0x3AC7F2EB, 0xC8AC71E8, 0x1C661503, 0xEE0D9600, 0xFD5D65F4, 0xF36E6F7,
    0x61C69362, 0x93AD1061, 0x80FDE395, 0x72966096, 0xA65C047D, 0x5437877E, 0x4767748A, 0xB50CF789,
    0xEB1FCBAD, 0x197448AE, 0xA24BB5A, 0xF84F3859, 0x2C855CB2, 0xDEEEDFB1, 0xCDBE2C45, 0x3FD5AF46,
    0x7198540D, 0x83F3D70E, 0x90A324FA, 0x62C8A7F9, 0xB602C312, 0x44694011, 0x5739B3E5, 0xA55230E6,
    0xFB410CC2, 0x92A8FC1, 0x1A7A7C35, 0xE811FF36, 0x3CDB9BDD, 0xCEB018DE, 0xDDE0EB2A, 0x2F8B6829,
    0x82F63B78, 0x709DB87B, 0x63CD4B8F, 0x91A6C88C, 0x456CAC67, 0xB7072F64, 0xA457DC90, 0x563C5F93,
    0x82F63B7, 0xFA44E0B4, 0xE9141340, 0x1B7F9043, 0xCFB5F4A8, 0x3DDE77AB, 0x2E8E845F, 0xDCE5075C,
    0x92A8FC17, 0x60C37F14, 0x73938CE0, 0x81F80FE3, 0x55326B08, 0xA759E80B, 0xB4091BFF, 0x466298FC,
    0x1871A4D8, 0xEA1A27DB, 0xF94AD42F, 0xB21572C, 0xDFEB33C7, 0x2D80B0C4, 0x3ED04330, 0xCCBBC033,
    0xA24BB5A6, 0x502036A5, 0x4370C551, 0xB11B4652, 0x65D122B9, 0x97BAA1BA, 0x84EA524E, 0x7681D14D,
    0x2892ED69, 0xDAF96E6A, 0xC9A99D9E, 0x3BC21E9D, 0xEF087A76, 0x1D63F975, 0xE330A81, 0xFC588982,
    0xB21572C9, 0x407EF1CA, 0x532E023E, 0xA145813D, 0x758FE5D6, 0x87E466D5, 0x94B49521, 0x66DF1622,
    0x38CC2A06, 0xCAA7A905, 0xD9F75AF1, 0x2B9CD9F2, 0xFF56BD19, 0xD3D3E1A, 0x1E6DCDEE, 0xEC064EED,
    0xC38D26C4, 0x31E6A5C7, 0x22B65633, 0xD0DDD530, 0x417B1DB, 0xF67C32D8, 0xE52CC12C, 0x1747422F,
    0x49547E0B, 0xBB3FFD08, 0xA86F0EFC, 0x5A048DFF, 0x8ECEE914, 0x7CA56A17, 0x6FF599E3, 0x9D9E1AE0,
    0xD3D3E1AB, 0x21B862A8, 0x32E8915C, 0xC083125F, 0x144976B4, 0xE622F5B7, 0xF5720643, 0x7198540,
    0x590AB964, 0xAB613A67, 0xB831C993, 0x4A5A4A90, 0x9E902E7B, 0x6CFBAD78, 0x7FAB5E8C, 0x8DC0DD8F,
    0xE330A81A, 0x115B2B19, 0x20BD8ED, 0xF0605BEE, 0x24AA3F05, 0xD6C1BC06, 0xC5914FF2, 0x37FACCF1,
    0x69E9F0D5, 0x9B8273D6, 0x88D28022, 0x7AB90321, 0xAE7367CA, 0x5C18E4C9, 0x4F48173D, 0xBD23943E,
    0xF36E6F75, 0x105EC76, 0x12551F82, 0xE03E9C81, 0x34F4F86A, 0xC69F7B69, 0xD5CF889D, 0x27A40B9E,
    0x79B737BA, 0x8BDCB4B9, 0x988C474D, 0x6AE7C44E, 0xBE2DA0A5, 0x4C4623A6, 0x5F16D052, 0xAD7D5351]"

section \<open>The checksums\<close>

definition crc16_ccitt_reversed_step :: "u16 \<Rightarrow> u8 \<Rightarrow> u16" where
  "crc16_ccitt_reversed_step crc b =
     drop_bit 8 crc XOR (crc16_ccitt_table_reverse ! unat ((crc XOR ucast b) AND 0xff))"

definition crc16_ccitt_reversed :: "u8 list \<Rightarrow> u16" where
  "crc16_ccitt_reversed data = fold (\<lambda>b crc. crc16_ccitt_reversed_step crc b) data 0xFFFF XOR 0xFFFF"

definition crc16_ccitt_step :: "u16 \<Rightarrow> u8 \<Rightarrow> u16" where
  "crc16_ccitt_step crc b =
     (crc16_ccitt_table ! unat ((drop_bit 8 crc XOR ucast b) AND 0xff)) XOR push_bit 8 crc"

definition crc16_ccitt :: "u8 list \<Rightarrow> u16" where
  "crc16_ccitt data = fold (\<lambda>b crc. crc16_ccitt_step crc b) data 0"

definition crc16_aug_ccitt :: "u8 list \<Rightarrow> u16" where
  "crc16_aug_ccitt data = fold (\<lambda>b crc. crc16_ccitt_step crc b) data 0x1D0F XOR 0xFFFF"

definition crc16_ax25 :: "u8 list \<Rightarrow> u16" where
  "crc16_ax25 data = fold (\<lambda>b crc. crc16_ccitt_reversed_step crc b) data 0xFFFF XOR 0xFFFF"

text \<open>\<open>update_crc16_ibm\<close>: eight rounds over the register and the shifted data byte.\<close>

fun update_crc16_ibm_loop :: "nat \<Rightarrow> u8 \<Rightarrow> u16 \<Rightarrow> u16" where
  "update_crc16_ibm_loop 0 crc reg = reg"
| "update_crc16_ibm_loop (Suc n) crc reg =
     update_crc16_ibm_loop n (push_bit 1 crc)
       (if drop_bit 8 (reg AND 0x8000) XOR (ucast crc AND 0x80) \<noteq> 0
        then push_bit 1 reg XOR 0x8005 else push_bit 1 reg)"

definition update_crc16_ibm :: "u8 \<Rightarrow> u16 \<Rightarrow> u16" where
  "update_crc16_ibm crc reg = update_crc16_ibm_loop 8 crc reg"

definition crc16_ibm :: "u8 list \<Rightarrow> u16" where
  "crc16_ibm data = fold (\<lambda>b crc. update_crc16_ibm b crc) data 0xFFFF"

definition crc32_c_step :: "u32 \<Rightarrow> u8 \<Rightarrow> u32" where
  "crc32_c_step crc b = drop_bit 8 crc XOR (crc32_c_table ! unat ((crc XOR ucast b) AND 0xff))"

definition crc32_c :: "u8 list \<Rightarrow> u32" where
  "crc32_c data = fold (\<lambda>b crc. crc32_c_step crc b) data 0xFFFFFFFF XOR 0xFFFFFFFF"

section \<open>Sizes and appending\<close>

datatype crc_t =
    CRC_NONE
  | CRC16_CCITT
  | CRC16_AUG_CCITT
  | CRC16_CCITT_REVERSED
  | CRC16_AX25
  | CRC16_IBM
  | CRC32_C
  | CRC_METHODS_NUM

fun crc_size :: "crc_t \<Rightarrow> nat res" where
  "crc_size CRC_NONE = Inr 0"
| "crc_size CRC16_CCITT = Inr 2"
| "crc_size CRC16_AUG_CCITT = Inr 2"
| "crc_size CRC16_CCITT_REVERSED = Inr 2"
| "crc_size CRC16_AX25 = Inr 2"
| "crc_size CRC16_IBM = Inr 2"
| "crc_size CRC32_C = Inr 4"
| "crc_size CRC_METHODS_NUM = Inl (Invalid_argument ''crc: Invalid CRC method'')"

text \<open>
  The bytes of a word in memory (\<open>memcpy\<close> from its address) on a big or a little endian host,
  and the host to network conversions of the C library.
\<close>

definition bswap16 :: "u16 \<Rightarrow> u16" where
  "bswap16 x = push_bit 8 x OR drop_bit 8 x"

definition htons :: "bool \<Rightarrow> u16 \<Rightarrow> u16" where
  "htons be x = (if be then x else bswap16 x)"

definition mem16 :: "bool \<Rightarrow> u16 \<Rightarrow> u8 list" where
  "mem16 be x = (if be then [ucast (drop_bit 8 x), ucast x] else [ucast x, ucast (drop_bit 8 x)])"

definition mem32 :: "bool \<Rightarrow> u32 \<Rightarrow> u8 list" where
  "mem32 be x =
     (let bs = [ucast x, ucast (drop_bit 8 x), ucast (drop_bit 16 x), ucast (drop_bit 24 x)]
      in if be then rev bs else bs)"

definition load16 :: "bool \<Rightarrow> u8 list \<Rightarrow> u16" where
  "load16 be bs =
     (if be then push_bit 8 (ucast (bs ! 0)) OR ucast (bs ! 1)
      else push_bit 8 (ucast (bs ! 1)) OR ucast (bs ! 0))"

definition load32 :: "bool \<Rightarrow> u8 list \<Rightarrow> u32" where
  "load32 be bs0 =
     (let bs = (if be then rev (take 4 bs0) else bs0)
      in push_bit 24 (ucast (bs ! 3)) OR push_bit 16 (ucast (bs ! 2)) OR
         push_bit 8 (ucast (bs ! 1)) OR ucast (bs ! 0))"

text \<open>
  \<open>crc::append\<close>: the bytes it stores at \<open>out\<close>, whose number is the value it returns.
\<close>

definition append16 :: "bool \<Rightarrow> bool \<Rightarrow> u16 \<Rightarrow> u8 list" where
  "append16 be nbo x = mem16 be (if nbo then htons be x else x)"

fun crc_append :: "bool \<Rightarrow> crc_t \<Rightarrow> u8 list \<Rightarrow> bool \<Rightarrow> u8 list res" where
  "crc_append be CRC_NONE data nbo = Inr []"
| "crc_append be CRC16_CCITT data nbo = Inr (append16 be nbo (crc16_ccitt data))"
| "crc_append be CRC16_AUG_CCITT data nbo = Inr (append16 be nbo (crc16_ccitt data))"
| "crc_append be CRC16_CCITT_REVERSED data nbo = Inr (append16 be nbo (crc16_ccitt_reversed data))"
| "crc_append be CRC16_AX25 data nbo = Inr (append16 be nbo (crc16_ax25 data))"
| "crc_append be CRC16_IBM data nbo = Inr (append16 be nbo (crc16_ibm data))"
| "crc_append be CRC32_C data nbo =
     Inr (mem32 be (if nbo then htonl be (crc32_c data) else crc32_c data))"
| "crc_append be CRC_METHODS_NUM data nbo = Inl (Invalid_argument ''crc: Invalid CRC method'')"

section \<open>Bit-serial references\<close>

text \<open>
  Division by the generator one bit at a time: \<open>lfsr_right\<close> for the reflected codes (least
  significant bit first), \<open>lfsr_left\<close> for the others.
\<close>

definition lfsr_right :: "'a::len word \<Rightarrow> 'a word \<Rightarrow> 'a word" where
  "lfsr_right p r = (if bit r 0 then drop_bit 1 r XOR p else drop_bit 1 r)"

definition lfsr_left :: "u16 \<Rightarrow> u16 \<Rightarrow> u16" where
  "lfsr_left p r = (if bit r 15 then push_bit 1 r XOR p else push_bit 1 r)"

fun lfsr_iter :: "('a \<Rightarrow> 'a) \<Rightarrow> 'a \<Rightarrow> 'a" where
  "lfsr_iter f r = f (f (f (f (f (f (f (f r)))))))"

definition ref_right :: "'a::len word \<Rightarrow> 'a word \<Rightarrow> u8 \<Rightarrow> 'a word" where
  "ref_right p r b = lfsr_iter (lfsr_right p) (r XOR ucast b)"

definition ref_left :: "u16 \<Rightarrow> u16 \<Rightarrow> u8 \<Rightarrow> u16" where
  "ref_left p r b = lfsr_iter (lfsr_left p) (r XOR push_bit 8 (ucast b))"

text \<open>
  All of these are linear over exclusive or, so a table of 256 entries is the span of its
  eight entries at powers of two: \<open>xor_span\<close> doubles the table once per basis vector.
\<close>

fun xor_span :: "'a::len word list \<Rightarrow> 'a word list" where
  "xor_span [] = [0]"
| "xor_span (b # bs) = (let s = xor_span bs in s @ map (\<lambda>x. b XOR x) s)"

lemma length_xor_span [simp]: "length (xor_span bs) = 2 ^ length bs"
  by (induction bs) (auto simp: Let_def)

lemma xor_span_nth:
  fixes L :: "'a::len word \<Rightarrow> 'b::len word"
  assumes lin: "\<And>x y. L (x XOR y) = L x XOR L y"
  shows "k \<le> LENGTH('a) \<Longrightarrow> i < 2 ^ k \<Longrightarrow>
    xor_span (map (\<lambda>j. L (2 ^ j)) (rev [0..<k])) ! i = L (of_nat i)"
proof (induction k arbitrary: i)
  case 0
  have "L 0 = L 0 XOR L 0" using lin [of 0 0] by simp
  with 0 show ?case by simp
next
  case (Suc k)
  show ?case
  proof (cases "i < 2 ^ k")
    case True
    with Suc show ?thesis by (simp add: Let_def nth_append)
  next
    case False
    define j where "j = i - 2 ^ k"
    from False Suc.prems have j: "j < 2 ^ k" and i: "i = 2 ^ k + j" by (auto simp: j_def)
    have "(2 :: 'a word) ^ k AND of_nat j = 0"
    proof (rule bit_word_eqI)
      fix n :: nat
      assume n: "n < LENGTH('a)"
      have "\<not> bit j k"
        using j by (simp add: bit_iff_odd)
      with n show "bit ((2 :: 'a word) ^ k AND of_nat j) n = bit (0 :: 'a word) n"
        by (auto simp: bit_simps)
    qed
    then have "(of_nat i :: 'a word) = 2 ^ k XOR of_nat j"
      unfolding i by (simp add: disjunctive_add_eq_xor)
    with Suc.IH [OF _ j] Suc.prems(1) j i lin show ?thesis
      by (simp add: Let_def nth_append)
  qed
qed

lemma lfsr_right_lin: "lfsr_right p (x XOR y) = lfsr_right p x XOR lfsr_right p y"
  by (rule bit_word_eqI) (auto simp: lfsr_right_def bit_simps)

lemma lfsr_left_lin: "lfsr_left p (x XOR y) = lfsr_left p x XOR lfsr_left p y"
  by (rule bit_word_eqI) (auto simp: lfsr_left_def bit_simps)

lemma lfsr_iter_lin:
  "(\<And>x y. f (x XOR y) = f x XOR f y) \<Longrightarrow> lfsr_iter f (x XOR y) = lfsr_iter f x XOR lfsr_iter f y"
  by simp

lemma rev_upt_8: "rev [0..<8] = [7, 6, 5, 4, 3, 2, 1, 0 :: nat]"
  by (simp add: upt_rec)

lemma crc16_reverse_span:
  "crc16_ccitt_table_reverse =
   xor_span (map (\<lambda>j. lfsr_iter (lfsr_right 0x8408) (2 ^ j)) (rev [0..<8]))"
proof -
  have "map (\<lambda>j. lfsr_iter (lfsr_right 0x8408) (2 ^ j)) (rev [0..<8]) =
      [0x8408, 0x4204, 0x2102, 0x1081, 0x8C48, 0x4624, 0x2312, 0x1189 :: u16]"
    by (simp add: rev_upt_8 lfsr_right_def)
  then show ?thesis by (simp add: Let_def crc16_ccitt_table_reverse_def)
qed

lemma crc16_span:
  "crc16_ccitt_table =
   xor_span (map (\<lambda>j. lfsr_iter (lfsr_left 0x1021) (push_bit 8 (2 ^ j))) (rev [0..<8]))"
proof -
  have "map (\<lambda>j. lfsr_iter (lfsr_left 0x1021) (push_bit 8 (2 ^ j))) (rev [0..<8]) =
      [0x9188, 0x48C4, 0x2462, 0x1231, 0x8108, 0x4084, 0x2042, 0x1021 :: u16]"
    by (simp add: rev_upt_8 lfsr_left_def)
  then show ?thesis by (simp add: Let_def crc16_ccitt_table_def)
qed

lemma crc32_span:
  "crc32_c_table = xor_span (map (\<lambda>j. lfsr_iter (lfsr_right 0x82F63B78) (2 ^ j)) (rev [0..<8]))"
proof -
  have "map (\<lambda>j. lfsr_iter (lfsr_right 0x82F63B78) (2 ^ j)) (rev [0..<8]) =
      [0x82F63B78, 0x417B1DBC, 0x20BD8EDE, 0x105EC76F, 0x8AD958CF, 0xC79A971F, 0xE13B70F7,
       0xF26B8303 :: u32]"
    by (simp add: rev_upt_8 lfsr_right_def)
  then show ?thesis by (simp add: Let_def crc32_c_table_def)
qed

lemma low_byte_lt: "unat (x AND 0xff :: 'a::len word) < 256"
proof -
  have "unat (take_bit 8 x) < 2 ^ 8"
    by (simp only: unsigned_take_bit_eq take_bit_nat_less_exp)
  then show ?thesis by (simp add: take_bit_eq_mask mask_eq_exp_minus_1)
qed

lemma lfsr_right_skip:
  assumes "\<And>i. i < 8 \<Longrightarrow> \<not> bit y i"
  shows "lfsr_iter (lfsr_right p) y = drop_bit 8 y"
proof -
  have s: "lfsr_right p (drop_bit k y) = drop_bit (Suc k) y" if "k < 8" for k
    using that assms by (simp add: lfsr_right_def bit_simps)
  have "lfsr_iter (lfsr_right p) (drop_bit 0 y) = drop_bit 8 y"
    by (simp only: lfsr_iter.simps s) (simp add: s numeral_eq_Suc)
  then show ?thesis by simp
qed

lemma lfsr_left_skip:
  fixes y :: u16
  assumes "\<And>i. 8 \<le> i \<Longrightarrow> \<not> bit y i"
  shows "lfsr_iter (lfsr_left p) y = push_bit 8 y"
proof -
  have s: "lfsr_left p (push_bit k y) = push_bit (Suc k) y" if "k < 8" for k
    using that assms [of "15 - k"] by (simp add: lfsr_left_def bit_simps push_bit_push_bit)
  have "lfsr_iter (lfsr_left p) (push_bit 0 y) = push_bit 8 y"
    by (simp only: lfsr_iter.simps s) (simp add: s numeral_eq_Suc)
  then show ?thesis by simp
qed

text \<open>A byte step of a table is eight bit steps of the division.\<close>

lemma byte_mask: "(0xff :: 'a::len word) = mask 8"
  by (simp add: mask_eq_exp_minus_1)

lemma low_byte_split:
  fixes x :: "'a::len word"
  shows "x = (x AND 0xff) XOR (x AND NOT (mask 8))"
  unfolding byte_mask by (rule bit_word_eqI) (auto simp: bit_simps)

lemma bit_low_byte: "bit (x AND 0xff) i \<longleftrightarrow> i < 8 \<and> bit x i" for x :: "'a::len word"
  unfolding byte_mask by (auto simp: bit_simps dest: bit_imp_le_length)

lemma right_step:
  fixes p :: "'a::len word"
  assumes len: "8 \<le> LENGTH('a)"
    and tab: "tab = xor_span (map (\<lambda>j. lfsr_iter (lfsr_right p) (2 ^ j)) (rev [0..<8]))"
  shows "drop_bit 8 r XOR (tab ! unat ((r XOR ucast b) AND 0xff)) = ref_right p r b"
proof -
  let ?L = "lfsr_iter (lfsr_right p)" and ?x = "r XOR ucast b"
  have lin: "?L (x XOR y) = ?L x XOR ?L y" for x y
    by (rule lfsr_iter_lin) (rule lfsr_right_lin)
  have "tab ! unat (?x AND 0xff) = ?L (?x AND 0xff)"
    using xor_span_nth [of ?L 8, OF lin len] low_byte_lt [of ?x] by (simp only: tab) simp
  moreover have "?L (?x AND NOT (mask 8)) = drop_bit 8 (?x AND NOT (mask 8))"
    by (rule lfsr_right_skip) (auto simp: bit_simps)
  moreover have "drop_bit 8 (?x AND NOT (mask 8)) = drop_bit 8 r"
    by (rule bit_word_eqI) (auto simp: bit_simps dest: bit_imp_le_length)
  moreover have "?L ?x = ?L (?x AND 0xff) XOR ?L (?x AND NOT (mask 8))"
    using lin low_byte_split [of ?x] by metis
  ultimately show ?thesis by (simp only: ref_right_def) (simp add: xor.commute)
qed

lemma left_step:
  assumes tab: "tab = xor_span (map (\<lambda>j. lfsr_iter (lfsr_left p) (push_bit 8 (2 ^ j))) (rev [0..<8]))"
  shows "(tab ! unat ((drop_bit 8 r XOR ucast b) AND 0xff)) XOR push_bit 8 r = ref_left p r b"
proof -
  let ?L = "\<lambda>x. lfsr_iter (lfsr_left p) (push_bit 8 x)" and ?x = "drop_bit 8 r XOR ucast b :: u16"
  have lin: "?L (x XOR y) = ?L x XOR ?L y" for x y
    by (simp only: push_bit_xor) (rule lfsr_iter_lin, rule lfsr_left_lin)
  have c: "?x AND 0xff = ?x"
    unfolding byte_mask by (rule bit_word_eqI) (auto simp: bit_simps dest: bit_imp_le_length)
  have "tab ! unat (?x AND 0xff) = ?L (?x AND 0xff)"
    using xor_span_nth [of ?L 8, OF lin] low_byte_lt [of ?x] by (simp only: tab) simp
  then have t: "tab ! unat (?x AND 0xff) = ?L ?x" unfolding c .
  have "lfsr_iter (lfsr_left p) (r AND 0xff) = push_bit 8 (r AND 0xff)"
    by (rule lfsr_left_skip) (simp add: bit_low_byte)
  also have "push_bit 8 (r AND 0xff) = push_bit 8 r"
    unfolding byte_mask by (rule bit_word_eqI) (auto simp: bit_simps)
  finally have l: "push_bit 8 r = lfsr_iter (lfsr_left p) (r AND 0xff)" by simp
  have "r XOR push_bit 8 (ucast b) = push_bit 8 ?x XOR (r AND 0xff)"
    unfolding byte_mask by (rule bit_word_eqI) (auto simp: bit_simps)
  then show ?thesis
    unfolding ref_left_def t l by (simp only: lfsr_iter_lin [OF lfsr_left_lin])
qed

lemma crc16_ccitt_reversed_step_ref: "crc16_ccitt_reversed_step r b = ref_right 0x8408 r b"
  unfolding crc16_ccitt_reversed_step_def by (rule right_step [OF _ crc16_reverse_span]) simp

lemma crc16_ccitt_step_ref: "crc16_ccitt_step r b = ref_left 0x1021 r b"
  unfolding crc16_ccitt_step_def by (rule left_step [OF crc16_span])

lemma crc32_c_step_ref: "crc32_c_step r b = ref_right 0x82F63B78 r b"
  unfolding crc32_c_step_def by (rule right_step [OF _ crc32_span]) simp

text \<open>CRC-16/IBM feeds the data bits one by one instead of adding the byte first.\<close>

lemma ibm_round:
  fixes reg :: u16 and crc :: u8
  shows "(if drop_bit 8 (reg AND 0x8000) XOR (ucast crc AND 0x80) \<noteq> 0
      then push_bit 1 reg XOR 0x8005 else push_bit 1 reg) XOR push_bit 8 (ucast (push_bit 1 crc)) =
    lfsr_left 0x8005 (reg XOR push_bit 8 (ucast crc))"
proof -
  have "drop_bit 8 (reg AND 0x8000) XOR (ucast crc AND 0x80) =
      (if bit reg 15 \<noteq> bit crc 7 then 0x80 else 0 :: u16)"
  proof (rule bit_word_eqI)
    fix n :: nat
    assume "n < LENGTH(16)"
    then have n: "n < 16" by simp
    show "bit (drop_bit 8 (reg AND 0x8000) XOR (ucast crc AND 0x80)) n =
        bit (if bit reg 15 \<noteq> bit crc 7 then 0x80 else 0 :: u16) n"
      by (rule all_upto_16 [OF n]) (simp add: bit_simps)
  qed
  then have c: "drop_bit 8 (reg AND 0x8000) XOR (ucast crc AND 0x80) \<noteq> 0 \<longleftrightarrow>
      bit (reg XOR push_bit 8 (ucast crc)) 15"
    by (simp add: bit_simps)
  have p: "push_bit 1 reg XOR push_bit 8 (ucast (push_bit 1 crc)) =
      push_bit 1 (reg XOR push_bit 8 (ucast crc))"
  proof (rule bit_word_eqI)
    fix n :: nat
    assume "n < LENGTH(16)"
    then have n: "n < 16" by simp
    show "bit (push_bit 1 reg XOR push_bit 8 (ucast (push_bit 1 crc))) n =
        bit (push_bit 1 (reg XOR push_bit 8 (ucast crc))) n"
      by (rule all_upto_16 [OF n])
        (simp add: bit_simps mult.commute [where b = "2::u16"] mult.commute [where b = "2::u8"])
  qed
  show ?thesis
    unfolding lfsr_left_def c using p
    by (cases "bit (reg XOR push_bit 8 (ucast crc)) 15") (simp_all only: if_True if_False xor.assoc
        xor.commute [of "0x8005 :: u16"] not_False_eq_True simp_thms flip: p)
qed

lemma ibm_rounds:
  fixes crc :: u8
  shows "update_crc16_ibm_loop n crc reg XOR push_bit 8 (ucast (push_bit n crc)) =
    (lfsr_left 0x8005 ^^ n) (reg XOR push_bit 8 (ucast crc))"
proof (induction n arbitrary: crc reg)
  case 0
  then show ?case by simp
next
  case (Suc n)
  show ?case
    using Suc.IH [of "push_bit 1 crc"] ibm_round [of reg crc]
    by (simp only: update_crc16_ibm_loop.simps push_bit_push_bit funpow_Suc_right o_def) simp
qed

lemma update_crc16_ibm_ref: "update_crc16_ibm b r = ref_left 0x8005 r b"
proof -
  have "push_bit 8 b = 0" by (rule bit_word_eqI) (auto simp: bit_simps)
  with ibm_rounds [of 8 b r] show ?thesis
    by (simp add: update_crc16_ibm_def ref_left_def numeral_eq_Suc)
qed

section \<open>Equality with the bit-serial references\<close>

text \<open>C13: every checksum routine of the class equals the bit-serial polynomial division with its
  generator, initial value and final exclusive or; the lookup tables are correct.\<close>

theorem crc_routines_are_polynomial_division:
  "crc16_ccitt data = fold (\<lambda>b r. ref_left 0x1021 r b) data 0 \<and>
   crc16_aug_ccitt data = fold (\<lambda>b r. ref_left 0x1021 r b) data 0x1D0F XOR 0xFFFF \<and>
   crc16_ccitt_reversed data = fold (\<lambda>b r. ref_right 0x8408 r b) data 0xFFFF XOR 0xFFFF \<and>
   crc16_ax25 data = fold (\<lambda>b r. ref_right 0x8408 r b) data 0xFFFF XOR 0xFFFF \<and>
   crc16_ibm data = fold (\<lambda>b r. ref_left 0x8005 r b) data 0xFFFF \<and>
   crc32_c data = fold (\<lambda>b r. ref_right 0x82F63B78 r b) data 0xFFFFFFFF XOR 0xFFFFFFFF"
  by (simp_all add: crc16_ccitt_def crc16_aug_ccitt_def crc16_ccitt_reversed_def crc16_ax25_def
      crc16_ibm_def crc32_c_def crc16_ccitt_step_ref crc16_ccitt_reversed_step_ref
      update_crc16_ibm_ref crc32_c_step_ref)

section \<open>Error detection\<close>

text \<open>
  A step whose result determines the register (for a fixed byte) and the byte (for a fixed
  register) lets no error confined to one byte go undetected. The contract is shared by the
  four step functions.
\<close>

locale crc_step =
  fixes step :: "'a::len word \<Rightarrow> u8 \<Rightarrow> 'a word"
  assumes inj_reg: "step r b = step r' b \<Longrightarrow> r = r'"
    and inj_byte: "step r b = step r b' \<Longrightarrow> b = b'"
begin

lemma fold_inj: "fold (\<lambda>b r. step r b) xs r = fold (\<lambda>b r. step r b) xs r' \<Longrightarrow> r = r'"
  by (induction xs arbitrary: r r') (auto dest: inj_reg)

lemma detects_byte:
  "fold (\<lambda>b r. step r b) (xs @ b # ys) r = fold (\<lambda>b r. step r b) (xs @ b' # ys) r \<Longrightarrow> b = b'"
  by (auto dest!: fold_inj inj_byte)

end

lemma xor_left_inj: "x XOR y = x XOR z \<Longrightarrow> y = z" for x y z :: "'a::len word"
  by (metis xor.assoc xor_self_eq xor.left_neutral)

lemma xor_cancel: "x XOR m = y XOR m \<Longrightarrow> x = y" for x y m :: "'a::len word"
  by (metis xor.commute xor_left_inj)

lemma lfsr_right_inj:
  fixes p :: "'a::len word"
  assumes p: "bit p (LENGTH('a) - 1)" and eq: "lfsr_right p x = lfsr_right p y"
  shows "x = y"
proof -
  have t: "bit (lfsr_right p z) (LENGTH('a) - 1) = bit z 0" for z
    using p by (auto simp: lfsr_right_def bit_simps dest: bit_imp_le_length)
  with eq have b0: "bit x 0 = bit y 0" by metis
  with eq have d: "drop_bit 1 x = drop_bit 1 y"
    by (auto simp only: lfsr_right_def split: if_splits dest: xor_cancel)
  show ?thesis
  proof (rule bit_word_eqI)
    fix n
    from d have "bit (drop_bit 1 x) (n - 1) = bit (drop_bit 1 y) (n - 1)" by simp
    with b0 show "bit x n = bit y n" by (cases n) (simp_all add: bit_simps)
  qed
qed

lemma lfsr_left_inj:
  assumes p: "bit p 0" and eq: "lfsr_left p x = lfsr_left p y"
  shows "x = y"
proof -
  have t: "bit (lfsr_left p z) 0 = bit z 15" for z
    using p by (simp add: lfsr_left_def bit_shl1 bit_xor_iff)
  with eq have b: "bit x 15 = bit y 15" by metis
  with eq have d: "x * 2 = y * 2"
    by (simp add: lfsr_left_def split: if_splits) (auto dest: xor_cancel)
  show ?thesis
  proof (rule bit_word_eqI)
    fix n :: nat
    assume n: "n < LENGTH(16)"
    from d have "bit (x * 2) (Suc n) = bit (y * 2) (Suc n)" by simp
    with b n show "bit x n = bit y n" by (cases "n = 15") (auto simp: bit_shl1)
  qed
qed

lemma crc_step_right:
  fixes p :: "'a::len word"
  assumes "bit p (LENGTH('a) - 1)" and "8 \<le> LENGTH('a)"
  shows "crc_step (ref_right p)"
proof
  have inj: "ref_right p r b = ref_right p r' b' \<Longrightarrow> r XOR ucast b = r' XOR ucast b'" for r r' b b'
    using lfsr_right_inj [OF assms(1)] by (simp add: ref_right_def)
  show "ref_right p r b = ref_right p r' b \<Longrightarrow> r = r'" for r b r'
    by (drule inj) (rule xor_cancel)
  show "ref_right p r b = ref_right p r b' \<Longrightarrow> b = b'" for r b b'
  proof -
    assume "ref_right p r b = ref_right p r b'"
    then have e: "(ucast b :: 'a word) = ucast b'" by (intro xor_left_inj [OF inj])
    show "b = b'"
    proof (rule bit_word_eqI)
      fix n :: nat
      assume "n < LENGTH(8)"
      moreover from e have "bit (ucast b :: 'a word) n = bit (ucast b' :: 'a word) n" by simp
      ultimately show "bit b n = bit b' n" using assms(2) by (simp add: bit_simps)
    qed
  qed
qed

lemma crc_step_left:
  assumes "bit p 0"
  shows "crc_step (ref_left p)"
proof
  have inj: "ref_left p r b = ref_left p r' b' \<Longrightarrow>
      r XOR push_bit 8 (ucast b) = r' XOR push_bit 8 (ucast b')" for r r' b b'
    using lfsr_left_inj [OF assms] by (simp add: ref_left_def)
  show "ref_left p r b = ref_left p r' b \<Longrightarrow> r = r'" for r b r'
    by (drule inj) (rule xor_cancel)
  show "ref_left p r b = ref_left p r b' \<Longrightarrow> b = b'" for r b b'
  proof -
    assume "ref_left p r b = ref_left p r b'"
    then have e: "push_bit 8 (ucast b :: u16) = push_bit 8 (ucast b')"
      by (intro xor_left_inj [OF inj])
    show "b = b'"
    proof (rule bit_word_eqI)
      fix n :: nat
      assume "n < LENGTH(8)"
      moreover from e have "bit (push_bit 8 (ucast b :: u16)) (n + 8) =
          bit (push_bit 8 (ucast b' :: u16)) (n + 8)"
        by simp
      ultimately show "bit b n = bit b' n" by (simp add: bit_simps)
    qed
  qed
qed

lemma crc_step_cong: "crc_step f \<Longrightarrow> (\<And>r b. g r b = f r b) \<Longrightarrow> crc_step g"
  by (simp add: crc_step_def)

interpretation ccitt: crc_step crc16_ccitt_step
  by (rule crc_step_cong [OF crc_step_left crc16_ccitt_step_ref]) simp

interpretation reversed: crc_step crc16_ccitt_reversed_step
  by (rule crc_step_cong [OF crc_step_right crc16_ccitt_reversed_step_ref]) simp_all

interpretation ibm: crc_step "\<lambda>r b. update_crc16_ibm b r"
  by (rule crc_step_cong [OF crc_step_left update_crc16_ibm_ref]) simp

interpretation crc32c: crc_step crc32_c_step
  by (rule crc_step_cong [OF crc_step_right crc32_c_step_ref]) simp_all

lemma crc16_ccitt_detects_byte: "crc16_ccitt (xs @ b # ys) = crc16_ccitt (xs @ b' # ys) \<Longrightarrow> b = b'"
  unfolding crc16_ccitt_def by (rule ccitt.detects_byte)

lemma crc16_aug_ccitt_detects_byte:
  "crc16_aug_ccitt (xs @ b # ys) = crc16_aug_ccitt (xs @ b' # ys) \<Longrightarrow> b = b'"
  unfolding crc16_aug_ccitt_def by (drule xor_cancel) (rule ccitt.detects_byte)

lemma crc16_reversed_detects_byte:
  "crc16_ccitt_reversed (xs @ b # ys) = crc16_ccitt_reversed (xs @ b' # ys) \<Longrightarrow> b = b'"
  unfolding crc16_ccitt_reversed_def by (drule xor_cancel) (rule reversed.detects_byte)

lemma crc16_ax25_detects_byte: "crc16_ax25 (xs @ b # ys) = crc16_ax25 (xs @ b' # ys) \<Longrightarrow> b = b'"
  unfolding crc16_ax25_def by (drule xor_cancel) (rule reversed.detects_byte)

lemma crc16_ibm_detects_byte: "crc16_ibm (xs @ b # ys) = crc16_ibm (xs @ b' # ys) \<Longrightarrow> b = b'"
  unfolding crc16_ibm_def by (rule ibm.detects_byte)

lemma crc32_c_detects_byte: "crc32_c (xs @ b # ys) = crc32_c (xs @ b' # ys) \<Longrightarrow> b = b'"
  unfolding crc32_c_def by (drule xor_cancel) (rule crc32c.detects_byte)

text \<open>C14: no checksum of the class is blind to an error confined to one byte, wherever it sits and
  whatever follows it.\<close>

theorem crc_detects_single_byte_errors:
  assumes "b \<noteq> b'"
  shows "crc16_ccitt (xs @ b # ys) \<noteq> crc16_ccitt (xs @ b' # ys) \<and>
    crc16_aug_ccitt (xs @ b # ys) \<noteq> crc16_aug_ccitt (xs @ b' # ys) \<and>
    crc16_ccitt_reversed (xs @ b # ys) \<noteq> crc16_ccitt_reversed (xs @ b' # ys) \<and>
    crc16_ax25 (xs @ b # ys) \<noteq> crc16_ax25 (xs @ b' # ys) \<and>
    crc16_ibm (xs @ b # ys) \<noteq> crc16_ibm (xs @ b' # ys) \<and>
    crc32_c (xs @ b # ys) \<noteq> crc32_c (xs @ b' # ys)"
  using assms crc16_ccitt_detects_byte crc16_aug_ccitt_detects_byte crc16_reversed_detects_byte
    crc16_ax25_detects_byte crc16_ibm_detects_byte crc32_c_detects_byte by metis

theorem crc_detects_single_byte_errors_witness:
  "crc16_ax25 [1, 2, 3] \<noteq> crc16_ax25 [1, 7, 3] \<and> crc32_c [1, 2, 3] \<noteq> crc32_c [1, 7, 3]"
  using crc_detects_single_byte_errors [of 2 7 "[1]" "[3]"] by simp

section \<open>Appending and reading back\<close>

lemma append16_network: "append16 be True x = [ucast (drop_bit 8 x), ucast x]"
proof -
  have "(ucast (bswap16 x) :: u8) = ucast (drop_bit 8 x)" "(ucast (drop_bit 8 (bswap16 x)) :: u8) = ucast x"
    by (rule bit_word_eqI; simp add: bswap16_def bit_simps; auto dest: bit_imp_le_length)+
  then show ?thesis by (simp add: append16_def mem16_def htons_def)
qed

lemma load16_mem16: "load16 be (mem16 be x @ ys) = x"
proof -
  have "push_bit 8 (ucast (ucast (drop_bit 8 x) :: u8)) OR (ucast (ucast x :: u8) :: u16) = x"
  proof (rule bit_word_eqI)
    fix n :: nat
    assume "n < LENGTH(16)"
    then have n: "n < 16" by simp
    show "bit (push_bit 8 (ucast (ucast (drop_bit 8 x) :: u8)) OR (ucast (ucast x :: u8) :: u16)) n =
        bit x n"
      by (rule all_upto_16 [OF n]) (simp add: bit_simps)
  qed
  then show ?thesis by (simp add: load16_def mem16_def)
qed

lemma load32_mem32: "load32 be (mem32 be x @ ys) = x"
proof -
  have "push_bit 24 (ucast (ucast (drop_bit 24 x) :: u8)) OR
      push_bit 16 (ucast (ucast (drop_bit 16 x) :: u8)) OR
      push_bit 8 (ucast (ucast (drop_bit 8 x) :: u8)) OR (ucast (ucast x :: u8) :: u32) = x"
  proof (rule bit_word_eqI)
    fix n :: nat
    assume "n < LENGTH(32)"
    then have n: "n < 32" by simp
    show "bit (push_bit 24 (ucast (ucast (drop_bit 24 x) :: u8)) OR
      push_bit 16 (ucast (ucast (drop_bit 16 x) :: u8)) OR
      push_bit 8 (ucast (ucast (drop_bit 8 x) :: u8)) OR (ucast (ucast x :: u8) :: u32)) n = bit x n"
      by (rule all_upto_32 [OF n]) (simp add: bit_simps)
  qed
  then show ?thesis by (simp add: load32_def mem32_def Let_def)
qed

lemma htons_htons [simp]: "htons be (htons be x) = x"
proof -
  have "bswap16 (bswap16 x) = x"
    by (rule bit_word_eqI) (auto simp: bswap16_def bit_simps dest: bit_imp_le_length)
  then show ?thesis by (simp add: htons_def)
qed

lemma htonl_htonl [simp]: "htonl be (htonl be x) = x"
  by (simp add: htonl_def)

lemma length_mem [simp]: "length (mem16 be x) = 2" "length (mem32 be y) = 4"
  by (simp_all add: mem16_def mem32_def Let_def)

text \<open>\<open>crc::append\<close> stores exactly \<open>crc_size\<close> bytes, and fails exactly for the method on which
  \<open>crc_size\<close> fails.\<close>

theorem crc_append_size:
  "crc_size t = (case crc_append be t data nbo of Inl e \<Rightarrow> Inl e | Inr bs \<Rightarrow> Inr (length bs))"
  by (cases t) (auto simp: append16_def)

end
