(* ===== verification/Ax25.thy ===== *)
theory Ax25
  imports Crc "HOL-Library.Signed_Division"
begin

text \<open>
  \<open>include/satnogs/ax25.h\<close>: the constants of AX.25 and its frame check sequence; and the two
  line codes both ends of a link agree on, stated without reference to either end: bit stuffing
  (\<open>stuff\<close>: a 0 after every fifth consecutive 1) and NRZI (\<open>nrzi_code\<close>).
\<close>

unbundle bit_operations_syntax

section \<open>Constants\<close>

definition min_addr_len :: nat where
  "min_addr_len = 14"

definition max_addr_len :: nat where
  "max_addr_len = 2 * 7 + 8 * 7"

definition max_ctrl_len :: nat where
  "max_ctrl_len = 2"

definition pid_len :: nat where
  "pid_len = 1"

definition max_header_len :: nat where
  "max_header_len = max_addr_len + max_ctrl_len + pid_len"

definition sync_flag :: u8 where
  "sync_flag = 0x7e"

definition callsign_max_len :: nat where
  "callsign_max_len = 6"

definition ax25_crc :: "u8 list \<Rightarrow> u16" where
  "ax25_crc buffer = crc16_ax25 buffer"

section \<open>The line codes\<close>

text \<open>\<open>stuff n bs\<close> stuffs the bits \<open>bs\<close> that follow \<open>n\<close> consecutive ones.\<close>

fun stuff :: "nat \<Rightarrow> u8 list \<Rightarrow> u8 list" where
  "stuff n [] = []"
| "stuff n (b # bs) =
     (if b = 1 then if n = 4 then 1 # 0 # stuff 0 bs else 1 # stuff (Suc n) bs
      else 0 # stuff 0 bs)"

fun ones_after :: "nat \<Rightarrow> u8 list \<Rightarrow> nat" where
  "ones_after n [] = n"
| "ones_after n (b # bs) =
     (if b = 1 then if n = 4 then ones_after 0 bs else ones_after (Suc n) bs
      else ones_after 0 bs)"

definition flag_bits :: "u8 list" where
  "flag_bits = [0, 1, 1, 1, 1, 1, 1, 0]"

text \<open>NRZI: a 0 toggles the line, a 1 keeps it.\<close>

fun nrzi_code :: "u8 \<Rightarrow> u8 list \<Rightarrow> u8 list" where
  "nrzi_code prev [] = []"
| "nrzi_code prev (b # bs) = (let y = prev XOR (1 XOR b) in y # nrzi_code y bs)"

text \<open>The decoders undo it item by item; \<open>%\<close> truncates towards zero.\<close>

definition nrzi_bit :: "u8 \<Rightarrow> u8 \<Rightarrow> u8" where
  "nrzi_bit prev inp = word_of_int (NOT ((uint inp - uint prev) smod 2)) AND 0x1"

lemma stuff_append: "stuff n (xs @ ys) = stuff n xs @ stuff (ones_after n xs) ys"
  by (induction xs arbitrary: n) auto

lemma ones_after_append: "ones_after n (xs @ ys) = ones_after (ones_after n xs) ys"
  by (induction xs arbitrary: n) auto

lemma ones_after_le: "n \<le> 4 \<Longrightarrow> ones_after n xs \<le> 4"
  by (induction xs arbitrary: n) auto

lemma stuff_bits: "b \<in> set (stuff n xs) \<Longrightarrow> is_bit b"
  by (induction xs arbitrary: n) (auto split: if_splits)

text \<open>Stuffing adds at most one bit in five.\<close>

lemma length_stuff_le: "n \<le> 4 \<Longrightarrow> length (stuff n xs) \<le> length xs + (length xs + n) div 5"
proof (induction xs arbitrary: n)
  case Nil
  then show ?case by simp
next
  case (Cons x xs)
  have "length (stuff 0 xs) \<le> length xs + length xs div 5" using Cons.IH [of 0] by simp
  moreover have "length xs div 5 \<le> (Suc (length xs) + n) div 5" by (rule div_le_mono) simp
  moreover have "(Suc (length xs) + 4) div 5 = Suc (length xs div 5)" by simp
  moreover have "n \<noteq> 4 \<Longrightarrow> length (stuff (Suc n) xs) \<le> length xs + (length xs + Suc n) div 5"
    using Cons.IH [of "Suc n"] Cons.prems by simp
  ultimately show ?case by auto
qed

lemma length_stuff_ones: "n \<le> 4 \<Longrightarrow> length (stuff n (replicate k 1)) = k + (k + n) div 5"
proof (induction k arbitrary: n)
  case 0
  then show ?case by simp
next
  case (Suc k)
  show ?case
  proof (cases "n = 4")
    case True
    then show ?thesis using Suc.IH [of 0] by simp
  next
    case False
    then show ?thesis using Suc.IH [of "Suc n"] Suc.prems by simp
  qed
qed

lemma length_nrzi_code [simp]: "length (nrzi_code p xs) = length xs"
  by (induction xs arbitrary: p) (auto simp: Let_def)

end
