(* ===== verification/Whitening.thy ===== *)
theory Whitening
  imports Utils
begin

text \<open>
  \<open>lib/whitening.cc\<close>: the scrambler and descrambler. The shift register itself is
  \<open>gr::digital::lfsr\<close> of GNU Radio, which is not part of this repository: its constructor and
  its four operations are the fields of \<open>lfsr_ops\<close>, an argument of every definition here.
  What the results rely on is named: \<open>lfsr_bits\<close>, every operation yields a single bit.
\<close>

unbundle bit_operations_syntax

section \<open>The class\<close>

record 'l lfsr_ops =
  lfsr_new :: "u32 \<Rightarrow> u32 \<Rightarrow> u32 \<Rightarrow> 'l"
  lfsr_reset :: "'l \<Rightarrow> 'l"
  next_bit :: "'l \<Rightarrow> u8 \<times> 'l"
  next_bit_scramble :: "'l \<Rightarrow> u8 \<Rightarrow> u8 \<times> 'l"
  next_bit_descramble :: "'l \<Rightarrow> u8 \<Rightarrow> u8 \<times> 'l"

record 'l whitening =
  d_msb :: bool
  d_self_sync :: bool
  d_lfsr :: 'l
  d_id :: int

text \<open>The constructor takes the class counter \<open>base_unique_id\<close> and returns its new value.\<close>

definition whitening_make ::
    "'l lfsr_ops \<Rightarrow> int \<Rightarrow> u32 \<Rightarrow> u32 \<Rightarrow> u32 \<Rightarrow> bool \<Rightarrow> bool \<Rightarrow> 'l whitening \<times> int" where
  "whitening_make L base_unique_id poly_mask seed order msb self_sync =
     (\<lparr>d_msb = msb, d_self_sync = self_sync, d_lfsr = lfsr_new L poly_mask seed order,
       d_id = base_unique_id\<rparr>, base_unique_id + 1)"

definition make_ccsds :: "'l lfsr_ops \<Rightarrow> int \<Rightarrow> bool \<Rightarrow> 'l whitening \<times> int" where
  "make_ccsds L base_unique_id msb = whitening_make L base_unique_id 0xA9 0xFF 7 msb False"

definition make_g3ruh :: "'l lfsr_ops \<Rightarrow> int \<Rightarrow> bool \<Rightarrow> 'l whitening \<times> int" where
  "make_g3ruh L base_unique_id msb = whitening_make L base_unique_id 0x21 0x0 16 msb True"

definition whitening_reset :: "'l lfsr_ops \<Rightarrow> 'l whitening \<Rightarrow> 'l whitening" where
  "whitening_reset L w = w\<lparr>d_lfsr := lfsr_reset L (d_lfsr w)\<rparr>"

text \<open>
  One byte of each of the four loops of \<open>scramble\<close>: the eight statements
  \<open>b |= d_lfsr.next_bit...(...) << k\<close> in the order of the bits of the byte.
\<close>

definition bit_order :: "bool \<Rightarrow> nat list" where
  "bit_order msb = (if msb then [7, 6, 5, 4, 3, 2, 1, 0] else [0, 1, 2, 3, 4, 5, 6, 7])"

definition self_sync_byte :: "'l lfsr_ops \<Rightarrow> bool \<Rightarrow> 'l \<Rightarrow> u8 \<Rightarrow> u8 \<times> 'l" where
  "self_sync_byte L msb l x =
     fold (\<lambda>k (b, l). let (o', l') = next_bit_scramble L l (drop_bit k x AND 0x1)
                      in (b OR push_bit k o', l')) (bit_order msb) (0, l)"

definition additive_byte :: "'l lfsr_ops \<Rightarrow> bool \<Rightarrow> 'l \<Rightarrow> u8 \<Rightarrow> u8 \<times> 'l" where
  "additive_byte L msb l x =
     (let (b, l') = fold (\<lambda>k (b, l). let (o', l') = next_bit L l in (b OR push_bit k o', l'))
                      (bit_order msb) (0, l)
      in (x XOR b, l'))"

definition scramble :: "'l lfsr_ops \<Rightarrow> 'l whitening \<Rightarrow> u8 list \<Rightarrow> u8 list \<times> 'l whitening" where
  "scramble L w inp =
     (let (out, l) = map_state
            (if d_self_sync w then self_sync_byte L (d_msb w) else additive_byte L (d_msb w))
            (d_lfsr w) inp
      in (out, w\<lparr>d_lfsr := l\<rparr>))"

definition descramble :: "'l lfsr_ops \<Rightarrow> 'l whitening \<Rightarrow> u8 list \<Rightarrow> u8 list \<times> 'l whitening" where
  "descramble L w inp = scramble L w inp"

definition additive_bit :: "'l lfsr_ops \<Rightarrow> 'l \<Rightarrow> u8 \<Rightarrow> u8 \<times> 'l" where
  "additive_bit L l x = (let (o', l') = next_bit L l in (x XOR o', l'))"

definition scramble_one_bit_per_byte ::
    "'l lfsr_ops \<Rightarrow> 'l whitening \<Rightarrow> u8 list \<Rightarrow> u8 list \<times> 'l whitening" where
  "scramble_one_bit_per_byte L w inp =
     (let (out, l) = map_state (if d_self_sync w then next_bit_scramble L else additive_bit L)
            (d_lfsr w) inp
      in (out, w\<lparr>d_lfsr := l\<rparr>))"

definition descramble_one_bit_per_byte ::
    "'l lfsr_ops \<Rightarrow> 'l whitening \<Rightarrow> u8 list \<Rightarrow> u8 list \<times> 'l whitening" where
  "descramble_one_bit_per_byte L w inp =
     (let (out, l) = map_state (if d_self_sync w then next_bit_descramble L else additive_bit L)
            (d_lfsr w) inp
      in (out, w\<lparr>d_lfsr := l\<rparr>))"

section \<open>Bytes and bits agree\<close>

text \<open>The documented contract of the register: its outputs are single bits.\<close>

definition lfsr_bits :: "'l lfsr_ops \<Rightarrow> bool" where
  "lfsr_bits L \<longleftrightarrow>
     (\<forall>l. is_bit (fst (next_bit L l))) \<and>
     (\<forall>l x. is_bit (fst (next_bit_scramble L l x))) \<and>
     (\<forall>l x. is_bit (fst (next_bit_descramble L l x)))"

text \<open>The bits of a byte in the order in which the class visits them.\<close>

definition unpack_order :: "bool \<Rightarrow> u8 \<Rightarrow> u8 list" where
  "unpack_order msb = (if msb then unpack_msb else unpack_lsb)"

lemma unpack_order_eq: "unpack_order msb b = map (\<lambda>k. drop_bit k b AND 1) (bit_order msb)"
  by (simp add: unpack_order_def bit_order_def unpack_lsb_def unpack_msb_eq)

lemma unpack_order_xor:
  "unpack_order msb (x XOR y) = map2 (XOR) (unpack_order msb x) (unpack_order msb y)"
  by (simp add: unpack_order_def unpack_msb_xor unpack_lsb_xor)

lemma length_unpack_order [simp]: "length (unpack_order msb b) = 8"
  by (simp add: unpack_order_def)

text \<open>The eight statements collect the bits that the register yields.\<close>

lemma collect_bits:
  "fold (\<lambda>k (b, l). let (o', l') = g l k in (b OR push_bit k o', l')) ks (b0, l) =
   (let (os, l') = map_state g l ks
    in (fold (\<lambda>(k, o') b. b OR push_bit k o') (zip ks os) b0, l'))" for b0 :: u8
  by (induction ks arbitrary: b0 l) (auto simp: split_def Let_def)

lemma unpack_collected:
  assumes "length os = 8" and "\<forall>x \<in> set os. is_bit x"
  shows "unpack_order msb (fold (\<lambda>(k, o') b. b OR push_bit k o') (zip (bit_order msb) os) 0) = os"
proof -
  obtain a b c d e f g h where os: "os = [a, b, c, d, e, f, g, h]"
    using assms(1) by (auto simp: numeral_eq_Suc length_Suc_conv)
  have "fold (\<lambda>(k, o') b. b OR push_bit k o') (zip (bit_order True) os) 0 = pack_msb os"
    unfolding os bit_order_def pack_msb_def by (simp del: push_bit_numeral_minus_1 add: or.assoc)
  moreover have "fold (\<lambda>(k, o') b. b OR push_bit k o') (zip (bit_order False) os) 0 = pack_lsb os"
    unfolding os bit_order_def pack_lsb_def pack_msb_def by (simp add: or.assoc or.commute or.left_commute)
  ultimately show ?thesis
    using unpack_pack_msb [OF assms] unpack_pack_lsb [OF assms]
    by (cases msb) (simp_all add: unpack_order_def)
qed

lemma map_state_bits:
  "(\<And>l x. is_bit (fst (g l x))) \<Longrightarrow> \<forall>y \<in> set (fst (map_state g l xs)). is_bit y"
  by (induction xs arbitrary: l) (auto simp: split_def Let_def)

lemma map_state_map: "map_state g l (map f xs) = map_state (\<lambda>l x. g l (f x)) l xs"
  by (induction xs arbitrary: l) (auto simp: split_def Let_def)

lemma self_sync_byte_bits:
  assumes "lfsr_bits L"
  shows "map_state (next_bit_scramble L) l (unpack_order msb x) =
    (unpack_order msb (fst (self_sync_byte L msb l x)), snd (self_sync_byte L msb l x))"
proof -
  let ?m = "map_state (\<lambda>l k. next_bit_scramble L l (drop_bit k x AND 1)) l (bit_order msb)"
  have "self_sync_byte L msb l x =
      (fold (\<lambda>(k, o') b. b OR push_bit k o') (zip (bit_order msb) (fst ?m)) 0, snd ?m)"
    unfolding self_sync_byte_def collect_bits by (simp add: split_def Let_def)
  moreover have "length (fst ?m) = 8" by (simp add: bit_order_def)
  moreover have "\<forall>y \<in> set (fst ?m). is_bit y"
    using assms by (intro map_state_bits) (simp add: lfsr_bits_def)
  ultimately show ?thesis
    by (simp add: unpack_order_eq [of msb x] map_state_map unpack_collected)
qed

lemma map_state_additive:
  "map_state (additive_bit L) l xs =
   (let (os, l') = map_state (\<lambda>l _. next_bit L l) l xs in (map2 (XOR) xs os, l'))"
  by (induction xs arbitrary: l) (auto simp: split_def Let_def additive_bit_def)

lemma map_state_const: "length xs = length ys \<Longrightarrow> map_state (\<lambda>l _. g l) l xs = map_state (\<lambda>l _. g l) l ys"
  by (induction xs ys arbitrary: l rule: list_induct2) (auto simp: split_def Let_def)

lemma additive_byte_bits:
  assumes "lfsr_bits L"
  shows "map_state (additive_bit L) l (unpack_order msb x) =
    (unpack_order msb (fst (additive_byte L msb l x)), snd (additive_byte L msb l x))"
proof -
  let ?m = "map_state (\<lambda>l _. next_bit L l) l (bit_order msb)"
  let ?b = "fold (\<lambda>(k, o') b. b OR push_bit k o') (zip (bit_order msb) (fst ?m)) 0"
  have e: "additive_byte L msb l x = (x XOR ?b, snd ?m)"
    unfolding additive_byte_def collect_bits by (simp add: split_def Let_def)
  have b: "unpack_order msb ?b = fst ?m"
    using assms by (intro unpack_collected map_state_bits) (simp_all add: lfsr_bits_def bit_order_def)
  have "map_state (\<lambda>l _. next_bit L l) l (unpack_order msb x) = ?m"
    by (rule map_state_const) (simp add: bit_order_def)
  moreover have "unpack_order msb (x XOR ?b) = map2 (XOR) (unpack_order msb x) (fst ?m)"
    by (simp only: unpack_order_xor b)
  ultimately show ?thesis by (simp add: map_state_additive e split_def Let_def)
qed

lemma scramble_bytes_bits:
  assumes "\<And>l x. map_state g l (unpack_order msb x) = (unpack_order msb (fst (f l x)), snd (f l x))"
  shows "map_state g l (concat (map (unpack_order msb) xs)) =
    (concat (map (unpack_order msb) (fst (map_state f l xs))), snd (map_state f l xs))"
  by (induction xs arbitrary: l) (auto simp: map_state_append assms split_def Let_def)

text \<open>C16: Scrambling whole bytes is scrambling their bits one per byte, in the bit order selected by
  \<open>d_msb\<close>: same bits out, same register state afterwards, for both kinds of scrambler.\<close>

theorem scramble_is_bitwise:
  assumes "lfsr_bits L"
  shows "scramble_one_bit_per_byte L w (concat (map (unpack_order (d_msb w)) xs)) =
    (concat (map (unpack_order (d_msb w)) (fst (scramble L w xs))), snd (scramble L w xs))"
  using scramble_bytes_bits [OF self_sync_byte_bits [OF assms], of "d_lfsr w" "d_msb w" xs]
    scramble_bytes_bits [OF additive_byte_bits [OF assms], of "d_lfsr w" "d_msb w" xs]
  by (simp add: scramble_one_bit_per_byte_def scramble_def split_def Let_def)

text \<open>An instance of the register: a Fibonacci shift register of 32 bits.\<close>

definition fib_lfsr :: "(u32 \<times> u32 \<times> u32) lfsr_ops" where
  "fib_lfsr = \<lparr>
     lfsr_new = (\<lambda>m s len. (m, s, s)),
     lfsr_reset = (\<lambda>(m, s, r). (m, s, s)),
     next_bit = (\<lambda>(m, s, r). (of_bool (bit r 0), (m, s, drop_bit 1 r OR push_bit 31 (of_bool (odd (popcount (r AND m))))))),
     next_bit_scramble = (\<lambda>(m, s, r) x. (of_bool (bit r 0), (m, s, drop_bit 1 r OR push_bit 31 (of_bool (odd (popcount (r AND m)) \<noteq> bit x 0))))),
     next_bit_descramble = (\<lambda>(m, s, r) x. (of_bool (odd (popcount (r AND m)) \<noteq> bit x 0), (m, s, drop_bit 1 r OR push_bit 31 (of_bool (bit x 0)))))\<rparr>"

lemma fib_lfsr_bits: "lfsr_bits fib_lfsr"
  by (auto simp: lfsr_bits_def fib_lfsr_def is_bit_def)

theorem scramble_is_bitwise_witness:
  "scramble_one_bit_per_byte fib_lfsr (fst (make_g3ruh fib_lfsr 1 True))
     (concat (map (unpack_order True) [0x7E, 0xA5])) =
   (concat (map (unpack_order True) (fst (scramble fib_lfsr (fst (make_g3ruh fib_lfsr 1 True)) [0x7E, 0xA5]))),
    snd (scramble fib_lfsr (fst (make_g3ruh fib_lfsr 1 True)) [0x7E, 0xA5]))"
  using scramble_is_bitwise [OF fib_lfsr_bits, of "fst (make_g3ruh fib_lfsr 1 True)" "[0x7E, 0xA5]"]
  by (simp add: make_g3ruh_def whitening_make_def)

section \<open>Round trips of the additive scrambler\<close>

lemma map_state_involution:
  assumes "\<And>l x. f l (fst (f l x)) = (x, snd (f l x))"
  shows "map_state f l (fst (map_state f l xs)) = (xs, snd (map_state f l xs))"
  by (induction xs arbitrary: l) (simp_all add: split_def Let_def assms)

lemma additive_byte_involution:
  "additive_byte L msb l (fst (additive_byte L msb l x)) = (x, snd (additive_byte L msb l x))"
  by (simp add: additive_byte_def split_def Let_def xor.assoc)

lemma additive_bit_involution:
  "additive_bit L l (fst (additive_bit L l x)) = (x, snd (additive_bit L l x))"
  by (simp add: additive_bit_def split_def Let_def xor.assoc)

lemma descramble_scramble:
  "\<not> d_self_sync w \<Longrightarrow> descramble L w (fst (scramble L w xs)) = (xs, snd (scramble L w xs))"
  using map_state_involution [of "additive_byte L (d_msb w)", OF additive_byte_involution]
  by (simp add: scramble_def descramble_def split_def Let_def)

text \<open>A scrambler that is not self synchronising, started from the same register state as
  the descrambler, is undone by it, bytewise and bitwise, for any register; both ends then stay in
  the same state.\<close>

theorem additive_scrambler_roundtrip:
  assumes "\<not> d_self_sync w"
  shows "descramble L w (fst (scramble L w xs)) = (xs, snd (scramble L w xs)) \<and>
    descramble_one_bit_per_byte L w (fst (scramble_one_bit_per_byte L w bs)) =
      (bs, snd (scramble_one_bit_per_byte L w bs))"
  using assms descramble_scramble [of w L xs] map_state_involution [of "additive_bit L", OF additive_bit_involution]
  by (simp add: scramble_one_bit_per_byte_def
    descramble_one_bit_per_byte_def split_def Let_def)

theorem additive_scrambler_roundtrip_witness:
  "descramble fib_lfsr (fst (make_ccsds fib_lfsr 1 True))
     (fst (scramble fib_lfsr (fst (make_ccsds fib_lfsr 1 True)) [0x1A, 0xCF])) =
   ([0x1A, 0xCF], snd (scramble fib_lfsr (fst (make_ccsds fib_lfsr 1 True)) [0x1A, 0xCF]))"
  using additive_scrambler_roundtrip [of "fst (make_ccsds fib_lfsr 1 True)" fib_lfsr "[0x1A, 0xCF]"]
  by (simp add: make_ccsds_def whitening_make_def)

end
