(* ===== verification/Metadata.thy ===== *)
theory Metadata
  imports Prelude
begin

text \<open>
  \<open>lib/metadata.cc\<close> and the base class of \<open>lib/decoder.cc\<close>: the keys under which a decoder
  reports what it knows of a frame, the dictionary it fills, its conversion to JSON, the status
  a call of \<open>decode\<close> returns and the state every decoder inherits. A PMT dictionary and a JSON
  object are finite maps from strings; the values are tagged. Floating point values are only
  carried, as the 64 bits of a double. The system clock is an argument.
\<close>

section \<open>Keys\<close>

datatype key =
    PDU | CRC_VALID | FREQ_OFFSET | CORRECTED_BITS | TIME | SAMPLE_START | SAMPLE_CNT
  | SYMBOL_ERASURES | SNR | DECODER_NAME | DECODER_VERSION | KEYS_NUM

definition key_list :: "key list" where
  "key_list = [PDU, CRC_VALID, FREQ_OFFSET, CORRECTED_BITS, TIME, SAMPLE_START, SAMPLE_CNT,
     SYMBOL_ERASURES, SNR, DECODER_NAME, DECODER_VERSION]"

fun value_of :: "key \<Rightarrow> string res" where
  "value_of PDU = Inr ''pdu''"
| "value_of CRC_VALID = Inr ''crc_valid''"
| "value_of FREQ_OFFSET = Inr ''freq_offset''"
| "value_of CORRECTED_BITS = Inr ''corrected_bits''"
| "value_of TIME = Inr ''time''"
| "value_of SAMPLE_START = Inr ''sample_start''"
| "value_of SAMPLE_CNT = Inr ''sample_cnt''"
| "value_of SYMBOL_ERASURES = Inr ''symbol_erasures''"
| "value_of SNR = Inr ''snr''"
| "value_of DECODER_NAME = Inr ''decoder_name''"
| "value_of DECODER_VERSION = Inr ''decoder_version''"
| "value_of KEYS_NUM = Inl (Invalid_argument ''metadata: invalid key'')"

text \<open>The loop of \<open>keys\<close> over all but the last enumerator, then the last one.\<close>

fun keys_loop :: "key list \<Rightarrow> string \<Rightarrow> string res" where
  "keys_loop [] s = Inr s"
| "keys_loop [k] s = res_bind (value_of k) (\<lambda>v. Inr (s @ v))"
| "keys_loop (k # k' # ks) s =
     res_bind (value_of k) (\<lambda>v. keys_loop (k' # ks) (s @ v @ '', ''))"

definition metadata_keys :: "string res" where
  "metadata_keys = res_bind (keys_loop key_list ''['') (\<lambda>s. Inr (s @ '']''))"

section \<open>The dictionary\<close>

datatype pmt =
    PMT_NIL
  | Blob "u8 list"
  | Symbol string
  | PBool bool
  | U64 u64
  | Dbl u64
  | Pair pmt pmt

type_synonym dict = "string \<Rightarrow> pmt option"

text \<open>
  \<open>m = pmt::dict_add(m, pmt::mp(value(k)), v)\<close>. The adders below only pass keys that have a
  name, so the exception of \<open>value\<close> does not arise.
\<close>

definition dict_put :: "dict \<Rightarrow> key \<Rightarrow> pmt \<Rightarrow> dict" where
  "dict_put m k v = (case value_of k of Inr s \<Rightarrow> m(s \<mapsto> v) | Inl _ \<Rightarrow> m)"

definition add_time_iso8601 :: "string \<Rightarrow> dict \<Rightarrow> dict" where
  "add_time_iso8601 now m = dict_put m TIME (Symbol now)"

definition add_pdu :: "dict \<Rightarrow> u8 list \<Rightarrow> nat \<Rightarrow> dict" where
  "add_pdu m inp len = dict_put m PDU (Blob (take len inp))"

definition add_crc_valid :: "dict \<Rightarrow> bool \<Rightarrow> dict" where
  "add_crc_valid m valid = dict_put m CRC_VALID (PBool valid)"

definition add_sample_start :: "dict \<Rightarrow> u64 \<Rightarrow> dict" where
  "add_sample_start m idx = dict_put m SAMPLE_START (U64 idx)"

definition add_sample_cnt :: "dict \<Rightarrow> u64 \<Rightarrow> dict" where
  "add_sample_cnt m cnt = dict_put m SAMPLE_CNT (U64 cnt)"

definition add_symbol_erasures :: "dict \<Rightarrow> u32 \<Rightarrow> dict" where
  "add_symbol_erasures m cnt = dict_put m SYMBOL_ERASURES (U64 (ucast cnt))"

definition add_corrected_bits :: "dict \<Rightarrow> u32 \<Rightarrow> dict" where
  "add_corrected_bits m cnt = dict_put m CORRECTED_BITS (U64 (ucast cnt))"

definition add_freq_offset :: "dict \<Rightarrow> u64 \<Rightarrow> dict" where
  "add_freq_offset m offset = dict_put m FREQ_OFFSET (Dbl offset)"

definition add_snr :: "dict \<Rightarrow> u64 \<Rightarrow> dict" where
  "add_snr m snr = dict_put m SNR (Dbl snr)"

definition add_decoder_name :: "dict \<Rightarrow> string \<Rightarrow> string \<Rightarrow> dict" where
  "add_decoder_name m name version =
     dict_put (dict_put m DECODER_NAME (Symbol name)) DECODER_VERSION (Symbol version)"

section \<open>The base class of the decoders\<close>

text \<open>
  A decoder class is a record that extends \<open>decoder_base\<close>, as the classes inherit from
  \<open>decoder\<close>. The constructor takes the class counter and returns its new value.
\<close>

record decoder_base =
  d_name :: string
  d_version :: string
  d_sizeof_in :: int
  d_max_frame :: nat
  d_dec_id :: int
  d_nitems_read :: u64

definition decoder_new :: "string \<Rightarrow> string \<Rightarrow> int \<Rightarrow> nat \<Rightarrow> int \<Rightarrow> decoder_base \<times> int" where
  "decoder_new name version input_item_size max_frame_len base_unique_id =
     (\<lparr>d_name = name, d_version = version, d_sizeof_in = input_item_size,
       d_max_frame = max_frame_len, d_dec_id = base_unique_id, d_nitems_read = 0\<rparr>,
      base_unique_id + 1)"

definition incr_nitems_read :: "nat \<Rightarrow> 'a decoder_base_scheme \<Rightarrow> 'a decoder_base_scheme" where
  "incr_nitems_read nitems d = d\<lparr>d_nitems_read := d_nitems_read d + of_nat nitems\<rparr>"

definition add_decoder :: "dict \<Rightarrow> 'a decoder_base_scheme option \<Rightarrow> dict" where
  "add_decoder m dec =
     (case dec of
        None \<Rightarrow> m
      | Some d \<Rightarrow> dict_put (dict_put m DECODER_NAME (Symbol (d_name d)))
                    DECODER_VERSION (Symbol (d_version d)))"

record decoder_status =
  consumed :: int
  decode_success :: bool
  data :: dict

definition status_new :: decoder_status where
  "status_new = \<lparr>consumed = 0, decode_success = False, data = Map.empty\<rparr>"

section \<open>JSON\<close>

datatype json = JString string | JBool bool | JU64 u64 | JDouble u64

text \<open>The conversions of PMT raise \<open>pmt::wrong_type\<close> on a value of another type.\<close>

fun blob_json :: "(u8 list \<Rightarrow> string) \<Rightarrow> pmt \<Rightarrow> json res" where
  "blob_json b64 (Blob b) = Inr (JString (b64 b))"
| "blob_json b64 v = Inl (Runtime_error ''wrong_type'')"

fun symbol_json :: "pmt \<Rightarrow> json res" where
  "symbol_json (Symbol s) = Inr (JString s)"
| "symbol_json v = Inl (Runtime_error ''wrong_type'')"

fun bool_json :: "pmt \<Rightarrow> json res" where
  "bool_json (PBool b) = Inr (JBool b)"
| "bool_json v = Inl (Runtime_error ''wrong_type'')"

fun uint64_json :: "pmt \<Rightarrow> json res" where
  "uint64_json (U64 x) = Inr (JU64 x)"
| "uint64_json v = Inl (Runtime_error ''wrong_type'')"

fun double_json :: "pmt \<Rightarrow> json res" where
  "double_json (Dbl x) = Inr (JDouble x)"
| "double_json v = Inl (Runtime_error ''wrong_type'')"

text \<open>\<open>v = dict_ref(m, value(k), PMT_NIL); if (v != PMT_NIL) j[value(k)] = conv(v)\<close>\<close>

definition json_field ::
    "dict \<Rightarrow> key \<Rightarrow> (pmt \<Rightarrow> json res) \<Rightarrow> (string \<Rightarrow> json option) \<Rightarrow> (string \<Rightarrow> json option) res" where
  "json_field m k conv j =
     res_bind (value_of k) (\<lambda>s.
       case m s of
         None \<Rightarrow> Inr j
       | Some v \<Rightarrow> if v = PMT_NIL then Inr j else res_bind (conv v) (\<lambda>x. Inr (j(s \<mapsto> x))))"

definition to_json :: "(u8 list \<Rightarrow> string) \<Rightarrow> dict \<Rightarrow> (string \<Rightarrow> json option) res" where
  "to_json b64 m =
     res_bind (json_field m PDU (blob_json b64) Map.empty) (\<lambda>j.
     res_bind (json_field m TIME symbol_json j) (\<lambda>j.
     res_bind (json_field m CRC_VALID bool_json j) (\<lambda>j.
     res_bind (json_field m SAMPLE_START uint64_json j) (\<lambda>j.
     res_bind (json_field m SAMPLE_CNT uint64_json j) (\<lambda>j.
     res_bind (json_field m SYMBOL_ERASURES uint64_json j) (\<lambda>j.
     res_bind (json_field m CORRECTED_BITS uint64_json j) (\<lambda>j.
     res_bind (json_field m FREQ_OFFSET double_json j) (\<lambda>j.
     res_bind (json_field m SNR double_json j) (\<lambda>j.
     res_bind (json_field m DECODER_NAME symbol_json j) (\<lambda>j.
     json_field m DECODER_VERSION symbol_json j))))))))))"

section \<open>What the dictionary promises\<close>

lemma value_of_inj: "value_of k = Inr s \<Longrightarrow> value_of k' = Inr s \<Longrightarrow> k = k'"
  by (cases k; cases k') auto

lemma dict_put_get:
  "value_of k = Inr s \<Longrightarrow> dict_put m k v s = Some v"
  "value_of k = Inr s \<Longrightarrow> k' \<noteq> k \<Longrightarrow> dict_put m k' v s = m s"
  using value_of_inj [of k s k'] by (auto simp: dict_put_def split: sum.splits)

definition conv_of :: "(u8 list \<Rightarrow> string) \<Rightarrow> key \<Rightarrow> pmt \<Rightarrow> json res" where
  "conv_of b64 k =
     (if k = PDU then blob_json b64
      else if k \<in> {TIME, DECODER_NAME, DECODER_VERSION} then symbol_json
      else if k = CRC_VALID then bool_json
      else if k \<in> {FREQ_OFFSET, SNR} then double_json
      else uint64_json)"

fun type_ok :: "key \<Rightarrow> pmt \<Rightarrow> bool" where
  "type_ok k PMT_NIL = True"
| "type_ok k (Blob b) = (k = PDU)"
| "type_ok k (Symbol s) = (k \<in> {TIME, DECODER_NAME, DECODER_VERSION})"
| "type_ok k (PBool b) = (k = CRC_VALID)"
| "type_ok k (U64 x) = (k \<in> {CORRECTED_BITS, SAMPLE_START, SAMPLE_CNT, SYMBOL_ERASURES})"
| "type_ok k (Dbl x) = (k \<in> {FREQ_OFFSET, SNR})"
| "type_ok k (Pair a b) = False"

definition well_typed :: "dict \<Rightarrow> bool" where
  "well_typed m \<longleftrightarrow> (\<forall>k s v. value_of k = Inr s \<longrightarrow> m s = Some v \<longrightarrow> type_ok k v)"

definition json_entry :: "(u8 list \<Rightarrow> string) \<Rightarrow> dict \<Rightarrow> key \<Rightarrow> json option" where
  "json_entry b64 m k =
     (case value_of k of
        Inl _ \<Rightarrow> None
      | Inr s \<Rightarrow> (case m s of None \<Rightarrow> None
                 | Some v \<Rightarrow> (case conv_of b64 k v of Inl _ \<Rightarrow> None | Inr x \<Rightarrow> Some x)))"

lemma well_typed_empty [simp]: "well_typed Map.empty"
  by (simp add: well_typed_def)

lemma well_typed_put: "well_typed m \<Longrightarrow> type_ok k v \<Longrightarrow> well_typed (dict_put m k v)"
  unfolding well_typed_def by (metis dict_put_get option.inject)

text \<open>Every adder keeps the dictionary well typed.\<close>

lemma well_typed_adders [simp, intro]:
  assumes "well_typed m"
  shows "well_typed (add_time_iso8601 now m)" "well_typed (add_pdu m b len)"
    "well_typed (add_crc_valid m v)" "well_typed (add_sample_start m idx)"
    "well_typed (add_sample_cnt m cnt)" "well_typed (add_symbol_erasures m er)"
    "well_typed (add_corrected_bits m er)" "well_typed (add_freq_offset m x)"
    "well_typed (add_snr m x)" "well_typed (add_decoder_name m n ver)"
    "well_typed (add_decoder m dec)"
  using assms
  by (simp_all add: add_time_iso8601_def add_pdu_def add_crc_valid_def add_sample_start_def
    add_sample_cnt_def add_symbol_erasures_def add_corrected_bits_def add_freq_offset_def
    add_snr_def add_decoder_name_def add_decoder_def well_typed_put split: option.splits)

fun json_fields :: "(u8 list \<Rightarrow> string) \<Rightarrow> dict \<Rightarrow> key list \<Rightarrow> (string \<Rightarrow> json option) \<Rightarrow>
    (string \<Rightarrow> json option) res" where
  "json_fields b64 m [] j = Inr j"
| "json_fields b64 m (k # ks) j = res_bind (json_field m k (conv_of b64 k) j) (json_fields b64 m ks)"

definition json_order :: "key list" where
  "json_order = [PDU, TIME, CRC_VALID, SAMPLE_START, SAMPLE_CNT,
     SYMBOL_ERASURES, CORRECTED_BITS, FREQ_OFFSET, SNR, DECODER_NAME, DECODER_VERSION]"

lemma json_order_keys: "k \<in> set json_order \<longleftrightarrow> k \<noteq> KEYS_NUM" "distinct json_order"
  by (cases k) (simp_all add: json_order_def)

lemma to_json_fields: "to_json b64 m = json_fields b64 m json_order Map.empty"
proof -
  have r: "res_bind r Inr = r" for r :: "'a res" by (cases r) simp_all
  have "json_fields b64 m (k # ks) = (\<lambda>j. res_bind (json_field m k (conv_of b64 k) j) (json_fields b64 m ks))"
    for k ks by (simp add: fun_eq_iff)
  moreover have "json_fields b64 m [] = Inr" by (simp add: fun_eq_iff)
  ultimately show ?thesis by (simp add: to_json_def json_order_def conv_of_def r del: json_fields.simps)
qed

lemma conv_ok: "type_ok k v \<Longrightarrow> v \<noteq> PMT_NIL \<Longrightarrow> \<exists>x. conv_of b64 k v = Inr x"
  by (cases v) (auto simp: conv_of_def)

lemma conv_nil: "\<exists>e. conv_of b64 k PMT_NIL = Inl e"
  by (auto simp: conv_of_def)

lemma json_field_ok:
  assumes "well_typed m" and "value_of k = Inr s"
  shows "json_field m k (conv_of b64 k) j =
    Inr (case json_entry b64 m k of None \<Rightarrow> j | Some x \<Rightarrow> j(s \<mapsto> x))"
proof (cases "m s")
  case None
  then show ?thesis using assms by (simp add: json_field_def json_entry_def)
next
  case (Some v)
  then have t: "type_ok k v" using assms by (auto simp: well_typed_def)
  show ?thesis
  proof (cases "v = PMT_NIL")
    case True
    then show ?thesis using Some assms(2) conv_nil [of b64 k]
      by (auto simp: json_field_def json_entry_def)
  next
    case False
    then obtain x where "conv_of b64 k v = Inr x" using conv_ok [OF t] by blast
    then show ?thesis using Some assms(2) False by (simp add: json_field_def json_entry_def)
  qed
qed

lemma json_fields_ok:
  assumes "well_typed m"
  shows "\<forall>k \<in> set ks. k \<noteq> KEYS_NUM \<Longrightarrow> distinct ks \<Longrightarrow>
    \<exists>j'. json_fields b64 m ks j = Inr j' \<and>
      (\<forall>s. j' s = (if \<exists>k \<in> set ks. value_of k = Inr s \<and> json_entry b64 m k \<noteq> None
                  then json_entry b64 m (THE k. value_of k = Inr s) else j s))"
proof (induction ks arbitrary: j)
  case Nil
  then show ?case by simp
next
  case (Cons k ks)
  obtain s where s: "value_of k = Inr s" using Cons.prems(1) by (cases k) auto
  have the: "(THE k. value_of k = Inr s) = k" using s value_of_inj by blast
  let ?j = "case json_entry b64 m k of None \<Rightarrow> j | Some x \<Rightarrow> j(s \<mapsto> x)"
  obtain j' where j': "json_fields b64 m ks ?j = Inr j'"
    "\<forall>s. j' s = (if \<exists>k \<in> set ks. value_of k = Inr s \<and> json_entry b64 m k \<noteq> None
                  then json_entry b64 m (THE k. value_of k = Inr s) else ?j s)"
    using Cons.IH [of ?j] Cons.prems by auto
  have "j' t = (if \<exists>k \<in> set (k # ks). value_of k = Inr t \<and> json_entry b64 m k \<noteq> None
                  then json_entry b64 m (THE k. value_of k = Inr t) else j t)" for t
  proof (cases "t = s")
    case True
    have "value_of k' = Inr s \<Longrightarrow> k' = k" for k' using s value_of_inj by blast
    then have "\<not> (\<exists>k \<in> set ks. value_of k = Inr s \<and> json_entry b64 m k \<noteq> None)"
      using Cons.prems(2) by auto
    then show ?thesis using True s the j'(2) by (auto split: option.splits)
  next
    case False
    then show ?thesis using s j'(2) by (auto split: option.splits)
  qed
  then show ?case using j'(1) json_field_ok [OF assms s] by auto
qed

lemma to_json_entries:
  assumes "well_typed m"
  shows "\<exists>j. to_json b64 m = Inr j \<and>
    (\<forall>k s. value_of k = Inr s \<longrightarrow> j s = json_entry b64 m k) \<and>
    (\<forall>s. j s \<noteq> None \<longrightarrow> (\<exists>k. value_of k = Inr s))"
proof -
  obtain j where j: "json_fields b64 m json_order Map.empty = Inr j"
    "\<forall>s. j s = (if \<exists>k \<in> set json_order. value_of k = Inr s \<and> json_entry b64 m k \<noteq> None
      then json_entry b64 m (THE k. value_of k = Inr s) else None)"
    using json_fields_ok [OF assms, of json_order b64 Map.empty] json_order_keys by blast
  have "j s = json_entry b64 m k" if s: "value_of k = Inr s" for k s
  proof -
    have the: "(THE k. value_of k = Inr s) = k" using s value_of_inj by blast
    have "k \<in> set json_order" using s by (auto simp: json_order_keys)
    then have "(\<exists>k \<in> set json_order. value_of k = Inr s \<and> json_entry b64 m k \<noteq> None) \<longleftrightarrow>
        json_entry b64 m k \<noteq> None"
      using s value_of_inj by blast
    then show ?thesis using j(2) the by simp
  qed
  moreover have "\<exists>k. value_of k = Inr s" if "j s \<noteq> None" for s
    using that j(2) [rule_format, of s] by metis
  ultimately show ?thesis unfolding to_json_fields using j(1) by blast
qed

text \<open>C17: A dictionary that the adders have filled converts to JSON without an exception; every key
  carries the JSON form of what was stored under it, absent keys stay absent, and nothing else
  appears.\<close>

theorem to_json_total:
  assumes "well_typed m"
  shows "\<exists>j. to_json b64 m = Inr j \<and>
    (\<forall>k s. value_of k = Inr s \<longrightarrow> j s = json_entry b64 m k) \<and>
    (\<forall>s. j s \<noteq> None \<longrightarrow> (\<exists>k. value_of k = Inr s))"
  using assms by (rule to_json_entries)

theorem to_json_total_witness:
  "\<exists>j. to_json (\<lambda>b. ''x'') (add_pdu (add_crc_valid Map.empty True) [1, 2, 3] 2) = Inr j \<and>
    j ''pdu'' = Some (JString ''x'') \<and> j ''crc_valid'' = Some (JBool True) \<and> j ''snr'' = None"
proof -
  let ?m = "add_pdu (add_crc_valid Map.empty True) [1, 2, 3] 2"
  obtain j where "to_json (\<lambda>b. ''x'') ?m = Inr j"
    "\<forall>k s. value_of k = Inr s \<longrightarrow> j s = json_entry (\<lambda>b. ''x'') ?m k"
    using to_json_total [of ?m "\<lambda>b. ''x''"] by auto
  note j = this
  have "j ''pdu'' = json_entry (\<lambda>b. ''x'') ?m PDU" "j ''snr'' = json_entry (\<lambda>b. ''x'') ?m SNR"
    "j ''crc_valid'' = json_entry (\<lambda>b. ''x'') ?m CRC_VALID"
    using j(2) by simp_all
  with j(1) show ?thesis
    by (simp add: json_entry_def add_pdu_def add_crc_valid_def dict_put_def conv_of_def)
qed

text \<open>The keys have pairwise different names, and the list of names that \<open>keys\<close> prints is
  the one of the documentation.\<close>

theorem metadata_keys_listed:
  "metadata_keys = Inr (''[pdu, crc_valid, freq_offset, corrected_bits, time, sample_start, '' @
     ''sample_cnt, symbol_erasures, snr, decoder_name, decoder_version]'') \<and>
   distinct (map value_of key_list)"
  by (simp add: metadata_keys_def key_list_def)

end
