(* ===== verification/Ax25_Encoder.thy ===== *)
theory Ax25_Encoder
  imports Ax25 Whitening Metadata
begin

text \<open>
  \<open>lib/ax25_encoder.cc\<close>: the AX.25 transmitter. The output buffer is the list of the bytes
  written so far together with its allocated size \<open>cap\<close>; a write past it is the result
  \<open>Oob_write\<close>. The header, the frame check sequence, the bit stuffing loop, the postamble, the
  zero padding, the scrambler and the NRZI stage follow the code; the abstract line is stated
  with \<open>stuff\<close> and \<open>flag_bits\<close> and the encoder is shown to refine it.
\<close>

unbundle bit_operations_syntax

section \<open>The class\<close>

record ax25_encoder =
  d_dest_addr :: "u8 list"
  d_dest_ssid :: u8
  d_src_addr :: "u8 list"
  d_src_ssid :: u8
  d_preamble_len :: nat
  d_postamble_len :: nat
  d_scramble :: bool
  d_nrzi :: bool

definition ax25_encoder_new ::
    "u8 list \<Rightarrow> u8 \<Rightarrow> u8 list \<Rightarrow> u8 \<Rightarrow> nat \<Rightarrow> nat \<Rightarrow> bool \<Rightarrow> bool \<Rightarrow> ax25_encoder res" where
  "ax25_encoder_new dest_addr dest_ssid src_addr src_ssid preamble_len postamble_len scramb nrzi =
     (if length dest_addr = 0 \<or> callsign_max_len < length dest_addr
      then Inl (Invalid_argument ''ax25_encoder: Invalid destination callsign'')
      else if length src_addr = 0 \<or> callsign_max_len < length src_addr
      then Inl (Invalid_argument ''ax25_encoder: Invalid source callsign'')
      else Inr \<lparr>d_dest_addr = dest_addr, d_dest_ssid = dest_ssid, d_src_addr = src_addr,
                d_src_ssid = src_ssid, d_preamble_len = preamble_len,
                d_postamble_len = postamble_len, d_scramble = scramb, d_nrzi = nrzi\<rparr>)"

text \<open>The bytes that \<open>insert_address\<close>, \<open>insert_ctrl\<close> and \<open>insert_pid\<close> store.\<close>

definition insert_callsign :: "u8 list \<Rightarrow> u8 list" where
  "insert_callsign addr =
     map (push_bit 1) addr @ replicate (callsign_max_len - length addr) (push_bit 1 0x20)"

definition insert_address :: "ax25_encoder \<Rightarrow> u8 list" where
  "insert_address e =
     insert_callsign (d_dest_addr e) @ [push_bit 1 (0b1111 AND d_dest_ssid e) OR 0b01100000] @
     insert_callsign (d_src_addr e) @ [push_bit 1 (0b1111 AND d_src_ssid e) OR 0b01100001]"

definition insert_ctrl :: "u8 list" where
  "insert_ctrl = [0]"

definition insert_pid :: "u8 list" where
  "insert_pid = [0xF0]"

text \<open>
  The frame assembled in \<open>tmp\<close>: \<open>insert_address\<close> returns \<open>min_addr_len\<close>, which is the number
  of bytes it stores for callsigns of at most six characters; the checksum is stored low byte
  first.
\<close>

definition ax25_frame :: "ax25_encoder \<Rightarrow> u8 list \<Rightarrow> u8 list" where
  "ax25_frame e pdu =
     (let tmp = insert_address e @ insert_ctrl @ insert_pid @ pdu;
          crc = ax25_crc tmp
      in tmp @ [ucast crc, ucast (drop_bit 8 crc)])"

text \<open>The encoding loop: bytes written, the register \<open>sr\<close> and the count \<open>enc_bits\<close>.\<close>

record enc_state =
  e_out :: "u8 list"
  e_sr :: u8
  e_bits :: nat

definition flush :: "nat \<Rightarrow> enc_state \<Rightarrow> enc_state res" where
  "flush cap s =
     (if e_bits s = 8
      then if length (e_out s) < cap
           then Inr (s\<lparr>e_out := e_out s @ [e_sr s], e_bits := 0\<rparr>)
           else Inl Oob_write
      else Inr s)"

definition shift_in :: "u8 \<Rightarrow> enc_state \<Rightarrow> enc_state" where
  "shift_in b s = s\<lparr>e_sr := push_bit 1 (e_sr s) OR b, e_bits := e_bits s + 1\<rparr>"

definition stuff_if :: "enc_state \<Rightarrow> enc_state" where
  "stuff_if s =
     (if e_sr s AND 0x1F = 0x1F then s\<lparr>e_sr := push_bit 1 (e_sr s), e_bits := e_bits s + 1\<rparr>
      else s)"

fun payload_loop :: "nat \<Rightarrow> u8 list \<Rightarrow> enc_state \<Rightarrow> enc_state res" where
  "payload_loop cap [] s = Inr s"
| "payload_loop cap (b # bs) s =
     res_bind (flush cap (shift_in b s)) (\<lambda>s1.
     res_bind (flush cap (stuff_if s1)) (\<lambda>s2.
     payload_loop cap bs s2))"

fun postamble_loop :: "nat \<Rightarrow> u8 list \<Rightarrow> enc_state \<Rightarrow> enc_state res" where
  "postamble_loop cap [] s = Inr s"
| "postamble_loop cap (b # bs) s =
     res_bind (flush cap (shift_in b s)) (\<lambda>s1. postamble_loop cap bs s1)"

definition pad_last :: "nat \<Rightarrow> enc_state \<Rightarrow> enc_state res" where
  "pad_last cap s =
     (if e_bits s \<noteq> 0
      then if length (e_out s) < cap
           then Inr (s\<lparr>e_out := e_out s @ [push_bit (8 - e_bits s) (e_sr s)]\<rparr>)
           else Inl Oob_write
      else Inr s)"

definition preamble_start :: "nat \<Rightarrow> nat \<Rightarrow> enc_state res" where
  "preamble_start cap n =
     (if n \<le> cap then Inr \<lparr>e_out = replicate n sync_flag, e_sr = 0, e_bits = 0\<rparr>
      else Inl Oob_write)"

text \<open>Bit \<open>i\<close> of a loop over bytes, \<open>(tmp[i / 8] >> (i % 8)) & 0x1\<close>, for all bytes.\<close>

definition lsb_bits :: "u8 list \<Rightarrow> u8 list" where
  "lsb_bits bytes =
     map (\<lambda>i. drop_bit (i mod 8) (bytes ! (i div 8)) AND 0x1) [0..<length bytes * 8]"

definition buffer_size :: "ax25_encoder \<Rightarrow> nat \<Rightarrow> nat" where
  "buffer_size e pdu_len =
     d_preamble_len e + d_postamble_len e + pdu_len + pdu_len div 8 + max_header_len + 4"

definition line_bytes :: "ax25_encoder \<Rightarrow> u8 list \<Rightarrow> u8 list res" where
  "line_bytes e pdu =
     (let cap = buffer_size e (length pdu)
      in res_bind (preamble_start cap (d_preamble_len e)) (\<lambda>s0.
         res_bind (payload_loop cap (lsb_bits (ax25_frame e pdu)) s0) (\<lambda>s1.
         res_bind (postamble_loop cap (lsb_bits (replicate (d_postamble_len e) sync_flag)) s1) (\<lambda>s2.
         res_bind (pad_last cap s2) (\<lambda>s3. Inr (e_out s3))))))"

text \<open>One byte of the NRZI stage, \<open>prev\<close> carried from byte to byte.\<close>

definition nrzi_byte :: "u8 \<Rightarrow> u8 \<Rightarrow> u8 \<times> u8" where
  "nrzi_byte prev x =
     (let inv = NOT x
      in fold (\<lambda>k (b, prev). let prev' = (drop_bit k inv AND 0x1) XOR prev
                            in (b OR push_bit k (prev' AND 0x1), prev'))
           [7, 6, 5, 4, 3, 2, 1, 0] (0, prev))"

fun message_blob :: "string \<Rightarrow> pmt \<Rightarrow> u8 list res" where
  "message_blob who (Blob b) = Inr b"
| "message_blob who (Pair a (Blob b)) = Inr b"
| "message_blob who (Pair a v) = Inl (Runtime_error ''wrong_type'')"
| "message_blob who v = Inl (Runtime_error (who @ '': received a malformed pdu message''))"

text \<open>\<open>uid\<close> is the counter of the whitening class, for the scrambler made here.\<close>

definition ax25_encode :: "'l lfsr_ops \<Rightarrow> int \<Rightarrow> ax25_encoder \<Rightarrow> pmt \<Rightarrow> pmt res" where
  "ax25_encode L uid e msg =
     res_bind (message_blob ''ax25_encoder'' msg) (\<lambda>pdu.
     res_bind (line_bytes e pdu) (\<lambda>out0.
     let out1 = (if d_scramble e then fst (scramble L (fst (make_g3ruh L uid True)) out0) else out0);
         out2 = (if d_nrzi e then fst (map_state nrzi_byte 0 out1) else out1)
     in Inr (Pair PMT_NIL (Blob out2))))"

section \<open>The bits on the line\<close>

lemma concat_nth_8:
  assumes "\<And>x. length (f x) = 8"
  shows "n < length xs * 8 \<Longrightarrow> concat (map f xs) ! n = f (xs ! (n div 8)) ! (n mod 8)"
proof (induction xs arbitrary: n)
  case Nil
  then show ?case by simp
next
  case (Cons x xs)
  show ?case
  proof (cases "n < 8")
    case True
    then show ?thesis using assms by (simp add: nth_append)
  next
    case False
    then obtain m where m: "n = m + 8" using le_add_diff_inverse2 [of 8 n] by (metis not_less)
    then show ?thesis using Cons assms by (simp add: nth_append div_add_self2)
  qed
qed

lemma length_concat_8: "(\<And>x. length (f x) = 8) \<Longrightarrow> length (concat (map f xs)) = length xs * 8"
  by (induction xs) auto

lemma unpack_lsb_nth: "i < 8 \<Longrightarrow> unpack_lsb b ! i = drop_bit i b AND 1"
  by (auto simp: unpack_lsb_def rev_nth unpack_msb_bit and_one_eq mod_2_eq_odd bit_iff_odd_drop_bit)

lemma lsb_bits_eq: "lsb_bits bytes = concat (map unpack_lsb bytes)"
proof (rule nth_equalityI)
  have len: "length (lsb_bits bytes) = length bytes * 8" by (simp add: lsb_bits_def)
  then show "length (lsb_bits bytes) = length (concat (map unpack_lsb bytes))"
    by (simp add: length_concat_8)
  fix i
  assume "i < length (lsb_bits bytes)"
  then show "lsb_bits bytes ! i = concat (map unpack_lsb bytes) ! i"
    unfolding len by (simp add: concat_nth_8 unpack_lsb_nth) (simp add: lsb_bits_def)
qed

lemma lsb_bits_is_bit: "b \<in> set (lsb_bits bytes) \<Longrightarrow> is_bit b"
  by (auto simp: lsb_bits_eq dest: unpack_lsb_bits)

lemma lsb_bits_append: "lsb_bits (xs @ ys) = lsb_bits xs @ lsb_bits ys"
  by (simp add: lsb_bits_eq)

lemma lsb_bits_flag: "lsb_bits (replicate n sync_flag) = concat (replicate n flag_bits)"
proof -
  have "unpack_lsb sync_flag = flag_bits"
    by (simp add: unpack_lsb_def unpack_msb_def sync_flag_def flag_bits_def)
  then show ?thesis by (simp add: lsb_bits_eq)
qed

text \<open>What an encoder state has put on the line: the bytes stored and the bits still in \<open>sr\<close>.\<close>

definition pending :: "nat \<Rightarrow> u8 \<Rightarrow> u8 list" where
  "pending n sr = map (\<lambda>j. if bit sr (n - 1 - j) then 1 else 0) [0..<n]"

definition line_of :: "enc_state \<Rightarrow> u8 list" where
  "line_of s = concat (map unpack_msb (e_out s)) @ pending (e_bits s) (e_sr s)"

lemma pending_8: "pending 8 sr = unpack_msb sr"
  by (rule nth_equalityI) (simp_all add: pending_def unpack_msb_bit)

lemma shift_bit: "bit (push_bit 1 sr OR b) n \<longleftrightarrow> (if n = 0 then b = 1 else n < 8 \<and> bit sr (n - 1))"
  if "is_bit b" for b sr :: u8
  using is_bit_bit [OF that, of n] by (auto simp: bit_or_iff bit_shl1)

lemma pending_shift:
  assumes "is_bit b" and "n < 8"
  shows "pending (Suc n) (push_bit 1 sr OR b) = pending n sr @ [b]"
proof (rule nth_equalityI)
  fix j
  assume "j < length (pending (Suc n) (push_bit 1 sr OR b))"
  then have "j < Suc n" by (simp add: pending_def)
  then show "pending (Suc n) (push_bit 1 sr OR b) ! j = (pending n sr @ [b]) ! j"
    using assms shift_bit [OF assms(1), of sr]
    by (cases "j = n") (auto simp: pending_def nth_append is_bit_def simp del: push_bit_of_1 push_bit_Suc)
qed (simp add: pending_def)

lemma length_pending [simp]: "length (pending n sr) = n"
  by (simp add: pending_def)

lemma length_line_of: "length (line_of s) = length (e_out s) * 8 + e_bits s"
  by (simp add: line_of_def length_concat_8)

definition enc_ok :: "nat \<Rightarrow> enc_state \<Rightarrow> bool" where
  "enc_ok cap s \<longleftrightarrow> e_bits s < 8 \<and> length (e_out s) \<le> cap"

lemma flush_id: "e_bits s < 8 \<Longrightarrow> flush cap s = Inr s"
  by (simp add: flush_def)

lemma flush_shift_in:
  assumes "enc_ok cap s" and "is_bit b"
  shows "length (line_of s) + 1 < 8 * Suc cap \<Longrightarrow>
      \<exists>s'. flush cap (shift_in b s) = Inr s' \<and> enc_ok cap s' \<and> line_of s' = line_of s @ [b] \<and>
        e_sr s' = push_bit 1 (e_sr s) OR b"
    and "\<not> length (line_of s) + 1 < 8 * Suc cap \<Longrightarrow> flush cap (shift_in b s) = Inl Oob_write"
proof -
  have s: "e_bits s < 8" "length (e_out s) \<le> cap" using assms(1) by (auto simp: enc_ok_def)
  have p: "pending (Suc (e_bits s)) (push_bit 1 (e_sr s) OR b) = pending (e_bits s) (e_sr s) @ [b]"
    by (rule pending_shift [OF assms(2) s(1)])
  show "\<exists>s'. flush cap (shift_in b s) = Inr s' \<and> enc_ok cap s' \<and> line_of s' = line_of s @ [b] \<and>
      e_sr s' = push_bit 1 (e_sr s) OR b" if l: "length (line_of s) + 1 < 8 * Suc cap"
  proof (cases "e_bits s = 7")
    case True
    then have "length (e_out s) < cap" using l by (simp add: length_line_of)
    moreover have "pending 8 (push_bit 1 (e_sr s) OR b) = pending 7 (e_sr s) @ [b]"
      using p True by simp
    ultimately show ?thesis using True
      by (auto simp: flush_def shift_in_def enc_ok_def line_of_def pending_8 pending_def [of 0])
  next
    case False
    then show ?thesis using s p
      by (auto simp: flush_def shift_in_def enc_ok_def line_of_def)
  qed
  show "flush cap (shift_in b s) = Inl Oob_write" if l: "\<not> length (line_of s) + 1 < 8 * Suc cap"
  proof -
    have "e_bits s = 7" "length (e_out s) = cap"
      using s l by (auto simp: length_line_of)
    then show ?thesis by (simp add: flush_def shift_in_def)
  qed
qed

text \<open>The plain loop: all bits go on the line, or the buffer is exceeded.\<close>

lemma postamble_loop_line:
  assumes "\<forall>b \<in> set xs. is_bit b"
  shows "enc_ok cap s \<Longrightarrow>
    (if length (line_of s @ xs) < 8 * Suc cap
     then \<exists>s'. postamble_loop cap xs s = Inr s' \<and> enc_ok cap s' \<and> line_of s' = line_of s @ xs
     else postamble_loop cap xs s = Inl Oob_write)"
  using assms
proof (induction xs arbitrary: s)
  case Nil
  then show ?case by (simp add: length_line_of enc_ok_def)
next
  case (Cons b bs)
  show ?case
  proof (cases "length (line_of s) + 1 < 8 * Suc cap")
    case True
    then obtain s' where s': "flush cap (shift_in b s) = Inr s'" "enc_ok cap s'" "line_of s' = line_of s @ [b]"
      using flush_shift_in(1) [OF Cons.prems(1)] Cons.prems(2) by (auto simp del: mult_Suc_right)
    then show ?thesis using Cons.IH [OF s'(2)] Cons.prems(2)
      by (auto simp del: mult_Suc_right split: if_splits)
  next
    case False
    then show ?thesis using flush_shift_in(2) [OF Cons.prems(1)] Cons.prems(2) by (simp del: mult_Suc_right)
  qed
qed

text \<open>\<open>run n sr\<close>: exactly \<open>n\<close> ones have just been sent. The payload loop is then the plain loop
  over the stuffed bits.\<close>

definition run :: "nat \<Rightarrow> u8 \<Rightarrow> bool" where
  "run n sr \<longleftrightarrow> n \<le> 4 \<and> (\<forall>i < n. bit sr i) \<and> \<not> bit sr n"

lemma five_ones: "sr AND 0x1F = 0x1F \<longleftrightarrow> (\<forall>i < 5. bit sr i)" for sr :: u8
proof -
  have m: "(0x1F :: u8) = mask 5" by (simp add: mask_eq_exp_minus_1)
  have "sr AND mask 5 = mask 5 \<longleftrightarrow> (\<forall>i < 5. bit sr i)"
  proof
    assume e: "sr AND mask 5 = mask 5"
    show "\<forall>i < 5. bit sr i"
    proof (intro allI impI)
      fix i :: nat
      assume "i < 5"
      moreover have "bit (sr AND mask 5) i = bit (mask 5 :: u8) i" using e by (rule arg_cong)
      ultimately show "bit sr i" by (simp add: bit_and_iff bit_mask_iff)
    qed
  next
    assume "\<forall>i < 5. bit sr i"
    then show "sr AND mask 5 = mask 5"
      by (intro bit_word_eqI) (auto simp: bit_and_iff bit_mask_iff)
  qed
  then show ?thesis by (simp add: m)
qed

lemma run_one: "run n sr \<Longrightarrow> n < 4 \<Longrightarrow> run (Suc n) (push_bit 1 sr OR 1) \<and> (push_bit 1 sr OR 1) AND 0x1F \<noteq> 0x1F"
  unfolding five_ones run_def using shift_bit [of 1 sr] by (auto simp: less_Suc_eq_0_disj)

lemma run_five: "run 4 sr \<Longrightarrow> (push_bit 1 sr OR 1) AND 0x1F = 0x1F"
  unfolding five_ones run_def using shift_bit [of 1 sr] by auto

lemma run_zero: "run 0 (push_bit 1 sr OR 0) \<and> (push_bit 1 sr OR 0) AND 0x1F \<noteq> 0x1F"
  unfolding five_ones run_def using shift_bit [of 0 sr] by (auto intro!: exI [of _ 0])

lemma payload_loop_stuff:
  "enc_ok cap s \<Longrightarrow> run n (e_sr s) \<Longrightarrow> \<forall>b \<in> set xs. is_bit b \<Longrightarrow>
   payload_loop cap xs s = postamble_loop cap (stuff n xs) s"
proof (induction xs arbitrary: s n)
  case Nil
  then show ?case by simp
next
  case (Cons b bs)
  show ?case
  proof (cases "flush cap (shift_in b s)")
    case (Inl e)
    then show ?thesis using Cons.prems by (auto simp: is_bit_def)
  next
    case (Inr s1)
    have bit: "is_bit b" using Cons.prems(3) by simp
    have s1: "enc_ok cap s1" "e_sr s1 = push_bit 1 (e_sr s) OR b"
      using flush_shift_in [OF Cons.prems(1) bit] Inr by (cases "length (line_of s) + 1 < 8 * Suc cap"; fastforce)+
    have id: "flush cap s1 = Inr s1" using s1(1) by (simp add: enc_ok_def flush_id)
    consider "b = 0" | "b = 1" "n < 4" | "b = 1" "n = 4"
      using bit Cons.prems(2) by (auto simp: is_bit_def run_def le_less)
    then show ?thesis
    proof cases
      case 1
      then show ?thesis using Cons Inr id s1 run_zero [of "e_sr s"]
        by (simp add: stuff_if_def del: or.right_neutral)
    next
      case 2
      then show ?thesis using Cons Inr id s1 run_one [OF Cons.prems(2)]
        by (simp add: stuff_if_def)
    next
      case 3
      then have st: "stuff_if s1 = shift_in 0 s1"
        using s1(2) Cons.prems(2) run_five [of "e_sr s"] by (simp add: stuff_if_def shift_in_def)
      show ?thesis
      proof (cases "flush cap (shift_in 0 s1)")
        case (Inl e)
        then show ?thesis using 3 Inr st by simp
      next
        case 4: (Inr s2)
        have s2: "enc_ok cap s2" "e_sr s2 = push_bit 1 (e_sr s1) OR 0"
          using flush_shift_in [OF s1(1), of 0] 4 by (cases "length (line_of s1) + 1 < 8 * Suc cap"; fastforce)+
        show ?thesis using 3 Inr st 4 Cons.IH [OF s2(1)] s2(2) run_zero [of "e_sr s1"] Cons.prems(3)
          by (simp del: or.right_neutral)
      qed
    qed
  qed
qed

lemma pad_last_line:
  assumes "enc_ok cap s"
  shows "if length (line_of s) \<le> 8 * cap
    then \<exists>s'. pad_last cap s = Inr s' \<and>
      concat (map unpack_msb (e_out s')) = line_of s @ replicate ((8 - e_bits s) mod 8) 0
    else pad_last cap s = Inl Oob_write"
proof (cases "e_bits s = 0")
  case True
  then show ?thesis using assms by (simp add: pad_last_def line_of_def pending_def length_line_of enc_ok_def length_concat_8)
next
  case False
  have k: "e_bits s < 8" using assms by (simp add: enc_ok_def)
  have "unpack_msb (push_bit (8 - e_bits s) (e_sr s)) =
      pending (e_bits s) (e_sr s) @ replicate ((8 - e_bits s) mod 8) 0"
  proof (rule nth_equalityI)
    fix i
    assume "i < length (unpack_msb (push_bit (8 - e_bits s) (e_sr s)))"
    then have i: "i < 8" by simp
    then have "bit (push_bit (8 - e_bits s) (e_sr s)) (7 - i) \<longleftrightarrow> i < e_bits s \<and> bit (e_sr s) (e_bits s - 1 - i)"
      using k by (auto simp: bit_push_bit_iff)
    then show "unpack_msb (push_bit (8 - e_bits s) (e_sr s)) ! i =
        (pending (e_bits s) (e_sr s) @ replicate ((8 - e_bits s) mod 8) 0) ! i"
      using i k False by (simp add: unpack_msb_bit nth_append pending_def)
  qed (use k False in simp)
  then show ?thesis using False k assms
    by (auto simp: pad_last_def line_of_def length_line_of enc_ok_def length_concat_8)
qed

text \<open>The abstract line: flags, the stuffed frame, flags.\<close>

definition line_bits :: "ax25_encoder \<Rightarrow> u8 list \<Rightarrow> u8 list" where
  "line_bits e pdu =
     concat (replicate (d_preamble_len e) flag_bits) @ stuff 0 (lsb_bits (ax25_frame e pdu)) @
     concat (replicate (d_postamble_len e) flag_bits)"

lemma preamble_line:
  "n \<le> cap \<Longrightarrow> \<exists>s. preamble_start cap n = Inr s \<and> enc_ok cap s \<and>
    line_of s = concat (replicate n flag_bits) \<and> run 0 (e_sr s)"
proof -
  have "unpack_msb sync_flag = flag_bits"
    by (simp add: unpack_msb_def sync_flag_def flag_bits_def)
  then show "n \<le> cap \<Longrightarrow> \<exists>s. preamble_start cap n = Inr s \<and> enc_ok cap s \<and>
      line_of s = concat (replicate n flag_bits) \<and> run 0 (e_sr s)"
    by (simp add: preamble_start_def enc_ok_def line_of_def pending_def run_def)
qed

lemma postamble_loop_append:
  "postamble_loop cap (xs @ ys) s = res_bind (postamble_loop cap xs s) (postamble_loop cap ys)"
  by (induction xs arbitrary: s) (auto simp: res_bind_def split: sum.splits)

lemma flag_bits_is_bit: "b \<in> set (concat (replicate n flag_bits)) \<Longrightarrow> is_bit b"
  by (auto simp: flag_bits_def split: if_splits)

lemma line_bytes_line:
  "if length (line_bits e pdu) \<le> 8 * buffer_size e (length pdu)
   then \<exists>out. line_bytes e pdu = Inr out \<and>
     (\<exists>k < 8. concat (map unpack_msb out) = line_bits e pdu @ replicate k 0)
   else line_bytes e pdu = Inl Oob_write"
proof -
  define cap where "cap = buffer_size e (length pdu)"
  define xs where "xs = stuff 0 (lsb_bits (ax25_frame e pdu)) @ concat (replicate (d_postamble_len e) flag_bits)"
  have "d_preamble_len e \<le> cap" by (simp add: cap_def buffer_size_def)
  then obtain s0 where s0: "preamble_start cap (d_preamble_len e) = Inr s0" "enc_ok cap s0"
    "line_of s0 = concat (replicate (d_preamble_len e) flag_bits)" "run 0 (e_sr s0)"
    using preamble_line by blast
  have line: "line_of s0 @ xs = line_bits e pdu" by (simp add: s0(3) xs_def line_bits_def)
  have xs: "\<forall>b \<in> set xs. is_bit b"
    using stuff_bits flag_bits_is_bit by (auto simp: xs_def simp del: set_concat)
  have run: "line_bytes e pdu =
      res_bind (postamble_loop cap xs s0) (\<lambda>s2. res_bind (pad_last cap s2) (\<lambda>s3. Inr (e_out s3)))"
    using payload_loop_stuff [OF s0(2) s0(4), of "lsb_bits (ax25_frame e pdu)"]
    by (simp add: line_bytes_def Let_def cap_def [symmetric] s0(1) xs_def postamble_loop_append
      lsb_bits_flag lsb_bits_is_bit res_bind_def split: sum.splits)
  show ?thesis
  proof (cases "length (line_bits e pdu) < 8 * Suc cap")
    case True
    then obtain s2 where s2: "postamble_loop cap xs s0 = Inr s2" "enc_ok cap s2" "line_of s2 = line_bits e pdu"
      using postamble_loop_line [OF xs s0(2)] line by (auto split: if_splits)
    have "(8 - e_bits s2) mod 8 < 8" by simp
    then show ?thesis using pad_last_line [OF s2(2)] s2(3) unfolding run s2(1) cap_def [symmetric]
      by (auto simp del: mod_less_divisor)
  next
    case False
    then show ?thesis using postamble_loop_line [OF xs s0(2)] line unfolding run cap_def [symmetric]
      by (auto split: if_splits)
  qed
qed

lemma length_frame:
  assumes "length (d_dest_addr e) \<le> 6" and "length (d_src_addr e) \<le> 6"
  shows "length (ax25_frame e pdu) = 18 + length pdu"
  using assms by (simp add: ax25_frame_def Let_def insert_address_def insert_callsign_def
    insert_ctrl_def insert_pid_def callsign_max_len_def)

lemma length_lsb_bits [simp]: "length (lsb_bits bytes) = length bytes * 8"
  by (simp add: lsb_bits_def)

lemma length_flags [simp]: "length (concat (replicate n flag_bits)) = 8 * n"
  by (induction n) (simp_all add: flag_bits_def)

lemma buffer_size_eq:
  "buffer_size e n = d_preamble_len e + d_postamble_len e + n + n div 8 + 77"
  by (simp add: buffer_size_def max_header_len_def max_addr_len_def max_ctrl_len_def pid_len_def)

lemma ax25_encoder_new_ok:
  "ax25_encoder_new da ds sa ss pre post scr nrzi = Inr e \<Longrightarrow>
   length (d_dest_addr e) \<le> 6 \<and> length (d_src_addr e) \<le> 6 \<and> 0 < length (d_dest_addr e) \<and>
   d_dest_addr e = da \<and> d_dest_ssid e = ds \<and> d_src_addr e = sa \<and> d_src_ssid e = ss \<and>
   d_preamble_len e = pre \<and> d_postamble_len e = post \<and> d_scramble e = scr \<and> d_nrzi e = nrzi"
  by (auto simp: ax25_encoder_new_def callsign_max_len_def split: if_splits)

lemma line_fits:
  assumes "length (d_dest_addr e) \<le> 6" and "length (d_src_addr e) \<le> 6" and "length pdu \<le> 720"
  shows "length (line_bits e pdu) \<le> 8 * buffer_size e (length pdu)"
proof -
  let ?n = "length pdu"
  have "length (stuff 0 (lsb_bits (ax25_frame e pdu))) \<le> (18 + ?n) * 8 + ((18 + ?n) * 8 + 0) div 5"
    using length_stuff_le [of 0 "lsb_bits (ax25_frame e pdu)"] assms by (simp add: length_frame)
  moreover have "((18 + ?n) * 8) div 5 \<le> 8 * (?n div 8) + 472"
  proof -
    define q r where "q = ?n div 8" and "r = ?n mod 8"
    have "?n = 8 * q + r" "r < 8" by (simp_all add: q_def r_def)
    then have "(18 + ?n) * 8 < (8 * q + 473) * 5" using assms(3) by (simp add: algebra_simps)
    then have "(18 + ?n) * 8 < (8 * (?n div 8) + 473) * 5" by (simp only: q_def)
    then have "((18 + ?n) * 8) div 5 < 8 * (?n div 8) + 473" by (rule less_mult_imp_div_less)
    then show ?thesis by simp
  qed
  ultimately show ?thesis by (simp add: line_bits_def buffer_size_eq)
qed

lemma line_overflows:
  assumes "length (d_dest_addr e) \<le> 6" and "length (d_src_addr e) \<le> 6" and "850 \<le> n"
  shows "8 * buffer_size e n < length (line_bits e (replicate n 0xFF))"
proof -
  define h where "h = insert_address e @ insert_ctrl @ insert_pid"
  obtain t where f: "ax25_frame e (replicate n 0xFF) = h @ replicate n 0xFF @ t"
    by (simp add: ax25_frame_def Let_def h_def)
  have lh: "length h = 16"
    using assms by (simp add: h_def insert_address_def insert_callsign_def insert_ctrl_def insert_pid_def callsign_max_len_def)
  have lt: "length t = 2" using length_frame [OF assms(1,2), of "replicate n 0xFF"] lh unfolding f by simp
  define k where "k = ones_after 0 (lsb_bits h)"
  have k: "k \<le> 4" unfolding k_def by (rule ones_after_le) simp
  have "unpack_lsb 0xFF = [1, 1, 1, 1, 1, 1, 1, 1]" by (simp add: unpack_lsb_def unpack_msb_def)
  moreover have "[1, 1, 1, 1, 1, 1, 1, 1] = replicate 8 (1 :: u8)" by (simp add: numeral_eq_Suc)
  ultimately have u: "unpack_lsb 0xFF = replicate 8 1" by (rule trans)
  have ones: "lsb_bits (replicate n 0xFF) = replicate (n * 8) 1"
  proof (induction n)
    case (Suc n)
    have "replicate (Suc n * 8) (1 :: u8) = replicate 8 1 @ replicate (n * 8) 1"
      unfolding replicate_add [symmetric] by simp
    moreover have "lsb_bits (replicate (Suc n) 0xFF) = unpack_lsb 0xFF @ lsb_bits (replicate n 0xFF)"
      by (simp add: lsb_bits_eq)
    ultimately show ?case using Suc u by (simp only:)
  qed (simp add: lsb_bits_eq)
  have g: "length xs \<le> length (stuff j xs)" for j xs
    by (induction xs arbitrary: j) (simp_all, meson le_SucI)
  have "length (stuff 0 (lsb_bits (ax25_frame e (replicate n 0xFF)))) =
      length (stuff 0 (lsb_bits h)) + (n * 8 + (n * 8 + k) div 5) +
      length (stuff (ones_after k (replicate (n * 8) 1)) (lsb_bits t))"
    unfolding f by (simp add: lsb_bits_append ones stuff_append length_stuff_ones k k_def [symmetric])
  moreover have "16 * 8 \<le> length (stuff 0 (lsb_bits h))" using g [of "lsb_bits h" 0] lh by simp
  moreover have "2 * 8 \<le> length (stuff (ones_after k (replicate (n * 8) 1)) (lsb_bits t))"
    using g [of "lsb_bits t"] lt by (metis length_lsb_bits)
  moreover have "8 * (n div 8) + 472 < (n * 8 + k) div 5"
  proof -
    have "8 * (n div 8) \<le> n" by simp
    then have "(8 * (n div 8) + 473) * 5 \<le> n * 8 + k" using assms(3) by (simp add: algebra_simps)
    then have "8 * (n div 8) + 473 \<le> (n * 8 + k) div 5" by (simp add: less_eq_div_iff_mult_less_eq)
    then show ?thesis by simp
  qed
  ultimately show ?thesis by (simp add: line_bits_def buffer_size_eq)
qed

section \<open>Properties\<close>

text \<open>C3: Without scrambler and NRZI, the bits of the transmitted bytes, most significant first,
  are the preamble flags, the stuffed frame (least significant bit of each byte first), the
  postamble flags and fewer than eight zeros; the call fails exactly when they exceed the
  allocated buffer, and then by writing past its end.\<close>

theorem ax25_encode_refines_line:
  assumes "\<not> d_scramble e" and "\<not> d_nrzi e"
  shows "if length (line_bits e pdu) \<le> 8 * buffer_size e (length pdu)
    then \<exists>out. ax25_encode L uid e (Blob pdu) = Inr (Pair PMT_NIL (Blob out)) \<and>
      (\<exists>k < 8. concat (map unpack_msb out) = line_bits e pdu @ replicate k 0)
    else ax25_encode L uid e (Blob pdu) = Inl Oob_write"
  using line_bytes_line [of e pdu] assms
  by (auto simp: ax25_encode_def Let_def split: if_splits)

text \<open>C11: Every payload of at most 720 bytes fits the buffer, whatever its bits and however the
  encoder was configured.\<close>

theorem ax25_encode_no_overflow:
  assumes "ax25_encoder_new da ds sa ss pre post scr nrzi = Inr e" and "length pdu \<le> 720"
  shows "\<exists>out. ax25_encode L uid e (Blob pdu) = Inr (Pair PMT_NIL (Blob out))"
proof -
  have "length (line_bits e pdu) \<le> 8 * buffer_size e (length pdu)"
    using ax25_encoder_new_ok [OF assms(1)] assms(2) by (intro line_fits) blast+
  then obtain out where "line_bytes e pdu = Inr out"
    using line_bytes_line [of e pdu] by auto
  then show ?thesis by (simp add: ax25_encode_def Let_def)
qed

text \<open>C12: The buffer reserves one bit in eight for stuffing although one in five may be needed:
  a payload of 850 or more bytes \<open>0xFF\<close> makes the encoder write past it.\<close>

theorem ax25_encode_overflow:
  assumes "ax25_encoder_new da ds sa ss pre post scr nrzi = Inr e" and "850 \<le> n"
  shows "ax25_encode L uid e (Blob (replicate n 0xFF)) = Inl Oob_write"
proof -
  have "8 * buffer_size e n < length (line_bits e (replicate n 0xFF))"
    using ax25_encoder_new_ok [OF assms(1)] assms(2) by (intro line_overflows) blast+
  then have "line_bytes e (replicate n 0xFF) = Inl Oob_write"
    using line_bytes_line [of e "replicate n 0xFF"] by auto
  then show ?thesis by (simp add: ax25_encode_def)
qed

text \<open>A configuration for the instances: destination \<open>CQ\<close>, source \<open>N0CALL\<close>.\<close>

definition example_encoder :: "bool \<Rightarrow> bool \<Rightarrow> ax25_encoder" where
  "example_encoder scr nrzi =
     \<lparr>d_dest_addr = [0x43, 0x51], d_dest_ssid = 0, d_src_addr = [0x4E, 0x30, 0x43, 0x41, 0x4C, 0x4C],
      d_src_ssid = 1, d_preamble_len = 2, d_postamble_len = 1, d_scramble = scr, d_nrzi = nrzi\<rparr>"

lemma example_encoder_new:
  "ax25_encoder_new [0x43, 0x51] 0 [0x4E, 0x30, 0x43, 0x41, 0x4C, 0x4C] 1 2 1 scr nrzi =
   Inr (example_encoder scr nrzi)"
  by (simp add: ax25_encoder_new_def example_encoder_def callsign_max_len_def)

theorem ax25_encode_refines_line_witness:
  "\<exists>out. ax25_encode fib_lfsr 1 (example_encoder False False) (Blob [1, 2]) =
      Inr (Pair PMT_NIL (Blob out)) \<and>
    (\<exists>k < 8. concat (map unpack_msb out) = line_bits (example_encoder False False) [1, 2] @ replicate k 0)"
proof -
  have "length (line_bits (example_encoder False False) [1, 2]) \<le>
      8 * buffer_size (example_encoder False False) (length [1 :: u8, 2])"
    by (rule line_fits) (simp_all add: example_encoder_def)
  then show ?thesis
    using ax25_encode_refines_line [of "example_encoder False False" "[1, 2]" fib_lfsr 1]
    by (simp add: example_encoder_def split: if_splits)
qed

theorem ax25_encode_no_overflow_witness:
  "\<exists>out. ax25_encode fib_lfsr 1 (example_encoder True True) (Blob (replicate 720 0xFF)) =
    Inr (Pair PMT_NIL (Blob out))"
  using ax25_encode_no_overflow [OF example_encoder_new, of "replicate 720 0xFF" fib_lfsr 1 True True] by simp

theorem ax25_encode_overflow_witness:
  "ax25_encode fib_lfsr 1 (example_encoder True True) (Blob (replicate 850 0xFF)) = Inl Oob_write"
  using ax25_encode_overflow [OF example_encoder_new, of 850 fib_lfsr 1 True True] by simp

end
