(* ===== verification/Ax25_Decoder.thy ===== *)
theory Ax25_Decoder
  imports Ax25 Whitening Metadata "HOL-Library.Signed_Division"
begin

text \<open>
  \<open>lib/ax25_decoder.cc\<close>: the AX.25 receiver, a state machine over a queue of received bits.
  One iteration of the \<open>while\<close> loop of \<open>_decode\<close> is \<open>ax25_iteration\<close>; the \<open>for\<close> loops inside
  it are structural scans of the part of the queue they have not seen. The loop is run with
  fuel \<open>2 * size + 3\<close>, which the measure \<open>ax25_measure\<close> shows to be enough. The frame buffer,
  the deletions from the queue and the reads of the frame check sequence are checked accesses,
  so that \<open>Inr\<close> means that the call stayed inside its buffers.
\<close>

unbundle bit_operations_syntax

section \<open>The class\<close>

datatype decoding_state_t = NO_SYNC | IN_SYNC | DECODING

record 'l ax25_decoder = decoder_base +
  d_promisc :: bool
  d_descramble :: bool
  d_crc_check :: bool
  d_max_frame_len :: nat
  d_error_correction :: bool
  d_state :: decoding_state_t
  d_shift_reg :: u8
  d_dec_b :: u8
  d_prev_bit_nrzi :: u8
  d_received_bytes :: nat
  d_decoded_bits :: nat
  d_rx_lfsr :: 'l
  d_frame_buffer :: "u8 list"
  d_bitstream :: "u8 list"
  d_start_idx :: nat
  d_frame_start :: u64
  d_sample_cnt :: u64

text \<open>
  The frame buffer comes from \<open>new[]\<close>: its initial contents \<open>junk\<close> are unknown, its size is
  \<open>max_frame_len + max_header_len + 2\<close>.
\<close>

definition ax25_decoder_new ::
    "'l lfsr_ops \<Rightarrow> int \<Rightarrow> (nat \<Rightarrow> u8) \<Rightarrow> bool \<Rightarrow> bool \<Rightarrow> bool \<Rightarrow> nat \<Rightarrow> bool \<Rightarrow> 'l ax25_decoder" where
  "ax25_decoder_new L base_unique_id junk promisc descr crc_check max_frame_len err_corr =
     decoder_base.extend
       (fst (decoder_new ''ax25'' ''1.2'' 1 (2 * max_frame_len * 8) base_unique_id))
       (ax25_decoder.fields promisc descr crc_check max_frame_len err_corr NO_SYNC 0 0 0 0 0
          (lfsr_new L 0x21 0x0 16)
          (map junk [0..<max_frame_len + max_header_len + 2]) [] 0 0 0)"

definition reset_state :: "'l ax25_decoder \<Rightarrow> 'l ax25_decoder" where
  "reset_state d =
     d\<lparr>d_state := NO_SYNC, d_dec_b := 0, d_shift_reg := 0, d_decoded_bits := 0,
       d_received_bytes := 0\<rparr>"

definition enter_sync_state :: "'l ax25_decoder \<Rightarrow> 'l ax25_decoder" where
  "enter_sync_state d =
     d\<lparr>d_state := IN_SYNC, d_dec_b := 0, d_shift_reg := 0, d_decoded_bits := 0,
       d_received_bytes := 0\<rparr>"

definition enter_decoding_state :: "'l ax25_decoder \<Rightarrow> 'l ax25_decoder res" where
  "enter_decoding_state d =
     (let d1 = d\<lparr>d_state := DECODING, d_decoded_bits := 0, d_received_bytes := 0\<rparr>
      in if d_shift_reg d1 AND 0xfc = 0x7c
         then Inr (d1\<lparr>d_dec_b := push_bit 1 (d_dec_b d1), d_decoded_bits := 7\<rparr>)
         else res_bind (buf_set (d_frame_buffer d1) 0 (d_dec_b d1)) (\<lambda>buf.
              Inr (d1\<lparr>d_frame_buffer := buf, d_decoded_bits := 0, d_received_bytes := 1\<rparr>)))"

definition decode_1b :: "u8 \<Rightarrow> 'l ax25_decoder \<Rightarrow> 'l ax25_decoder" where
  "decode_1b inp d =
     d\<lparr>d_shift_reg := drop_bit 1 (d_shift_reg d) OR push_bit 7 inp,
       d_dec_b := drop_bit 1 (d_dec_b d) OR push_bit 7 inp\<rparr>"

definition ax25_reset :: "'l ax25_decoder \<Rightarrow> 'l ax25_decoder" where
  "ax25_reset d = reset_state d"

text \<open>The frame check over \<open>n\<close> received bytes of a buffer.\<close>

definition is_frame_valid :: "nat \<Rightarrow> u8 list \<Rightarrow> bool res" where
  "is_frame_valid n buf =
     (if 2 \<le> n \<and> n \<le> length buf
      then let fcs = ax25_crc (take (n - 2) buf);
               recv_fcs = push_bit 8 (ucast (buf ! (n - 1))) OR ucast (buf ! (n - 2))
           in Inr (fcs = recv_fcs)
      else Inl Oob_read)"

text \<open>
  The single bit correction: for every byte the eight masks in turn, each toggled, checked and
  toggled back.
\<close>

definition toggle_masks :: "u8 list" where
  "toggle_masks = [0x1, 0x2, 0x4, 0x8, 0x10, 0x20, 0x40, 0x80]"

definition toggles :: "nat \<Rightarrow> (nat \<times> u8) list" where
  "toggles n = concat (map (\<lambda>i. map (\<lambda>m. (i, m)) toggle_masks) [0..<n])"

fun toggle_loop :: "nat \<Rightarrow> (nat \<times> u8) list \<Rightarrow> u8 list \<Rightarrow> (bool \<times> u8 list) res" where
  "toggle_loop n [] buf = Inr (False, buf)"
| "toggle_loop n ((i, m) # ts) buf =
     res_bind (buf_get buf i) (\<lambda>x.
     res_bind (buf_set buf i (x XOR m)) (\<lambda>buf1.
     res_bind (is_frame_valid n buf1) (\<lambda>ok.
     if ok then Inr (True, buf1)
     else res_bind (buf_get buf1 i) (\<lambda>y.
          res_bind (buf_set buf1 i (y XOR m)) (\<lambda>buf2.
          toggle_loop n ts buf2)))))"

definition error_correction :: "'l ax25_decoder \<Rightarrow> (bool \<times> 'l ax25_decoder) res" where
  "error_correction d =
     (if \<not> d_error_correction d then Inr (False, d)
      else res_bind (toggle_loop (d_received_bytes d) (toggles (d_received_bytes d)) (d_frame_buffer d))
        (\<lambda>(ok, buf). Inr (ok, d\<lparr>d_frame_buffer := buf\<rparr>)))"

text \<open>The metadata of a frame, filled the same way at the three places of \<open>enter_frame_end\<close>.\<close>

definition report_frame ::
    "string \<Rightarrow> 'l ax25_decoder \<Rightarrow> bool \<Rightarrow> decoder_status \<Rightarrow> decoder_status" where
  "report_frame now d valid status =
     (let m = add_decoder (data status) (Some d);
          m = add_pdu m (d_frame_buffer d) (d_received_bytes d - 2);
          m = add_time_iso8601 now m;
          m = add_crc_valid m valid;
          m = add_sample_start m (d_frame_start d);
          m = add_sample_cnt m (d_sample_cnt d)
      in status\<lparr>data := m, decode_success := True\<rparr>)"

definition enter_frame_end ::
    "string \<Rightarrow> 'l ax25_decoder \<times> decoder_status \<Rightarrow> (bool \<times> 'l ax25_decoder \<times> decoder_status) res" where
  "enter_frame_end now = (\<lambda>(d, status).
     if d_received_bytes d < min_addr_len + 2 then Inr (False, reset_state d, status)
     else res_bind (is_frame_valid (d_received_bytes d) (d_frame_buffer d)) (\<lambda>valid.
          if valid then Inr (True, reset_state d, report_frame now d True status)
          else res_bind (error_correction d) (\<lambda>(corrected, d1).
               if corrected then Inr (True, reset_state d1, report_frame now d1 True status)
               else Inr (False, reset_state d1,
                         if \<not> d_crc_check d1 then report_frame now d1 False status else status))))"

section \<open>The loops of one iteration\<close>

text \<open>\<open>NO_SYNC\<close>: look for the flag at any bit position; \<open>i\<close> is the loop index.\<close>

fun scan_flag :: "nat \<Rightarrow> u8 list \<Rightarrow> 'l ax25_decoder \<Rightarrow> nat option \<times> 'l ax25_decoder" where
  "scan_flag i [] d = (None, d)"
| "scan_flag i (b # bs) d =
     (let d1 = decode_1b b d
      in if sync_flag = d_shift_reg d1 then (Some i, d1) else scan_flag (i + 1) bs d1)"

text \<open>\<open>IN_SYNC\<close>: skip flags byte by byte.\<close>

fun scan_sync :: "nat \<Rightarrow> u8 list \<Rightarrow> 'l ax25_decoder \<Rightarrow> nat option \<times> 'l ax25_decoder" where
  "scan_sync i [] d = (None, d)"
| "scan_sync i (b # bs) d =
     (let d1 = decode_1b b d;
          d2 = d1\<lparr>d_decoded_bits := d_decoded_bits d1 + 1\<rparr>
      in if d_decoded_bits d2 = 8
         then if d_shift_reg d2 \<noteq> sync_flag then (Some i, d2)
              else scan_sync (i + 1) bs (d2\<lparr>d_decoded_bits := 0\<rparr>)
         else scan_sync (i + 1) bs d2)"

text \<open>\<open>DECODING\<close>: how the loop ends, with the index of the bit that ended it.\<close>

datatype data_end = Flag_at nat | Invalid_at nat | Limit_reached | Out_of_bits

fun scan_data :: "nat \<Rightarrow> u8 list \<Rightarrow> 'l ax25_decoder \<Rightarrow> (data_end \<times> 'l ax25_decoder) res" where
  "scan_data i [] d = Inr (Out_of_bits, d)"
| "scan_data i (b # bs) d =
     (let d1 = decode_1b b d
      in if d_shift_reg d1 = sync_flag then Inr (Flag_at i, d1)
         else if d_shift_reg d1 AND 0xfc = 0x7c
         then scan_data (i + 1) bs (d1\<lparr>d_dec_b := push_bit 1 (d_dec_b d1)\<rparr>)
         else if d_shift_reg d1 AND 0xfe = 0xfe then Inr (Invalid_at i, d1)
         else let d2 = d1\<lparr>d_decoded_bits := d_decoded_bits d1 + 1\<rparr>
              in if d_decoded_bits d2 = 8
                 then res_bind (buf_set (d_frame_buffer d2) (d_received_bytes d2) (d_dec_b d2)) (\<lambda>buf.
                      let d3 = d2\<lparr>d_frame_buffer := buf,
                                  d_received_bytes := d_received_bytes d2 + 1, d_decoded_bits := 0\<rparr>
                      in if d_max_frame_len d3 \<le> d_received_bytes d3 then Inr (Limit_reached, d3)
                         else scan_data (i + 1) bs d3)
                 else scan_data (i + 1) bs d2)"

text \<open>\<open>erase(begin, begin + n - back)\<close> followed by \<open>incr_nitems_read(n - back)\<close>.\<close>

definition drop_bits :: "nat \<Rightarrow> nat \<Rightarrow> 'l ax25_decoder \<Rightarrow> 'l ax25_decoder res" where
  "drop_bits n back d =
     res_bind (erase_front n back (d_bitstream d)) (\<lambda>bs.
     Inr (incr_nitems_read (n - back) (d\<lparr>d_bitstream := bs\<rparr>)))"

type_synonym 'l ax25_loop = "'l ax25_decoder \<times> decoder_status"

definition no_sync_iteration :: "'l ax25_loop \<Rightarrow> ('l ax25_loop, bool) outcome res" where
  "no_sync_iteration = (\<lambda>(d, status).
     case scan_flag 0 (d_bitstream d) d of
       (Some i, d1) \<Rightarrow>
         res_bind (drop_bits i 0 d1) (\<lambda>d2.
         let d3 = enter_sync_state d2
         in Inr (Continue (d3\<lparr>d_frame_start := d_nitems_read d3, d_start_idx := 1\<rparr>, status)))
     | (None, d1) \<Rightarrow>
         Inr (Return ((incr_nitems_read (length (d_bitstream d1)) d1)\<lparr>d_bitstream := []\<rparr>, status) False))"

definition in_sync_iteration :: "'l ax25_loop \<Rightarrow> ('l ax25_loop, bool) outcome res" where
  "in_sync_iteration = (\<lambda>(d, status).
     case scan_sync (d_start_idx d) (drop (d_start_idx d) (d_bitstream d)) d of
       (Some i, d1) \<Rightarrow>
         res_bind (drop_bits (i + 1) 7 d1) (\<lambda>d2.
         res_bind (enter_decoding_state (d2\<lparr>d_start_idx := 7\<rparr>)) (\<lambda>d3.
         Inr (Continue (d3, status))))
     | (None, d1) \<Rightarrow> Inr (Return (d1\<lparr>d_start_idx := length (d_bitstream d1)\<rparr>, status) False))"

definition decoding_iteration ::
    "string \<Rightarrow> 'l ax25_loop \<Rightarrow> ('l ax25_loop, bool) outcome res" where
  "decoding_iteration now = (\<lambda>(d, status).
     res_bind (scan_data (d_start_idx d) (drop (d_start_idx d) (d_bitstream d)) d) (\<lambda>(ending, d1).
       case ending of
         Flag_at i \<Rightarrow>
           if d_decoded_bits d1 \<noteq> 7
           then res_bind (drop_bits (i + 1) 8 d1) (\<lambda>d2. Inr (Continue (reset_state d2, status)))
           else let d2 = d1\<lparr>d_sample_cnt := d_nitems_read d1 + of_nat i - d_frame_start d1\<rparr>
                in res_bind (drop_bits (i + 1) 8 d2) (\<lambda>d3.
                   res_bind (enter_frame_end now (d3, status)) (\<lambda>(r, d4, status4).
                   Inr (Return (d4, status4) r)))
       | Invalid_at i \<Rightarrow>
           res_bind (drop_bits (i + 1) 8 d1) (\<lambda>d2. Inr (Continue (reset_state d2, status)))
       | Limit_reached \<Rightarrow> Inr (Continue (reset_state d1, status))
       | Out_of_bits \<Rightarrow>
           Inr (Return (d1\<lparr>d_start_idx := length (d_bitstream d1)\<rparr>, status) False)))"

definition ax25_iteration :: "string \<Rightarrow> 'l ax25_loop \<Rightarrow> ('l ax25_loop, bool) outcome res" where
  "ax25_iteration now s =
     (if d_bitstream (fst s) = [] then Inr (Return s False)
      else case d_state (fst s) of
        NO_SYNC \<Rightarrow> no_sync_iteration s
      | IN_SYNC \<Rightarrow> in_sync_iteration s
      | DECODING \<Rightarrow> decoding_iteration now s)"

section \<open>decode\<close>

definition receive_1b :: "'l lfsr_ops \<Rightarrow> u8 \<Rightarrow> 'l ax25_decoder \<Rightarrow> 'l ax25_decoder" where
  "receive_1b L inp d =
     (let b = nrzi_bit (d_prev_bit_nrzi d) inp;
          d1 = d\<lparr>d_prev_bit_nrzi := inp\<rparr>
      in if d_descramble d
         then let (b', l) = next_bit_descramble L (d_rx_lfsr d1) b
              in d1\<lparr>d_rx_lfsr := l, d_bitstream := d_bitstream d1 @ [b']\<rparr>
         else d1\<lparr>d_bitstream := d_bitstream d1 @ [b]\<rparr>)"

definition ax25_fuel :: "'l ax25_decoder \<Rightarrow> nat" where
  "ax25_fuel d = 2 * length (d_bitstream d) + 3"

definition ax25_decode ::
    "'l lfsr_ops \<Rightarrow> string \<Rightarrow> 'l ax25_decoder \<Rightarrow> u8 list \<Rightarrow>
     ('l ax25_decoder \<times> decoder_status) res option" where
  "ax25_decode L now d inp =
     (let d1 = fold (receive_1b L) inp d
      in case run_loop (ax25_iteration now) (ax25_fuel d1) (d1, status_new) of
           None \<Rightarrow> None
         | Some (Inl e) \<Rightarrow> Some (Inl e)
         | Some (Inr ((d2, status), r)) \<Rightarrow> Some (Inr (d2, status\<lparr>consumed := int (length inp)\<rparr>)))"

section \<open>What the scans change\<close>

lemma scan_flag_frame:
  "scan_flag i bs d = (r, d1) \<Longrightarrow>
   (\<exists>sr db. d1 = d\<lparr>d_shift_reg := sr, d_dec_b := db\<rparr>) \<and>
   (case r of None \<Rightarrow> True | Some j \<Rightarrow> i \<le> j \<and> j < i + length bs)"
proof (induction bs arbitrary: i d)
  case Nil
  then have "d1 = d\<lparr>d_shift_reg := d_shift_reg d, d_dec_b := d_dec_b d\<rparr>" and r: "r = None" by simp_all
  then have "\<exists>sr db. d1 = d\<lparr>d_shift_reg := sr, d_dec_b := db\<rparr>" by blast
  with r show ?case by simp
next
  case (Cons b bs)
  show ?case
  proof (cases "sync_flag = d_shift_reg (decode_1b b d)")
    case True
    then show ?thesis using Cons.prems by (auto simp: Let_def decode_1b_def)
  next
    case False
    then show ?thesis
      using Cons.IH [of "i + 1" "decode_1b b d"] Cons.prems
      by (auto simp: Let_def decode_1b_def split: option.splits)
  qed
qed

lemma scan_sync_frame:
  "scan_sync i bs d = (r, d1) \<Longrightarrow> d_decoded_bits d < 8 \<Longrightarrow>
   (\<exists>sr db k. d1 = d\<lparr>d_shift_reg := sr, d_dec_b := db, d_decoded_bits := k\<rparr>) \<and>
   (case r of None \<Rightarrow> d_decoded_bits d1 < 8 \<and> d_decoded_bits d1 \<le> d_decoded_bits d + length bs
    | Some j \<Rightarrow> i + 7 \<le> j + d_decoded_bits d \<and> j < i + length bs)"
proof (induction bs arbitrary: i d)
  case Nil
  then have "d1 = d\<lparr>d_shift_reg := d_shift_reg d, d_dec_b := d_dec_b d, d_decoded_bits := d_decoded_bits d\<rparr>"
    and r: "r = None" by simp_all
  then have "\<exists>sr db k. d1 = d\<lparr>d_shift_reg := sr, d_dec_b := db, d_decoded_bits := k\<rparr>" by blast
  with r show ?case using Nil.prems by simp
next
  case (Cons b bs)
  let ?d = "(decode_1b b d)\<lparr>d_decoded_bits := Suc (d_decoded_bits d)\<rparr>"
  have dd: "d_decoded_bits (decode_1b b d) = d_decoded_bits d" by (simp add: decode_1b_def)
  consider "d_decoded_bits d = 7" "d_shift_reg (decode_1b b d) \<noteq> sync_flag"
    | "d_decoded_bits d = 7" "d_shift_reg (decode_1b b d) = sync_flag"
    | "d_decoded_bits d < 7"
    using Cons.prems(2) by linarith
  then show ?case
  proof cases
    case 1
    then show ?thesis using Cons.prems(1) by (auto simp: Let_def decode_1b_def)
  next
    case 2
    then show ?thesis
      using Cons.IH [of "i + 1" "?d\<lparr>d_decoded_bits := 0\<rparr>"] Cons.prems(1) dd
      by (auto simp: Let_def decode_1b_def split: option.splits)
  next
    case 3
    then show ?thesis
      using Cons.IH [of "i + 1" ?d] Cons.prems(1) dd
      by (auto simp: Let_def decode_1b_def split: option.splits)
  qed
qed

definition frame_room :: "'l ax25_decoder \<Rightarrow> bool" where
  "frame_room d \<longleftrightarrow>
     length (d_frame_buffer d) = d_max_frame_len d + 75 \<and> d_decoded_bits d < 8 \<and>
     (d_received_bytes d < d_max_frame_len d \<or> d_received_bytes d \<le> 1)"

text \<open>What \<open>scan_data\<close> leaves alone.\<close>

definition data_change :: "'l ax25_decoder \<Rightarrow> 'l ax25_decoder \<Rightarrow> bool" where
  "data_change d d1 \<longleftrightarrow>
     d1 = d\<lparr>d_shift_reg := d_shift_reg d1, d_dec_b := d_dec_b d1, d_decoded_bits := d_decoded_bits d1,
        d_frame_buffer := d_frame_buffer d1, d_received_bytes := d_received_bytes d1\<rparr> \<and>
     length (d_frame_buffer d1) = length (d_frame_buffer d)"

lemma data_change_refl: "data_change d d"
  by (simp add: data_change_def)

lemma data_change_trans:
  assumes "data_change d d1" and "data_change d1 d2"
  shows "data_change d d2"
proof -
  from assms(2) obtain sr db k buf r where d2: "d2 = d1\<lparr>d_shift_reg := sr, d_dec_b := db, d_decoded_bits := k,
        d_frame_buffer := buf, d_received_bytes := r\<rparr>" "length buf = length (d_frame_buffer d1)"
    unfolding data_change_def by metis
  from assms(1) obtain sr1 db1 k1 buf1 r1 where d1: "d1 = d\<lparr>d_shift_reg := sr1, d_dec_b := db1, d_decoded_bits := k1,
        d_frame_buffer := buf1, d_received_bytes := r1\<rparr>" "length buf1 = length (d_frame_buffer d)"
    unfolding data_change_def by metis
  show ?thesis using d2(2) d1(2) unfolding data_change_def d2(1) d1(1) by simp
qed

lemma data_change_steps:
  "data_change d (decode_1b b d)"
  "data_change d (d\<lparr>d_dec_b := db\<rparr>)"
  "data_change d (d\<lparr>d_decoded_bits := k\<rparr>)"
  "data_change d (d\<lparr>d_frame_buffer := (d_frame_buffer d)[n := x], d_received_bytes := r, d_decoded_bits := k\<rparr>)"
  by (simp_all add: data_change_def decode_1b_def)

definition end_in :: "data_end \<Rightarrow> nat \<Rightarrow> nat \<Rightarrow> bool" where
  "end_in e i n \<longleftrightarrow>
     (case e of Flag_at j \<Rightarrow> i \<le> j \<and> j < i + n | Invalid_at j \<Rightarrow> i \<le> j \<and> j < i + n | _ \<Rightarrow> True)"

lemma end_in_Suc: "end_in e (i + 1) n \<Longrightarrow> end_in e i (Suc n)"
  by (auto simp: end_in_def split: data_end.splits)

lemma frame_room_step: "frame_room d \<Longrightarrow> frame_room (decode_1b b d)"
  by (simp add: frame_room_def decode_1b_def)

lemma scan_data_frame:
  "frame_room d \<Longrightarrow>
   \<exists>e d1. scan_data i bs d = Inr (e, d1) \<and> data_change d d1 \<and>
     (e \<noteq> Limit_reached \<longrightarrow> frame_room d1) \<and> end_in e i (length bs)"
proof (induction bs arbitrary: i d)
  case Nil
  then show ?case using data_change_refl [of d] by (simp add: end_in_def)
next
  case (Cons b bs)
  define d1 where "d1 = decode_1b b d"
  have d1: "data_change d d1" unfolding d1_def by (rule data_change_steps)
  have room1: "frame_room d1" unfolding d1_def using Cons.prems by (rule frame_room_step)
  let ?stuffed = "d1\<lparr>d_dec_b := push_bit 1 (d_dec_b d1)\<rparr>"
  let ?next = "d1\<lparr>d_decoded_bits := Suc (d_decoded_bits d1)\<rparr>"
  let ?byte = "d1\<lparr>d_frame_buffer := (d_frame_buffer d1)[d_received_bytes d1 := d_dec_b d1],
      d_received_bytes := Suc (d_received_bytes d1), d_decoded_bits := 0\<rparr>"
  have rest: ?case if "scan_data i (b # bs) d = scan_data (i + 1) bs d2" "frame_room d2" "data_change d1 d2" for d2
    using Cons.IH [OF that(2), of "i + 1"] data_change_trans [OF d1 that(3)] data_change_trans
    unfolding that(1) length_Cons by (blast intro: end_in_Suc)
  consider (flag) "d_shift_reg d1 = sync_flag"
    | (stuffed) "d_shift_reg d1 \<noteq> sync_flag" "d_shift_reg d1 AND 0xfc = 0x7c"
    | (invalid) "d_shift_reg d1 \<noteq> sync_flag" "d_shift_reg d1 AND 0xfc \<noteq> 0x7c" "d_shift_reg d1 AND 0xfe = 0xfe"
    | (bit) "d_shift_reg d1 \<noteq> sync_flag" "d_shift_reg d1 AND 0xfc \<noteq> 0x7c" "d_shift_reg d1 AND 0xfe \<noteq> 0xfe"
        "d_decoded_bits d1 < 7"
    | (byte) "d_shift_reg d1 \<noteq> sync_flag" "d_shift_reg d1 AND 0xfc \<noteq> 0x7c" "d_shift_reg d1 AND 0xfe \<noteq> 0xfe"
        "d_decoded_bits d1 = 7"
    using room1 unfolding frame_room_def by linarith
  then show ?case
  proof cases
    case flag
    then have "scan_data i (b # bs) d = Inr (Flag_at i, d1)" by (simp add: d1_def Let_def)
    then show ?thesis using d1 room1 by (auto simp: end_in_def)
  next
    case stuffed
    then show ?thesis
      using room1 by (intro rest [of ?stuffed] data_change_steps) (simp_all add: d1_def Let_def frame_room_def)
  next
    case invalid
    then have "scan_data i (b # bs) d = Inr (Invalid_at i, d1)" by (simp add: d1_def Let_def)
    then show ?thesis using d1 room1 by (auto simp: end_in_def)
  next
    case bit
    then show ?thesis
      using room1 by (intro rest [of ?next] data_change_steps) (simp_all add: d1_def Let_def frame_room_def)
  next
    case byte
    have lt: "d_received_bytes d1 < length (d_frame_buffer d1)" using room1 by (auto simp: frame_room_def)
    show ?thesis
    proof (cases "d_max_frame_len d1 \<le> Suc (d_received_bytes d1)")
      case True
      then have "scan_data i (b # bs) d = Inr (Limit_reached, ?byte)"
        using byte lt by (simp add: d1_def [symmetric] Let_def buf_simps)
      then show ?thesis using data_change_trans [OF d1 data_change_steps(4)] by (simp add: end_in_def)
    next
      case False
      then have "scan_data i (b # bs) d = scan_data (i + 1) bs ?byte"
        using byte lt by (simp add: d1_def [symmetric] Let_def buf_simps)
      then show ?thesis using room1 False
        by (intro rest [of ?byte] data_change_steps) (simp_all add: frame_room_def)
    qed
  qed
qed

section \<open>The error correction\<close>

lemma is_frame_valid_total: "2 \<le> n \<Longrightarrow> n \<le> length buf \<Longrightarrow> \<exists>v. is_frame_valid n buf = Inr v"
  by (simp add: is_frame_valid_def Let_def)

lemma toggle_twice: "buf[i := (buf ! i XOR m) XOR m] = buf"
  for buf :: "'a::len word list"
  by (simp add: xor.assoc)

lemma toggle_loop_result:
  assumes "2 \<le> n" and "n \<le> length buf"
  shows "\<forall>(i, m) \<in> set ts. i < length buf \<Longrightarrow>
    if \<exists>(i, m) \<in> set ts. is_frame_valid n (buf[i := buf ! i XOR m]) = Inr True
    then \<exists>(i, m) \<in> set ts. is_frame_valid n (buf[i := buf ! i XOR m]) = Inr True \<and>
      toggle_loop n ts buf = Inr (True, buf[i := buf ! i XOR m])
    else toggle_loop n ts buf = Inr (False, buf)"
proof (induction ts)
  case Nil
  then show ?case by simp
next
  case (Cons t ts)
  obtain i m where t: "t = (i, m)" by (cases t)
  have i: "i < length buf" using Cons.prems t by simp
  obtain v where v: "is_frame_valid n (buf[i := buf ! i XOR m]) = Inr v"
    using is_frame_valid_total [of n "buf[i := buf ! i XOR m]"] assms by auto
  show ?case
  proof (cases v)
    case True
    then show ?thesis using v t i by (auto simp: buf_simps)
  next
    case False
    then have "toggle_loop n (t # ts) buf = toggle_loop n ts buf"
      using v t i by (simp add: buf_simps toggle_twice)
    then show ?thesis using Cons v t False by (auto split: if_splits)
  qed
qed

lemma toggles_lt: "(i, m) \<in> set (toggles n) \<Longrightarrow> i < n"
  by (auto simp: toggles_def)

lemma toggles_iff: "(i, m) \<in> set (toggles n) \<longleftrightarrow> i < n \<and> m \<in> set toggle_masks"
  by (auto simp: toggles_def)

text \<open>The specification: \<open>buf\<close> results from one toggled bit and passes the check, or nothing
  changed and, when correction is enabled, no single toggled bit passes the check.\<close>

definition corrects :: "'l ax25_decoder \<Rightarrow> bool \<Rightarrow> u8 list \<Rightarrow> bool" where
  "corrects d ok buf \<longleftrightarrow>
     length buf = length (d_frame_buffer d) \<and>
     (if ok then is_frame_valid (d_received_bytes d) buf = Inr True \<and> d_error_correction d \<and>
        (\<exists>i < d_received_bytes d. \<exists>m \<in> set toggle_masks. buf = (d_frame_buffer d)[i := d_frame_buffer d ! i XOR m])
      else buf = d_frame_buffer d \<and>
        (d_error_correction d \<longrightarrow> (\<forall>i < d_received_bytes d. \<forall>m \<in> set toggle_masks.
           is_frame_valid (d_received_bytes d) ((d_frame_buffer d)[i := d_frame_buffer d ! i XOR m]) \<noteq> Inr True)))"

lemma correctsD:
  assumes "corrects d ok buf"
  shows "length buf = length (d_frame_buffer d)"
    and "ok \<Longrightarrow> is_frame_valid (d_received_bytes d) buf = Inr True"
    and "\<not> ok \<Longrightarrow> buf = d_frame_buffer d"
  using assms by (simp_all add: corrects_def)

lemma error_correction_result:
  assumes "2 \<le> d_received_bytes d" and "d_received_bytes d \<le> length (d_frame_buffer d)"
  shows "\<exists>ok buf. error_correction d = Inr (ok, d\<lparr>d_frame_buffer := buf\<rparr>) \<and> corrects d ok buf"
proof (cases "d_error_correction d")
  case False
  then have "error_correction d = Inr (False, d\<lparr>d_frame_buffer := d_frame_buffer d\<rparr>)"
    by (simp add: error_correction_def)
  then show ?thesis using False
    by (intro exI [of _ False] exI [of _ "d_frame_buffer d"]) (simp add: corrects_def)
next
  case True
  let ?n = "d_received_bytes d" and ?buf = "d_frame_buffer d"
  have lt: "\<forall>(i, m) \<in> set (toggles ?n). i < length ?buf" using assms(2) toggles_lt by fastforce
  note res = toggle_loop_result [OF assms lt]
  show ?thesis
  proof (cases "\<exists>(i, m) \<in> set (toggles ?n). is_frame_valid ?n (?buf[i := ?buf ! i XOR m]) = Inr True")
    case 2: True
    then obtain i m where im: "(i, m) \<in> set (toggles ?n)"
      "is_frame_valid ?n (?buf[i := ?buf ! i XOR m]) = Inr True"
      "toggle_loop ?n (toggles ?n) ?buf = Inr (True, ?buf[i := ?buf ! i XOR m])"
      using res by auto
    then show ?thesis using True
      by (intro exI [of _ True] exI [of _ "?buf[i := ?buf ! i XOR m]"])
        (auto simp: error_correction_def toggles_iff corrects_def)
  next
    case 3: False
    then have "toggle_loop ?n (toggles ?n) ?buf = Inr (False, ?buf)" using res by simp
    then have "error_correction d = Inr (False, d\<lparr>d_frame_buffer := d_frame_buffer d\<rparr>)"
      using True by (simp add: error_correction_def)
    moreover have "\<forall>i < ?n. \<forall>m \<in> set toggle_masks. is_frame_valid ?n (?buf[i := ?buf ! i XOR m]) \<noteq> Inr True"
      using 3 toggles_iff by fastforce
    ultimately show ?thesis by (intro exI [of _ False] exI [of _ ?buf]) (simp add: corrects_def)
  qed
qed

section \<open>The contract of the loop\<close>

text \<open>\<open>ax25_inv\<close>: the state between two iterations and between two calls.\<close>

definition ax25_inv :: "'l ax25_decoder \<Rightarrow> bool" where
  "ax25_inv d \<longleftrightarrow>
     length (d_frame_buffer d) = d_max_frame_len d + 75 \<and>
     (case d_state d of
        NO_SYNC \<Rightarrow> True
      | IN_SYNC \<Rightarrow> d_decoded_bits d < 8 \<and> d_decoded_bits d + 1 \<le> d_start_idx d \<and>
          d_start_idx d \<le> length (d_bitstream d)
      | DECODING \<Rightarrow> 7 \<le> d_start_idx d \<and> d_start_idx d \<le> length (d_bitstream d) \<and> frame_room d)"

text \<open>Items dropped so far plus items still queued, modulo the width of the counter.\<close>

definition items_seen :: "'l ax25_decoder \<Rightarrow> u64" where
  "items_seen d = d_nitems_read d + of_nat (length (d_bitstream d))"

text \<open>What no iteration changes.\<close>

definition ax25_const :: "'l ax25_decoder \<Rightarrow> bool \<times> nat \<times> bool \<times> bool \<times> u8 \<times> 'l \<times> u64" where
  "ax25_const d = (d_crc_check d, d_max_frame_len d, d_error_correction d, d_descramble d,
     d_prev_bit_nrzi d, d_rx_lfsr d, items_seen d)"

definition ax25_loop_inv :: "bool \<times> nat \<times> bool \<times> bool \<times> u8 \<times> 'l \<times> u64 \<Rightarrow> 'l ax25_loop \<Rightarrow> bool" where
  "ax25_loop_inv K s \<longleftrightarrow> ax25_inv (fst s) \<and> ax25_const (fst s) = K \<and> snd s = status_new"

fun state_rank :: "decoding_state_t \<Rightarrow> nat" where
  "state_rank IN_SYNC = 0"
| "state_rank NO_SYNC = 1"
| "state_rank DECODING = 2"

definition ax25_measure :: "'l ax25_loop \<Rightarrow> nat" where
  "ax25_measure s = 2 * length (d_bitstream (fst s)) + state_rank (d_state (fst s))"

text \<open>
  What a reported frame is: a prefix of the frame buffer of at least 16 bytes, its last two
  being the check sequence, reported as valid exactly when the check holds, and reported as
  invalid only when the check is not required.
\<close>

definition report_ok :: "'l ax25_decoder \<Rightarrow> decoder_status \<Rightarrow> bool" where
  "report_ok d status \<longleftrightarrow>
     (\<exists>n v. 16 \<le> n \<and> n \<le> length (d_frame_buffer d) \<and>
        data status ''pdu'' = Some (Blob (take (n - 2) (d_frame_buffer d))) \<and>
        data status ''crc_valid'' = Some (PBool v) \<and>
        is_frame_valid n (d_frame_buffer d) = Inr v \<and> (v \<or> \<not> d_crc_check d))"

definition ax25_post :: "bool \<times> nat \<times> bool \<times> bool \<times> u8 \<times> 'l \<times> u64 \<Rightarrow> 'l ax25_loop \<Rightarrow> bool \<Rightarrow> bool" where
  "ax25_post K s r \<longleftrightarrow>
     ax25_inv (fst s) \<and> ax25_const (fst s) = K \<and> well_typed (data (snd s)) \<and>
     (r \<longrightarrow> decode_success (snd s)) \<and>
     (if decode_success (snd s) then report_ok (fst s) (snd s) else snd s = status_new)"

lemma drop_bits_ok:
  assumes "back \<le> n" and "n - back \<le> length (d_bitstream d)"
  shows "drop_bits n back d = Inr (d\<lparr>d_bitstream := drop (n - back) (d_bitstream d),
      d_nitems_read := d_nitems_read d + of_nat (n - back)\<rparr>)"
  using assms by (simp add: drop_bits_def buf_simps incr_nitems_read_def)

lemma items_seen_drop:
  "k \<le> length bs \<Longrightarrow> (x :: u64) + of_nat k + of_nat (length (drop k bs)) = x + of_nat (length bs)"
  by (simp flip: of_nat_add add: add.assoc)

text \<open>What one iteration must deliver while it does not report a frame.\<close>

definition iteration_ok ::
    "'l ax25_decoder \<Rightarrow> decoder_status \<Rightarrow> ('l ax25_loop, bool) outcome res \<Rightarrow> bool" where
  "iteration_ok d status out \<longleftrightarrow>
     (\<exists>d'. ax25_inv d' \<and> ax25_const d' = ax25_const d \<and>
       (out = Inr (Return (d', status) False) \<or>
        out = Inr (Continue (d', status)) \<and> ax25_measure (d', status) < ax25_measure (d, status)))"

lemma iteration_continue:
  "out = Inr (Continue (d', status)) \<Longrightarrow> ax25_inv d' \<Longrightarrow> ax25_const d' = ax25_const d \<Longrightarrow>
   ax25_measure (d', status) < ax25_measure (d, status) \<Longrightarrow> iteration_ok d status out"
  by (auto simp: iteration_ok_def)

lemma iteration_return:
  "out = Inr (Return (d', status) False) \<Longrightarrow> ax25_inv d' \<Longrightarrow> ax25_const d' = ax25_const d \<Longrightarrow>
   iteration_ok d status out"
  by (auto simp: iteration_ok_def)

lemma const_of_parts:
  "d_crc_check d' = d_crc_check d \<Longrightarrow> d_max_frame_len d' = d_max_frame_len d \<Longrightarrow>
   d_error_correction d' = d_error_correction d \<Longrightarrow> d_descramble d' = d_descramble d \<Longrightarrow>
   d_prev_bit_nrzi d' = d_prev_bit_nrzi d \<Longrightarrow> d_rx_lfsr d' = d_rx_lfsr d \<Longrightarrow>
   items_seen d' = items_seen d \<Longrightarrow> ax25_const d' = ax25_const d"
  by (simp add: ax25_const_def)

lemma no_sync_step:
  assumes "ax25_inv d" and "d_state d = NO_SYNC"
  shows "iteration_ok d status (no_sync_iteration (d, status))"
proof -
  obtain r d1 where s: "scan_flag 0 (d_bitstream d) d = (r, d1)" by fastforce
  then obtain sr db where d1: "d1 = d\<lparr>d_shift_reg := sr, d_dec_b := db\<rparr>"
    and r: "case r of None \<Rightarrow> True | Some j \<Rightarrow> j < length (d_bitstream d)"
    using scan_flag_frame [OF s] by (auto split: option.splits)
  show ?thesis
  proof (cases r)
    case None
    let ?d = "(incr_nitems_read (length (d_bitstream d1)) d1)\<lparr>d_bitstream := []\<rparr>"
    show ?thesis
    proof (rule iteration_return [of _ ?d])
      show "no_sync_iteration (d, status) = Inr (Return (?d, status) False)"
        by (simp add: no_sync_iteration_def s None)
    qed (use assms in \<open>simp_all add: d1 ax25_inv_def ax25_const_def items_seen_def incr_nitems_read_def\<close>)
  next
    case (Some i)
    with r have i: "i < length (d_bitstream d)" by simp
    then have db: "drop_bits i 0 d1 = Inr (d1\<lparr>d_bitstream := drop i (d_bitstream d),
        d_nitems_read := d_nitems_read d + of_nat i\<rparr>)"
      by (subst drop_bits_ok) (simp_all add: d1)
    let ?e = "enter_sync_state (d1\<lparr>d_bitstream := drop i (d_bitstream d),
        d_nitems_read := d_nitems_read d + of_nat i\<rparr>)"
    let ?d = "?e\<lparr>d_frame_start := d_nitems_read ?e, d_start_idx := 1\<rparr>"
    show ?thesis
    proof (rule iteration_continue [of _ ?d])
      show "no_sync_iteration (d, status) = Inr (Continue (?d, status))"
        by (simp add: no_sync_iteration_def s Some db Let_def)
      show "ax25_const ?d = ax25_const d"
        using i items_seen_drop [of i "d_bitstream d" "d_nitems_read d"]
        by (intro const_of_parts) (simp_all add: d1 enter_sync_state_def items_seen_def)
      show "ax25_inv ?d" using assms i by (simp add: d1 ax25_inv_def enter_sync_state_def)
      show "ax25_measure (?d, status) < ax25_measure (d, status)"
        using assms i by (simp add: d1 ax25_measure_def enter_sync_state_def)
    qed
  qed
qed

lemma in_sync_step:
  assumes "ax25_inv d" and "d_state d = IN_SYNC"
  shows "iteration_ok d status (in_sync_iteration (d, status))"
proof -
  let ?s = "d_start_idx d" and ?bs = "d_bitstream d"
  have inv: "d_decoded_bits d < 8" "d_decoded_bits d + 1 \<le> ?s" "?s \<le> length ?bs"
    "length (d_frame_buffer d) = d_max_frame_len d + 75"
    using assms by (simp_all add: ax25_inv_def)
  obtain r d1 where s: "scan_sync ?s (drop ?s ?bs) d = (r, d1)" by fastforce
  then obtain sr db k where d1: "d1 = d\<lparr>d_shift_reg := sr, d_dec_b := db, d_decoded_bits := k\<rparr>"
    and r: "case r of None \<Rightarrow> d_decoded_bits d1 < 8 \<and> d_decoded_bits d1 \<le> d_decoded_bits d + length (drop ?s ?bs)
      | Some j \<Rightarrow> ?s + 7 \<le> j + d_decoded_bits d \<and> j < ?s + length (drop ?s ?bs)"
    using scan_sync_frame [OF s inv(1)] by auto
  show ?thesis
  proof (cases r)
    case None
    let ?d = "d1\<lparr>d_start_idx := length (d_bitstream d1)\<rparr>"
    show ?thesis
    proof (rule iteration_return [of _ ?d])
      show "in_sync_iteration (d, status) = Inr (Return (?d, status) False)"
        by (simp add: in_sync_iteration_def s None)
      show "ax25_inv ?d" using assms inv r None by (auto simp: d1 ax25_inv_def)
    qed (simp add: d1 ax25_const_def items_seen_def)
  next
    case (Some i)
    with r inv have i: "8 \<le> i" "i < length ?bs" by auto
    let ?b = "d1\<lparr>d_bitstream := drop (i - 6) ?bs, d_nitems_read := d_nitems_read d + of_nat (i - 6)\<rparr>"
    have db: "drop_bits (i + 1) 7 d1 = Inr ?b"
      using i by (subst drop_bits_ok) (simp_all add: d1)
    obtain d' where d': "enter_decoding_state (?b\<lparr>d_start_idx := 7\<rparr>) = Inr d'"
      "frame_room d'" "d_state d' = DECODING" "d_start_idx d' = 7" "d_bitstream d' = drop (i - 6) ?bs"
      "ax25_const d' = ax25_const (?b\<lparr>d_start_idx := 7\<rparr>)"
      using inv(4) by (cases "sr AND 0xfc = 0x7c")
        (simp_all add: d1 enter_decoding_state_def buf_simps frame_room_def ax25_const_def items_seen_def)
    show ?thesis
    proof (rule iteration_continue [of _ d'])
      show "in_sync_iteration (d, status) = Inr (Continue (d', status))"
        using db d'(1) by (simp add: in_sync_iteration_def s Some)
      have "items_seen (?b\<lparr>d_start_idx := 7\<rparr>) = items_seen d"
        using i items_seen_drop [of "i - 6" ?bs "d_nitems_read d"] by (simp add: items_seen_def)
      then show "ax25_const d' = ax25_const d"
        unfolding d'(6) by (intro const_of_parts) (simp_all add: d1)
      show "ax25_inv d'" using d' i by (simp add: ax25_inv_def frame_room_def)
      show "ax25_measure (d', status) < ax25_measure (d, status)"
        using d' i assms(2) by (simp add: ax25_measure_def)
    qed
  qed
qed

lemma report_frame_ok:
  assumes "16 \<le> d_received_bytes d" and "d_received_bytes d \<le> length (d_frame_buffer d)"
    and "is_frame_valid (d_received_bytes d) (d_frame_buffer d) = Inr v" and "v \<or> \<not> d_crc_check d"
  shows "report_ok (reset_state d) (report_frame now d v status_new) \<and>
    well_typed (data (report_frame now d v status_new)) \<and> decode_success (report_frame now d v status_new)"
proof -
  have "report_ok (reset_state d) (report_frame now d v status_new)"
    unfolding report_ok_def using assms
    by (intro exI [of _ "d_received_bytes d"] exI [of _ v])
      (simp add: reset_state_def report_frame_def Let_def status_new_def add_decoder_def add_pdu_def
        add_time_iso8601_def add_crc_valid_def add_sample_start_def add_sample_cnt_def dict_put_def)
  moreover have "well_typed (data (report_frame now d v status_new))"
    unfolding report_frame_def Let_def by (simp add: status_new_def)
  ultimately show ?thesis by (simp add: report_frame_def Let_def)
qed

lemma enter_frame_end_ok:
  assumes "frame_room d"
  shows "\<exists>r d' st'. enter_frame_end now (d, status_new) = Inr (r, d', st') \<and>
    ax25_inv d' \<and> ax25_const d' = ax25_const d \<and> well_typed (data st') \<and>
    (r \<longrightarrow> decode_success st') \<and> (if decode_success st' then report_ok d' st' else st' = status_new)"
proof (cases "d_received_bytes d < min_addr_len + 2")
  case True
  then have "enter_frame_end now (d, status_new) = Inr (False, reset_state d, status_new)"
    by (simp add: enter_frame_end_def)
  moreover have "ax25_inv (reset_state d)" "ax25_const (reset_state d) = ax25_const d"
    using assms by (simp_all add: ax25_inv_def ax25_const_def reset_state_def frame_room_def items_seen_def)
  ultimately show ?thesis by (simp add: status_new_def)
next
  case False
  then have n: "16 \<le> d_received_bytes d" by (simp add: min_addr_len_def)
  have le: "d_received_bytes d \<le> length (d_frame_buffer d)" using assms n by (auto simp: frame_room_def)
  have two: "2 \<le> d_received_bytes d" using n by simp
  obtain v where v: "is_frame_valid (d_received_bytes d) (d_frame_buffer d) = Inr v"
    using is_frame_valid_total [OF two le] by blast
  have reset: "ax25_inv (reset_state d1)" "ax25_const (reset_state d1) = ax25_const d"
    if "d1 = d\<lparr>d_frame_buffer := buf\<rparr>" "length buf = length (d_frame_buffer d)" for d1 buf
    using assms that by (simp_all add: reset_state_def ax25_inv_def ax25_const_def items_seen_def frame_room_def)
  show ?thesis
  proof (cases v)
    case True
    then show ?thesis using False v report_frame_ok [OF n le v] reset [of d "d_frame_buffer d"]
      by (simp add: enter_frame_end_def)
  next
    case 2: False
    obtain ok buf where ec: "error_correction d = Inr (ok, d\<lparr>d_frame_buffer := buf\<rparr>)"
      and co: "corrects d ok buf"
      using error_correction_result [OF two le] by blast
    let ?d = "d\<lparr>d_frame_buffer := buf\<rparr>"
    note res = reset [of ?d buf, OF refl correctsD(1) [OF co]]
    have r: "report_ok (reset_state ?d) (report_frame now ?d ok status_new) \<and>
        well_typed (data (report_frame now ?d ok status_new)) \<and> decode_success (report_frame now ?d ok status_new)"
      if "ok \<or> \<not> d_crc_check d"
    proof (rule report_frame_ok)
      show "is_frame_valid (d_received_bytes ?d) (d_frame_buffer ?d) = Inr ok"
        using correctsD(2,3) [OF co] v 2 by (cases ok) simp_all
    qed (use n le correctsD(1) [OF co] that in simp_all)
    show ?thesis
    proof (cases ok)
      case True
      then show ?thesis using False 2 v ec r res by (simp add: enter_frame_end_def)
    next
      case 3: False
      then show ?thesis using False 2 v ec r res
        by (cases "d_crc_check d") (simp_all add: enter_frame_end_def status_new_def)
    qed
  qed
qed

lemma decoding_step:
  assumes "ax25_inv d" and "d_state d = DECODING"
  shows "iteration_ok d status_new (decoding_iteration now (d, status_new)) \<or>
    (\<exists>s r. decoding_iteration now (d, status_new) = Inr (Return s r) \<and> ax25_post (ax25_const d) s r)"
proof -
  let ?s = "d_start_idx d" and ?bs = "d_bitstream d"
  have inv: "7 \<le> ?s" "?s \<le> length ?bs" "frame_room d" using assms by (simp_all add: ax25_inv_def)
  obtain e d1 where s: "scan_data ?s (drop ?s ?bs) d = Inr (e, d1)" and ch: "data_change d d1"
    and room: "e \<noteq> Limit_reached \<Longrightarrow> frame_room d1" and e: "end_in e ?s (length (drop ?s ?bs))"
    using scan_data_frame [OF inv(3)] by blast
  obtain sr db k buf n where d1: "d1 = d\<lparr>d_shift_reg := sr, d_dec_b := db, d_decoded_bits := k,
      d_frame_buffer := buf, d_received_bytes := n\<rparr>" and buf: "length buf = length (d_frame_buffer d)"
    using ch unfolding data_change_def by metis
  have len: "length (d_frame_buffer d1) = d_max_frame_len d1 + 75"
    using inv(3) buf by (simp add: d1 frame_room_def)
  have const1: "ax25_const d1 = ax25_const d" by (simp add: d1 ax25_const_def items_seen_def)
  have drop: "drop_bits (j + 1) 8 d' = Inr (d'\<lparr>d_bitstream := drop (j - 7) ?bs,
        d_nitems_read := d_nitems_read d' + of_nat (j - 7)\<rparr>)"
    if "7 \<le> j" "j < length ?bs" "d_bitstream d' = ?bs" for j d'
    using that by (subst drop_bits_ok) simp_all
  have again: "iteration_ok d status_new (Inr (Continue (reset_state (d1\<lparr>d_bitstream := drop (j - 7) ?bs,
        d_nitems_read := d_nitems_read d1 + of_nat (j - 7)\<rparr>), status_new)))"
    if "7 \<le> j" "j < length ?bs" for j
  proof (rule iteration_continue [OF refl])
    let ?d = "reset_state (d1\<lparr>d_bitstream := drop (j - 7) ?bs, d_nitems_read := d_nitems_read d1 + of_nat (j - 7)\<rparr>)"
    show "ax25_inv ?d" using len by (simp add: reset_state_def ax25_inv_def)
    show "ax25_const ?d = ax25_const d"
      using that items_seen_drop [of "j - 7" ?bs "d_nitems_read d"]
      by (intro const_of_parts) (simp_all add: d1 reset_state_def items_seen_def)
    show "ax25_measure (?d, status_new) < ax25_measure (d, status_new)"
      using assms(2) that by (simp add: ax25_measure_def reset_state_def)
  qed
  show ?thesis
  proof (cases e)
    case (Flag_at j)
    then have j: "7 \<le> j" "j < length ?bs" using e inv by (auto simp: end_in_def)
    show ?thesis
    proof (cases "d_decoded_bits d1 = 7")
      case False
      then show ?thesis using again [OF j] drop [OF j, of d1]
        by (simp add: decoding_iteration_def s Flag_at d1)
    next
      case True
      let ?c = "d1\<lparr>d_sample_cnt := d_nitems_read d1 + of_nat j - d_frame_start d1\<rparr>"
      let ?f = "?c\<lparr>d_bitstream := drop (j - 7) ?bs, d_nitems_read := d_nitems_read ?c + of_nat (j - 7)\<rparr>"
      have "frame_room ?f" using room Flag_at by (simp add: frame_room_def)
      then obtain r d' st' where end_ok: "enter_frame_end now (?f, status_new) = Inr (r, d', st')"
        "ax25_inv d'" "ax25_const d' = ax25_const ?f" "well_typed (data st')"
        "r \<longrightarrow> decode_success st'" "if decode_success st' then report_ok d' st' else st' = status_new"
        using enter_frame_end_ok by blast
      have "ax25_const ?f = ax25_const d"
        using j items_seen_drop [of "j - 7" ?bs "d_nitems_read d"]
        by (intro const_of_parts) (simp_all add: d1 items_seen_def)
      then have "ax25_post (ax25_const d) (d', st') r" using end_ok by (simp add: ax25_post_def)
      moreover have "decoding_iteration now (d, status_new) = Inr (Return (d', st') r)"
        using True drop [OF j, of ?c] end_ok(1) by (simp add: decoding_iteration_def s Flag_at Let_def d1)
      ultimately show ?thesis by blast
    qed
  next
    case (Invalid_at j)
    then have j: "7 \<le> j" "j < length ?bs" using e inv by (auto simp: end_in_def)
    then show ?thesis using again [OF j] drop [OF j, of d1]
      by (simp add: decoding_iteration_def s Invalid_at d1)
  next
    case Limit_reached
    have "iteration_ok d status_new (Inr (Continue (reset_state d1, status_new)))"
    proof (rule iteration_continue [OF refl])
      show "ax25_inv (reset_state d1)" using len by (simp add: reset_state_def ax25_inv_def)
      show "ax25_const (reset_state d1) = ax25_const d"
        by (simp add: d1 reset_state_def ax25_const_def items_seen_def)
      show "ax25_measure (reset_state d1, status_new) < ax25_measure (d, status_new)"
        using assms(2) by (simp add: d1 ax25_measure_def reset_state_def)
    qed
    then show ?thesis by (simp add: decoding_iteration_def s Limit_reached)
  next
    case Out_of_bits
    let ?d = "d1\<lparr>d_start_idx := length (d_bitstream d1)\<rparr>"
    have "iteration_ok d status_new (Inr (Return (?d, status_new) False))"
    proof (rule iteration_return [OF refl])
      show "ax25_inv ?d" using room Out_of_bits assms(2) inv len by (simp add: d1 ax25_inv_def frame_room_def)
      show "ax25_const ?d = ax25_const d" by (simp add: d1 ax25_const_def items_seen_def)
    qed
    then show ?thesis by (simp add: decoding_iteration_def s Out_of_bits)
  qed
qed

lemma ax25_step:
  assumes "ax25_loop_inv K s"
  shows "(\<exists>s'. ax25_iteration now s = Inr (Continue s') \<and> ax25_loop_inv K s' \<and> ax25_measure s' < ax25_measure s) \<or>
    (\<exists>s' r. ax25_iteration now s = Inr (Return s' r) \<and> ax25_post K s' r)"
proof -
  obtain d where s: "s = (d, status_new)" and inv: "ax25_inv d" and K: "K = ax25_const d"
    using assms by (cases s) (auto simp: ax25_loop_inv_def)
  have quiet: "ax25_post (ax25_const d) (d', status_new) False" if "ax25_inv d'" "ax25_const d' = ax25_const d" for d'
    using that by (simp add: ax25_post_def status_new_def)
  have ok: ?thesis if "ax25_iteration now s = out" "iteration_ok d status_new out" for out
    using that quiet unfolding iteration_ok_def s K ax25_loop_inv_def by fastforce
  show ?thesis
  proof (cases "d_bitstream d = []")
    case True
    then show ?thesis using quiet [OF inv refl] by (intro disjI2) (auto simp: ax25_iteration_def s K)
  next
    case False
    show ?thesis
    proof (cases "d_state d")
      case NO_SYNC
      then show ?thesis using ok no_sync_step [OF inv NO_SYNC] False by (simp add: ax25_iteration_def s)
    next
      case IN_SYNC
      then show ?thesis using ok in_sync_step [OF inv IN_SYNC] False by (simp add: ax25_iteration_def s)
    next
      case DECODING
      then show ?thesis
        using decoding_step [OF inv DECODING, of now] ok [of "decoding_iteration now (d, status_new)"] False
        by (auto simp: ax25_iteration_def s K)
    qed
  qed
qed

interpretation ax25_loop: step_loop "ax25_iteration now" "ax25_loop_inv K" ax25_measure "ax25_post K"
  for now K
proof unfold_locales
  fix s s' r
  assume "ax25_loop_inv K s"
  note step = ax25_step [OF this, of now]
  show "\<exists>x. ax25_iteration now s = Inr x" using step by auto
  show "ax25_iteration now s = Inr (Continue s') \<Longrightarrow> ax25_loop_inv K s' \<and> ax25_measure s' < ax25_measure s"
    using step by auto
  show "ax25_iteration now s = Inr (Return s' r) \<Longrightarrow> ax25_post K s' r"
    using step by auto
qed

section \<open>Calls of decode\<close>

lemma receive_1b_change:
  "\<exists>b l. receive_1b L x d = d\<lparr>d_prev_bit_nrzi := x, d_rx_lfsr := l, d_bitstream := d_bitstream d @ [b]\<rparr>"
proof (cases "d_descramble d")
  case True
  then show ?thesis by (auto simp: receive_1b_def Let_def split_def)
next
  case False
  then have "receive_1b L x d = d\<lparr>d_prev_bit_nrzi := x, d_rx_lfsr := d_rx_lfsr d,
      d_bitstream := d_bitstream d @ [nrzi_bit (d_prev_bit_nrzi d) x]\<rparr>"
    by (simp add: receive_1b_def Let_def)
  then show ?thesis by blast
qed

lemma receive_inv:
  "ax25_inv d \<Longrightarrow> ax25_inv (fold (receive_1b L) inp d) \<and>
   items_seen (fold (receive_1b L) inp d) = items_seen d + of_nat (length inp) \<and>
   d_crc_check (fold (receive_1b L) inp d) = d_crc_check d \<and>
   d_max_frame_len (fold (receive_1b L) inp d) = d_max_frame_len d"
proof (induction inp arbitrary: d)
  case Nil
  then show ?case by simp
next
  case (Cons x xs)
  obtain b l where r: "receive_1b L x d = d\<lparr>d_prev_bit_nrzi := x, d_rx_lfsr := l, d_bitstream := d_bitstream d @ [b]\<rparr>"
    using receive_1b_change [of L x d] by blast
  have "ax25_inv (receive_1b L x d)" using Cons.prems unfolding r
    by (auto simp: ax25_inv_def frame_room_def split: decoding_state_t.splits)
  moreover have "items_seen (receive_1b L x d) = items_seen d + 1"
    unfolding r by (simp add: items_seen_def algebra_simps)
  moreover have "d_crc_check (receive_1b L x d) = d_crc_check d"
    "d_max_frame_len (receive_1b L x d) = d_max_frame_len d" unfolding r by simp_all
  ultimately show ?case using Cons.IH [of "receive_1b L x d"] by (simp add: algebra_simps)
qed

lemma ax25_decode_result:
  assumes "ax25_inv d"
  shows "\<exists>d' st r. ax25_decode L now d inp = Some (Inr (d', st\<lparr>consumed := int (length inp)\<rparr>)) \<and>
    ax25_post (ax25_const (fold (receive_1b L) inp d)) (d', st) r"
proof -
  let ?d = "fold (receive_1b L) inp d"
  have inv: "ax25_loop_inv (ax25_const ?d) (?d, status_new)"
    using receive_inv [OF assms, of L inp] by (simp add: ax25_loop_inv_def)
  have "ax25_measure (?d, status_new) < ax25_fuel ?d"
    by (cases "d_state ?d") (simp_all add: ax25_measure_def ax25_fuel_def)
  then obtain s' r where "run_loop (ax25_iteration now) (ax25_fuel ?d) (?d, status_new) = Some (Inr (s', r))"
    "ax25_post (ax25_const ?d) s' r"
    using ax25_loop.loop_returns [OF inv] by blast
  then show ?thesis by (cases s') (auto simp: ax25_decode_def Let_def)
qed

text \<open>C1: Whatever bytes arrive, a call of \<open>decode\<close> on a decoder in a legal state terminates,
  stays inside the frame buffer, the bit queue and the bytes of the check sequence, consumes all
  its input and leaves a legal state; a new decoder is in a legal state.\<close>

theorem ax25_decode_safe:
  assumes "ax25_inv d"
  shows "\<exists>d' st. ax25_decode L now d inp = Some (Inr (d', st)) \<and> ax25_inv d' \<and>
    consumed st = int (length inp)"
  using ax25_decode_result [OF assms, of L now inp] by (auto simp: ax25_post_def)

lemma ax25_decoder_new_inv: "ax25_inv (ax25_decoder_new L uid junk promisc descr crc m ec)"
  by (simp add: ax25_decoder_new_def ax25_inv_def ax25_decoder.defs decoder_base.defs
    max_header_len_def max_addr_len_def max_ctrl_len_def pid_len_def)

theorem ax25_decode_safe_witness:
  "\<exists>d' st. ax25_decode fib_lfsr ''now'' (ax25_decoder_new fib_lfsr 1 (\<lambda>_. 0) False True True 512 False) [1, 0, 1] =
    Some (Inr (d', st)) \<and> ax25_inv d' \<and> consumed st = int (length [1 :: u8, 0, 1])"
  by (rule ax25_decode_safe) (rule ax25_decoder_new_inv)

text \<open>C8: No sample is lost or counted twice: the number of items dropped from the queue, as kept by
  \<open>nitems_read\<close>, plus the length of the queue grows by exactly the number of items of each call, so
  the sample positions in the metadata refer to the input stream.\<close>

theorem ax25_items_conserved:
  assumes "ax25_inv d"
  shows "\<exists>d' st. ax25_decode L now d inp = Some (Inr (d', st)) \<and>
    d_nitems_read d' + of_nat (length (d_bitstream d')) =
    d_nitems_read d + of_nat (length (d_bitstream d)) + of_nat (length inp)"
proof -
  obtain d' st r where r: "ax25_decode L now d inp = Some (Inr (d', st\<lparr>consumed := int (length inp)\<rparr>))"
    "ax25_post (ax25_const (fold (receive_1b L) inp d)) (d', st) r"
    using ax25_decode_result [OF assms] by blast
  have "items_seen d' = items_seen d + of_nat (length inp)"
    using r(2) receive_inv [OF assms, of L inp] by (auto simp: ax25_post_def ax25_const_def)
  then show ?thesis using r(1) by (simp add: items_seen_def)
qed

theorem ax25_items_conserved_witness:
  "\<exists>d' st. ax25_decode fib_lfsr ''now'' (ax25_decoder_new fib_lfsr 1 (\<lambda>_. 0) False True True 512 False) [1, 0, 1] =
    Some (Inr (d', st)) \<and> d_nitems_read d' + of_nat (length (d_bitstream d')) = 3"
  using ax25_items_conserved [OF ax25_decoder_new_inv, of fib_lfsr "''now''" fib_lfsr 1 "\<lambda>_. 0" False True True 512 False "[1, 0, 1]"]
  by (simp add: ax25_decoder_new_def ax25_decoder.defs decoder_base.defs decoder_new_def)

text \<open>C2: What a call reports is sound. A reported frame is a prefix of the frame buffer at least 14
  bytes long and followed by its check sequence; it is reported as valid exactly when CRC-16/X.25
  of it equals the check sequence, and an invalid one only by a decoder that does not require the
  check. A call without success reports nothing at all.\<close>

theorem ax25_report_sound:
  assumes "ax25_inv d" and "ax25_decode L now d inp = Some (Inr (d', st))"
  shows "if decode_success st
    then \<exists>n v. 16 \<le> n \<and> n \<le> length (d_frame_buffer d') \<and>
      data st ''pdu'' = Some (Blob (take (n - 2) (d_frame_buffer d'))) \<and>
      data st ''crc_valid'' = Some (PBool v) \<and> (v \<or> \<not> d_crc_check d) \<and>
      (v \<longleftrightarrow> crc16_ax25 (take (n - 2) (d_frame_buffer d')) =
        push_bit 8 (ucast (d_frame_buffer d' ! (n - 1))) OR ucast (d_frame_buffer d' ! (n - 2)))
    else data st = Map.empty"
proof -
  obtain st' r where r: "st = st'\<lparr>consumed := int (length inp)\<rparr>"
    "ax25_post (ax25_const (fold (receive_1b L) inp d)) (d', st') r"
    using ax25_decode_result [OF assms(1), of L now inp] assms(2) by auto
  have "d_crc_check d' = d_crc_check d"
    using r(2) receive_inv [OF assms(1), of L inp] by (auto simp: ax25_post_def ax25_const_def)
  then show ?thesis
    using r by (auto simp: ax25_post_def report_ok_def is_frame_valid_def ax25_crc_def status_new_def
      Let_def split: if_splits)
qed

theorem ax25_report_sound_witness:
  "\<exists>d' st. ax25_decode fib_lfsr ''now'' (ax25_decoder_new fib_lfsr 1 (\<lambda>_. 0) False False False 512 True) [1, 0, 1, 1] =
      Some (Inr (d', st)) \<and>
    (decode_success st \<longrightarrow> (\<exists>n. 16 \<le> n \<and> data st ''pdu'' = Some (Blob (take (n - 2) (d_frame_buffer d')))))"
proof -
  let ?d = "ax25_decoder_new fib_lfsr 1 (\<lambda>_. 0) False False False 512 True"
  obtain d' st where r: "ax25_decode fib_lfsr ''now'' ?d [1, 0, 1, 1] = Some (Inr (d', st))"
    using ax25_decode_result [OF ax25_decoder_new_inv] by blast
  show ?thesis
    using ax25_report_sound [OF ax25_decoder_new_inv r] r by (auto split: if_splits)
qed



end
