(* ===== verification/Ax25_Link.thy ===== *)
theory Ax25_Link
  imports Ax25_Encoder Ax25_Decoder
begin

text \<open>
  The encoder (\<open>ax25_encoder::encode\<close>) and the decoder (\<open>ax25_decoder::decode\<close>) as the two
  ends of a link: the lemmas follow one frame along the line, through NRZI, the flags of the
  preamble, the stuffed bits and the closing flag, and show which state the decoder is in after
  each of them. The round trip for whole frames is \<open>ax25_link_roundtrip\<close>.
\<close>

unbundle bit_operations_syntax

section \<open>NRZI\<close>

definition nrzi_end :: "u8 \<Rightarrow> u8 list \<Rightarrow> u8" where
  "nrzi_end p bs = fold (\<lambda>b p. p XOR (1 XOR b)) bs p"

lemma nrzi_end_simps [simp]:
  "nrzi_end p [] = p" "nrzi_end p (b # bs) = nrzi_end (p XOR (1 XOR b)) bs"
  by (simp_all add: nrzi_end_def)

lemma nrzi_code_append: "nrzi_code p (xs @ ys) = nrzi_code p xs @ nrzi_code (nrzi_end p xs) ys"
  by (induction xs arbitrary: p) (auto simp: Let_def)

lemma is_bit_xor [simp]: "is_bit a \<Longrightarrow> is_bit b \<Longrightarrow> is_bit (a XOR b)"
  by (auto simp: is_bit_def)

lemma nrzi_code_bits: "\<forall>b \<in> set bs. is_bit b \<Longrightarrow> is_bit q \<Longrightarrow> \<forall>y \<in> set (nrzi_code q bs). is_bit y"
proof (induction bs arbitrary: q)
  case (Cons b bs)
  have "is_bit (q XOR (1 XOR b))" using Cons.prems by simp
  then have "\<forall>y \<in> set (nrzi_code (q XOR (1 XOR b)) bs). is_bit y"
    using Cons.prems(1) by (intro Cons.IH) simp_all
  then show ?case using \<open>is_bit (q XOR (1 XOR b))\<close> by (simp add: Let_def)
qed simp

lemma nrzi_map_state:
  "is_bit p \<Longrightarrow> set ks \<subseteq> {0..<8} \<Longrightarrow>
   map_state (\<lambda>p k. let p' = (drop_bit k (NOT x) AND 1) XOR p in (p' AND 1, p')) p ks =
   (nrzi_code p (map (\<lambda>k. drop_bit k x AND 1) ks), nrzi_end p (map (\<lambda>k. drop_bit k x AND 1) ks))"
  for x :: u8
proof (induction ks arbitrary: p)
  case Nil
  then show ?case by simp
next
  case (Cons k ks)
  have k: "k < 8" using Cons.prems(2) by simp
  have bit: "drop_bit k x AND 1 = (if bit x k then 1 else 0)"
    by (simp add: and_one_eq mod_2_eq_odd bit_iff_odd_drop_bit)
  have not: "drop_bit k (NOT x) AND 1 = (if bit x k then 0 else 1)"
    using k by (simp add: and_one_eq mod_2_eq_odd bit_iff_odd_drop_bit [symmetric] bit_not_iff)
  have e: "(drop_bit k (NOT x) AND 1) XOR p = p XOR (1 XOR (drop_bit k x AND 1))"
    by (simp add: bit not xor.commute)
  have b: "is_bit (p XOR (1 XOR (drop_bit k x AND 1)))" using Cons.prems(1) by (simp add: bit)
  then have a: "(p XOR (1 XOR (drop_bit k x AND 1))) AND 1 = p XOR (1 XOR (drop_bit k x AND 1))"
    by (auto simp: is_bit_def)
  show ?case using Cons.IH [OF b] Cons.prems(2)
    by (simp add: Let_def e a split_def)
qed

lemma nrzi_byte_bits:
  assumes "is_bit p"
  shows "unpack_msb (fst (nrzi_byte p x)) = nrzi_code p (unpack_msb x) \<and>
    snd (nrzi_byte p x) = nrzi_end p (unpack_msb x)"
proof -
  let ?g = "\<lambda>p k. let p' = (drop_bit k (NOT x) AND 1) XOR p in (p' AND 1, p')"
  have ks: "[7, 6, 5, 4, 3, 2, 1, 0] = bit_order True" by (simp add: bit_order_def)
  have u: "map (\<lambda>k. drop_bit k x AND 1) (bit_order True) = unpack_msb x"
    by (simp add: bit_order_def unpack_msb_eq)
  have ms: "map_state ?g p (bit_order True) = (nrzi_code p (unpack_msb x), nrzi_end p (unpack_msb x))"
    using nrzi_map_state [OF assms, of "bit_order True" x] unfolding u by (simp add: bit_order_def)
  have "nrzi_byte p x = fold (\<lambda>k (b, l). let (o', l') = ?g l k in (b OR push_bit k o', l')) (bit_order True) (0, p)"
    unfolding nrzi_byte_def Let_def ks by simp
  also have "\<dots> = (let (os, l') = map_state ?g p (bit_order True)
    in (fold (\<lambda>(k, o') b. b OR push_bit k o') (zip (bit_order True) os) 0, l'))"
    by (rule collect_bits)
  finally have n: "nrzi_byte p x =
      (fold (\<lambda>(k, o') b. b OR push_bit k o') (zip (bit_order True) (nrzi_code p (unpack_msb x))) 0,
       nrzi_end p (unpack_msb x))"
    unfolding ms by simp
  have "\<forall>y \<in> set (nrzi_code p (unpack_msb x)). is_bit y"
    using assms unpack_msb_bits by (intro nrzi_code_bits) auto
  then have "unpack_order True (fst (nrzi_byte p x)) = nrzi_code p (unpack_msb x)"
    unfolding n fst_conv by (intro unpack_collected) simp_all
  then show ?thesis by (simp add: unpack_order_def n)
qed

lemma nrzi_end_bit: "\<forall>b \<in> set bs. is_bit b \<Longrightarrow> is_bit p \<Longrightarrow> is_bit (nrzi_end p bs)"
  by (induction bs arbitrary: p) auto

lemma nrzi_bytes_bits:
  "is_bit p \<Longrightarrow> concat (map unpack_msb (fst (map_state nrzi_byte p bs))) =
   nrzi_code p (concat (map unpack_msb bs))"
proof (induction bs arbitrary: p)
  case Nil
  then show ?case by simp
next
  case (Cons b bs)
  have "is_bit (nrzi_end p (unpack_msb b))"
    using Cons.prems unpack_msb_bits by (intro nrzi_end_bit) auto
  then show ?case using Cons nrzi_byte_bits [OF Cons.prems, of b]
    by (simp add: split_def Let_def nrzi_code_append)
qed

text \<open>The receiver inverts the line code.\<close>

lemma nrzi_bit_inverts: "is_bit p \<Longrightarrow> is_bit b \<Longrightarrow> nrzi_bit p (p XOR (1 XOR b)) = b"
  by (auto simp: is_bit_def nrzi_bit_def signed_modulo_int_def)

lemma receive_nrzi:
  "\<not> d_descramble d \<Longrightarrow> is_bit (d_prev_bit_nrzi d) \<Longrightarrow> \<forall>b \<in> set bs. is_bit b \<Longrightarrow>
   fold (receive_1b L) (nrzi_code (d_prev_bit_nrzi d) bs) d =
   d\<lparr>d_prev_bit_nrzi := nrzi_end (d_prev_bit_nrzi d) bs, d_bitstream := d_bitstream d @ bs\<rparr>"
proof (induction bs arbitrary: d)
  case Nil
  then show ?case by simp
next
  case (Cons b bs)
  let ?p = "d_prev_bit_nrzi d"
  let ?d = "receive_1b L (?p XOR (1 XOR b)) d"
  have b: "is_bit b" using Cons.prems(3) by simp
  have d: "?d = d\<lparr>d_prev_bit_nrzi := ?p XOR (1 XOR b), d_bitstream := d_bitstream d @ [b]\<rparr>"
    using Cons.prems(1) by (simp add: receive_1b_def Let_def nrzi_bit_inverts [OF Cons.prems(2) b])
  have "is_bit (d_prev_bit_nrzi ?d)" using Cons.prems(2) b by (simp add: d)
  moreover have "\<not> d_descramble ?d" using Cons.prems(1) by (simp add: d)
  ultimately have "fold (receive_1b L) (nrzi_code (d_prev_bit_nrzi ?d) bs) ?d =
      ?d\<lparr>d_prev_bit_nrzi := nrzi_end (d_prev_bit_nrzi ?d) bs, d_bitstream := d_bitstream ?d @ bs\<rparr>"
    using Cons.IH Cons.prems(3) by simp
  then show ?case by (simp add: Let_def d)
qed

section \<open>The registers of the receiver\<close>

definition shift1 :: "u8 \<Rightarrow> u8 \<Rightarrow> u8" where
  "shift1 sr b = drop_bit 1 sr OR push_bit 7 b"

lemma decode_1b_shift1:
  "decode_1b b d = d\<lparr>d_shift_reg := shift1 (d_shift_reg d) b, d_dec_b := shift1 (d_dec_b d) b\<rparr>"
  by (simp add: decode_1b_def shift1_def)

lemma bit_shift1: "is_bit b \<Longrightarrow> bit (shift1 sr b) j \<longleftrightarrow> (if j = 7 then b = 1 else j < 7 \<and> bit sr (j + 1))"
  using is_bit_bit [of b "j - 7"]
  by (auto simp: shift1_def bit_or_iff bit_drop_bit_eq bit_push_bit_iff dest: bit_imp_le_length)

lemma all_lt_8: "(\<forall>n < 8. P n) \<longleftrightarrow> P 0 \<and> P 1 \<and> P 2 \<and> P 3 \<and> P 4 \<and> P 5 \<and> P 6 \<and> P (7 :: nat)"
proof
  assume a: "P 0 \<and> P 1 \<and> P 2 \<and> P 3 \<and> P 4 \<and> P 5 \<and> P 6 \<and> P (7 :: nat)"
  show "\<forall>n < 8. P n"
  proof (intro allI impI)
    fix n :: nat
    assume "n < 8"
    then show "P n" by (rule all_upto_8) (use a in simp)
  qed
qed simp

lemma word8_eq: "x = y \<longleftrightarrow> (\<forall>n < 8. bit x n = bit y n)" for x y :: u8
  by (auto intro: bit_word_eqI)

lemma is_flag: "x = sync_flag \<longleftrightarrow>
    \<not> bit x 0 \<and> bit x 1 \<and> bit x 2 \<and> bit x 3 \<and> bit x 4 \<and> bit x 5 \<and> bit x 6 \<and> \<not> bit x 7"
  unfolding word8_eq all_lt_8 by (simp add: sync_flag_def)

lemma is_stuffed: "x AND 0xfc = 0x7c \<longleftrightarrow>
    bit x 2 \<and> bit x 3 \<and> bit x 4 \<and> bit x 5 \<and> bit x 6 \<and> \<not> bit x 7" for x :: u8
  unfolding word8_eq all_lt_8 by (simp add: bit_and_iff)

lemma is_invalid: "x AND 0xfe = 0xfe \<longleftrightarrow>
    bit x 1 \<and> bit x 2 \<and> bit x 3 \<and> bit x 4 \<and> bit x 5 \<and> bit x 6 \<and> bit x 7" for x :: u8
  unfolding word8_eq all_lt_8 by (simp add: bit_and_iff)

text \<open>\<open>recent n sr\<close>: the last \<open>n\<close> bits are ones and the one before is a zero.\<close>

definition recent :: "nat \<Rightarrow> u8 \<Rightarrow> bool" where
  "recent n sr \<longleftrightarrow> n \<le> 5 \<and> (\<forall>i < n. bit sr (7 - i)) \<and> \<not> bit sr (7 - n)"

lemma bit_shift1_at:
  assumes "is_bit b"
  shows "bit (shift1 sr b) 0 = bit sr 1" "bit (shift1 sr b) 1 = bit sr 2" "bit (shift1 sr b) 2 = bit sr 3"
    "bit (shift1 sr b) 3 = bit sr 4" "bit (shift1 sr b) 4 = bit sr 5" "bit (shift1 sr b) 5 = bit sr 6"
    "bit (shift1 sr b) 6 = bit sr 7" "bit (shift1 sr b) 7 \<longleftrightarrow> b = 1"
  by (simp_all add: bit_shift1 [OF assms] del: One_nat_def)

lemma recent_one:
  assumes "recent n sr" and "n \<le> 4"
  shows "recent (Suc n) (shift1 sr 1)"
  unfolding recent_def
proof (intro conjI allI impI)
  fix i
  assume i: "i < Suc n"
  show "bit (shift1 sr 1) (7 - i)"
  proof (cases i)
    case 0
    then show ?thesis by (simp add: bit_shift1)
  next
    case (Suc k)
    then have "7 - i + 1 = 7 - k" "k < n" using i assms(2) by simp_all
    moreover have "7 - i < 7" using i Suc by simp
    ultimately show ?thesis using assms(1) by (simp only: bit_shift1 [OF is_bit_simps(2)] recent_def) simp
  qed
next
  have "7 - Suc n + 1 = 7 - n" using assms(2) by simp
  then show "\<not> bit (shift1 sr 1) (7 - Suc n)" using assms by (simp add: bit_shift1 recent_def)
qed (use assms in simp)

lemma recent_zero: "recent 0 (shift1 sr 0)"
  by (simp add: recent_def bit_shift1)

lemma recent_gap: "recent n sr \<Longrightarrow> \<not> (bit sr 2 \<and> bit sr 3 \<and> bit sr 4 \<and> bit sr 5 \<and> bit sr 6 \<and> bit sr 7)"
proof -
  assume r: "recent n sr"
  then have "n = 0 \<or> n = 1 \<or> n = 2 \<or> n = 3 \<or> n = 4 \<or> n = 5" unfolding recent_def by linarith
  then show ?thesis using r by (elim disjE) (simp_all add: recent_def)
qed

lemma recent_gap_4: "recent n sr \<Longrightarrow> n \<le> 4 \<Longrightarrow> \<not> (bit sr 3 \<and> bit sr 4 \<and> bit sr 5 \<and> bit sr 6 \<and> bit sr 7)"
proof -
  assume r: "recent n sr" and "n \<le> 4"
  then have "n = 0 \<or> n = 1 \<or> n = 2 \<or> n = 3 \<or> n = 4" by linarith
  then show ?thesis using r by (elim disjE) (simp_all add: recent_def)
qed

lemma recent_5: "recent 5 sr \<longleftrightarrow> \<not> bit sr 2 \<and> bit sr 3 \<and> bit sr 4 \<and> bit sr 5 \<and> bit sr 6 \<and> bit sr 7"
proof -
  have "(\<forall>i < 5. P i) \<longleftrightarrow> P 0 \<and> P 1 \<and> P 2 \<and> P 3 \<and> P (4 :: nat)" for P
    by (auto simp: numeral_eq_Suc less_Suc_eq)
  then show ?thesis unfolding recent_def by auto
qed

lemma one_is_data:
  assumes "recent n sr"
  shows "shift1 sr 1 \<noteq> sync_flag \<and> shift1 sr 1 AND 0xfc \<noteq> 0x7c \<and> shift1 sr 1 AND 0xfe \<noteq> 0xfe"
  using recent_gap [OF assms] unfolding is_flag is_stuffed is_invalid bit_shift1_at [OF is_bit_simps(2)] by blast

lemma zero_is_data:
  assumes "recent n sr" and "n \<le> 4"
  shows "shift1 sr 0 \<noteq> sync_flag \<and> shift1 sr 0 AND 0xfc \<noteq> 0x7c \<and> shift1 sr 0 AND 0xfe \<noteq> 0xfe"
  using recent_gap_4 [OF assms] unfolding is_flag is_stuffed is_invalid bit_shift1_at [OF is_bit_simps(1)]
  by simp

lemma zero_is_stuffed:
  assumes "recent 5 sr"
  shows "shift1 sr 0 \<noteq> sync_flag \<and> shift1 sr 0 AND 0xfc = 0x7c"
  using assms unfolding recent_5 is_flag is_stuffed bit_shift1_at [OF is_bit_simps(1)] by simp

text \<open>\<open>dec_top bs db\<close>: the top bits of the data register are \<open>bs\<close>, oldest lowest.\<close>

definition dec_top :: "u8 list \<Rightarrow> u8 \<Rightarrow> bool" where
  "dec_top bs db \<longleftrightarrow> length bs \<le> 8 \<and> (\<forall>j < length bs. bit db (8 - length bs + j) \<longleftrightarrow> bs ! j = 1)"

lemma dec_top_Nil [simp]: "dec_top [] db"
  by (simp add: dec_top_def)

lemma dec_top_shift:
  assumes "dec_top bs db" and "length bs < 8" and "is_bit b"
  shows "dec_top (bs @ [b]) (shift1 db b)"
  unfolding dec_top_def
proof (intro conjI allI impI)
  fix j
  assume "j < length (bs @ [b])"
  then have j: "j < Suc (length bs)" by simp
  show "bit (shift1 db b) (8 - length (bs @ [b]) + j) \<longleftrightarrow> (bs @ [b]) ! j = 1"
  proof (cases "j = length bs")
    case True
    then show ?thesis using assms by (simp add: bit_shift1)
  next
    case False
    then have "j < length bs" using j by simp
    moreover have "8 - length (bs @ [b]) + j + 1 = 8 - length bs + j" using assms(2) by simp
    ultimately show ?thesis using assms by (auto simp: bit_shift1 nth_append dec_top_def)
  qed
qed (use assms in simp)

lemma dec_top_stuffed:
  assumes "dec_top bs db" and "length bs < 8"
  shows "dec_top bs (push_bit 1 (shift1 db 0))"
  unfolding dec_top_def
proof (intro conjI allI impI)
  fix j
  assume j: "j < length bs"
  let ?i = "8 - length bs + j"
  have i: "0 < ?i" "?i < 8" using assms(2) j by simp_all
  have "bit (push_bit 1 (shift1 db 0)) ?i \<longleftrightarrow> bit db ?i"
    using i by (auto simp: bit_push_bit_iff bit_shift1 bit_shl1)
  moreover have "bit db ?i \<longleftrightarrow> bs ! j = 1" using assms(1) j by (simp only: dec_top_def)
  ultimately show "bit (push_bit 1 (shift1 db 0)) ?i \<longleftrightarrow> bs ! j = 1" by (simp only:)
qed (use assms in simp)

lemma pack_lsb_bit:
  assumes "length bs = 8" and "\<forall>b \<in> set bs. is_bit b" and "j < 8"
  shows "bit (pack_lsb bs) j \<longleftrightarrow> bs ! j = 1"
proof -
  have "unpack_lsb (pack_lsb bs) ! j = bs ! j" using unpack_pack_lsb [OF assms(1,2)] by simp
  moreover have "unpack_lsb (pack_lsb bs) ! j = (if bit (pack_lsb bs) j then 1 else 0)"
    using assms(3) by (simp add: unpack_lsb_def rev_nth unpack_msb_bit)
  ultimately show ?thesis by (metis zero_neq_one)
qed

lemma dec_top_complete:
  assumes "dec_top bs db" and "length bs = 8" and "\<forall>b \<in> set bs. is_bit b"
  shows "db = pack_lsb bs"
  unfolding word8_eq using assms pack_lsb_bit [OF assms(2,3)] by (auto simp: dec_top_def)

section \<open>The data scan over a stuffed stream\<close>

text \<open>One line bit, in the three ways the scan can take it when it is not special.\<close>

lemma scan_data_bit:
  assumes "shift1 (d_shift_reg d) b \<noteq> sync_flag \<and> shift1 (d_shift_reg d) b AND 0xfc \<noteq> 0x7c \<and>
      shift1 (d_shift_reg d) b AND 0xfe \<noteq> 0xfe"
    and "d_decoded_bits d < 7"
  shows "scan_data i (b # rest) d =
    scan_data (i + 1) rest (d\<lparr>d_shift_reg := shift1 (d_shift_reg d) b, d_dec_b := shift1 (d_dec_b d) b,
      d_decoded_bits := d_decoded_bits d + 1\<rparr>)"
  using assms by (simp add: decode_1b_shift1 Let_def)

lemma scan_data_byte:
  assumes "shift1 (d_shift_reg d) b \<noteq> sync_flag \<and> shift1 (d_shift_reg d) b AND 0xfc \<noteq> 0x7c \<and>
      shift1 (d_shift_reg d) b AND 0xfe \<noteq> 0xfe"
    and "d_decoded_bits d = 7" and "d_received_bytes d < length (d_frame_buffer d)"
    and "d_received_bytes d + 1 < d_max_frame_len d"
  shows "scan_data i (b # rest) d =
    scan_data (i + 1) rest (d\<lparr>d_shift_reg := shift1 (d_shift_reg d) b, d_dec_b := shift1 (d_dec_b d) b,
      d_frame_buffer := (d_frame_buffer d)[d_received_bytes d := shift1 (d_dec_b d) b],
      d_received_bytes := d_received_bytes d + 1, d_decoded_bits := 0\<rparr>)"
  using assms by (simp add: decode_1b_shift1 Let_def buf_simps)

lemma scan_data_stuffed:
  assumes "recent 5 (d_shift_reg d)"
  shows "scan_data i (0 # rest) d =
    scan_data (i + 1) rest (d\<lparr>d_shift_reg := shift1 (d_shift_reg d) 0,
      d_dec_b := push_bit 1 (shift1 (d_dec_b d) 0)\<rparr>)"
  using zero_is_stuffed [OF assms] by (simp add: decode_1b_shift1 Let_def)

text \<open>
  \<open>link d n bs\<close>: the scan is inside a frame, \<open>n\<close> ones have just come in and \<open>bs\<close> are the bits
  of the byte under construction.
\<close>

definition link :: "'l ax25_decoder \<Rightarrow> nat \<Rightarrow> u8 list \<Rightarrow> bool" where
  "link d n bs \<longleftrightarrow>
     n \<le> 4 \<and> recent n (d_shift_reg d) \<and> dec_top bs (d_dec_b d) \<and> (\<forall>b \<in> set bs. is_bit b) \<and>
     d_decoded_bits d = length bs \<and> length bs < 8"

lemma data_change_const:
  assumes "data_change d d1"
  shows "d_max_frame_len d1 = d_max_frame_len d" "d_bitstream d1 = d_bitstream d"
    "d_nitems_read d1 = d_nitems_read d" "d_frame_start d1 = d_frame_start d" "d_state d1 = d_state d"
    "d_start_idx d1 = d_start_idx d" "length (d_frame_buffer d1) = length (d_frame_buffer d)"
proof -
  obtain sr db k buf n where "d1 = d\<lparr>d_shift_reg := sr, d_dec_b := db, d_decoded_bits := k,
      d_frame_buffer := buf, d_received_bytes := n\<rparr>" "length buf = length (d_frame_buffer d)"
    using assms unfolding data_change_def by metis
  then show "d_max_frame_len d1 = d_max_frame_len d" "d_bitstream d1 = d_bitstream d"
    "d_nitems_read d1 = d_nitems_read d" "d_frame_start d1 = d_frame_start d" "d_state d1 = d_state d"
    "d_start_idx d1 = d_start_idx d" "length (d_frame_buffer d1) = length (d_frame_buffer d)"
    by simp_all
qed

lemma regular_bit:
  assumes "link d n bs" and "is_bit b"
  shows "shift1 (d_shift_reg d) b \<noteq> sync_flag \<and> shift1 (d_shift_reg d) b AND 0xfc \<noteq> 0x7c \<and>
      shift1 (d_shift_reg d) b AND 0xfe \<noteq> 0xfe"
    and "recent (if b = 1 then Suc n else 0) (shift1 (d_shift_reg d) b)"
  using assms one_is_data [of n "d_shift_reg d"] zero_is_data [of n "d_shift_reg d"]
    recent_one [of n "d_shift_reg d"] recent_zero [of "d_shift_reg d"]
  by (auto simp: link_def is_bit_def)

lemma scan_stuff_bit:
  assumes link: "link d n bs" and b: "is_bit b" and short: "length bs < 7"
  shows "\<exists>d'. scan_data i (stuff n [b] @ rest) d = scan_data (i + length (stuff n [b])) rest d' \<and>
    link d' (ones_after n [b]) (bs @ [b]) \<and>
    d_frame_buffer d' = d_frame_buffer d \<and> d_received_bytes d' = d_received_bytes d \<and> data_change d d'"
proof -
  let ?d = "d\<lparr>d_shift_reg := shift1 (d_shift_reg d) b, d_dec_b := shift1 (d_dec_b d) b,
      d_decoded_bits := d_decoded_bits d + 1\<rparr>"
  have len: "d_decoded_bits d < 7" "n \<le> 4" using link short by (simp_all add: link_def)
  have one: "scan_data i (b # r) d = scan_data (i + 1) r ?d" for r
    by (rule scan_data_bit [OF regular_bit(1) [OF link b] len(1)])
  have top: "dec_top (bs @ [b]) (shift1 (d_dec_b d) b)"
    using link b by (intro dec_top_shift) (simp_all add: link_def)
  have bits: "\<forall>x \<in> set (bs @ [b]). is_bit x" "d_decoded_bits d = length bs" using link b by (simp_all add: link_def)
  show ?thesis
  proof (cases "b = 1 \<and> n = 4")
    case True
    let ?d2 = "?d\<lparr>d_shift_reg := shift1 (d_shift_reg ?d) 0, d_dec_b := push_bit 1 (shift1 (d_dec_b ?d) 0)\<rparr>"
    have r: "recent 5 (d_shift_reg ?d)" using regular_bit(2) [OF link b] True by simp
    have "scan_data i (stuff n [b] @ rest) d = scan_data (i + length (stuff n [b])) rest ?d2"
      using True one [of "0 # rest"] scan_data_stuffed [OF r, of "i + 1" rest] by simp
    moreover have "link ?d2 (ones_after n [b]) (bs @ [b])"
      using True bits short dec_top_stuffed [OF top] recent_zero by (simp add: link_def)
    moreover have "data_change d ?d2" by (simp add: data_change_def)
    ultimately show ?thesis by (intro exI [of _ ?d2]) simp
  next
    case False
    then have "scan_data i (stuff n [b] @ rest) d = scan_data (i + length (stuff n [b])) rest ?d"
      using one [of rest] b by (auto simp: is_bit_def)
    moreover have "link ?d (ones_after n [b]) (bs @ [b])"
      using False regular_bit(2) [OF link b] bits short top len(2) by (auto simp: link_def split: if_splits)
    moreover have "data_change d ?d" by (simp add: data_change_def)
    ultimately show ?thesis by (intro exI [of _ ?d]) simp
  qed
qed

lemma scan_stuff_last:
  assumes link: "link d n bs" and b: "is_bit b" and full: "length bs = 7"
    and room: "d_received_bytes d < length (d_frame_buffer d)" "d_received_bytes d + 1 < d_max_frame_len d"
  shows "\<exists>d'. scan_data i (stuff n [b] @ rest) d = scan_data (i + length (stuff n [b])) rest d' \<and>
    link d' (ones_after n [b]) [] \<and>
    d_frame_buffer d' = (d_frame_buffer d)[d_received_bytes d := pack_lsb (bs @ [b])] \<and>
    d_received_bytes d' = d_received_bytes d + 1 \<and> data_change d d'"
proof -
  have len: "d_decoded_bits d = 7" "n \<le> 4" using link full by (simp_all add: link_def)
  have top: "dec_top (bs @ [b]) (shift1 (d_dec_b d) b)"
    using link b by (intro dec_top_shift) (simp_all add: link_def)
  have bits: "\<forall>x \<in> set (bs @ [b]). is_bit x" using link b by (simp_all add: link_def)
  have db: "shift1 (d_dec_b d) b = pack_lsb (bs @ [b])"
    by (rule dec_top_complete [OF top _ bits]) (simp add: full)
  let ?d = "d\<lparr>d_shift_reg := shift1 (d_shift_reg d) b, d_dec_b := pack_lsb (bs @ [b]),
      d_frame_buffer := (d_frame_buffer d)[d_received_bytes d := pack_lsb (bs @ [b])],
      d_received_bytes := d_received_bytes d + 1, d_decoded_bits := 0\<rparr>"
  have one: "scan_data i (b # r) d = scan_data (i + 1) r ?d" for r
    using scan_data_byte [OF regular_bit(1) [OF link b] len(1) room, of i r] unfolding db .
  show ?thesis
  proof (cases "b = 1 \<and> n = 4")
    case True
    let ?d2 = "?d\<lparr>d_shift_reg := shift1 (d_shift_reg ?d) 0, d_dec_b := push_bit 1 (shift1 (d_dec_b ?d) 0)\<rparr>"
    have r: "recent 5 (d_shift_reg ?d)" using regular_bit(2) [OF link b] True by simp
    have "scan_data i (stuff n [b] @ rest) d = scan_data (i + length (stuff n [b])) rest ?d2"
      using True one [of "0 # rest"] scan_data_stuffed [OF r, of "i + 1" rest] by simp
    moreover have "link ?d2 (ones_after n [b]) []"
      using True recent_zero by (simp add: link_def)
    moreover have "data_change d ?d2" by (simp add: data_change_def)
    ultimately show ?thesis by (intro exI [of _ ?d2]) simp
  next
    case False
    then have "scan_data i (stuff n [b] @ rest) d = scan_data (i + length (stuff n [b])) rest ?d"
      using one [of rest] b by (auto simp: is_bit_def)
    moreover have "link ?d (ones_after n [b]) []"
      using False regular_bit(2) [OF link b] len(2) by (auto simp: link_def split: if_splits)
    moreover have "data_change d ?d" by (simp add: data_change_def)
    ultimately show ?thesis by (intro exI [of _ ?d]) simp
  qed
qed

lemma stuff_Cons: "stuff n (b # bs) = stuff n [b] @ stuff (ones_after n [b]) bs"
  using stuff_append [of n "[b]" bs] by simp

lemma ones_after_Cons: "ones_after n (b # bs) = ones_after (ones_after n [b]) bs"
  using ones_after_append [of n "[b]" bs] by simp

lemma scan_stuff_byte:
  assumes "link d n bs" and "\<forall>b \<in> set xs. is_bit b" and "length bs + length xs = 8"
    and "d_received_bytes d < length (d_frame_buffer d)" and "d_received_bytes d + 1 < d_max_frame_len d"
  shows "\<exists>d'. scan_data i (stuff n xs @ rest) d = scan_data (i + length (stuff n xs)) rest d' \<and>
    link d' (ones_after n xs) [] \<and>
    d_frame_buffer d' = (d_frame_buffer d)[d_received_bytes d := pack_lsb (bs @ xs)] \<and>
    d_received_bytes d' = d_received_bytes d + 1 \<and> data_change d d'"
  using assms
proof (induction xs arbitrary: d n bs i)
  case Nil
  then show ?case by (simp add: link_def)
next
  case (Cons b xs)
  have b: "is_bit b" using Cons.prems(2) by simp
  show ?case
  proof (cases "xs = []")
    case True
    then show ?thesis using scan_stuff_last [OF Cons.prems(1) b _ Cons.prems(4,5), of i rest] Cons.prems(3) by simp
  next
    case False
    then have short: "length bs < 7" using Cons.prems(3) by (cases xs) simp_all
    obtain d1 where d1: "scan_data i (stuff n [b] @ stuff (ones_after n [b]) xs @ rest) d =
        scan_data (i + length (stuff n [b])) (stuff (ones_after n [b]) xs @ rest) d1"
      "link d1 (ones_after n [b]) (bs @ [b])" "d_frame_buffer d1 = d_frame_buffer d"
      "d_received_bytes d1 = d_received_bytes d" "data_change d d1"
      using scan_stuff_bit [OF Cons.prems(1) b short] by blast
    have h: "\<forall>b \<in> set xs. is_bit b" "length (bs @ [b]) + length xs = 8"
      "d_received_bytes d1 < length (d_frame_buffer d1)" "d_received_bytes d1 + 1 < d_max_frame_len d1"
      using Cons.prems(2-5) d1(3,4) data_change_const [OF d1(5)] by simp_all
    obtain d2 where d2: "scan_data (i + length (stuff n [b])) (stuff (ones_after n [b]) xs @ rest) d1 =
        scan_data (i + length (stuff n [b]) + length (stuff (ones_after n [b]) xs)) rest d2"
      "link d2 (ones_after (ones_after n [b]) xs) []"
      "d_frame_buffer d2 = (d_frame_buffer d1)[d_received_bytes d1 := pack_lsb ((bs @ [b]) @ xs)]"
      "d_received_bytes d2 = d_received_bytes d1 + 1" "data_change d1 d2"
      using Cons.IH [OF d1(2) h, of "i + length (stuff n [b])"] by blast
    show ?thesis
      using d1(1) d2(1-4) d1(3,4) data_change_trans [OF d1(5) d2(5)]
      unfolding stuff_Cons [of n b xs] ones_after_Cons [of n b xs] append_assoc length_append
      by (intro exI [of _ d2]) (simp only: add.assoc append_Cons append_Nil simp_thms)
  qed
qed

lemma lsb_bits_Cons: "lsb_bits (x # xs) = unpack_lsb x @ lsb_bits xs"
  by (simp add: lsb_bits_eq)

text \<open>A whole frame, byte after byte.\<close>

lemma scan_frame:
  "link d n [] \<Longrightarrow> d_received_bytes d + length fr < d_max_frame_len d \<Longrightarrow>
   d_max_frame_len d \<le> length (d_frame_buffer d) \<Longrightarrow>
   \<exists>d'. scan_data i (stuff n (lsb_bits fr) @ rest) d = scan_data (i + length (stuff n (lsb_bits fr))) rest d' \<and>
     link d' (ones_after n (lsb_bits fr)) [] \<and>
     take (d_received_bytes d') (d_frame_buffer d') = take (d_received_bytes d) (d_frame_buffer d) @ fr \<and>
     d_received_bytes d' = d_received_bytes d + length fr \<and> data_change d d'"
proof (induction fr arbitrary: d n i)
  case Nil
  have "lsb_bits [] = []" by (simp add: lsb_bits_def)
  then show ?case using Nil data_change_refl [of d] by (intro exI [of _ d]) simp
next
  case (Cons x fr)
  let ?u = "unpack_lsb x" and ?r = "d_received_bytes d"
  have u: "\<forall>b \<in> set ?u. is_bit b" "length [] + length ?u = 8" using unpack_lsb_bits by auto
  have room: "?r < length (d_frame_buffer d)" "?r + 1 < d_max_frame_len d \<or> fr = []"
    using Cons.prems by (auto simp: neq_Nil_conv)
  have room2: "?r + 1 < d_max_frame_len d" using Cons.prems(2) by simp
  obtain d1 where d1: "scan_data i (stuff n ?u @ stuff (ones_after n ?u) (lsb_bits fr) @ rest) d =
      scan_data (i + length (stuff n ?u)) (stuff (ones_after n ?u) (lsb_bits fr) @ rest) d1"
    "link d1 (ones_after n ?u) []"
    "d_frame_buffer d1 = (d_frame_buffer d)[?r := pack_lsb ([] @ ?u)]"
    "d_received_bytes d1 = ?r + 1" "data_change d d1"
    using scan_stuff_byte [OF Cons.prems(1) u room(1) room2, of i "stuff (ones_after n ?u) (lsb_bits fr) @ rest"] by blast
  note const = data_change_const [OF d1(5)]
  have buf: "d_frame_buffer d1 = (d_frame_buffer d)[?r := x]" using d1(3) by simp
  have h: "d_received_bytes d1 + length fr < d_max_frame_len d1" "d_max_frame_len d1 \<le> length (d_frame_buffer d1)"
    using Cons.prems(2,3) d1(4) const by simp_all
  obtain d2 where d2: "scan_data (i + length (stuff n ?u)) (stuff (ones_after n ?u) (lsb_bits fr) @ rest) d1 =
      scan_data (i + length (stuff n ?u) + length (stuff (ones_after n ?u) (lsb_bits fr))) rest d2"
    "link d2 (ones_after (ones_after n ?u) (lsb_bits fr)) []"
    "take (d_received_bytes d2) (d_frame_buffer d2) = take (d_received_bytes d1) (d_frame_buffer d1) @ fr"
    "d_received_bytes d2 = d_received_bytes d1 + length fr" "data_change d1 d2"
    using Cons.IH [OF d1(2) h, of "i + length (stuff n ?u)"] by blast
  have "take (?r + 1) (d_frame_buffer d1) = take ?r (d_frame_buffer d) @ [x]"
    using room(1) by (simp add: buf take_Suc_conv_app_nth)
  then have "take (d_received_bytes d2) (d_frame_buffer d2) = take ?r (d_frame_buffer d) @ x # fr"
    using d2(3) d1(4) by simp
  moreover have "scan_data i (stuff n (lsb_bits (x # fr)) @ rest) d =
      scan_data (i + length (stuff n (lsb_bits (x # fr)))) rest d2"
    using d1(1) d2(1) by (simp add: lsb_bits_Cons stuff_append add.assoc)
  ultimately show ?case using d2(2,4) d1(4) data_change_trans [OF d1(5) d2(5)]
    by (intro exI [of _ d2]) (simp add: lsb_bits_Cons ones_after_append)
qed

text \<open>The closing flag, at a byte boundary.\<close>

definition shifts :: "u8 \<Rightarrow> u8 list \<Rightarrow> u8" where
  "shifts sr bs = fold (\<lambda>b sr. shift1 sr b) bs sr"

lemma shifts_simps [simp]:
  "shifts sr [] = sr" "shifts sr (b # bs) = shifts (shift1 sr b) bs"
  by (simp_all add: shifts_def)

lemma shifts_append: "shifts sr (xs @ ys) = shifts (shifts sr xs) ys"
  by (simp add: shifts_def)

lemma dec_top_shifts:
  "dec_top bs sr \<Longrightarrow> length bs + length xs \<le> 8 \<Longrightarrow> \<forall>b \<in> set xs. is_bit b \<Longrightarrow> dec_top (bs @ xs) (shifts sr xs)"
proof (induction xs arbitrary: bs sr)
  case Nil
  then show ?case by simp
next
  case (Cons x xs)
  then show ?case using Cons.IH [of "bs @ [x]" "shift1 sr x"] dec_top_shift [of bs sr x] by simp
qed

text \<open>Eight bits overwrite a register, whatever it held.\<close>

lemma shifts_8:
  assumes "length xs = 8" and "\<forall>b \<in> set xs. is_bit b"
  shows "shifts sr xs = pack_lsb xs"
  using dec_top_shifts [of "[]" sr xs] assms by (intro dec_top_complete) simp_all

lemma pack_flag: "pack_lsb flag_bits = sync_flag"
  by (simp add: pack_lsb_def pack_msb_def flag_bits_def sync_flag_def)

lemma recent_six: "recent 5 sr \<Longrightarrow> shift1 sr 1 AND 0xfe \<noteq> 0xfe \<and> shift1 sr 1 \<noteq> sync_flag \<and> shift1 sr 1 AND 0xfc \<noteq> 0x7c"
  using one_is_data [of 5 sr] by blast

lemma scan_flag_end:
  assumes "link d n []"
  shows "\<exists>db. scan_data i (flag_bits @ rest) d =
    Inr (Flag_at (i + 7), d\<lparr>d_shift_reg := sync_flag, d_dec_b := db, d_decoded_bits := 7\<rparr>)"
proof -
  have n: "n \<le> 4" "recent n (d_shift_reg d)" "d_decoded_bits d = 0" using assms by (simp_all add: link_def)
  define r where "r k = shifts (d_shift_reg d) (take k flag_bits)" for k
  have rS: "r (Suc k) = shift1 (r k) (flag_bits ! k)" if "k < 8" for k
  proof -
    have "length flag_bits = 8" by (simp add: flag_bits_def)
    then have "take (Suc k) flag_bits = take k flag_bits @ [flag_bits ! k]"
      using that by (intro take_Suc_conv_app_nth) simp
    then show ?thesis by (simp add: r_def shifts_append)
  qed
  have r0: "r 0 = d_shift_reg d" by (simp add: r_def)
  have r8: "r 8 = sync_flag"
  proof -
    have "r 8 = shifts (d_shift_reg d) flag_bits" by (simp add: r_def flag_bits_def)
    also have "\<dots> = pack_lsb flag_bits" by (rule shifts_8) (simp_all add: flag_bits_def)
    finally show ?thesis by (simp add: pack_flag)
  qed
  have rec1: "recent 0 (r 1)" using rS [of 0] recent_zero by (simp add: flag_bits_def)
  have r2: "r 2 = shift1 (r 1) 1" "r 3 = shift1 (r 2) 1" "r 4 = shift1 (r 3) 1" "r 5 = shift1 (r 4) 1"
    "r 6 = shift1 (r 5) 1" "r 7 = shift1 (r 6) 1" "r 8 = shift1 (r 7) 0" "r 1 = shift1 (d_shift_reg d) 0"
    using rS [of 1] rS [of 2] rS [of 3] rS [of 4] rS [of 5] rS [of 6] rS [of 7] rS [of 0]
    by (simp_all add: flag_bits_def r0 eval_nat_numeral)
  have rec: "recent 1 (r 2)" "recent 2 (r 3)" "recent 3 (r 4)" "recent 4 (r 5)" "recent 5 (r 6)"
    using rec1 recent_one [of 0 "r 1"] recent_one [of 1 "r 2"] recent_one [of 2 "r 3"]
      recent_one [of 3 "r 4"] recent_one [of 4 "r 5"] r2 by (simp_all add: eval_nat_numeral)
  have regular: "x \<noteq> sync_flag \<and> x AND 0xfc \<noteq> 0x7c \<and> x AND 0xfe \<noteq> 0xfe"
    if "x \<in> {r 1, r 2, r 3, r 4, r 5, r 6, r 7}" for x
    using that zero_is_data [OF n(2,1), folded r2] one_is_data [OF rec1, folded r2]
      one_is_data [OF rec(1), folded r2] one_is_data [OF rec(2), folded r2]
      one_is_data [OF rec(3), folded r2] one_is_data [OF rec(4), folded r2]
      one_is_data [OF rec(5), folded r2]
    unfolding insert_iff empty_iff by (elim disjE FalseE) (simp_all only: simp_thms not_False_eq_True)
  define D where "D k = d\<lparr>d_shift_reg := r k, d_dec_b := shifts (d_dec_b d) (take k flag_bits), d_decoded_bits := k\<rparr>" for k
  have step: "scan_data (i + k) (drop k flag_bits @ rest) (D k) = scan_data (i + Suc k) (drop (Suc k) flag_bits @ rest) (D (Suc k))"
    if "k < 7" for k
  proof -
    have len: "length flag_bits = 8" by (simp add: flag_bits_def)
    have dr: "drop k flag_bits = flag_bits ! k # drop (Suc k) flag_bits"
      using that len by (intro Cons_nth_drop_Suc [symmetric]) simp
    have tk: "take (Suc k) flag_bits = take k flag_bits @ [flag_bits ! k]"
      using that len by (intro take_Suc_conv_app_nth) simp
    have "r (Suc k) \<in> {r 1, r 2, r 3, r 4, r 5, r 6, r 7}"
      using that by (auto simp: less_Suc_eq numeral_eq_Suc)
    then have "shift1 (d_shift_reg (D k)) (flag_bits ! k) \<noteq> sync_flag \<and>
        shift1 (d_shift_reg (D k)) (flag_bits ! k) AND 0xfc \<noteq> 0x7c \<and>
        shift1 (d_shift_reg (D k)) (flag_bits ! k) AND 0xfe \<noteq> 0xfe"
      using regular rS [of k] that by (simp add: D_def)
    moreover have "d_decoded_bits (D k) < 7" using that by (simp add: D_def)
    ultimately have "scan_data (i + k) (flag_bits ! k # (drop (Suc k) flag_bits @ rest)) (D k) =
        scan_data (i + k + 1) (drop (Suc k) flag_bits @ rest)
          ((D k)\<lparr>d_shift_reg := shift1 (d_shift_reg (D k)) (flag_bits ! k),
            d_dec_b := shift1 (d_dec_b (D k)) (flag_bits ! k), d_decoded_bits := d_decoded_bits (D k) + 1\<rparr>)"
      by (rule scan_data_bit)
    moreover have "(D k)\<lparr>d_shift_reg := shift1 (d_shift_reg (D k)) (flag_bits ! k),
            d_dec_b := shift1 (d_dec_b (D k)) (flag_bits ! k), d_decoded_bits := d_decoded_bits (D k) + 1\<rparr> = D (Suc k)"
      using that rS [of k] by (simp add: D_def tk shifts_append)
    ultimately show ?thesis by (simp add: dr)
  qed
  have "k \<le> 7 \<Longrightarrow> scan_data i (flag_bits @ rest) d = scan_data (i + k) (drop k flag_bits @ rest) (D k)" for k
  proof (induction k)
    case 0
    have "D 0 = d\<lparr>d_decoded_bits := 0\<rparr>" by (simp add: D_def r0)
    also have "\<dots> = d\<lparr>d_decoded_bits := d_decoded_bits d\<rparr>" by (simp only: n(3))
    finally have "D 0 = d" by simp
    then show ?case by simp
  next
    case (Suc k)
    then show ?case using step [of k] by simp
  qed
  from this [of 7] have "scan_data i (flag_bits @ rest) d = scan_data (i + 7) (0 # rest) (D 7)"
    by (simp add: flag_bits_def)
  also have "\<dots> = Inr (Flag_at (i + 7), decode_1b 0 (D 7))"
    using r8 r2(7) by (simp add: decode_1b_shift1 D_def Let_def)
  also have "decode_1b 0 (D 7) = d\<lparr>d_shift_reg := sync_flag, d_dec_b := d_dec_b (decode_1b 0 (D 7)), d_decoded_bits := 7\<rparr>"
    using r8 r2(7) by (simp add: decode_1b_shift1 D_def)
  finally show ?thesis by blast
qed

section \<open>The synchronisation scans\<close>

lemma scan_sync_bits:
  "length bs + d_decoded_bits d < 8 \<Longrightarrow>
   scan_sync i (bs @ rest) d = scan_sync (i + length bs) rest
     (d\<lparr>d_shift_reg := shifts (d_shift_reg d) bs, d_dec_b := shifts (d_dec_b d) bs,
       d_decoded_bits := d_decoded_bits d + length bs\<rparr>)"
proof (induction bs arbitrary: i d)
  case Nil
  then show ?case by simp
next
  case (Cons b bs)
  then show ?case by (simp add: decode_1b_shift1 Let_def)
qed

text \<open>Eight bits at a byte boundary: a flag is skipped, anything else starts a frame.\<close>

lemma scan_sync_byte:
  assumes "length w = 8" and "\<forall>b \<in> set w. is_bit b" and "d_decoded_bits d = 0"
  shows "scan_sync i (w @ rest) d =
    (let d' = d\<lparr>d_shift_reg := pack_lsb w, d_dec_b := pack_lsb w\<rparr>
     in if pack_lsb w = sync_flag then scan_sync (i + 8) rest d'
        else (Some (i + 7), d'\<lparr>d_decoded_bits := 8\<rparr>))"
proof -
  obtain bs b where w: "w = bs @ [b]" using assms(1) by (cases w rule: rev_cases) auto
  have len: "length bs = 7" using assms(1) w by simp
  have sh: "shift1 (shifts sr bs) b = pack_lsb w" for sr
    using shifts_8 [OF assms(1,2), of sr] by (simp add: w shifts_append)
  have "scan_sync i (w @ rest) d = scan_sync (i + 7) (b # rest)
      (d\<lparr>d_shift_reg := shifts (d_shift_reg d) bs, d_dec_b := shifts (d_dec_b d) bs, d_decoded_bits := 7\<rparr>)"
    using scan_sync_bits [of bs d i "b # rest"] assms(3) len by (simp add: w)
  also have "\<dots> = (let d' = d\<lparr>d_shift_reg := pack_lsb w, d_dec_b := pack_lsb w\<rparr>
     in if pack_lsb w = sync_flag then scan_sync (i + 8) rest (d'\<lparr>d_decoded_bits := 0\<rparr>)
        else (Some (i + 7), d'\<lparr>d_decoded_bits := 8\<rparr>))"
    by (simp add: decode_1b_shift1 Let_def sh add.commute [of 8])
  finally have main: "scan_sync i (w @ rest) d = (let d' = d\<lparr>d_shift_reg := pack_lsb w, d_dec_b := pack_lsb w\<rparr>
     in if pack_lsb w = sync_flag then scan_sync (i + 8) rest (d'\<lparr>d_decoded_bits := 0\<rparr>)
        else (Some (i + 7), d'\<lparr>d_decoded_bits := 8\<rparr>))" .
  have "d\<lparr>d_shift_reg := pack_lsb w, d_dec_b := pack_lsb w, d_decoded_bits := 0\<rparr> =
      d\<lparr>d_shift_reg := pack_lsb w, d_dec_b := pack_lsb w\<rparr>"
  proof -
    have "d\<lparr>d_shift_reg := pack_lsb w, d_dec_b := pack_lsb w, d_decoded_bits := 0\<rparr> =
        d\<lparr>d_shift_reg := pack_lsb w, d_dec_b := pack_lsb w, d_decoded_bits := d_decoded_bits d\<rparr>"
      by (simp only: assms(3))
    then show ?thesis by simp
  qed
  then show ?thesis unfolding main Let_def by (simp only:)
qed

lemma scan_sync_flags:
  "d_decoded_bits d = 0 \<Longrightarrow>
   \<exists>sr db. scan_sync i (concat (replicate n flag_bits) @ rest) d =
     scan_sync (i + 8 * n) rest (d\<lparr>d_shift_reg := sr, d_dec_b := db\<rparr>)"
proof (induction n arbitrary: i d)
  case 0
  have "scan_sync i rest d = scan_sync i rest (d\<lparr>d_shift_reg := d_shift_reg d, d_dec_b := d_dec_b d\<rparr>)" by simp
  then show ?case unfolding replicate_0 concat.simps append_Nil mult_0_right add_0_right by blast
next
  case (Suc n)
  let ?d = "d\<lparr>d_shift_reg := sync_flag, d_dec_b := sync_flag\<rparr>"
  have "scan_sync i (flag_bits @ concat (replicate n flag_bits) @ rest) d =
      scan_sync (i + 8) (concat (replicate n flag_bits) @ rest) ?d"
    using scan_sync_byte [of flag_bits d i "concat (replicate n flag_bits) @ rest"] Suc.prems
    by (simp add: pack_flag) (simp add: flag_bits_def)
  moreover obtain sr db where "scan_sync (i + 8) (concat (replicate n flag_bits) @ rest) ?d =
      scan_sync (i + 8 + 8 * n) rest (?d\<lparr>d_shift_reg := sr, d_dec_b := db\<rparr>)"
    using Suc.IH [of ?d "i + 8"] Suc.prems by auto
  ultimately have "scan_sync i (concat (replicate (Suc n) flag_bits) @ rest) d =
      scan_sync (i + 8 * Suc n) rest (d\<lparr>d_shift_reg := sr, d_dec_b := db\<rparr>)"
    by (simp add: add.assoc)
  then show ?case by blast
qed

lemma scan_flag_first:
  assumes "d_shift_reg d = 0"
  shows "\<exists>db. scan_flag 0 (flag_bits @ rest) d = (Some 7, d\<lparr>d_shift_reg := sync_flag, d_dec_b := db\<rparr>)"
  using assms by (intro exI [of _ "0x7E"]) (simp add: flag_bits_def decode_1b_shift1 Let_def shift1_def sync_flag_def)

section \<open>The first byte of a frame\<close>

text \<open>
  The receiver takes the first eight bits after the flags for the first byte. That is right
  when no bit was stuffed among them, and the code handles a stuffed bit in the last place.
  \<open>first_ok\<close> excludes the bytes with a bit stuffed earlier.
\<close>

definition first_ok :: "u8 \<Rightarrow> bool" where
  "first_ok x \<longleftrightarrow> x AND 0x1F \<noteq> 0x1F \<and> x AND 0x3E \<noteq> 0x3E"

lemma first_ok_bits: "first_ok x \<longleftrightarrow>
    \<not> (bit x 0 \<and> bit x 1 \<and> bit x 2 \<and> bit x 3 \<and> bit x 4) \<and> \<not> (bit x 1 \<and> bit x 2 \<and> bit x 3 \<and> bit x 4 \<and> bit x 5)"
  unfolding first_ok_def word8_eq all_lt_8 by (simp add: bit_and_iff)

text \<open>The two shapes of the stuffed first byte.\<close>

lemma first_byte_shapes:
  assumes "length u = 8" and "\<forall>b \<in> set u. is_bit b"
    and "\<not> (u ! 0 = 1 \<and> u ! 1 = 1 \<and> u ! 2 = 1 \<and> u ! 3 = 1 \<and> u ! 4 = 1)"
    and "\<not> (u ! 1 = 1 \<and> u ! 2 = 1 \<and> u ! 3 = 1 \<and> u ! 4 = 1 \<and> u ! 5 = 1)"
  shows "(\<not> (u ! 2 = 1 \<and> u ! 3 = 1 \<and> u ! 4 = 1 \<and> u ! 5 = 1 \<and> u ! 6 = 1 \<and> u ! 7 = 0) \<and>
      stuff 0 (take 7 u) = take 7 u \<and>
      (stuff (ones_after 0 (take 7 u)) [u ! 7] = [u ! 7] \<or>
       ones_after 0 (take 7 u) = 4 \<and> u ! 7 = 1)) \<or>
    (u ! 1 = 0 \<and> u ! 2 = 1 \<and> u ! 3 = 1 \<and> u ! 4 = 1 \<and> u ! 5 = 1 \<and> u ! 6 = 1 \<and>
      stuff 0 (take 7 u) = take 7 u @ [0] \<and> ones_after 0 (take 7 u) = 0)"
proof -
  obtain a b c d e f g h where u: "u = [a, b, c, d, e, f, g, h]"
    using assms(1) by (auto simp: numeral_eq_Suc length_Suc_conv)
  have bits: "is_bit a" "is_bit b" "is_bit c" "is_bit d" "is_bit e" "is_bit f" "is_bit g" "is_bit h"
    using assms(2) by (simp_all add: u)
  then show ?thesis using assms(3,4) unfolding u is_bit_def
    by (elim disjE) simp_all
qed

lemma stuff_length: "length bs \<le> length (stuff n bs)"
  by (induction bs arbitrary: n) (simp_all, meson le_SucI)

lemma recent_shifts:
  "recent n sr \<Longrightarrow> n \<le> 4 \<Longrightarrow> \<forall>b \<in> set bs. is_bit b \<Longrightarrow> length (stuff n bs) = length bs \<Longrightarrow>
   recent (ones_after n bs) (shifts sr bs)"
proof (induction bs arbitrary: n sr)
  case Nil
  then show ?case by simp
next
  case (Cons b bs)
  have "\<not> (b = 1 \<and> n = 4)" using Cons.prems(4) stuff_length [of bs 0] by auto
  then consider "b = 0" | "b = 1" "n < 4" using Cons.prems(2,3) by (auto simp: is_bit_def)
  then show ?case
  proof cases
    case 1
    then show ?thesis using Cons.IH [of 0 "shift1 sr b"] Cons.prems recent_zero [of sr] by simp
  next
    case 2
    then show ?thesis using Cons.IH [of "Suc n" "shift1 sr b"] Cons.prems recent_one [of n sr] by simp
  qed
qed

text \<open>
  From the first eight bits \<open>w\<close> of a stuffed frame to the state in which its first byte is
  stored; \<open>t\<close> is what the scan still sees of that byte.
\<close>

lemma first_byte:
  assumes ok: "first_ok x" and room: "1 < d_max_frame_len d" "d_max_frame_len d \<le> length (d_frame_buffer d)"
  shows "\<exists>w t. stuff 0 (unpack_lsb x) = w @ t \<and> length w = 8 \<and> (\<forall>b \<in> set w. is_bit b) \<and> pack_lsb w \<noteq> sync_flag \<and>
    (d_shift_reg d = pack_lsb w \<longrightarrow> d_dec_b d = pack_lsb w \<longrightarrow>
      (\<exists>d1. enter_decoding_state d = Inr d1 \<and>
        data_change (d\<lparr>d_state := DECODING\<rparr>) d1 \<and>
        (\<forall>i rest. \<exists>d2. scan_data i (t @ rest) d1 = scan_data (i + length t) rest d2 \<and>
        data_change d1 d2 \<and> link d2 (ones_after 0 (unpack_lsb x)) [] \<and>
        d_received_bytes d2 = 1 \<and> take 1 (d_frame_buffer d2) = [x])))"
proof -
  let ?u = "unpack_lsb x" and ?n = "ones_after 0 (unpack_lsb x)"
  define v where "v = take 7 ?u"
  define y where "y = ?u ! 7"
  define k where "k = ones_after 0 v"
  have "take (Suc 7) ?u = take 7 ?u @ [?u ! 7]" by (rule take_Suc_conv_app_nth) simp
  moreover have "take (Suc 7) ?u = ?u" by (rule take_all) simp
  ultimately have u: "?u = v @ [y]" unfolding v_def y_def by (simp only:)
  have bits: "\<forall>b \<in> set ?u. is_bit b" using unpack_lsb_bits by blast
  then have bv: "\<forall>b \<in> set v. is_bit b" and by1: "is_bit y" unfolding u by simp_all
  have lv: "length v = 7" by (simp add: v_def)
  have pu: "pack_lsb (v @ [y]) = x" unfolding u [symmetric] by simp
  have nth: "?u ! j = 1 \<longleftrightarrow> bit x j" if "j < 8" for j
    using that by (simp add: unpack_lsb_def rev_nth unpack_msb_bit)
  have n: "?n = ones_after k [y]" unfolding u k_def by (rule ones_after_append)
  have st: "stuff 0 ?u = stuff 0 v @ stuff k [y]" unfolding u k_def by (rule stuff_append)
  have k4: "k \<le> 4" "?n \<le> 4" unfolding k_def by (rule ones_after_le, simp)+
  have shape: "(\<not> (?u ! 2 = 1 \<and> ?u ! 3 = 1 \<and> ?u ! 4 = 1 \<and> ?u ! 5 = 1 \<and> ?u ! 6 = 1 \<and> ?u ! 7 = 0) \<and>
      stuff 0 v = v \<and> (stuff k [y] = [y] \<or> k = 4 \<and> y = 1)) \<or>
    (?u ! 1 = 0 \<and> ?u ! 2 = 1 \<and> ?u ! 3 = 1 \<and> ?u ! 4 = 1 \<and> ?u ! 5 = 1 \<and> ?u ! 6 = 1 \<and> stuff 0 v = v @ [0] \<and> k = 0)"
    unfolding v_def y_def k_def
    using ok bits by (intro first_byte_shapes) (simp_all add: first_ok_bits nth)
  have r0: "recent 0 (0 :: u8)" by (simp add: recent_def)
  have topv: "dec_top v (shifts 0 v)" using dec_top_shifts [of "[]" 0 v] bv lv by simp
  have wx: "bit x j \<longleftrightarrow> ?u ! j = 1" if "j < 8" for j using nth [OF that] by simp
  have len0: "0 < length (d_frame_buffer d)" using room by linarith
  show ?thesis
  proof (cases "stuff 0 v = v")
    case A: True
    then have ns: "\<not> (bit x 2 \<and> bit x 3 \<and> bit x 4 \<and> bit x 5 \<and> bit x 6 \<and> \<not> bit x 7)"
      and y: "stuff k [y] = [y] \<or> k = 4 \<and> y = 1"
      using shape bits wx [of 7] nth_mem [of 7 ?u] by (auto simp: nth is_bit_def)
    have sh: "shifts 0 (v @ [y]) = x" using shifts_8 [of "v @ [y]" 0] lv bv by1 pu by simp
    have notflag: "x \<noteq> sync_flag" using ok unfolding first_ok_bits is_flag by blast
    have notst: "x AND 0xfc \<noteq> 0x7c" using ns unfolding is_stuffed by blast
    have rv: "recent k (shifts 0 v)"
      unfolding k_def by (rule recent_shifts [OF r0 _ bv]) (simp_all add: A)
    have x1: "x = shift1 (shifts 0 v) y" using sh by (simp add: shifts_append)
    let ?d1 = "d\<lparr>d_state := DECODING, d_frame_buffer := (d_frame_buffer d)[0 := x], d_decoded_bits := 0, d_received_bytes := 1\<rparr>"
    have e: "enter_decoding_state d = Inr ?d1" if "d_shift_reg d = x" "d_dec_b d = x"
      using that notst len0 by (simp add: enter_decoding_state_def Let_def buf_simps)
    have ch: "data_change (d\<lparr>d_state := DECODING\<rparr>) ?d1" by (simp add: data_change_def)
    have tk: "take 1 ((d_frame_buffer d)[0 := x]) = [x]" using len0 by (cases "d_frame_buffer d") simp_all
    show ?thesis
    proof (cases "stuff k [y] = [y]")
      case True
      have "recent (ones_after k [y]) (shifts (shifts 0 v) [y])"
        using by1 True by (intro recent_shifts [OF rv k4(1)]) (simp_all del: stuff.simps)
      then have "recent ?n (shifts 0 (v @ [y]))" by (simp only: n shifts_append)
      then have "recent ?n x" by (simp only: sh)
      then have "link ?d1 ?n []" if "d_shift_reg d = x" using that k4 by (simp add: link_def)
      then show ?thesis using True A st lv bv by1 pu notflag e ch tk data_change_refl [of ?d1]
        by (intro exI [of _ "v @ [y]"] exI [of _ "[]"]) (auto intro!: exI [of _ ?d1])
    next
      case False
      then have ky: "k = 4" "y = 1" using y by simp_all
      have r5: "recent 5 x" using recent_one [OF rv] ky by (simp add: x1)
      let ?d2 = "?d1\<lparr>d_shift_reg := shift1 (d_shift_reg ?d1) 0, d_dec_b := push_bit 1 (shift1 (d_dec_b ?d1) 0)\<rparr>"
      have sc: "scan_data i ([0] @ rest) ?d1 = scan_data (i + length [0 :: u8]) rest ?d2" if "d_shift_reg d = x" for i rest
        using scan_data_stuffed [of ?d1 i rest] r5 that by simp
      have "link ?d2 ?n []" unfolding n ky using recent_zero by (simp add: link_def)
      moreover have "data_change ?d1 ?d2" by (simp add: data_change_def)
      ultimately show ?thesis using A st lv bv by1 pu notflag e ch tk sc ky
        by (intro exI [of _ "v @ [y]"] exI [of _ "[0]"]) (auto intro!: exI [of _ ?d1] exI [of _ ?d2])
    qed
  next
    case B: False
    then have b: "?u ! 1 = 0" "bit x 2" "bit x 3" "bit x 4" "bit x 5" "bit x 6" and v: "stuff 0 v = v @ [0]" and k: "k = 0"
      using shape by (auto simp: wx)
    let ?w = "v @ [0]"
    have bw: "\<forall>b \<in> set ?w. is_bit b" and lw: "length ?w = 8" using bv lv by simp_all
    have pw: "shifts 0 ?w = pack_lsb ?w" by (rule shifts_8 [OF lw bw])
    have wbit: "bit (pack_lsb ?w) j \<longleftrightarrow> j < 7 \<and> bit x j" if "j < 8" for j
    proof -
      have "bit (pack_lsb ?w) j \<longleftrightarrow> ?w ! j = 1" by (rule pack_lsb_bit [OF lw bw that])
      also have "\<dots> \<longleftrightarrow> j < 7 \<and> ?u ! j = 1" using that lv by (auto simp: nth_append u less_Suc_eq)
      finally show ?thesis using wx [OF that] by simp
    qed
    have notflag: "pack_lsb ?w \<noteq> sync_flag" unfolding is_flag using wbit [of 1] b(1) wx [of 1] by simp
    have isst: "pack_lsb ?w AND 0xfc = 0x7c" unfolding is_stuffed
      using wbit [of 2] wbit [of 3] wbit [of 4] wbit [of 5] wbit [of 6] wbit [of 7] b by simp
    let ?d1 = "d\<lparr>d_state := DECODING, d_received_bytes := 0, d_dec_b := push_bit 1 (d_dec_b d), d_decoded_bits := 7\<rparr>"
    have e: "enter_decoding_state d = Inr ?d1" if "d_shift_reg d = pack_lsb ?w"
      using that isst by (simp add: enter_decoding_state_def Let_def)
    have ch: "data_change (d\<lparr>d_state := DECODING\<rparr>) ?d1" by (simp add: data_change_def)
    have pw1: "pack_lsb ?w = shift1 (shifts 0 v) 0" using pw by (simp add: shifts_append)
    have top: "dec_top v (push_bit 1 (pack_lsb ?w))"
      unfolding pw1 using topv lv by (intro dec_top_stuffed) simp_all
    have link: "link ?d1 0 v" if "d_shift_reg d = pack_lsb ?w" "d_dec_b d = pack_lsb ?w"
      using that top bv lv recent_zero [of "shifts 0 v"] by (simp add: link_def pw1)
    have room1: "d_received_bytes ?d1 < length (d_frame_buffer ?d1)" "d_received_bytes ?d1 + 1 < d_max_frame_len ?d1"
      using len0 room(1) by simp_all
    have "\<exists>d2. scan_data i (stuff k [y] @ rest) ?d1 = scan_data (i + length (stuff k [y])) rest d2 \<and>
        data_change ?d1 d2 \<and> link d2 ?n [] \<and> d_received_bytes d2 = 1 \<and> take 1 (d_frame_buffer d2) = [x]"
      if reg: "d_shift_reg d = pack_lsb ?w" "d_dec_b d = pack_lsb ?w" for i rest
    proof -
      obtain d2 where d2: "scan_data i (stuff 0 [y] @ rest) ?d1 = scan_data (i + length (stuff 0 [y])) rest d2"
        "link d2 (ones_after 0 [y]) []" "d_frame_buffer d2 = (d_frame_buffer ?d1)[d_received_bytes ?d1 := pack_lsb (v @ [y])]"
        "d_received_bytes d2 = d_received_bytes ?d1 + 1" "data_change ?d1 d2"
        using scan_stuff_byte [OF link [OF reg] _ _ room1, of "[y]" i rest] by1 lv by auto
      have "take 1 (d_frame_buffer d2) = [x]" using d2(3) len0 pu by (cases "d_frame_buffer d") simp_all
      then show ?thesis using d2 unfolding n k by (intro exI [of _ d2]) simp
    qed
    then show ?thesis using v st lw bw notflag e ch
      by (intro exI [of _ ?w] exI [of _ "stuff k [y]"]) (auto intro!: exI [of _ ?d1])
  qed
qed

definition head8 :: "u8 \<Rightarrow> u8 list" where
  "head8 x = take 8 (stuff 0 (unpack_lsb x))"

definition tail8 :: "u8 \<Rightarrow> u8 list" where
  "tail8 x = drop 8 (stuff 0 (unpack_lsb x))"

lemma head8:
  assumes "first_ok x"
  shows "stuff 0 (unpack_lsb x) = head8 x @ tail8 x" "length (head8 x) = 8"
    "\<forall>b \<in> set (head8 x). is_bit b" "pack_lsb (head8 x) \<noteq> sync_flag"
proof -
  fix d :: "unit ax25_decoder"
  let ?d = "d\<lparr>d_max_frame_len := 2, d_frame_buffer := [0, 0]\<rparr>"
  obtain w t where w: "stuff 0 (unpack_lsb x) = w @ t" "length w = 8" "\<forall>b \<in> set w. is_bit b" "pack_lsb w \<noteq> sync_flag"
    using first_byte [OF assms, of ?d] by auto
  then have "head8 x = w" "tail8 x = t" by (simp_all add: head8_def tail8_def)
  with w show "stuff 0 (unpack_lsb x) = head8 x @ tail8 x" "length (head8 x) = 8"
    "\<forall>b \<in> set (head8 x). is_bit b" "pack_lsb (head8 x) \<noteq> sync_flag" by simp_all
qed

lemma first_byte_taken:
  assumes "first_ok x" and "1 < d_max_frame_len d" and "d_max_frame_len d \<le> length (d_frame_buffer d)"
    and "d_shift_reg d = pack_lsb (head8 x)" and "d_dec_b d = pack_lsb (head8 x)"
  shows "\<exists>d1. enter_decoding_state d = Inr d1 \<and> data_change (d\<lparr>d_state := DECODING\<rparr>) d1 \<and>
    (\<forall>i rest. \<exists>d2. scan_data i (tail8 x @ rest) d1 = scan_data (i + length (tail8 x)) rest d2 \<and>
      data_change d1 d2 \<and> link d2 (ones_after 0 (unpack_lsb x)) [] \<and>
      d_received_bytes d2 = 1 \<and> take 1 (d_frame_buffer d2) = [x])"
proof -
  obtain w t where w: "stuff 0 (unpack_lsb x) = w @ t" "length w = 8"
    "d_shift_reg d = pack_lsb w \<longrightarrow> d_dec_b d = pack_lsb w \<longrightarrow>
      (\<exists>d1. enter_decoding_state d = Inr d1 \<and> data_change (d\<lparr>d_state := DECODING\<rparr>) d1 \<and>
        (\<forall>i rest. \<exists>d2. scan_data i (t @ rest) d1 = scan_data (i + length t) rest d2 \<and>
        data_change d1 d2 \<and> link d2 (ones_after 0 (unpack_lsb x)) [] \<and>
        d_received_bytes d2 = 1 \<and> take 1 (d_frame_buffer d2) = [x]))"
    using first_byte [OF assms(1-3)] by blast
  then have "head8 x = w" "tail8 x = t" by (simp_all add: head8_def tail8_def)
  with w(3) assms(4,5) show ?thesis by simp
qed

section \<open>A frame on the line is received\<close>

lemma no_sync_finds_flag:
  assumes "d_state d = NO_SYNC" and "d_shift_reg d = 0" and "d_bitstream d = flag_bits @ rest"
  shows "\<exists>d1. ax25_iteration now (d, status) = Inr (Continue (d1, status)) \<and>
    d_state d1 = IN_SYNC \<and> d_bitstream d1 = 0 # rest \<and> d_start_idx d1 = 1 \<and> d_decoded_bits d1 = 0 \<and>
    d_frame_buffer d1 = d_frame_buffer d \<and> d_max_frame_len d1 = d_max_frame_len d \<and>
    d_nitems_read d1 = d_nitems_read d + 7 \<and> d_frame_start d1 = d_nitems_read d + 7"
proof -
  obtain db where sc: "scan_flag 0 (flag_bits @ rest) d = (Some 7, d\<lparr>d_shift_reg := sync_flag, d_dec_b := db\<rparr>)"
    using scan_flag_first [OF assms(2)] by blast
  have "drop_bits 7 0 (d\<lparr>d_shift_reg := sync_flag, d_dec_b := db\<rparr>) =
      Inr (d\<lparr>d_shift_reg := sync_flag, d_dec_b := db, d_bitstream := 0 # rest, d_nitems_read := d_nitems_read d + 7\<rparr>)"
    by (subst drop_bits_ok) (simp_all add: assms(3) flag_bits_def)
  then show ?thesis
    using assms sc by (simp add: ax25_iteration_def no_sync_iteration_def enter_sync_state_def)
      (simp add: flag_bits_def)
qed

lemma in_sync_finds_frame:
  assumes st: "d_state d = IN_SYNC" and start: "d_start_idx d = 1" "d_decoded_bits d = 0"
    and bits: "d_bitstream d = 0 # concat (replicate p flag_bits) @ stuff 0 (lsb_bits (x # fr)) @ rest"
    and ok: "first_ok x" and room: "1 < d_max_frame_len d" "d_max_frame_len d \<le> length (d_frame_buffer d)"
  shows "\<exists>d1. ax25_iteration now (d, status) = Inr (Continue (d1, status)) \<and>
    d_state d1 = DECODING \<and> d_start_idx d1 = 7 \<and> 7 \<le> length (d_bitstream d1) \<and>
    drop 7 (d_bitstream d1) = tail8 x @ stuff (ones_after 0 (unpack_lsb x)) (lsb_bits fr) @ rest \<and>
    (\<forall>i more. \<exists>d2. scan_data i (tail8 x @ more) d1 = scan_data (i + length (tail8 x)) more d2 \<and>
       data_change d1 d2 \<and> link d2 (ones_after 0 (unpack_lsb x)) [] \<and>
       d_received_bytes d2 = 1 \<and> take 1 (d_frame_buffer d2) = [x]) \<and>
    length (d_frame_buffer d1) = length (d_frame_buffer d) \<and> d_max_frame_len d1 = d_max_frame_len d \<and>
    d_frame_start d1 = d_frame_start d"
proof -
  let ?w = "head8 x"
  note w = head8 [OF ok]
  let ?more = "tail8 x @ stuff (ones_after 0 (unpack_lsb x)) (lsb_bits fr) @ rest"
  have stream: "d_bitstream d = 0 # concat (replicate p flag_bits) @ ?w @ ?more"
    by (simp add: bits lsb_bits_Cons stuff_append w(1))
  obtain sr db where f: "scan_sync 1 (concat (replicate p flag_bits) @ ?w @ ?more) d =
      scan_sync (1 + 8 * p) (?w @ ?more) (d\<lparr>d_shift_reg := sr, d_dec_b := db\<rparr>)"
    using scan_sync_flags [OF start(2)] by blast
  let ?d = "d\<lparr>d_shift_reg := pack_lsb ?w, d_dec_b := pack_lsb ?w, d_decoded_bits := 8\<rparr>"
  have sc: "scan_sync 1 (drop 1 (d_bitstream d)) d = (Some (8 + 8 * p), ?d)"
    unfolding stream using scan_sync_byte [OF w(2,3), of "d\<lparr>d_shift_reg := sr, d_dec_b := db\<rparr>" "1 + 8 * p" ?more] w(4) start f
    by (simp add: Let_def)
  let ?b = "?d\<lparr>d_bitstream := drop (2 + 8 * p) (d_bitstream d), d_nitems_read := d_nitems_read d + of_nat (2 + 8 * p)\<rparr>"
  have db: "drop_bits (8 + 8 * p + 1) 7 ?d = Inr ?b"
    using w(2) by (subst drop_bits_ok) (simp_all add: stream)
  have dropped: "drop (2 + 8 * p) (d_bitstream d) = drop 1 ?w @ ?more"
    using w(2) by (simp add: stream)
  let ?s = "?b\<lparr>d_start_idx := 7\<rparr>"
  obtain d1 where d1: "enter_decoding_state ?s = Inr d1" "data_change (?s\<lparr>d_state := DECODING\<rparr>) d1"
    "\<forall>i more. \<exists>d2. scan_data i (tail8 x @ more) d1 = scan_data (i + length (tail8 x)) more d2 \<and>
      data_change d1 d2 \<and> link d2 (ones_after 0 (unpack_lsb x)) [] \<and>
      d_received_bytes d2 = 1 \<and> take 1 (d_frame_buffer d2) = [x]"
    using first_byte_taken [OF ok, of ?s] room by auto
  note c = data_change_const [OF d1(2)]
  have "ax25_iteration now (d, status) = Inr (Continue (d1, status))"
    using st sc db d1(1) start by (simp add: ax25_iteration_def in_sync_iteration_def stream)
  moreover have "d_bitstream d1 = drop 1 ?w @ ?more" using c(2) dropped by simp
  ultimately show ?thesis using c d1(3) w(2) by (intro exI [of _ d1]) simp
qed

lemma is_frame_valid_take:
  assumes "take n buf = frame" and "n = length frame" and "2 \<le> n" and "n \<le> length buf"
  shows "is_frame_valid n buf = is_frame_valid n frame"
proof -
  have "buf ! i = frame ! i" if "i < n" for i using that assms(1) by (metis nth_take)
  then have "buf ! (n - 1) = frame ! (n - 1)" "buf ! (n - 2) = frame ! (n - 2)" using assms(3) by simp_all
  moreover have "take (n - 2) buf = take (n - 2) frame"
    unfolding assms(1) [symmetric] take_take by (simp add: min_def)
  moreover have "n \<le> length frame" using assms(2) by simp
  ultimately show ?thesis using assms(3,4) unfolding is_frame_valid_def Let_def by (simp only: simp_thms if_True)
qed

lemma decoding_reports_frame:
  assumes st: "d_state d = DECODING" and start: "d_start_idx d = 7" "7 \<le> length (d_bitstream d)"
    and bits: "drop 7 (d_bitstream d) =
      tail8 x @ stuff (ones_after 0 (unpack_lsb x)) (lsb_bits fr) @ flag_bits @ rest"
    and first: "\<forall>i more. \<exists>d2. scan_data i (tail8 x @ more) d = scan_data (i + length (tail8 x)) more d2 \<and>
       data_change d d2 \<and> link d2 (ones_after 0 (unpack_lsb x)) [] \<and>
       d_received_bytes d2 = 1 \<and> take 1 (d_frame_buffer d2) = [x]"
    and len: "15 \<le> length fr" "Suc (length fr) < d_max_frame_len d" "d_max_frame_len d \<le> length (d_frame_buffer d)"
    and valid: "is_frame_valid (Suc (length fr)) (x # fr) = Inr True"
  shows "\<exists>d' st'. ax25_iteration now (d, status_new) = Inr (Return (d', st') True) \<and> decode_success st' \<and>
    data st' ''pdu'' = Some (Blob (take (length fr - 1) (x # fr))) \<and>
    data st' ''crc_valid'' = Some (PBool True) \<and>
    data st' ''sample_start'' = Some (U64 (d_frame_start d))"
proof -
  let ?n = "ones_after 0 (unpack_lsb x)"
  define j where "j = 7 + length (tail8 x) + length (stuff ?n (lsb_bits fr))"
  obtain d2 where d2: "scan_data 7 (drop 7 (d_bitstream d)) d =
      scan_data (7 + length (tail8 x)) (stuff ?n (lsb_bits fr) @ flag_bits @ rest) d2"
    "data_change d d2" "link d2 ?n []" "d_received_bytes d2 = 1" "take 1 (d_frame_buffer d2) = [x]"
    using first unfolding bits by blast
  note c2 = data_change_const [OF d2(2)]
  have room2: "d_received_bytes d2 + length fr < d_max_frame_len d2" "d_max_frame_len d2 \<le> length (d_frame_buffer d2)"
    using len c2 d2(4) by simp_all
  obtain d3 where d3: "scan_data (7 + length (tail8 x)) (stuff ?n (lsb_bits fr) @ flag_bits @ rest) d2 =
      scan_data j (flag_bits @ rest) d3"
    "link d3 (ones_after ?n (lsb_bits fr)) []"
    "take (d_received_bytes d3) (d_frame_buffer d3) = take (d_received_bytes d2) (d_frame_buffer d2) @ fr"
    "d_received_bytes d3 = d_received_bytes d2 + length fr" "data_change d2 d3"
    using scan_frame [OF d2(3) room2, of "7 + length (tail8 x)" "flag_bits @ rest"] unfolding j_def by blast
  note c3 = data_change_const [OF d3(5)]
  obtain db where sc: "scan_data j (flag_bits @ rest) d3 =
      Inr (Flag_at (j + 7), d3\<lparr>d_shift_reg := sync_flag, d_dec_b := db, d_decoded_bits := 7\<rparr>)"
    using scan_flag_end [OF d3(2)] by blast
  let ?d4 = "d3\<lparr>d_shift_reg := sync_flag, d_dec_b := db, d_decoded_bits := 7\<rparr>"
  let ?d5 = "?d4\<lparr>d_sample_cnt := d_nitems_read ?d4 + of_nat (j + 7) - d_frame_start ?d4\<rparr>"
  have total: "length (d_bitstream d) = j + 8 + length rest"
  proof -
    have "length (d_bitstream d) = 7 + length (drop 7 (d_bitstream d))" using start(2) by simp
    then show ?thesis unfolding bits by (simp add: j_def flag_bits_def)
  qed
  let ?d6 = "?d5\<lparr>d_bitstream := drop j (d_bitstream ?d5), d_nitems_read := d_nitems_read ?d5 + of_nat j\<rparr>"
  have db: "drop_bits (j + 7 + 1) 8 ?d5 = Inr ?d6"
    using total c2 c3 by (subst drop_bits_ok) simp_all
  have rec: "d_received_bytes ?d6 = Suc (length fr)" using d3(4) d2(4) by simp
  have buf: "take (Suc (length fr)) (d_frame_buffer ?d6) = x # fr" using d3(3,4) d2(4,5) by simp
  have le: "Suc (length fr) \<le> length (d_frame_buffer ?d6)" using len c2 c3 by simp
  have "is_frame_valid (d_received_bytes ?d6) (d_frame_buffer ?d6) = Inr True"
    using is_frame_valid_take [OF buf _ _ le] rec valid len(1) by simp
  then have fe: "enter_frame_end now (?d6, status_new) = Inr (True, reset_state ?d6, report_frame now ?d6 True status_new)"
    using rec len(1) by (simp add: enter_frame_end_def min_addr_len_def)
  have ne: "d_bitstream d \<noteq> []" using start(2) by auto
  have scan: "scan_data (d_start_idx d) (drop (d_start_idx d) (d_bitstream d)) d = Inr (Flag_at (j + 7), ?d4)"
    unfolding start(1) d2(1) d3(1) sc ..
  have seven: "d_decoded_bits ?d4 = 7" by simp
  have "decoding_iteration now (d, status_new) = Inr (Return (reset_state ?d6, report_frame now ?d6 True status_new) True)"
    unfolding decoding_iteration_def prod.case scan res_bind_simps data_end.case seven Let_def db fe
    by (simp only: simp_thms if_False res_bind_simps prod.case db fe)
  then have it: "ax25_iteration now (d, status_new) = Inr (Return (reset_state ?d6, report_frame now ?d6 True status_new) True)"
    using ne st by (simp only: ax25_iteration_def fst_conv if_False decoding_state_t.case)
  have "take (length fr - 1) (take (Suc (length fr)) (d_frame_buffer ?d6)) = take (length fr - 1) (x # fr)"
    unfolding buf ..
  then have pdu: "take (length fr - 1) (d_frame_buffer ?d6) = take (length fr - 1) (x # fr)"
    unfolding take_take min_absorb1 [OF le_SucI [OF diff_le_self]] .
  have fs: "d_frame_start ?d6 = d_frame_start d" using c2 c3 by simp
  have rep: "decode_success (report_frame now e True status_new) \<and>
    data (report_frame now e True status_new) ''pdu'' = Some (Blob (take (d_received_bytes e - 2) (d_frame_buffer e))) \<and>
    data (report_frame now e True status_new) ''crc_valid'' = Some (PBool True) \<and>
    data (report_frame now e True status_new) ''sample_start'' = Some (U64 (d_frame_start e))" for e :: "'a ax25_decoder"
    by (simp add: report_frame_def Let_def status_new_def add_decoder_def add_pdu_def
        add_time_iso8601_def add_crc_valid_def add_sample_start_def add_sample_cnt_def dict_put_def)
  have nb: "d_received_bytes ?d6 - 2 = length fr - 1" using rec by simp
  show ?thesis
    using it rep [of ?d6] unfolding nb pdu fs by blast
qed

lemma receive_line:
  assumes st: "d_state d = NO_SYNC" "d_shift_reg d = 0"
    and bits: "d_bitstream d = concat (replicate (Suc p) flag_bits) @ stuff 0 (lsb_bits (x # fr)) @ flag_bits @ rest"
    and ok: "first_ok x"
    and len: "15 \<le> length fr" "Suc (length fr) < d_max_frame_len d" "d_max_frame_len d \<le> length (d_frame_buffer d)"
    and valid: "is_frame_valid (Suc (length fr)) (x # fr) = Inr True"
  shows "\<exists>d' st'. run_loop (ax25_iteration now) (ax25_fuel d) (d, status_new) = Some (Inr ((d', st'), True)) \<and>
    decode_success st' \<and> data st' ''pdu'' = Some (Blob (take (length fr - 1) (x # fr))) \<and>
    data st' ''crc_valid'' = Some (PBool True) \<and>
    data st' ''sample_start'' = Some (U64 (d_nitems_read d + 7))"
proof -
  let ?rest = "concat (replicate p flag_bits) @ stuff 0 (lsb_bits (x # fr)) @ flag_bits @ rest"
  have b: "d_bitstream d = flag_bits @ ?rest" by (simp add: bits)
  obtain d1 where d1: "ax25_iteration now (d, status_new) = Inr (Continue (d1, status_new))"
    "d_state d1 = IN_SYNC" "d_bitstream d1 = 0 # ?rest" "d_start_idx d1 = 1" "d_decoded_bits d1 = 0"
    "d_frame_buffer d1 = d_frame_buffer d" "d_max_frame_len d1 = d_max_frame_len d"
    "d_frame_start d1 = d_nitems_read d + 7"
    using no_sync_finds_flag [OF st b, of now status_new] by blast
  have room: "1 < d_max_frame_len d1" "d_max_frame_len d1 \<le> length (d_frame_buffer d1)"
    using len d1 by simp_all
  obtain d2 where d2: "ax25_iteration now (d1, status_new) = Inr (Continue (d2, status_new))"
    "d_state d2 = DECODING" "d_start_idx d2 = 7" "7 \<le> length (d_bitstream d2)"
    "drop 7 (d_bitstream d2) = tail8 x @ stuff (ones_after 0 (unpack_lsb x)) (lsb_bits fr) @ flag_bits @ rest"
    "\<forall>i more. \<exists>d3. scan_data i (tail8 x @ more) d2 = scan_data (i + length (tail8 x)) more d3 \<and>
       data_change d2 d3 \<and> link d3 (ones_after 0 (unpack_lsb x)) [] \<and>
       d_received_bytes d3 = 1 \<and> take 1 (d_frame_buffer d3) = [x]"
    "length (d_frame_buffer d2) = length (d_frame_buffer d1)" "d_max_frame_len d2 = d_max_frame_len d1"
    "d_frame_start d2 = d_frame_start d1"
    using in_sync_finds_frame [OF d1(2,4,5,3) ok room, of now status_new] by blast
  have len2: "Suc (length fr) < d_max_frame_len d2" "d_max_frame_len d2 \<le> length (d_frame_buffer d2)"
    using len d1 d2 by simp_all
  obtain d3 st' where d3: "ax25_iteration now (d2, status_new) = Inr (Return (d3, st') True)" "decode_success st'"
    "data st' ''pdu'' = Some (Blob (take (length fr - 1) (x # fr)))" "data st' ''crc_valid'' = Some (PBool True)"
    "data st' ''sample_start'' = Some (U64 (d_frame_start d2))"
    using decoding_reports_frame [OF d2(2-6) len(1) len2 valid, of now] by blast
  have "ax25_fuel d = Suc (Suc (Suc (2 * length (d_bitstream d))))" by (simp add: ax25_fuel_def)
  then have "run_loop (ax25_iteration now) (ax25_fuel d) (d, status_new) = Some (Inr ((d3, st'), True))"
    by (simp only: run_loop.simps d1(1) d2(1) d3(1) sum.case outcome.case)
  moreover have "d_frame_start d2 = d_nitems_read d + 7" using d1(8) d2(9) by simp
  ultimately show ?thesis using d3(2-5) by (intro exI [of _ d3] exI [of _ st']) (simp only: simp_thms)
qed

section \<open>The link\<close>

lemma frame_valid:
  "is_frame_valid (length (ax25_frame e pdu)) (ax25_frame e pdu) = Inr True"
proof -
  define tmp where "tmp = insert_address e @ insert_ctrl @ insert_pid @ pdu"
  define crc where "crc = ax25_crc tmp"
  have f: "ax25_frame e pdu = tmp @ [ucast crc, ucast (drop_bit 8 crc)]"
    by (simp add: ax25_frame_def Let_def tmp_def crc_def)
  have "push_bit 8 (ucast (ucast (drop_bit 8 crc) :: u8)) OR ucast (ucast crc :: u8) = crc"
  proof (rule bit_word_eqI)
    fix n assume "n < LENGTH(16)"
    then show "bit (push_bit 8 (ucast (ucast (drop_bit 8 crc) :: u8)) OR ucast (ucast crc :: u8) :: u16) n = bit crc n"
      by (cases "n < 8") (auto simp: bit_simps)
  qed
  then show ?thesis by (simp add: is_frame_valid_def f nth_append crc_def)
qed

lemma first_ok_callsign: "x AND 0x1F \<noteq> 0x1F \<Longrightarrow> first_ok (push_bit 1 x)"
proof -
  have "push_bit 1 x AND 0x1F \<noteq> 0x1F"
    unfolding word8_eq all_lt_8 by (simp add: bit_and_iff bit_shl1)
  moreover have "push_bit 1 x AND 0x3E \<noteq> 0x3E" if "x AND 0x1F \<noteq> 0x1F"
    using that unfolding word8_eq all_lt_8 by (simp add: bit_and_iff bit_shl1)
  ultimately show "x AND 0x1F \<noteq> 0x1F \<Longrightarrow> first_ok (push_bit 1 x)" by (simp add: first_ok_def)
qed

lemma frame_starts:
  assumes "ax25_encoder_new da ds sa ss pre post scr nrzi = Inr e"
  obtains fr where "ax25_frame e pdu = push_bit 1 (hd da) # fr" "length fr = 17 + length pdu"
proof -
  note ok = ax25_encoder_new_ok [OF assms]
  from ok obtain a as where da: "da = a # as" by (cases da) auto
  then have "\<exists>fr. ax25_frame e pdu = push_bit 1 (hd da) # fr"
    using ok by (simp add: ax25_frame_def Let_def insert_address_def insert_callsign_def)
  then obtain fr where fr: "ax25_frame e pdu = push_bit 1 (hd da) # fr" by blast
  moreover have "length fr = 17 + length pdu"
  proof -
    have "length (ax25_frame e pdu) = 18 + length pdu" using ok by (intro length_frame) blast+
    then show ?thesis unfolding fr by simp
  qed
  ultimately show thesis by (rule that)
qed

text \<open>C18: What the encoder puts on the line, the decoder reads back: for NRZI without scrambling
  the items of the encoded bytes, fed to a fresh decoder in one call, give a frame whose PDU is
  the address, control and protocol fields followed by the payload, with a valid checksum, and
  whose first sample is the last bit of the first preamble flag.\<close>

theorem ax25_link_roundtrip:
  assumes "ax25_encoder_new da ds sa ss pre post False True = Inr e"
    and "0 < pre" and "0 < post" and "hd da AND 0x1F \<noteq> 0x1F"
    and "length pdu \<le> 720" and "18 + length pdu < mtu"
  shows "\<exists>out d' st. ax25_encode L uid e (Blob pdu) = Inr (Pair PMT_NIL (Blob out)) \<and>
    ax25_decode L now (ax25_decoder_new L did junk promisc False crc_check mtu err_corr)
      (concat (map unpack_msb out)) = Some (Inr (d', st)) \<and>
    decode_success st \<and>
    data st ''pdu'' = Some (Blob (insert_address e @ insert_ctrl @ insert_pid @ pdu)) \<and>
    data st ''crc_valid'' = Some (PBool True) \<and> data st ''sample_start'' = Some (U64 7)"
proof -
  note ok = ax25_encoder_new_ok [OF assms(1)]
  let ?d = "ax25_decoder_new L did junk promisc False crc_check mtu err_corr"
  let ?tmp = "insert_address e @ insert_ctrl @ insert_pid @ pdu"
  have "length (line_bits e pdu) \<le> 8 * buffer_size e (length pdu)"
    using ok assms(5) by (intro line_fits) blast+
  then obtain out k where out: "line_bytes e pdu = Inr out"
    "concat (map unpack_msb out) = line_bits e pdu @ replicate k 0"
    using line_bytes_line [of e pdu] by auto
  let ?nrzi = "fst (map_state nrzi_byte 0 out)"
  have enc: "ax25_encode L uid e (Blob pdu) = Inr (Pair PMT_NIL (Blob ?nrzi))"
    using ok out(1) by (simp add: ax25_encode_def Let_def)
  define bits where "bits = concat (map unpack_msb out)"
  have line: "concat (map unpack_msb ?nrzi) = nrzi_code 0 bits"
    unfolding bits_def by (rule nrzi_bytes_bits) simp
  have isb: "\<forall>b \<in> set bits. is_bit b" using unpack_msb_bits by (auto simp: bits_def)
  have d: "d_state ?d = NO_SYNC" "d_shift_reg ?d = 0" "d_prev_bit_nrzi ?d = 0" "\<not> d_descramble ?d"
    "d_bitstream ?d = []" "d_max_frame_len ?d = mtu" "length (d_frame_buffer ?d) = mtu + 75" "d_nitems_read ?d = 0"
    by (simp_all add: ax25_decoder_new_def decoder_new_def decoder_base.defs ax25_decoder.defs
      max_header_len_def max_addr_len_def max_ctrl_len_def pid_len_def)
  let ?d1 = "?d\<lparr>d_prev_bit_nrzi := nrzi_end 0 bits, d_bitstream := bits\<rparr>"
  have rx: "fold (receive_1b L) (nrzi_code 0 bits) ?d = ?d1"
    using receive_nrzi [of ?d bits L] d isb by simp
  obtain fr where fr: "ax25_frame e pdu = push_bit 1 (hd da) # fr" "length fr = 17 + length pdu"
    using frame_starts [OF assms(1)] .
  obtain p where p: "pre = Suc p" using assms(2) by (cases pre) auto
  obtain q where q: "post = Suc q" using assms(3) by (cases post) auto
  have stream: "d_bitstream ?d1 = concat (replicate (Suc p) flag_bits) @
      stuff 0 (lsb_bits (push_bit 1 (hd da) # fr)) @ flag_bits @ (concat (replicate q flag_bits) @ replicate k 0)"
    using ok unfolding fr(1) [symmetric] by (simp add: bits_def out(2) line_bits_def p q)
  have valid: "is_frame_valid (Suc (length fr)) (push_bit 1 (hd da) # fr) = Inr True"
    using frame_valid [of e pdu] unfolding fr(1) by simp
  obtain d' st where run: "run_loop (ax25_iteration now) (ax25_fuel ?d1) (?d1, status_new) = Some (Inr ((d', st), True))"
    "decode_success st" "data st ''pdu'' = Some (Blob (take (length fr - 1) (push_bit 1 (hd da) # fr)))"
    "data st ''crc_valid'' = Some (PBool True)" "data st ''sample_start'' = Some (U64 (d_nitems_read ?d1 + 7))"
    using receive_line [OF _ _ stream first_ok_callsign [OF assms(4)] _ _ _ valid, of now] d fr(2) assms(6) by auto
  have "length ?tmp = length fr - 1"
  proof -
    have "length (d_dest_addr e) \<le> 6" "length (d_src_addr e) \<le> 6" using ok by blast+
    then show ?thesis
      by (simp add: fr(2) insert_address_def insert_callsign_def insert_ctrl_def insert_pid_def callsign_max_len_def)
  qed
  then have "take (length fr - 1) (ax25_frame e pdu) = ?tmp"
    by (simp add: ax25_frame_def Let_def)
  then have pdu: "take (length fr - 1) (push_bit 1 (hd da) # fr) = ?tmp" unfolding fr(1) .
  have dec: "ax25_decode L now ?d (concat (map unpack_msb ?nrzi)) =
      Some (Inr (d', st\<lparr>consumed := int (length (concat (map unpack_msb ?nrzi)))\<rparr>))"
    unfolding ax25_decode_def Let_def line rx run(1) by simp
  have "d_nitems_read ?d1 + 7 = 7" using d(8) by simp
  then show ?thesis
    using enc dec run(2-5) unfolding pdu
    by (intro exI [of _ ?nrzi] exI [of _ d'] exI [of _ "st\<lparr>consumed := int (length (concat (map unpack_msb ?nrzi)))\<rparr>"]) simp
qed

theorem ax25_link_roundtrip_witness:
  "\<exists>out d' st. ax25_encode fib_lfsr 1 (example_encoder False True) (Blob [1, 2, 3]) = Inr (Pair PMT_NIL (Blob out)) \<and>
    ax25_decode fib_lfsr ''now'' (ax25_decoder_new fib_lfsr 0 (\<lambda>_. 0xAA) True False True 1024 True)
      (concat (map unpack_msb out)) = Some (Inr (d', st)) \<and>
    decode_success st \<and>
    data st ''pdu'' = Some (Blob (insert_address (example_encoder False True) @ insert_ctrl @ insert_pid @ [1, 2, 3])) \<and>
    data st ''crc_valid'' = Some (PBool True) \<and> data st ''sample_start'' = Some (U64 7)"
  by (rule ax25_link_roundtrip [OF example_encoder_new]) simp_all

end
