(* ===== verification/Crc_Async.thy ===== *)
theory Crc_Async
  imports Crc Metadata
begin

text \<open>
  \<open>lib/crc_async_impl.cc\<close>: the block that appends a checksum to every PDU it receives, or checks
  and removes one. A handler takes a message and yields the message it publishes, if any. The
  byte order of the host is the argument \<open>be\<close>.
\<close>

unbundle bit_operations_syntax

section \<open>Messages\<close>

text \<open>
  The PDU of a message: a blob, or a pair whose second component is taken as one;
  \<open>pmt::uniform_vector_elements\<close> raises \<open>wrong_type\<close> on anything but a vector.
\<close>

fun message_pdu :: "string \<Rightarrow> pmt \<Rightarrow> (pmt \<times> u8 list) res" where
  "message_pdu who (Blob b) = Inr (PMT_NIL, b)"
| "message_pdu who (Pair meta (Blob b)) = Inr (meta, b)"
| "message_pdu who (Pair meta v) = Inl (Runtime_error ''wrong_type'')"
| "message_pdu who v = Inl (Runtime_error (who @ '': received a malformed pdu message''))"

text \<open>\<open>memcpy\<close> of a checksum field followed by \<open>ntohs\<close> or \<open>ntohl\<close>.\<close>

definition received16 :: "bool \<Rightarrow> u8 list \<Rightarrow> u16" where
  "received16 be bs = htons be (load16 be bs)"

definition received32 :: "bool \<Rightarrow> u8 list \<Rightarrow> u32" where
  "received32 be bs = htonl be (load32 be bs)"

lemma received16_append16: "received16 be (append16 be True x) = x"
  using load16_mem16 [of be "htons be x" "[]"] by (simp add: received16_def append16_def)

lemma received32_mem32: "received32 be (mem32 be (htonl be x)) = x"
  using load32_mem32 [of be "htonl be x" "[]"] by (simp add: received32_def)

section \<open>The block\<close>

definition async_append :: "bool \<Rightarrow> crc_t \<Rightarrow> pmt \<Rightarrow> pmt res" where
  "async_append be t msg =
     res_bind (message_pdu ''crc_async'' msg) (\<lambda>(meta, pdu).
     res_bind (crc_size t) (\<lambda>n.
     res_bind (crc_append be t pdu True) (\<lambda>crc.
     Inr (Pair meta (Blob (pdu @ crc))))))"

text \<open>
  One case of the \<open>switch\<close> in \<open>check\<close>. The length \<open>pdu_len - n\<close> is unsigned: for a PDU shorter
  than its checksum the computation runs over the end of the vector.
\<close>

definition check16 :: "bool \<Rightarrow> (u8 list \<Rightarrow> u16) \<Rightarrow> u8 list \<Rightarrow> bool res" where
  "check16 be crc pdu =
     (let n = length pdu
      in if n < 2 then Inl Oob_read
         else Inr (crc (take (n - 2) pdu) = received16 be (drop (n - 2) pdu)))"

definition check32 :: "bool \<Rightarrow> (u8 list \<Rightarrow> u32) \<Rightarrow> u8 list \<Rightarrow> bool res" where
  "check32 be crc pdu =
     (let n = length pdu
      in if n < 4 then Inl Oob_read
         else Inr (crc (take (n - 4) pdu) = received32 be (drop (n - 4) pdu)))"

fun async_crc_ok :: "bool \<Rightarrow> crc_t \<Rightarrow> u8 list \<Rightarrow> bool res" where
  "async_crc_ok be CRC_NONE pdu = Inr True"
| "async_crc_ok be CRC16_CCITT pdu = check16 be crc16_ccitt pdu"
| "async_crc_ok be CRC16_AUG_CCITT pdu = check16 be crc16_aug_ccitt pdu"
| "async_crc_ok be CRC16_CCITT_REVERSED pdu = check16 be crc16_ccitt_reversed pdu"
| "async_crc_ok be CRC16_IBM pdu = check16 be crc16_ibm pdu"
| "async_crc_ok be CRC32_C pdu = check32 be crc32_c pdu"
| "async_crc_ok be t pdu = Inl (Runtime_error ''crc_async: Invalid CRC'')"

text \<open>\<open>None\<close> is a PDU that is dropped, \<open>Some\<close> the message that is published.\<close>

definition async_check :: "bool \<Rightarrow> crc_t \<Rightarrow> pmt \<Rightarrow> pmt option res" where
  "async_check be t msg =
     res_bind (message_pdu ''crc_async'' msg) (\<lambda>(meta, pdu).
     res_bind (async_crc_ok be t pdu) (\<lambda>ok.
     if ok then res_bind (crc_size t) (\<lambda>n. Inr (Some (Pair meta (Blob (take (length pdu - n) pdu)))))
     else Inr None))"

text \<open>The constructor installs one of the two handlers.\<close>

definition async_handler :: "bool \<Rightarrow> crc_t \<Rightarrow> bool \<Rightarrow> pmt \<Rightarrow> pmt option res" where
  "async_handler be t check msg =
     (if check then async_check be t msg else res_bind (async_append be t msg) (\<lambda>m. Inr (Some m)))"

section \<open>Two blocks in a row\<close>

lemma length_append16 [simp]: "length (append16 be nbo x) = 2"
  by (simp add: append16_def)

lemma check16_append [simp]: "check16 be crc (pdu @ append16 be True x) = Inr (crc pdu = x)"
  by (simp add: check16_def Let_def received16_append16)

lemma check32_append [simp]: "check32 be crc (pdu @ mem32 be (htonl be x)) = Inr (crc pdu = x)"
  by (simp add: check32_def Let_def received32_mem32)

text \<open>C20: A block that appends a checksum followed by one that checks it passes every PDU on
  unchanged, with its metadata, for the five methods on which the two handlers agree; for
  \<open>CRC16_AX25\<close> the first block appends and the second one throws.\<close>

theorem crc_async_roundtrip:
  assumes "message_pdu ''crc_async'' msg = Inr (meta, pdu)" and "t \<noteq> CRC16_AUG_CCITT" and "t \<noteq> CRC_METHODS_NUM"
  shows "\<exists>m. async_append be t msg = Inr m \<and>
    async_check be t m = (if t = CRC16_AX25 then Inl (Runtime_error ''crc_async: Invalid CRC'')
      else Inr (Some (Pair meta (Blob pdu))))"
  using assms by (cases t) (simp_all add: async_append_def async_check_def)

theorem crc_async_roundtrip_witness:
  "\<exists>m. async_append False CRC32_C (Pair PMT_NIL (Blob [1, 2, 3])) = Inr m \<and>
    async_check False CRC32_C m = Inr (Some (Pair PMT_NIL (Blob [1, 2, 3])))"
  using crc_async_roundtrip [of "Pair PMT_NIL (Blob [1, 2, 3])" PMT_NIL "[1, 2, 3]" CRC32_C False] by simp

text \<open>The difference of two CCITT registers only depends on the number of bytes.\<close>

lemma ccitt_step_xor: "crc16_ccitt_step (r XOR s) b = crc16_ccitt_step r b XOR crc16_ccitt_step s 0"
proof -
  have "ref_left 0x1021 (r XOR s) b = ref_left 0x1021 r b XOR ref_left 0x1021 s 0"
    unfolding ref_left_def
    using lfsr_iter_lin [of "lfsr_left 0x1021" "r XOR push_bit 8 (ucast b)" s]
    by (simp add: lfsr_left_lin xor.assoc xor.commute xor.left_commute)
  then show ?thesis by (simp only: crc16_ccitt_step_ref)
qed

definition zero_step :: "u16 \<Rightarrow> u16" where
  "zero_step r = crc16_ccitt_step r 0"

lemma ccitt_fold_xor:
  "fold (\<lambda>b r. crc16_ccitt_step r b) xs (r XOR s) =
   fold (\<lambda>b r. crc16_ccitt_step r b) xs r XOR (zero_step ^^ length xs) s"
proof (induction xs arbitrary: r s)
  case Nil
  then show ?case by simp
next
  case (Cons x xs)
  show ?case
    using Cons.IH [of "crc16_ccitt_step r x" "zero_step s"]
    by (simp add: ccitt_step_xor zero_step_def [symmetric] funpow_swap1)
qed

lemma aug_differs_by_length:
  "crc16_ccitt xs = crc16_aug_ccitt xs \<longleftrightarrow> (zero_step ^^ length xs) 0x1D0F = 0xFFFF"
proof -
  have "crc16_aug_ccitt xs = crc16_ccitt xs XOR ((zero_step ^^ length xs) 0x1D0F XOR 0xFFFF)"
    using ccitt_fold_xor [of xs 0 "0x1D0F"] by (simp add: crc16_aug_ccitt_def crc16_ccitt_def xor.assoc)
  moreover have "x = x XOR y \<longleftrightarrow> y = 0" for x y :: u16
    by (metis xor.right_neutral xor_left_inj)
  moreover have "x XOR y = 0 \<longleftrightarrow> x = y" for x y :: u16
    by (metis xor_self_eq xor_left_inj xor.commute)
  ultimately show ?thesis by simp
qed

fun avoids :: "nat \<Rightarrow> u16 \<Rightarrow> bool" where
  "avoids 0 r \<longleftrightarrow> r \<noteq> 0xFFFF"
| "avoids (Suc n) r \<longleftrightarrow> r \<noteq> 0xFFFF \<and> avoids n (zero_step r)"

lemma avoids_funpow: "avoids n r \<Longrightarrow> k \<le> n \<Longrightarrow> (zero_step ^^ k) r \<noteq> 0xFFFF"
proof (induction n arbitrary: r k)
  case (Suc n)
  then show ?case by (cases k) (simp_all add: funpow_swap1)
qed simp

lemma zero_step_ref: "zero_step r = lfsr_iter (lfsr_left 0x1021) r"
  by (simp only: zero_step_def crc16_ccitt_step_ref ref_left_def) simp

lemma avoids_numeral: "avoids (numeral k) r \<longleftrightarrow> r \<noteq> 0xFFFF \<and> avoids (pred_numeral k) (zero_step r)"
  by (simp add: numeral_eq_Suc)

lemma avoids_64: "avoids 64 0x1D0F"
  by (simp add: avoids_numeral zero_step_ref lfsr_left_def)

text \<open>For \<open>CRC16_AUG_CCITT\<close> the two handlers disagree: \<open>append\<close> stores the plain CCITT
  checksum and \<open>check\<close> expects the augmented one. Whether a PDU survives depends on its length
  alone, and none of at most 64 bytes does.\<close>

theorem crc_async_aug_dropped:
  assumes "message_pdu ''crc_async'' msg = Inr (meta, pdu)"
  shows "\<exists>m. async_append be CRC16_AUG_CCITT msg = Inr m \<and>
    async_check be CRC16_AUG_CCITT m =
      (if (zero_step ^^ length pdu) 0x1D0F = 0xFFFF then Inr (Some (Pair meta (Blob pdu))) else Inr None) \<and>
    (length pdu \<le> 64 \<longrightarrow> async_check be CRC16_AUG_CCITT m = Inr None)"
  using assms aug_differs_by_length [of pdu] avoids_funpow [OF avoids_64, of "length pdu"]
  by (auto simp: async_append_def async_check_def)

theorem crc_async_aug_dropped_witness:
  "\<exists>m. async_append False CRC16_AUG_CCITT (Blob [1, 2]) = Inr m \<and> async_check False CRC16_AUG_CCITT m = Inr None"
  using crc_async_aug_dropped [of "Blob [1, 2]" PMT_NIL "[1, 2]" False] by auto

end
