(* ===== verification/Ieee_Decoder.thy ===== *)
theory Ieee_Decoder
  imports Shift_Reg Whitening Crc_Async
begin

text \<open>
  \<open>lib/ieee802_15_4_variant_decoder.cc\<close>: the receiver of preamble, sync word, optional length byte,
  payload and checksum. One call of \<open>decode\<close> runs the operation of the current state; the loops
  over the items are structural. The frame buffer is accessed through checked operations. A
  descrambler handed to several decoders would be shared state; here each decoder owns its own.
  \<open>ieee_inv\<close> states when the buffer is large enough, and it is a hypothesis on the configuration:
  \<open>ieee_length_overflow\<close> shows what happens otherwise.
\<close>

unbundle bit_operations_syntax

section \<open>The class\<close>

datatype ieee_state_t = SEARCHING | SEARCHING_SYNC | DECODING_GENERIC_FRAME_LEN | DECODING_PAYLOAD

record 'l ieee_decoder = decoder_base +
  d_preamble :: shift_reg
  d_preamble_shift_reg :: shift_reg
  d_preamble_len :: nat
  d_preamble_thrsh :: nat
  d_sync :: shift_reg
  d_sync_shift_reg :: shift_reg
  d_sync_len :: nat
  d_sync_thrsh :: nat
  d_crc :: crc_t
  d_descrambler :: "'l whitening option"
  d_var_len :: bool
  d_drop_invalid :: bool
  d_frame_len :: nat
  d_length_field_len :: nat
  d_state :: ieee_state_t
  d_cnt :: nat
  d_frame_start_idx :: u64
  d_pdu :: "u8 list"

text \<open>The constructor shifts the bits of a word, most significant first, into a register.\<close>

fun shl_all :: "u8 list \<Rightarrow> shift_reg \<Rightarrow> shift_reg res" where
  "shl_all [] s = Inr s"
| "shl_all (b # bs) s = res_bind (sr_shl s (b \<noteq> 0)) (\<lambda>s1. shl_all bs s1)"

definition load_word :: "u8 list \<Rightarrow> shift_reg \<Rightarrow> shift_reg res" where
  "load_word bytes s = shl_all (concat (map unpack_msb bytes)) s"

definition ieee_reset :: "'l lfsr_ops \<Rightarrow> 'l ieee_decoder \<Rightarrow> 'l ieee_decoder res" where
  "ieee_reset L d =
     (let d1 = d\<lparr>d_descrambler := map_option (whitening_reset L) (d_descrambler d), d_cnt := 0,
                 d_state := (if d_preamble_len d \<noteq> 0 then SEARCHING else SEARCHING_SYNC)\<rparr>
      in res_bind (sr_reset (d_preamble_shift_reg d1)) (\<lambda>p.
         res_bind (sr_reset (d_sync_shift_reg d1)) (\<lambda>s.
         Inr (d1\<lparr>d_preamble_shift_reg := p, d_sync_shift_reg := s\<rparr>))))"

text \<open>The frame buffer is allocated with \<open>new[]\<close>, so its contents \<open>junk\<close> are arbitrary.\<close>

definition ieee_decoder_new ::
    "'l lfsr_ops \<Rightarrow> int \<Rightarrow> (nat \<Rightarrow> u8) \<Rightarrow> u8 list \<Rightarrow> nat \<Rightarrow> u8 list \<Rightarrow> nat \<Rightarrow> crc_t \<Rightarrow>
     'l whitening option \<Rightarrow> bool \<Rightarrow> nat \<Rightarrow> bool \<Rightarrow> 'l ieee_decoder res" where
  "ieee_decoder_new L base_unique_id junk preamble preamble_threshold sync sync_threshold crc
       descrambler var_len max_len drop_invalid =
     res_bind (crc_size crc) (\<lambda>n.
     let plen = length preamble * 8; slen = length sync * 8; lfl = (if var_len then 1 else 0)
     in res_bind (load_word preamble (sr_make plen)) (\<lambda>p.
        res_bind (load_word sync (sr_make slen)) (\<lambda>s.
        if max_len = 0
        then Inl (Invalid_argument ''The maximum frame size should be at least 1 byte'')
        else if slen < 8
        then Inl (Invalid_argument ''SYNC word should be at least 8 bits'')
        else if plen \<noteq> 0 \<and> plen < 2 * preamble_threshold
        then Inl (Invalid_argument ''Too many error bits are allowed for the preamble.Consider lowering the threshold'')
        else if slen < 2 * sync_threshold
        then Inl (Invalid_argument ''Too many error bits are allowed for the sync word. Consider lowering the threshold'')
        else ieee_reset L (decoder_base.extend
          (fst (decoder_new ''IEEE-802.15.4'' ''1.0'' 1 max_len base_unique_id))
          (ieee_decoder.fields p (sr_make plen) plen preamble_threshold s (sr_make slen) slen sync_threshold
             crc descrambler var_len drop_invalid (max_len + n) lfl SEARCHING 0 0
             (map junk [0..<max_len + n + lfl]))))))"

section \<open>The states\<close>

text \<open>The searches; \<open>i\<close> is the loop index, the result the number of items consumed.\<close>

fun ieee_search_preamble ::
    "nat \<Rightarrow> u8 list \<Rightarrow> 'l ieee_decoder \<Rightarrow> (nat \<times> 'l ieee_decoder) res" where
  "ieee_search_preamble i [] d = Inr (i, d)"
| "ieee_search_preamble i (b # bs) d =
     res_bind (sr_shl (d_preamble_shift_reg d) (b \<noteq> 0)) (\<lambda>r.
     let d1 = d\<lparr>d_preamble_shift_reg := r\<rparr>
     in res_bind (sr_xor (d_preamble_shift_reg d1) (d_preamble d1)) (\<lambda>tmp.
        if sr_count tmp \<le> d_preamble_thrsh d1
        then Inr (i + 1, d1\<lparr>d_state := SEARCHING_SYNC,
                           d_frame_start_idx := d_nitems_read d1 + of_nat i + 1, d_cnt := 0\<rparr>)
        else ieee_search_preamble (i + 1) bs d1))"

fun ieee_search_sync ::
    "'l lfsr_ops \<Rightarrow> nat \<Rightarrow> u8 list \<Rightarrow> 'l ieee_decoder \<Rightarrow> (nat \<times> 'l ieee_decoder) res" where
  "ieee_search_sync L i [] d = Inr (i, d)"
| "ieee_search_sync L i (b # bs) d =
     res_bind (sr_shl (d_sync_shift_reg d) (b \<noteq> 0)) (\<lambda>r.
     let d1 = d\<lparr>d_sync_shift_reg := r\<rparr>
     in res_bind (sr_xor (d_sync_shift_reg d1) (d_sync d1)) (\<lambda>tmp.
        let d2 = d1\<lparr>d_cnt := d_cnt d1 + 1\<rparr>
        in if sr_count tmp \<le> d_sync_thrsh d2
           then Inr (i + 1, d2\<lparr>d_state := (if d_var_len d2 then DECODING_GENERIC_FRAME_LEN else DECODING_PAYLOAD),
                              d_cnt := 0\<rparr>)
           else if d_preamble_len d2 * 2 + d_sync_len d2 + d_sync_thrsh d2 < d_cnt d2
           then res_bind (ieee_reset L d2) (\<lambda>d3. Inr (i + 1, d3))
           else ieee_search_sync L (i + 1) bs d2))"

definition descramble_opt ::
    "'l lfsr_ops \<Rightarrow> 'l whitening option \<Rightarrow> u8 list \<Rightarrow> u8 list \<times> 'l whitening option" where
  "descramble_opt L w bs =
     (case w of None \<Rightarrow> (bs, None) | Some w \<Rightarrow> let (out, w1) = descramble L w bs in (out, Some w1))"

text \<open>\<open>decode_frame_len\<close> reads eight items whatever the number of items available is.\<close>

definition ieee_decode_frame_len ::
    "'l lfsr_ops \<Rightarrow> u8 list \<Rightarrow> 'l ieee_decoder \<Rightarrow> (nat \<times> 'l ieee_decoder) res" where
  "ieee_decode_frame_len L inp d =
     (if length inp < 8 then Inl Oob_read
      else let b = pack_msb (take 8 inp);
               (bs, w) = descramble_opt L (d_descrambler d) [b];
               d1 = d\<lparr>d_descrambler := w, d_frame_len := unat (hd bs)\<rparr>
           in res_bind (buf_set (d_pdu d1) 0 (hd bs)) (\<lambda>buf.
              res_bind (crc_size (d_crc d1)) (\<lambda>n.
              Inr (8, d1\<lparr>d_pdu := buf, d_frame_len := d_frame_len d1 + n, d_cnt := 1,
                         d_state := DECODING_PAYLOAD\<rparr>))))"

definition ieee_check_crc :: "bool \<Rightarrow> crc_t \<Rightarrow> u8 list \<Rightarrow> bool res" where
  "ieee_check_crc be crc frame =
     (case crc of
        CRC_NONE \<Rightarrow> Inr True
      | CRC16_CCITT \<Rightarrow> check16 be crc16_ccitt frame
      | CRC16_AUG_CCITT \<Rightarrow> check16 be crc16_aug_ccitt frame
      | CRC16_CCITT_REVERSED \<Rightarrow> check16 be crc16_ccitt_reversed frame
      | CRC16_IBM \<Rightarrow> check16 be crc16_ibm frame
      | CRC32_C \<Rightarrow> check32 be crc32_c frame
      | _ \<Rightarrow> Inl (Runtime_error ''ieee802_15_4_variant_decoder: Invalid CRC''))"

text \<open>What happens when the last byte of a frame has arrived; \<open>n\<close> items of the call are used.\<close>

definition ieee_frame_end ::
    "'l lfsr_ops \<Rightarrow> bool \<Rightarrow> string \<Rightarrow> nat \<Rightarrow> 'l ieee_decoder \<times> decoder_status \<Rightarrow>
     ('l ieee_decoder \<times> decoder_status) res" where
  "ieee_frame_end L be now n = (\<lambda>(d, status).
     let lfl = d_length_field_len d;
         (body, w) = descramble_opt L (d_descrambler d) (take (d_frame_len d) (drop lfl (d_pdu d)));
         d = d\<lparr>d_descrambler := w,
               d_pdu := take lfl (d_pdu d) @ body @ drop (lfl + d_frame_len d) (d_pdu d)\<rparr>;
         m = add_decoder (data status) (Some d);
         m = add_time_iso8601 now m;
         m = add_sample_start m (d_frame_start_idx d);
         m = add_sample_cnt m (d_nitems_read d + of_nat n - d_frame_start_idx d);
         status = status\<lparr>consumed := int n, data := m\<rparr>
     in res_bind (ieee_check_crc be (d_crc d) (take (lfl + d_frame_len d) (d_pdu d))) (\<lambda>ok.
        res_bind (crc_size (d_crc d)) (\<lambda>cs.
        let status =
          (if ok then status\<lparr>decode_success := True,
             data := add_crc_valid (add_pdu m (drop lfl (d_pdu d)) (d_frame_len d - cs)) True\<rparr>
           else if \<not> d_drop_invalid d then status\<lparr>decode_success := True,
             data := add_crc_valid (add_pdu m (drop lfl (d_pdu d)) (d_frame_len d)) False\<rparr>
           else status)
        in res_bind (ieee_reset L d) (\<lambda>d. Inr (d, status)))))"

text \<open>The bytes assembled from an input of \<open>len\<close> items, and the loop over them.\<close>

definition input_bytes :: "u8 list \<Rightarrow> u8 list" where
  "input_bytes inp = map (\<lambda>i. pack_msb (take 8 (drop (i * 8) inp))) [0..<length inp div 8]"

fun ieee_payload ::
    "'l lfsr_ops \<Rightarrow> bool \<Rightarrow> string \<Rightarrow> nat \<Rightarrow> u8 list \<Rightarrow> 'l ieee_decoder \<times> decoder_status \<Rightarrow>
     ('l ieee_decoder \<times> decoder_status) res" where
  "ieee_payload L be now i [] (d, status) = Inr (d, status\<lparr>consumed := int i * 8\<rparr>)"
| "ieee_payload L be now i (b # bs) (d, status) =
     res_bind (buf_set (d_pdu d) (d_cnt d) b) (\<lambda>buf.
     let d1 = d\<lparr>d_pdu := buf, d_cnt := d_cnt d + 1\<rparr>
     in if d_cnt d1 = d_frame_len d1 + d_length_field_len d1
        then ieee_frame_end L be now ((i + 1) * 8) (d1, status)
        else ieee_payload L be now (i + 1) bs (d1, status))"

definition ieee_decode_payload ::
    "'l lfsr_ops \<Rightarrow> bool \<Rightarrow> string \<Rightarrow> u8 list \<Rightarrow> 'l ieee_decoder \<times> decoder_status \<Rightarrow>
     ('l ieee_decoder \<times> decoder_status) res" where
  "ieee_decode_payload L be now inp s = ieee_payload L be now 0 (input_bytes inp) s"

section \<open>decode\<close>

definition quiet :: "(nat \<times> 'l ieee_decoder) res \<Rightarrow> ('l ieee_decoder \<times> decoder_status) res" where
  "quiet r = res_bind r (\<lambda>(n, d). Inr (d, status_new\<lparr>consumed := int n\<rparr>))"

definition count_items ::
    "('l ieee_decoder \<times> decoder_status) res \<Rightarrow> ('l ieee_decoder \<times> decoder_status) res" where
  "count_items r = res_bind r (\<lambda>(d, status). Inr (incr_nitems_read (nat (consumed status)) d, status))"

definition decode_var_len ::
    "'l lfsr_ops \<Rightarrow> bool \<Rightarrow> string \<Rightarrow> 'l ieee_decoder \<Rightarrow> u8 list \<Rightarrow>
     ('l ieee_decoder \<times> decoder_status) res" where
  "decode_var_len L be now d inp =
     count_items (case d_state d of
         SEARCHING \<Rightarrow> quiet (ieee_search_preamble 0 inp d)
       | SEARCHING_SYNC \<Rightarrow> quiet (ieee_search_sync L 0 inp d)
       | DECODING_GENERIC_FRAME_LEN \<Rightarrow> quiet (ieee_decode_frame_len L inp d)
       | DECODING_PAYLOAD \<Rightarrow> ieee_decode_payload L be now inp (d, status_new))"

definition decode_const_len ::
    "'l lfsr_ops \<Rightarrow> bool \<Rightarrow> string \<Rightarrow> 'l ieee_decoder \<Rightarrow> u8 list \<Rightarrow>
     ('l ieee_decoder \<times> decoder_status) res" where
  "decode_const_len L be now d inp =
     count_items (case d_state d of
         SEARCHING \<Rightarrow> quiet (ieee_search_preamble 0 inp d)
       | SEARCHING_SYNC \<Rightarrow> quiet (ieee_search_sync L 0 inp d)
       | DECODING_PAYLOAD \<Rightarrow> ieee_decode_payload L be now inp (d, status_new)
       | DECODING_GENERIC_FRAME_LEN \<Rightarrow>
           Inl (Runtime_error ''ieee802_15_4_variant_decoder: Invalid state''))"

definition ieee_decode ::
    "'l lfsr_ops \<Rightarrow> bool \<Rightarrow> string \<Rightarrow> 'l ieee_decoder \<Rightarrow> u8 list \<Rightarrow>
     ('l ieee_decoder \<times> decoder_status) res" where
  "ieee_decode L be now d inp =
     (if d_var_len d then decode_var_len L be now d inp else decode_const_len L be now d inp)"

definition ieee_input_multiple :: nat where
  "ieee_input_multiple = 8"

section \<open>The invariant\<close>

definition ieee_regs :: "'l ieee_decoder \<Rightarrow> bool" where
  "ieee_regs d \<longleftrightarrow>
     sr_wf (d_preamble d) \<and> d_len (d_preamble d) = d_preamble_len d \<and>
     sr_wf (d_preamble_shift_reg d) \<and> d_len (d_preamble_shift_reg d) = d_preamble_len d \<and>
     sr_wf (d_sync d) \<and> d_len (d_sync d) = d_sync_len d \<and>
     sr_wf (d_sync_shift_reg d) \<and> d_len (d_sync_shift_reg d) = d_sync_len d \<and> 8 \<le> d_sync_len d"

text \<open>
  The buffer holds every frame the decoder may announce: with a length field, 255 bytes and the
  checksum. A checksum is needed there, because a frame of length 0 must still be longer than
  its length field.
\<close>

definition ieee_room :: "'l ieee_decoder \<Rightarrow> nat \<Rightarrow> bool" where
  "ieee_room d cs \<longleftrightarrow> crc_size (d_crc d) = Inr cs \<and> d_crc d \<noteq> CRC16_AX25 \<and>
     (if d_var_len d then d_length_field_len d = 1 \<and> 256 + cs \<le> length (d_pdu d) \<and> 0 < cs
      else d_length_field_len d = 0 \<and> d_frame_len d = length (d_pdu d) \<and> cs < d_frame_len d)"

definition ieee_frame :: "'l ieee_decoder \<Rightarrow> nat \<Rightarrow> bool" where
  "ieee_frame d cs \<longleftrightarrow> d_frame_len d + d_length_field_len d \<le> length (d_pdu d) \<and> cs \<le> d_frame_len d"

definition ieee_inv :: "'l ieee_decoder \<Rightarrow> bool" where
  "ieee_inv d \<longleftrightarrow> ieee_regs d \<and> (\<exists>cs. ieee_room d cs \<and>
     (case d_state d of
        SEARCHING \<Rightarrow> 0 < d_preamble_len d
      | SEARCHING_SYNC \<Rightarrow> True
      | DECODING_GENERIC_FRAME_LEN \<Rightarrow> d_var_len d
      | DECODING_PAYLOAD \<Rightarrow> d_cnt d < d_frame_len d + d_length_field_len d \<and> ieee_frame d cs))"

text \<open>What a call never changes, and what it may report.\<close>

definition ieee_conf :: "'l ieee_decoder \<Rightarrow> crc_t \<times> bool \<times> nat" where
  "ieee_conf d = (d_crc d, d_drop_invalid d, d_length_field_len d)"

definition ieee_report :: "bool \<Rightarrow> crc_t \<times> bool \<times> nat \<Rightarrow> decoder_status \<Rightarrow> bool" where
  "ieee_report be K st \<longleftrightarrow> (decode_success st \<longrightarrow>
     (\<exists>frame v cs. crc_size (fst K) = Inr cs \<and> snd (snd K) + cs \<le> length frame \<and>
        ieee_check_crc be (fst K) frame = Inr v \<and> (v \<or> \<not> fst (snd K)) \<and>
        data st ''crc_valid'' = Some (PBool v) \<and>
        data st ''pdu'' = Some (Blob (drop (snd (snd K)) (if v then take (length frame - cs) frame else frame)))))"

lemma sr_shl_ok:
  assumes "sr_wf r" and "0 < d_len r"
  shows "\<exists>r'. sr_shl r b = Inr r' \<and> sr_wf r' \<and> d_len r' = d_len r"
  using sr_push_back_eq [OF assms] sr_wf_push_back [OF assms(1)] by (simp add: sr_shl_def)

lemma sr_xor_ok: "sr_wf s \<Longrightarrow> sr_wf t \<Longrightarrow> d_len s = d_len t \<Longrightarrow> \<exists>u. sr_xor s t = Inr u"
  using sr_xor_eq by blast

lemma ieee_reset_ok:
  assumes "ieee_regs d" and "ieee_room d cs"
  shows "\<exists>d'. ieee_reset L d = Inr d' \<and> ieee_inv d' \<and> ieee_conf d' = ieee_conf d"
  using assms by (auto simp: ieee_reset_def Let_def ieee_regs_def sr_reset_eq ieee_inv_def ieee_room_def
    ieee_conf_def sr_wf_make sr_make_def sr_wf_def)

lemma ieee_search_preamble_ok:
  "ieee_inv d \<Longrightarrow> d_state d = SEARCHING \<Longrightarrow>
   \<exists>n d'. ieee_search_preamble i bs d = Inr (n, d') \<and> ieee_inv d' \<and> ieee_conf d' = ieee_conf d \<and>
     n \<le> i + length bs \<and> (bs \<noteq> [] \<longrightarrow> i < n) \<and> i \<le> n"
proof (induction bs arbitrary: i d)
  case Nil
  then show ?case by simp
next
  case (Cons b bs)
  have inv: "ieee_regs d" "0 < d_preamble_len d" using Cons.prems by (auto simp: ieee_inv_def)
  obtain r where r: "sr_shl (d_preamble_shift_reg d) (b \<noteq> 0) = Inr r" "sr_wf r" "d_len r = d_preamble_len d"
    using sr_shl_ok [of "d_preamble_shift_reg d" "b \<noteq> 0"] inv by (auto simp: ieee_regs_def)
  obtain u where u: "sr_xor r (d_preamble d) = Inr u"
    using sr_xor_ok [of r "d_preamble d"] r inv(1) by (auto simp: ieee_regs_def)
  let ?d = "d\<lparr>d_preamble_shift_reg := r\<rparr>"
  have inv1: "ieee_inv ?d" "ieee_conf ?d = ieee_conf d"
    using Cons.prems r by (auto simp: ieee_inv_def ieee_regs_def ieee_room_def ieee_conf_def)
  show ?case
  proof (cases "sr_count u \<le> d_preamble_thrsh d")
    case True
    let ?e = "?d\<lparr>d_state := SEARCHING_SYNC, d_frame_start_idx := d_nitems_read ?d + of_nat i + 1, d_cnt := 0\<rparr>"
    have "ieee_inv ?e" "ieee_conf ?e = ieee_conf d"
      using inv1 by (auto simp: ieee_inv_def ieee_regs_def ieee_room_def ieee_conf_def)
    then show ?thesis using r(1) u True by (simp add: Let_def)
  next
    case False
    then have "ieee_search_preamble i (b # bs) d = ieee_search_preamble (i + 1) bs ?d"
      using r(1) u by (simp add: Let_def)
    then show ?thesis using Cons.IH [OF inv1(1), of "i + 1"] inv1(2) Cons.prems(2) by fastforce
  qed
qed

lemma ieee_search_sync_ok:
  "ieee_inv d \<Longrightarrow> d_state d = SEARCHING_SYNC \<Longrightarrow>
   \<exists>n d'. ieee_search_sync L i bs d = Inr (n, d') \<and> ieee_inv d' \<and> ieee_conf d' = ieee_conf d \<and>
     n \<le> i + length bs \<and> (bs \<noteq> [] \<longrightarrow> i < n) \<and> i \<le> n"
proof (induction bs arbitrary: i d)
  case Nil
  then show ?case by simp
next
  case (Cons b bs)
  have inv: "ieee_regs d" using Cons.prems by (auto simp: ieee_inv_def)
  then have pos: "0 < d_sync_len d" by (simp add: ieee_regs_def)
  obtain r where r: "sr_shl (d_sync_shift_reg d) (b \<noteq> 0) = Inr r" "sr_wf r" "d_len r = d_sync_len d"
    using sr_shl_ok [of "d_sync_shift_reg d" "b \<noteq> 0"] inv pos by (auto simp: ieee_regs_def)
  obtain u where u: "sr_xor r (d_sync d) = Inr u"
    using sr_xor_ok [of r "d_sync d"] r inv by (auto simp: ieee_regs_def)
  let ?d = "d\<lparr>d_sync_shift_reg := r, d_cnt := d_cnt d + 1\<rparr>"
  have regs1: "ieee_regs ?d" using inv r by (simp add: ieee_regs_def)
  obtain cs where "ieee_room d cs" using Cons.prems by (auto simp: ieee_inv_def)
  then have room1: "ieee_room ?d cs" by (auto simp: ieee_room_def)
  have inv1: "ieee_inv ?d" "ieee_conf ?d = ieee_conf d"
    using Cons.prems r by (auto simp: ieee_inv_def ieee_regs_def ieee_room_def ieee_conf_def)
  consider (found) "sr_count u \<le> d_sync_thrsh d"
    | (late) "\<not> sr_count u \<le> d_sync_thrsh d" "d_preamble_len d * 2 + d_sync_len d + d_sync_thrsh d < d_cnt d + 1"
    | (more) "\<not> sr_count u \<le> d_sync_thrsh d" "\<not> d_preamble_len d * 2 + d_sync_len d + d_sync_thrsh d < d_cnt d + 1"
    by blast
  then show ?case
  proof cases
    case found
    let ?e = "?d\<lparr>d_state := (if d_var_len ?d then DECODING_GENERIC_FRAME_LEN else DECODING_PAYLOAD), d_cnt := 0\<rparr>"
    have "ieee_inv ?e" "ieee_conf ?e = ieee_conf d"
      using regs1 room1 by (auto simp: ieee_inv_def ieee_regs_def ieee_room_def ieee_conf_def ieee_frame_def split: if_splits)
    then show ?thesis using r(1) u found by (simp add: Let_def)
  next
    case late
    obtain d' where "ieee_reset L ?d = Inr d'" "ieee_inv d'" "ieee_conf d' = ieee_conf ?d"
      using ieee_reset_ok [OF regs1 room1] by blast
    then show ?thesis using r(1) u late inv1(2) by (simp add: Let_def)
  next
    case more
    then have "ieee_search_sync L i (b # bs) d = ieee_search_sync L (i + 1) bs ?d"
      using r(1) u by (simp add: Let_def)
    then show ?thesis using Cons.IH [OF inv1(1), of "i + 1"] inv1(2) Cons.prems(2) by fastforce
  qed
qed

lemma length_map_state_fst: "map_state f s xs = (ys, s') \<Longrightarrow> length ys = length xs"
  by (metis fst_conv map_state_length)

lemma descramble_opt_length: "descramble_opt L w bs = (out, w') \<Longrightarrow> length out = length bs"
  by (auto simp: descramble_opt_def descramble_def scramble_def split: option.splits prod.splits
      dest: length_map_state_fst)

lemma ieee_decode_frame_len_ok:
  assumes "ieee_inv d" and "d_state d = DECODING_GENERIC_FRAME_LEN" and "8 \<le> length inp"
  shows "\<exists>d'. ieee_decode_frame_len L inp d = Inr (8, d') \<and> ieee_inv d' \<and> ieee_conf d' = ieee_conf d"
proof -
  obtain out w where o: "descramble_opt L (d_descrambler d) [pack_msb (take 8 inp)] = (out, w)" by fastforce
  obtain b where out: "out = [b]"
    using descramble_opt_length [OF o] by (cases out) auto
  obtain cs where inv: "ieee_regs d" "ieee_room d cs" "d_var_len d"
    using assms by (auto simp: ieee_inv_def)
  have room: "d_length_field_len d = 1" "256 + cs \<le> length (d_pdu d)" "0 < cs" "crc_size (d_crc d) = Inr cs"
    using inv by (simp_all add: ieee_room_def)
  let ?d = "d\<lparr>d_descrambler := w, d_frame_len := unat b + cs, d_pdu := (d_pdu d)[0 := b], d_cnt := 1, d_state := DECODING_PAYLOAD\<rparr>"
  have lt: "0 < length (d_pdu d)" using room by linarith
  have "ieee_decode_frame_len L inp d = Inr (8, ?d)"
    using assms(3) lt room(4) by (simp add: ieee_decode_frame_len_def o out buf_simps Let_def)
  moreover have "unat b < 256" using unsigned_less [of b] by simp
  then have "ieee_inv ?d"
    using inv room by (auto simp: ieee_inv_def ieee_regs_def ieee_room_def ieee_frame_def)
  moreover have "ieee_conf ?d = ieee_conf d" by (simp add: ieee_conf_def)
  ultimately show ?thesis by blast
qed

lemma ieee_check_crc_total:
  "crc_size t = Inr cs \<Longrightarrow> t \<noteq> CRC16_AX25 \<Longrightarrow> cs \<le> length frame \<Longrightarrow> \<exists>v. ieee_check_crc be t frame = Inr v"
  by (cases t) (simp_all add: ieee_check_crc_def check16_def check32_def Let_def)

lemma report_dict:
  "add_crc_valid (add_pdu m bs k) v ''pdu'' = Some (Blob (take k bs))"
  "add_crc_valid (add_pdu m bs k) v ''crc_valid'' = Some (PBool v)"
  by (simp_all add: add_crc_valid_def add_pdu_def dict_put_def)

lemma ieee_frame_end_ok:
  assumes regs: "ieee_regs d" and room: "ieee_room d cs" and frame: "ieee_frame d cs"
  shows "\<exists>d' st. ieee_frame_end L be now n (d, status_new) = Inr (d', st) \<and> ieee_inv d' \<and>
    ieee_conf d' = ieee_conf d \<and> consumed st = int n \<and> ieee_report be (ieee_conf d) st"
proof -
  let ?l = "d_length_field_len d" and ?n = "d_frame_len d"
  obtain body w where b: "descramble_opt L (d_descrambler d) (take ?n (drop ?l (d_pdu d))) = (body, w)" by fastforce
  have len: "length body = ?n" using descramble_opt_length [OF b] frame by (auto simp: ieee_frame_def min_def)
  let ?pdu = "take ?l (d_pdu d) @ body @ drop (?l + ?n) (d_pdu d)"
  let ?f = "take (?l + ?n) ?pdu"
  define d1 where "d1 = d\<lparr>d_descrambler := w, d_pdu := ?pdu\<rparr>"
  have lp: "length ?pdu = length (d_pdu d)" using len frame by (simp add: ieee_frame_def)
  have upd: "ieee_regs (d\<lparr>d_descrambler := w, d_pdu := q\<rparr>) \<and> ieee_room (d\<lparr>d_descrambler := w, d_pdu := q\<rparr>) cs \<and>
      ieee_conf (d\<lparr>d_descrambler := w, d_pdu := q\<rparr>) = ieee_conf d" if "length q = length (d_pdu d)" for q
    using regs room that by (auto simp: ieee_regs_def ieee_room_def ieee_conf_def)
  have d1: "ieee_regs d1" "ieee_room d1 cs" "ieee_conf d1 = ieee_conf d"
    using upd [OF lp] by (simp_all add: d1_def)
  have lf: "length ?f = ?l + ?n" using len frame by (simp add: ieee_frame_def)
  have cs: "crc_size (d_crc d) = Inr cs" "d_crc d \<noteq> CRC16_AX25" using room by (simp_all add: ieee_room_def)
  have "cs \<le> length ?f" unfolding lf using frame by (simp add: ieee_frame_def)
  then obtain v where v: "ieee_check_crc be (d_crc d) ?f = Inr v" using ieee_check_crc_total [OF cs] by blast
  obtain d2 where d2: "ieee_reset L d1 = Inr d2" "ieee_inv d2" "ieee_conf d2 = ieee_conf d1"
    using ieee_reset_ok [OF d1(1,2)] by blast
  define m where "m = add_sample_cnt (add_sample_start (add_time_iso8601 now (add_decoder Map.empty (Some d1)))
      (d_frame_start_idx d1)) (d_nitems_read d1 + of_nat n - d_frame_start_idx d1)"
  define st where "st = (if v then \<lparr>consumed = int n, decode_success = True,
        data = add_crc_valid (add_pdu m (drop ?l (d_pdu d1)) (?n - cs)) True\<rparr>
      else if \<not> d_drop_invalid d then \<lparr>consumed = int n, decode_success = True,
        data = add_crc_valid (add_pdu m (drop ?l (d_pdu d1)) ?n) False\<rparr>
      else \<lparr>consumed = int n, decode_success = False, data = m\<rparr>)"
  have "ieee_frame_end L be now n (d, status_new) = Inr (d2, st)"
    using v cs(1) d2(1) by (simp add: ieee_frame_end_def Let_def b d1_def st_def m_def status_new_def)
  moreover have "consumed st = int n" by (simp add: st_def)
  moreover have "ieee_report be (ieee_conf d) st"
  proof -
    have p: "d_pdu d1 = ?pdu" by (simp add: d1_def)
    have whole: "take ?n (drop ?l ?pdu) = drop ?l ?f" by (simp only: drop_take) simp
    have "drop ?l (take (length ?f - cs) ?f) = take (?n - cs) (drop ?l ?pdu)"
      unfolding lf take_take drop_take using frame by (simp add: ieee_frame_def min_def)
    then have "data st ''pdu'' = Some (Blob (drop ?l (if v then take (length ?f - cs) ?f else ?f)))"
      "data st ''crc_valid'' = Some (PBool v)" if "decode_success st"
      using that whole unfolding st_def p
      by (cases v; cases "d_drop_invalid d"; simp only: if_True if_False simp_thms decoder_status.select_convs report_dict)+
    moreover have "v \<or> \<not> d_drop_invalid d" if "decode_success st" using that by (auto simp: st_def split: if_splits)
    moreover have "?l + cs \<le> length ?f" unfolding lf using frame by (simp add: ieee_frame_def)
    ultimately show ?thesis unfolding ieee_report_def ieee_conf_def fst_conv snd_conv using v cs(1) by blast
  qed
  ultimately show ?thesis using d2 d1(3) by simp
qed

lemma ieee_payload_ok:
  "ieee_inv d \<Longrightarrow> d_state d = DECODING_PAYLOAD \<Longrightarrow>
   \<exists>d' st k. ieee_payload L be now i bs (d, status_new) = Inr (d', st) \<and> ieee_inv d' \<and> ieee_conf d' = ieee_conf d \<and>
     consumed st = int k * 8 \<and> k \<le> i + length bs \<and> (bs \<noteq> [] \<longrightarrow> i < k) \<and> i \<le> k \<and> ieee_report be (ieee_conf d) st"
proof (induction bs arbitrary: i d)
  case Nil
  then show ?case by (simp add: ieee_report_def status_new_def)
next
  case (Cons b bs)
  obtain cs where inv: "ieee_regs d" "ieee_room d cs" "d_cnt d < d_frame_len d + d_length_field_len d" "ieee_frame d cs"
    using Cons.prems by (auto simp: ieee_inv_def)
  then have lt: "d_cnt d < length (d_pdu d)" by (simp add: ieee_frame_def)
  let ?d = "d\<lparr>d_pdu := (d_pdu d)[d_cnt d := b], d_cnt := d_cnt d + 1\<rparr>"
  have d1: "ieee_regs ?d" "ieee_room ?d cs" "ieee_frame ?d cs" "ieee_conf ?d = ieee_conf d"
    using inv by (auto simp: ieee_regs_def ieee_room_def ieee_frame_def ieee_conf_def)
  show ?case
  proof (cases "d_cnt d + 1 = d_frame_len d + d_length_field_len d")
    case True
    obtain d' st where e: "ieee_frame_end L be now ((i + 1) * 8) (?d, status_new) = Inr (d', st)" "ieee_inv d'"
      "ieee_conf d' = ieee_conf ?d" "consumed st = int ((i + 1) * 8)" "ieee_report be (ieee_conf ?d) st"
      using ieee_frame_end_ok [OF d1(1-3)] by blast
    have "ieee_payload L be now i (b # bs) (d, status_new) = Inr (d', st)"
      using lt True e(1) by (simp add: buf_simps Let_def)
    then show ?thesis using e(2-5) d1(4) by (intro exI [of _ d'] exI [of _ st] exI [of _ "i + 1"]) simp
  next
    case False
    then have inv1: "ieee_inv ?d" using d1 inv(3) Cons.prems(2) by (auto simp: ieee_inv_def)
    have step: "ieee_payload L be now i (b # bs) (d, status_new) = ieee_payload L be now (i + 1) bs (?d, status_new)"
      using lt False by (simp add: buf_simps Let_def)
    obtain d' st k where r: "ieee_payload L be now (i + 1) bs (?d, status_new) = Inr (d', st)" "ieee_inv d'"
      "ieee_conf d' = ieee_conf ?d" "consumed st = int k * 8" "k \<le> i + 1 + length bs" "i + 1 \<le> k"
      "ieee_report be (ieee_conf ?d) st"
      using Cons.IH [OF inv1, of "i + 1"] Cons.prems(2) by auto
    show ?thesis using r step d1(4) by (intro exI [of _ d'] exI [of _ st] exI [of _ k]) simp
  qed
qed

lemma length_input_bytes [simp]: "length (input_bytes inp) = length inp div 8"
  by (simp add: input_bytes_def)

text \<open>Descrambling in two calls is descrambling in one.\<close>

lemma descramble_opt_append:
  "descramble_opt L w (xs @ ys) =
   (let (us, w1) = descramble_opt L w xs; (vs, w2) = descramble_opt L w1 ys in (us @ vs, w2))"
  by (cases w) (simp_all add: descramble_opt_def descramble_def scramble_def map_state_append split_def Let_def)

lemma pack_unpack_stream:
  "input_bytes (concat (map unpack_msb bs)) = bs"
proof (rule nth_equalityI)
  have len: "length (concat (map unpack_msb bs)) = length bs * 8" by (induction bs) simp_all
  then show l: "length (input_bytes (concat (map unpack_msb bs))) = length bs" by simp
  fix i assume "i < length (input_bytes (concat (map unpack_msb bs)))"
  then have i: "i < length bs" using l by simp
  have "take 8 (drop (i * 8) (concat (map unpack_msb bs))) = unpack_msb (bs ! i)"
    using i
  proof (induction bs arbitrary: i)
    case (Cons b bs)
    then show ?case by (cases i) (simp_all add: algebra_simps)
  qed simp
  then show "input_bytes (concat (map unpack_msb bs)) ! i = bs ! i"
    using i by (simp add: input_bytes_def len)
qed

lemma ieee_decode_ok:
  assumes inv: "ieee_inv d" and len: "8 \<le> length inp"
  shows "\<exists>d' st. ieee_decode L be now d inp = Inr (d', st) \<and> ieee_inv d' \<and> ieee_conf d' = ieee_conf d \<and>
    0 < consumed st \<and> consumed st \<le> int (length inp) \<and>
    ieee_report be (ieee_conf d) st"
proof -
  have items: "ieee_inv (incr_nitems_read n e) = ieee_inv e" "ieee_conf (incr_nitems_read n e) = ieee_conf e"
    for n and e :: "'a ieee_decoder"
    by (cases "d_state e"; simp add: incr_nitems_read_def ieee_inv_def ieee_regs_def ieee_room_def ieee_frame_def ieee_conf_def)+
  have ne: "inp \<noteq> []" using len by auto
  have search: ?thesis if "ieee_decode L be now d inp = count_items (quiet r)" "r = Inr (n, d1)" "ieee_inv d1"
    "ieee_conf d1 = ieee_conf d" "n \<le> length inp" "0 < n" for r n d1
    using that items by (simp add: count_items_def quiet_def ieee_report_def status_new_def)
  show ?thesis
  proof (cases "d_state d")
    case SEARCHING
    then have "ieee_decode L be now d inp = count_items (quiet (ieee_search_preamble 0 inp d))"
      by (simp add: ieee_decode_def decode_var_len_def decode_const_len_def)
    then show ?thesis using ieee_search_preamble_ok [OF inv SEARCHING, of 0 inp] ne search by auto
  next
    case SEARCHING_SYNC
    then have "ieee_decode L be now d inp = count_items (quiet (ieee_search_sync L 0 inp d))"
      by (simp add: ieee_decode_def decode_var_len_def decode_const_len_def)
    then show ?thesis using ieee_search_sync_ok [OF inv SEARCHING_SYNC, of L 0 inp] ne search by auto
  next
    case DECODING_GENERIC_FRAME_LEN
    then have "d_var_len d" using inv by (simp add: ieee_inv_def)
    then have "ieee_decode L be now d inp = count_items (quiet (ieee_decode_frame_len L inp d))"
      using DECODING_GENERIC_FRAME_LEN by (simp add: ieee_decode_def decode_var_len_def)
    then show ?thesis using ieee_decode_frame_len_ok [OF inv DECODING_GENERIC_FRAME_LEN len, of L] len search by auto
  next
    case DECODING_PAYLOAD
    then have e: "ieee_decode L be now d inp = count_items (ieee_payload L be now 0 (input_bytes inp) (d, status_new))"
      by (simp add: ieee_decode_def decode_var_len_def decode_const_len_def ieee_decode_payload_def)
    have "input_bytes inp \<noteq> []" using len by (auto simp flip: length_greater_0_conv)
    then obtain d' st k where r: "ieee_payload L be now 0 (input_bytes inp) (d, status_new) = Inr (d', st)" "ieee_inv d'"
      "ieee_conf d' = ieee_conf d" "consumed st = int k * 8" "k \<le> length inp div 8" "0 < k" "ieee_report be (ieee_conf d) st"
      using ieee_payload_ok [OF inv DECODING_PAYLOAD, of L be now 0 "input_bytes inp"] by auto
    have "int k * 8 \<le> int (length inp)" using r(5) by linarith
    then show ?thesis using r items e by (simp add: count_items_def)
  qed
qed

lemma shl_all_ok:
  "sr_wf s \<Longrightarrow> 0 < d_len s \<or> bs = [] \<Longrightarrow> \<exists>s'. shl_all bs s = Inr s' \<and> sr_wf s' \<and> d_len s' = d_len s"
proof (induction bs arbitrary: s)
  case (Cons b bs)
  obtain s1 where s1: "sr_shl s (b \<noteq> 0) = Inr s1" "sr_wf s1" "d_len s1 = d_len s"
    using sr_shl_ok [of s "b \<noteq> 0"] Cons.prems by auto
  then show ?case using Cons.IH [of s1] Cons.prems by auto
qed simp

lemma load_word_ok:
  "n = length bytes * 8 \<Longrightarrow> \<exists>s. load_word bytes (sr_make n) = Inr s \<and> sr_wf s \<and> d_len s = n"
proof -
  assume n: "n = length bytes * 8"
  have "d_len (sr_make n) = n" by (simp add: sr_make_def)
  moreover have "0 < n \<or> concat (map unpack_msb bytes) = []" using n by (cases bytes) simp_all
  ultimately show "\<exists>s. load_word bytes (sr_make n) = Inr s \<and> sr_wf s \<and> d_len s = n"
    using shl_all_ok [of "sr_make n" "concat (map unpack_msb bytes)"] by (simp add: load_word_def sr_wf_make)
qed

lemma ieee_decoder_new_inv:
  assumes new: "ieee_decoder_new L uid junk pre pt sync st crc w var m dr = Inr d"
    and crc: "crc_size crc = Inr cs" "crc \<noteq> CRC16_AX25" and var: "var \<longrightarrow> 255 \<le> m \<and> 0 < cs"
  shows "ieee_inv d"
proof -
  obtain p where p: "load_word pre (sr_make (length pre * 8)) = Inr p" "sr_wf p" "d_len p = length pre * 8"
    using load_word_ok [OF refl] by blast
  obtain s where s: "load_word sync (sr_make (length sync * 8)) = Inr s" "sr_wf s" "d_len s = length sync * 8"
    using load_word_ok [OF refl] by blast
  define lfl where "lfl = (if var then 1 else 0 :: nat)"
  define d0 :: "'a ieee_decoder" where "d0 = decoder_base.extend
          (fst (decoder_new ''IEEE-802.15.4'' ''1.0'' 1 m uid))
          (ieee_decoder.fields p (sr_make (length pre * 8)) (length pre * 8) pt s (sr_make (length sync * 8)) (length sync * 8) st
             crc w var dr (m + cs) lfl SEARCHING 0 0 (map junk [0..<m + cs + lfl]))"
  have r: "ieee_reset L d0 = Inr d" "m \<noteq> 0" "8 \<le> length sync * 8"
    using new p(1) s(1) crc(1) by (auto simp: ieee_decoder_new_def Let_def d0_def lfl_def Suc_le_eq split: if_splits)
  have regs: "ieee_regs d0"
    using p(2,3) s(2,3) r(3) by (simp add: ieee_regs_def d0_def ieee_decoder.defs decoder_base.defs sr_wf_make) (simp add: sr_make_def)
  have "ieee_room d0 cs"
    using crc var r(2) by (auto simp: ieee_room_def d0_def ieee_decoder.defs decoder_base.defs lfl_def)
  then show ?thesis using ieee_reset_ok [OF regs, of cs L] r(1) by auto
qed

text \<open>C21: From a decoder in a legal state, any call with at least the eight items that
  \<open>input_multiple\<close> promises returns without an exception or an access outside the frame buffer,
  leaves a legal state and makes progress: it consumes at least one of the items and never more
  than there are. A decoder is built in a legal state when its frames have a fixed length, or
  when it was given room for 255 bytes and a checksum.\<close>

theorem ieee_decode_progress:
  assumes "ieee_inv d" and "ieee_input_multiple \<le> length inp"
  shows "\<exists>d' st. ieee_decode L be now d inp = Inr (d', st) \<and> ieee_inv d' \<and>
    0 < consumed st \<and> consumed st \<le> int (length inp)"
  using ieee_decode_ok [of d inp L be now] assms by (auto simp: ieee_input_multiple_def)

definition example_ieee :: "bool \<Rightarrow> nat \<Rightarrow> (u32 \<times> u32 \<times> u32) ieee_decoder" where
  "example_ieee var m = (case ieee_decoder_new fib_lfsr 1 (\<lambda>_. 0) [0x33, 0x33] 2 [0x1A, 0xCF] 2 CRC16_CCITT None var m True of
     Inr d \<Rightarrow> d)"

lemma example_ieee_new:
  "0 < m \<Longrightarrow> ieee_decoder_new fib_lfsr 1 (\<lambda>_. 0) [0x33, 0x33] 2 [0x1A, 0xCF] 2 CRC16_CCITT None var m True =
     Inr (example_ieee var m)"
proof -
  assume m: "0 < m"
  obtain p where p: "load_word [0x33, 0x33] (sr_make 16) = Inr p" "sr_wf p" "d_len p = 16"
    using load_word_ok [of 16 "[0x33, 0x33]"] by auto
  obtain s where s: "load_word [0x1A, 0xCF] (sr_make 16) = Inr s" "sr_wf s" "d_len s = 16"
    using load_word_ok [of 16 "[0x1A, 0xCF]"] by auto
  have "\<exists>d. ieee_decoder_new fib_lfsr 1 (\<lambda>_. 0) [0x33, 0x33] 2 [0x1A, 0xCF] 2 CRC16_CCITT None var m True = Inr d"
    using m p s by (simp add: ieee_decoder_new_def Let_def ieee_reset_def ieee_decoder.defs decoder_base.defs
      sr_reset_eq sr_wf_make)
  then show ?thesis by (auto simp: example_ieee_def)
qed

lemma example_ieee_inv: "0 < m \<Longrightarrow> var \<longrightarrow> 255 \<le> m \<Longrightarrow> ieee_inv (example_ieee var m)"
  by (rule ieee_decoder_new_inv [OF example_ieee_new]) auto

theorem ieee_decode_progress_witness:
  "\<exists>d' st. ieee_decode fib_lfsr False ''now'' (example_ieee True 255) [1, 0, 1, 0, 1, 0, 1, 0] = Inr (d', st) \<and>
    ieee_inv d' \<and> 0 < consumed st \<and> consumed st \<le> int (length [1 :: u8, 0, 1, 0, 1, 0, 1, 0])"
  by (rule ieee_decode_progress [OF example_ieee_inv]) (simp_all add: ieee_input_multiple_def)

text \<open>What the decoder reports is sound: the frame it reports passed the check of the configured
  method exactly when it is flagged as valid, a valid one is reported without its checksum, an
  invalid one with it and only when invalid frames are not dropped.\<close>

theorem ieee_report_sound:
  assumes "ieee_inv d" and "8 \<le> length inp" and "ieee_decode L be now d inp = Inr (d', st)" and "decode_success st"
  shows "\<exists>frame v cs. crc_size (d_crc d) = Inr cs \<and> d_length_field_len d + cs \<le> length frame \<and>
    ieee_check_crc be (d_crc d) frame = Inr v \<and> (v \<or> \<not> d_drop_invalid d) \<and>
    data st ''crc_valid'' = Some (PBool v) \<and>
    data st ''pdu'' = Some (Blob (drop (d_length_field_len d) (if v then take (length frame - cs) frame else frame)))"
  using ieee_decode_ok [OF assms(1,2), of L be now] assms(3,4) by (auto simp: ieee_report_def ieee_conf_def)

lemma example_ieee_fields:
  assumes "0 < m"
  shows "d_var_len (example_ieee var m) = var \<and> d_crc (example_ieee var m) = CRC16_CCITT \<and>
    d_frame_len (example_ieee var m) = m + 2 \<and> d_length_field_len (example_ieee var m) = of_bool var \<and>
    d_descrambler (example_ieee var m) = None \<and> d_cnt (example_ieee var m) = 0 \<and> d_drop_invalid (example_ieee var m) \<and>
    length (d_pdu (example_ieee var m)) = m + 2 + of_bool var"
proof -
  obtain p where p: "load_word [0x33, 0x33] (sr_make 16) = Inr p"
    using load_word_ok [of 16 "[0x33, 0x33]"] by auto
  obtain s where s: "load_word [0x1A, 0xCF] (sr_make 16) = Inr s"
    using load_word_ok [of 16 "[0x1A, 0xCF]"] by auto
  show ?thesis
    using assms p s by (simp add: example_ieee_def ieee_decoder_new_def Let_def ieee_reset_def ieee_decoder.defs
      decoder_base.defs sr_reset_eq sr_wf_make)
qed

lemma ieee_inv_payload:
  assumes "ieee_inv d" and "\<not> d_var_len d" and "k < d_frame_len d"
  shows "ieee_inv (d\<lparr>d_state := DECODING_PAYLOAD, d_cnt := k\<rparr>)"
  using assms by (auto simp: ieee_inv_def ieee_regs_def ieee_room_def ieee_frame_def)

theorem ieee_report_sound_witness:
  "\<exists>d' st. ieee_decode fib_lfsr False ''now'' ((example_ieee False 1)\<lparr>d_state := DECODING_PAYLOAD, d_cnt := 0\<rparr>)
      (replicate 24 0) = Inr (d', st) \<and> data st ''crc_valid'' = Some (PBool True)"
proof -
  let ?d = "(example_ieee False 1)\<lparr>d_state := DECODING_PAYLOAD, d_cnt := 0\<rparr>"
  note f = example_ieee_fields [of 1 False, simplified]
  have inv: "ieee_inv ?d" using f by (intro ieee_inv_payload example_ieee_inv) simp_all
  obtain x y z where pdu: "d_pdu (example_ieee False 1) = [x, y, z]"
    using f by (auto simp: numeral_eq_Suc length_Suc_conv)
  have bytes: "input_bytes (replicate 24 0) = [0, 0, 0]"
    by (simp add: input_bytes_def upt_rec pack_msb_def)
  obtain d' st where r: "ieee_decode fib_lfsr False ''now'' ?d (replicate 24 0) = Inr (d', st)"
    using ieee_decode_ok [OF inv, of "replicate 24 0" fib_lfsr False "''now''"] by auto
  have "decode_success st"
  proof -
    have "crc16_ccitt [0] = 0" by (simp add: crc16_ccitt_def crc16_ccitt_step_ref ref_left_def lfsr_left_def)
    then show ?thesis
    using r f pdu by (auto simp: ieee_decode_def decode_const_len_def count_items_def ieee_decode_payload_def bytes
      buf_simps ieee_frame_end_def Let_def descramble_opt_def ieee_check_crc_def check16_def received16_def load16_def htons_def bswap16_def
      res_bind_Inr_iff)
  qed
  then show ?thesis using ieee_report_sound [OF inv _ r] r f by auto
qed

section \<open>The announced length is not checked\<close>

lemma ieee_payload_overflow:
  "d_cnt d + length bs < d_frame_len d + d_length_field_len d \<or> length (d_pdu d) < d_frame_len d + d_length_field_len d \<Longrightarrow>
   d_cnt d \<le> length (d_pdu d) \<Longrightarrow> length (d_pdu d) < d_cnt d + length bs \<Longrightarrow>
   ieee_payload L be now i bs (d, st) = Inl Oob_write"
proof (induction bs arbitrary: i d)
  case Nil
  then show ?case by simp
next
  case (Cons b bs)
  show ?case
  proof (cases "d_cnt d < length (d_pdu d)")
    case False
    then show ?thesis by (simp add: buf_simps)
  next
    case True
    let ?d = "d\<lparr>d_pdu := (d_pdu d)[d_cnt d := b], d_cnt := d_cnt d + 1\<rparr>"
    have "ieee_payload L be now i (b # bs) (d, st) = ieee_payload L be now (i + 1) bs (?d, st)"
      using True Cons.prems by (auto simp: buf_simps Let_def)
    also have "\<dots> = Inl Oob_write" using True Cons.prems by (intro Cons.IH) auto
    finally show ?thesis .
  qed
qed

text \<open>The length byte of the air interface is not compared with the configured maximum. If it
  announces a frame longer than the buffer, the first call that delivers as many bytes as the
  buffer holds writes past its end.\<close>

theorem ieee_length_overflow:
  assumes "d_state d = DECODING_GENERIC_FRAME_LEN" and "d_var_len d" and "d_length_field_len d = 1"
    and "d_descrambler d = None" and "crc_size (d_crc d) = Inr cs" and "0 < length (d_pdu d)"
    and "length inp = 8" and "length (d_pdu d) < unat (pack_msb inp) + cs + 1"
    and "8 * length (d_pdu d) \<le> length rest"
  shows "\<exists>d' st. ieee_decode L be now d inp = Inr (d', st) \<and> ieee_decode L be now d' rest = Inl Oob_write"
proof -
  let ?d = "d\<lparr>d_descrambler := None, d_frame_len := unat (pack_msb inp) + cs, d_pdu := (d_pdu d)[0 := pack_msb inp],
      d_cnt := 1, d_state := DECODING_PAYLOAD\<rparr>"
  let ?e = "incr_nitems_read 8 ?d"
  have "ieee_decode_frame_len L inp d = Inr (8, ?d)"
    using assms by (simp add: ieee_decode_frame_len_def descramble_opt_def buf_simps Let_def)
  then have "ieee_decode L be now d inp = Inr (?e, status_new\<lparr>consumed := 8\<rparr>)"
    using assms(1,2) by (simp add: ieee_decode_def decode_var_len_def count_items_def quiet_def)
  moreover have "ieee_payload L be now 0 (input_bytes rest) (?e, status_new) = Inl Oob_write"
    using assms by (intro ieee_payload_overflow) (auto simp: incr_nitems_read_def Suc_le_eq)
  then have "ieee_decode L be now ?e rest = Inl Oob_write"
    using assms(2) by (simp add: ieee_decode_def decode_var_len_def count_items_def ieee_decode_payload_def incr_nitems_read_def)
  ultimately show ?thesis by blast
qed

theorem ieee_length_overflow_witness:
  "\<exists>d' st. ieee_decode fib_lfsr False ''now'' ((example_ieee True 64)\<lparr>d_state := DECODING_GENERIC_FRAME_LEN\<rparr>)
      [1, 1, 1, 1, 1, 1, 1, 1] = Inr (d', st) \<and> ieee_decode fib_lfsr False ''now'' d' (replicate 536 1) = Inl Oob_write"
proof -
  note f = example_ieee_fields [of 64 True, simplified]
  have "pack_msb [1, 1, 1, 1, 1, 1, 1, 1] = 0xFF" by (simp add: pack_msb_def)
  then show ?thesis using f by (intro ieee_length_overflow [where cs = 2]) simp_all
qed

end
