(* ===== verification/Ieee_Encoder.thy ===== *)
theory Ieee_Encoder
  imports Ieee_Decoder
begin

text \<open>
  \<open>lib/ieee802_15_4_encoder.cc\<close>: the encoder of preamble, sync word, optional length byte, payload
  and checksum, and the link it forms with the decoder of \<open>Ieee_Decoder\<close>.
\<close>

unbundle bit_operations_syntax

section \<open>The encoder\<close>

record 'l ieee_encoder =
  d_max_frame_len :: nat
  d_preamle_len :: nat
  d_enc_crc :: crc_t
  d_scrambler :: "'l whitening option"
  d_enc_var_len :: bool
  d_buffer :: "u8 list"
  d_payload :: nat

text \<open>
  \<open>d_payload\<close> is the offset of the payload in the buffer; the buffer beyond it is uninitialised.
\<close>

definition ieee_encoder_new ::
    "(nat \<Rightarrow> u8) \<Rightarrow> u8 \<Rightarrow> nat \<Rightarrow> u8 list \<Rightarrow> crc_t \<Rightarrow> 'l whitening option \<Rightarrow> bool \<Rightarrow> 'l ieee_encoder res" where
  "ieee_encoder_new junk preamble preamble_len sync_word crc scrambler var_len =
     (if length sync_word = 0
      then Inl (Invalid_argument ''ieee802_15_4_encoder: SYNC word should be at least one byte'')
      else res_bind (crc_size crc) (\<lambda>n.
           let size = preamble_len + length sync_word + n + 255 + of_bool var_len;
               off = preamble_len + length sync_word
           in Inr \<lparr>d_max_frame_len = 255, d_preamle_len = preamble_len, d_enc_crc = crc, d_scrambler = scrambler,
                   d_enc_var_len = var_len,
                   d_buffer = replicate preamble_len preamble @ sync_word @ map junk [off..<size],
                   d_payload = off\<rparr>))"

text \<open>
  The bytes from \<open>d_payload\<close> on: length, PDU and checksum are stored one after the other, then
  scrambled in place from the reset state of the scrambler.
\<close>

definition ieee_body :: "bool \<Rightarrow> 'l ieee_encoder \<Rightarrow> u8 list \<Rightarrow> u8 list res" where
  "ieee_body be e pdu =
     (let front = (if d_enc_var_len e then [of_nat (length pdu)] else []) @ pdu
      in res_bind (crc_append be (d_enc_crc e) front True) (\<lambda>crc. Inr (front @ crc)))"

definition scramble_opt ::
    "'l lfsr_ops \<Rightarrow> 'l whitening option \<Rightarrow> u8 list \<Rightarrow> u8 list \<times> 'l whitening option" where
  "scramble_opt L w bs =
     (case w of None \<Rightarrow> (bs, None)
      | Some w \<Rightarrow> let (out, w1) = scramble L (whitening_reset L w) bs in (out, Some w1))"

definition ieee_encode ::
    "'l lfsr_ops \<Rightarrow> bool \<Rightarrow> 'l ieee_encoder \<Rightarrow> pmt \<Rightarrow> (pmt \<times> 'l ieee_encoder) res" where
  "ieee_encode L be e msg =
     res_bind (message_pdu ''ieee802_15_4_encoder'' msg) (\<lambda>(meta, pdu).
     if d_max_frame_len e < length pdu
     then Inl (Runtime_error ''ieee802_15_4_encoder: PDU received has a size larger than the maximum allowed'')
     else res_bind (ieee_body be e pdu) (\<lambda>body.
          let (out, w) = scramble_opt L (d_scrambler e) body
          in res_bind (buf_copy (d_buffer e) (d_payload e) out) (\<lambda>buf.
             Inr (Pair PMT_NIL (Blob (take (d_payload e + length out) buf)),
                  e\<lparr>d_scrambler := w, d_buffer := buf\<rparr>))))"

section \<open>What the encoder sends\<close>

text \<open>The buffer starts with the preamble and the sync word and has room for every frame.\<close>

definition ieee_enc_inv :: "u8 list \<Rightarrow> 'l ieee_encoder \<Rightarrow> bool" where
  "ieee_enc_inv start e \<longleftrightarrow> d_max_frame_len e = 255 \<and> take (d_payload e) (d_buffer e) = start \<and>
     d_payload e = length start \<and>
     (\<exists>n. crc_size (d_enc_crc e) = Inr n \<and> length (d_buffer e) = d_payload e + of_bool (d_enc_var_len e) + 255 + n)"

lemma ieee_encoder_new_inv:
  assumes "ieee_encoder_new junk p n sync crc w var = Inr e"
  shows "ieee_enc_inv (replicate n p @ sync) e" "d_enc_crc e = crc" "d_scrambler e = w" "d_enc_var_len e = var"
  using assms by (auto simp: ieee_encoder_new_def Let_def ieee_enc_inv_def res_bind_Inr_iff split: if_splits)

lemma crc_append_total: "crc_size t = Inr n \<Longrightarrow> \<exists>bs. crc_append be t xs nbo = Inr bs \<and> length bs = n"
  by (cases t) (auto simp: append16_def)

lemma scramble_opt_length: "scramble_opt L w bs = (out, w') \<Longrightarrow> length out = length bs"
  by (auto simp: scramble_opt_def scramble_def split: option.splits prod.splits dest: length_map_state_fst)

lemma ieee_encode_ok:
  assumes inv: "ieee_enc_inv start e" and msg: "message_pdu ''ieee802_15_4_encoder'' msg = Inr (meta, pdu)"
    and len: "length pdu \<le> 255"
  shows "\<exists>body out w e'. ieee_body be e pdu = Inr body \<and> scramble_opt L (d_scrambler e) body = (out, w) \<and>
    ieee_encode L be e msg = Inr (Pair PMT_NIL (Blob (start @ out)), e') \<and> ieee_enc_inv start e' \<and>
    d_enc_crc e' = d_enc_crc e \<and> d_scrambler e' = w"
proof -
  obtain n where n: "crc_size (d_enc_crc e) = Inr n"
    "length (d_buffer e) = d_payload e + of_bool (d_enc_var_len e) + 255 + n"
    using inv by (auto simp: ieee_enc_inv_def)
  let ?front = "(if d_enc_var_len e then [of_nat (length pdu)] else []) @ pdu"
  obtain crc where crc: "crc_append be (d_enc_crc e) ?front True = Inr crc" "length crc = n"
    using crc_append_total [OF n(1)] by blast
  have body: "ieee_body be e pdu = Inr (?front @ crc)" using crc(1) by (simp add: ieee_body_def Let_def)
  obtain out w where o: "scramble_opt L (d_scrambler e) (?front @ crc) = (out, w)" by fastforce
  have lo: "length out = of_bool (d_enc_var_len e) + length pdu + n"
    using scramble_opt_length [OF o] crc(2) by simp
  have fit: "d_payload e + length out \<le> length (d_buffer e)" using lo n(2) len by simp
  let ?buf = "take (d_payload e) (d_buffer e) @ out @ drop (d_payload e + length out) (d_buffer e)"
  have copy: "buf_copy (d_buffer e) (d_payload e) out = Inr ?buf" using fit by (rule buf_copy_ok)
  have start: "take (d_payload e) (d_buffer e) = start" "d_payload e = length start"
    using inv unfolding ieee_enc_inv_def by blast+
  let ?e = "e\<lparr>d_scrambler := w, d_buffer := start @ out @ drop (d_payload e + length out) (d_buffer e)\<rparr>"
  have "ieee_encode L be e msg = Inr (Pair PMT_NIL (Blob (start @ out)), ?e)"
    using msg len body o copy inv start by (simp add: ieee_encode_def ieee_enc_inv_def Let_def)
  moreover have "ieee_enc_inv start ?e" using inv fit start n by (auto simp: ieee_enc_inv_def)
  ultimately show ?thesis using body o by auto
qed

section \<open>The link\<close>

lemma descramble_scrambled:
  assumes "\<forall>w. d_scrambler e = Some w \<longrightarrow> \<not> d_self_sync w" and "scramble_opt L (d_scrambler e) xs = (out, w')"
  shows "fst (descramble_opt L (map_option (whitening_reset L) (d_scrambler e)) out) = xs"
proof (cases "d_scrambler e")
  case None
  then show ?thesis using assms(2) by (simp add: scramble_opt_def descramble_opt_def)
next
  case (Some w)
  let ?w = "whitening_reset L w"
  have ss: "\<not> d_self_sync ?w" using assms(1) Some by (simp add: whitening_reset_def)
  have "out = fst (scramble L ?w xs)" using assms(2) Some by (simp add: scramble_opt_def split_def Let_def)
  then show ?thesis
    using descramble_scramble [OF ss, of L xs] by (simp add: Some descramble_opt_def)
qed

lemma ieee_payload_fills:
  "d_cnt d + length bs = d_frame_len d + d_length_field_len d \<Longrightarrow> bs \<noteq> [] \<Longrightarrow> d_cnt d + length bs \<le> length (d_pdu d) \<Longrightarrow>
   ieee_payload L be now i bs (d, st) =
   ieee_frame_end L be now ((i + length bs) * 8) (d\<lparr>d_pdu := take (d_cnt d) (d_pdu d) @ bs @ drop (d_cnt d + length bs) (d_pdu d),
     d_cnt := d_cnt d + length bs\<rparr>, st)"
proof (induction bs arbitrary: i d)
  case Nil
  then show ?case by simp
next
  case (Cons b bs)
  have lt: "d_cnt d < length (d_pdu d)" using Cons.prems by simp
  let ?d = "d\<lparr>d_pdu := (d_pdu d)[d_cnt d := b], d_cnt := d_cnt d + 1\<rparr>"
  show ?case
  proof (cases "bs = []")
    case True
    then have "ieee_payload L be now i (b # bs) (d, st) = ieee_frame_end L be now ((i + 1) * 8) (?d, st)"
      using Cons.prems lt by (simp add: buf_simps Let_def)
    then show ?thesis using True lt by (simp add: upd_conv_take_nth_drop)
  next
    case False
    then have "d_cnt d + 1 \<noteq> d_frame_len d + d_length_field_len d" using Cons.prems by (cases bs) auto
    then have "ieee_payload L be now i (b # bs) (d, st) = ieee_payload L be now (i + 1) bs (?d, st)"
      using Cons.prems lt by (simp add: buf_simps Let_def)
    also have "\<dots> = ieee_frame_end L be now ((i + 1 + length bs) * 8) (?d\<lparr>d_pdu := take (d_cnt ?d) (d_pdu ?d) @ bs @
        drop (d_cnt ?d + length bs) (d_pdu ?d), d_cnt := d_cnt ?d + length bs\<rparr>, st)"
      using Cons.prems False by (intro Cons.IH) simp_all
    also have "take (d_cnt ?d) (d_pdu ?d) = take (d_cnt d) (d_pdu d) @ [b]"
      using lt by (simp add: take_Suc_conv_app_nth [of "d_cnt d" "(d_pdu d)[d_cnt d := b]"])
    finally show ?thesis by simp
  qed
qed

lemma ieee_frame_end_valid:
  assumes regs: "ieee_regs d" and room: "ieee_room d cs" and frame: "ieee_frame d cs"
    and b: "descramble_opt L (d_descrambler d) (take (d_frame_len d) (drop (d_length_field_len d) (d_pdu d))) = (body, w)"
    and ok: "ieee_check_crc be (d_crc d) (take (d_length_field_len d) (d_pdu d) @ body) = Inr True"
  shows "\<exists>d' st. ieee_frame_end L be now n (d, status_new) = Inr (d', st) \<and> decode_success st \<and>
    data st ''pdu'' = Some (Blob (take (d_frame_len d - cs) body)) \<and> data st ''crc_valid'' = Some (PBool True)"
proof -
  let ?l = "d_length_field_len d" and ?n = "d_frame_len d"
  have len: "length body = ?n" using descramble_opt_length [OF b] frame by (auto simp: ieee_frame_def min_def)
  have ll: "length (take ?l (d_pdu d)) = ?l" using frame by (simp add: ieee_frame_def)
  let ?pdu = "take ?l (d_pdu d) @ body @ drop (?l + ?n) (d_pdu d)"
  define d1 where "d1 = d\<lparr>d_descrambler := w, d_pdu := ?pdu\<rparr>"
  have lp: "length ?pdu = length (d_pdu d)" using len frame by (simp add: ieee_frame_def)
  have "ieee_regs (d\<lparr>d_descrambler := w, d_pdu := q\<rparr>) \<and> ieee_room (d\<lparr>d_descrambler := w, d_pdu := q\<rparr>) cs"
    if "length q = length (d_pdu d)" for q
    using regs room that by (auto simp: ieee_regs_def ieee_room_def)
  then obtain d2 where d2: "ieee_reset L d1 = Inr d2" using ieee_reset_ok [of d1 cs L] lp by (auto simp: d1_def)
  have cs: "crc_size (d_crc d) = Inr cs" using room by (simp add: ieee_room_def)
  have f: "take (?l + ?n) ?pdu = take ?l (d_pdu d) @ body" using ll len by simp
  have t: "take k (drop ?l ?pdu) = take k body" if "k \<le> ?n" for k using ll len that by simp
  obtain m st where st: "ieee_frame_end L be now n (d, status_new) = Inr (d2, st)"
    "st = \<lparr>consumed = int n, decode_success = True, data = add_crc_valid (add_pdu m (drop ?l ?pdu) (?n - cs)) True\<rparr>"
    using ok d2 cs f by (simp add: ieee_frame_end_def Let_def b d1_def status_new_def)
  have "data st ''pdu'' = Some (Blob (take (?n - cs) body)) \<and> data st ''crc_valid'' = Some (PBool True)"
    unfolding st(2) decoder_status.select_convs report_dict t [OF diff_le_self] by simp
  then show ?thesis using st by (intro exI [of _ d2] exI [of _ st]) simp
qed

lemma ieee_check_appended:
  assumes "crc_append be t front True = Inr crc" and "t \<noteq> CRC16_AX25" and "t \<noteq> CRC16_AUG_CCITT"
  shows "ieee_check_crc be t (front @ crc) = Inr True"
  using assms by (cases t) (auto simp: ieee_check_crc_def)

text \<open>C22: What the encoder sends behind the sync word, the decoder that has found the sync word reads
  back: the eight bits of the length byte in one call and the bits of the rest in a second one
  report the PDU with a valid checksum. This holds for every additive scrambler or none, for the
  methods on which the two ends agree, and for every PDU of up to 255 bytes.\<close>

theorem ieee_link_roundtrip:
  assumes enc: "ieee_encoder_new junk p n sync t w True = Inr e"
    and msg: "message_pdu ''ieee802_15_4_encoder'' msg = Inr (meta, pdu)" and len: "length pdu \<le> 255"
    and crc: "t \<noteq> CRC16_AX25" "t \<noteq> CRC16_AUG_CCITT" and w: "\<forall>x. w = Some x \<longrightarrow> \<not> d_self_sync x"
    and dec: "ieee_inv d" "d_state d = DECODING_GENERIC_FRAME_LEN" "d_crc d = t"
      "d_descrambler d = map_option (whitening_reset L) w"
  shows "\<exists>out e' d1 st1 d2 st2. ieee_encode L be e msg = Inr (Pair PMT_NIL (Blob (replicate n p @ sync @ out)), e') \<and>
    ieee_decode L be now d (unpack_msb (hd out)) = Inr (d1, st1) \<and>
    ieee_decode L be now d1 (concat (map unpack_msb (tl out))) = Inr (d2, st2) \<and> decode_success st2 \<and>
    data st2 ''pdu'' = Some (Blob pdu) \<and> data st2 ''crc_valid'' = Some (PBool True)"
proof -
  note e = ieee_encoder_new_inv [OF enc]
  obtain body out sw e' where o: "ieee_body be e pdu = Inr body" "scramble_opt L (d_scrambler e) body = (out, sw)"
    "ieee_encode L be e msg = Inr (Pair PMT_NIL (Blob ((replicate n p @ sync) @ out)), e')"
    using ieee_encode_ok [OF e(1) msg len, of be L] by blast
  obtain cs where d: "ieee_regs d" "ieee_room d cs" "d_var_len d" using dec(1,2) by (auto simp: ieee_inv_def)
  have room: "d_length_field_len d = 1" "256 + cs \<le> length (d_pdu d)" "0 < cs" "crc_size t = Inr cs"
    using d(2,3) dec(3) by (simp_all add: ieee_room_def)
  have ne: "d_pdu d \<noteq> []" using room(2) by auto
  let ?n = "of_nat (length pdu) :: u8"
  obtain crc where c: "crc_append be t (?n # pdu) True = Inr crc" "length crc = cs"
    using crc_append_total [OF room(4)] by blast
  have body: "body = ?n # pdu @ crc" using o(1) c(1) e(2,4) by (simp add: ieee_body_def)
  have un: "unat ?n = length pdu" using len by (simp add: unat_of_nat)
  have lo: "length out = Suc (length pdu + cs)" using scramble_opt_length [OF o(2)] body c(2) by simp
  then obtain x xs where out: "out = x # xs" "length xs = length pdu + cs" by (cases out) auto
  have "fst (descramble_opt L (d_descrambler d) out) = body"
    unfolding dec(4) e(3) [symmetric] by (rule descramble_scrambled [OF _ o(2)]) (use w e(3) in simp)
  then obtain w1 w2 where ds: "descramble_opt L (d_descrambler d) [x] = ([?n], w1)" "descramble_opt L w1 xs = (pdu @ crc, w2)"
  proof -
    obtain us v1 where us: "descramble_opt L (d_descrambler d) [x] = (us, v1)" by fastforce
    obtain vs v2 where vs: "descramble_opt L v1 xs = (vs, v2)" by fastforce
    have "us @ vs = body" "length us = 1"
      using \<open>fst (descramble_opt L (d_descrambler d) out) = body\<close> descramble_opt_append [of L "d_descrambler d" "[x]" xs] us vs
        descramble_opt_length [OF us] by (simp_all add: out(1))
    then have "us = [?n]" "vs = pdu @ crc" unfolding body by (cases us; simp)+
    then show ?thesis using us vs that by blast
  qed
  let ?d1 = "d\<lparr>d_descrambler := w1, d_frame_len := length pdu + cs, d_pdu := (d_pdu d)[0 := ?n], d_cnt := 1, d_state := DECODING_PAYLOAD\<rparr>"
  let ?e1 = "incr_nitems_read 8 ?d1"
  have "ieee_decode_frame_len L (unpack_msb x) d = Inr (8, ?d1)"
    using room dec(3) ds(1) un ne by (simp add: ieee_decode_frame_len_def Let_def buf_simps)
  then have one: "ieee_decode L be now d (unpack_msb x) = Inr (?e1, status_new\<lparr>consumed := 8\<rparr>)"
    using d(3) dec(2) by (simp add: ieee_decode_def decode_var_len_def count_items_def quiet_def)
  let ?q = "?n # xs @ drop (1 + length xs) (d_pdu d)"
  let ?d2 = "?e1\<lparr>d_pdu := ?q, d_cnt := 1 + length xs\<rparr>"
  have lq: "length ?q = length (d_pdu d)" using room(2) len out(2) by simp
  have two: "ieee_payload L be now 0 xs (?e1, status_new) = ieee_frame_end L be now (length xs * 8) (?d2, status_new)"
  proof -
    have t1: "take 1 ((d_pdu d)[0 := ?n]) = [?n]" using room(2) by (cases "d_pdu d") simp_all
    have "xs \<noteq> []" using out(2) room(3) by auto
    then show ?thesis
      using ieee_payload_fills [of ?e1 xs L be now 0 status_new] out(2) room len t1
      by (simp add: incr_nitems_read_def drop_update_cancel)
  qed
  have regs2: "ieee_regs ?d2" "ieee_room ?d2 cs" "ieee_frame ?d2 cs"
    using d room lq out(2) len by (auto simp: ieee_regs_def ieee_room_def ieee_frame_def incr_nitems_read_def)
  have "take (d_frame_len ?d2) (drop (d_length_field_len ?d2) (d_pdu ?d2)) = xs"
    using room(1) out(2) by (simp add: incr_nitems_read_def)
  moreover have "d_descrambler ?d2 = w1" by (simp add: incr_nitems_read_def)
  ultimately have "descramble_opt L (d_descrambler ?d2) (take (d_frame_len ?d2) (drop (d_length_field_len ?d2) (d_pdu ?d2))) =
      (pdu @ crc, w2)" using ds(2) by simp
  moreover have "ieee_check_crc be (d_crc ?d2) (take (d_length_field_len ?d2) (d_pdu ?d2) @ pdu @ crc) = Inr True"
    using ieee_check_appended [OF c(1) crc] room(1) dec(3) by (simp add: incr_nitems_read_def)
  ultimately obtain d' st where fin: "ieee_frame_end L be now (length xs * 8) (?d2, status_new) = Inr (d', st)"
    "decode_success st" "data st ''pdu'' = Some (Blob (take (d_frame_len ?d2 - cs) (pdu @ crc)))" "data st ''crc_valid'' = Some (PBool True)"
    using ieee_frame_end_valid [OF regs2] by blast
  have pdu: "take (d_frame_len ?d2 - cs) (pdu @ crc) = pdu" by (simp add: incr_nitems_read_def)
  have "ieee_decode L be now ?e1 (concat (map unpack_msb xs)) = Inr (incr_nitems_read (nat (consumed st)) d', st)"
    using d(3) two fin(1) by (simp add: ieee_decode_def decode_var_len_def count_items_def ieee_decode_payload_def
      pack_unpack_stream incr_nitems_read_def)
  then show ?thesis using o(3) one fin(2-4) unfolding pdu
    by (intro exI [of _ out] exI [of _ e'] exI [of _ ?e1]) (auto simp: out(1))
qed

definition example_ieee_enc :: "(u32 \<times> u32 \<times> u32) ieee_encoder" where
  "example_ieee_enc = (case ieee_encoder_new (\<lambda>_. 0) 0x33 4 [0x1A, 0xCF] CRC16_CCITT None True of Inr e \<Rightarrow> e)"

theorem ieee_link_roundtrip_witness:
  "\<exists>out e' d1 st1 d2 st2. ieee_encode fib_lfsr False example_ieee_enc (Blob [7, 8, 9]) =
      Inr (Pair PMT_NIL (Blob (replicate 4 0x33 @ [0x1A, 0xCF] @ out)), e') \<and>
    ieee_decode fib_lfsr False ''now'' ((example_ieee True 255)\<lparr>d_state := DECODING_GENERIC_FRAME_LEN\<rparr>)
      (unpack_msb (hd out)) = Inr (d1, st1) \<and>
    ieee_decode fib_lfsr False ''now'' d1 (concat (map unpack_msb (tl out))) = Inr (d2, st2) \<and> decode_success st2 \<and>
    data st2 ''pdu'' = Some (Blob [7, 8, 9]) \<and> data st2 ''crc_valid'' = Some (PBool True)"
proof -
  note f = example_ieee_fields [of 255 True, simplified]
  have "ieee_inv (example_ieee True 255)" by (rule example_ieee_inv) simp_all
  then have inv: "ieee_inv ((example_ieee True 255)\<lparr>d_state := DECODING_GENERIC_FRAME_LEN\<rparr>)"
    using f by (auto simp: ieee_inv_def ieee_regs_def ieee_room_def)
  have enc: "ieee_encoder_new (\<lambda>_. 0) 0x33 4 [0x1A, 0xCF] CRC16_CCITT None True = Inr example_ieee_enc"
    by (simp add: example_ieee_enc_def ieee_encoder_new_def Let_def)
  show ?thesis
    by (rule ieee_link_roundtrip [OF enc _ _ _ _ _ inv]) (use f in simp_all)
qed

end
