(* ===== verification/Argos_Decoder.thy ===== *)
theory Argos_Decoder
  imports Ax25 Metadata
begin

text \<open>
  \<open>lib/argos_ldr_decoder.cc\<close>: the receiver of the ARGOS low data rate framing, HDLC with the most
  significant bit first. One iteration of the \<open>while (1)\<close> loop of \<open>_decode\<close> is
  \<open>argos_iteration\<close>. A frame that fails the check is read again from its start with the
  counters left as they are; \<open>argos_measure\<close> shows that this ends, and \<open>argos_fuel\<close> bounds it.
\<close>

unbundle bit_operations_syntax

section \<open>The class\<close>

datatype argos_state_t = NO_SYNC | IN_SYNC | DECODING

record argos_ldr_decoder = decoder_base +
  d_crc_check :: bool
  d_max_frame_len :: nat
  d_state :: argos_state_t
  d_shift_reg :: u32
  d_dec_b :: u8
  d_received_bytes :: nat
  d_decoded_bits :: nat
  d_frame_buffer :: "u8 list"
  d_bitstream :: "u8 list"
  d_start_idx :: nat
  d_frame_start :: u64
  d_sample_cnt :: u64

text \<open>The frame buffer of \<open>max_frame_len + 2\<close> bytes comes from \<open>new[]\<close>, with contents \<open>junk\<close>.\<close>

definition argos_new :: "int \<Rightarrow> (nat \<Rightarrow> u8) \<Rightarrow> bool \<Rightarrow> nat \<Rightarrow> argos_ldr_decoder" where
  "argos_new base_unique_id junk crc_check max_frame_len =
     decoder_base.extend
       (fst (decoder_new ''argos_ldr'' ''1.0'' 1 (2 * max_frame_len * 8) base_unique_id))
       (argos_ldr_decoder.fields crc_check max_frame_len NO_SYNC 0 0 0 0
          (map junk [0..<max_frame_len + 2]) [] 0 0 0)"

definition argos_reset_state :: "argos_ldr_decoder \<Rightarrow> argos_ldr_decoder" where
  "argos_reset_state d =
     d\<lparr>d_state := NO_SYNC, d_dec_b := 0, d_shift_reg := 0, d_decoded_bits := 0,
       d_received_bytes := 0\<rparr>"

definition argos_enter_sync_state :: "argos_ldr_decoder \<Rightarrow> argos_ldr_decoder" where
  "argos_enter_sync_state d =
     d\<lparr>d_state := IN_SYNC, d_dec_b := 0, d_shift_reg := 0, d_decoded_bits := 0,
       d_received_bytes := 0\<rparr>"

definition argos_enter_decoding_state :: "argos_ldr_decoder \<Rightarrow> argos_ldr_decoder res" where
  "argos_enter_decoding_state d =
     (let d1 = d\<lparr>d_state := DECODING, d_decoded_bits := 0, d_received_bytes := 0\<rparr>
      in if drop_bit 16 (d_shift_reg d1) AND 0xfc = 0x7c
         then Inr (d1\<lparr>d_dec_b := drop_bit 1 (d_dec_b d1), d_decoded_bits := 7\<rparr>)
         else res_bind (buf_set (d_frame_buffer d1) 0 (d_dec_b d1)) (\<lambda>buf.
              Inr (d1\<lparr>d_frame_buffer := buf, d_decoded_bits := 0, d_received_bytes := 1\<rparr>)))"

definition argos_decode_1b :: "u8 \<Rightarrow> argos_ldr_decoder \<Rightarrow> argos_ldr_decoder" where
  "argos_decode_1b inp d =
     d\<lparr>d_shift_reg := (push_bit 1 (d_shift_reg d) OR ucast inp) AND 0xFFFFFF,
       d_dec_b := push_bit 1 (d_dec_b d) OR inp\<rparr>"

definition argos_reset :: "argos_ldr_decoder \<Rightarrow> argos_ldr_decoder" where
  "argos_reset d = argos_reset_state d"

text \<open>The check over \<open>n\<close> received bytes; a frame of zeros never passes.\<close>

definition argos_frame_check :: "nat \<Rightarrow> u8 list \<Rightarrow> bool res" where
  "argos_frame_check n buf =
     (if 2 \<le> n \<and> n \<le> length buf
      then if list_all (\<lambda>x. x = 0) (take n buf) then Inr False
           else let fcs = crc16_ccitt (take (n - 2) buf);
                    recv_fcs = push_bit 8 (ucast (buf ! (n - 2))) OR ucast (buf ! (n - 1))
                in Inr (fcs = recv_fcs)
      else Inl Oob_read)"

text \<open>\<open>enter_frame_end\<close>: the report of a valid frame carries the sample position, the report
  of an invalid one does not; the last branch does not reset.\<close>

definition argos_report_valid ::
    "string \<Rightarrow> argos_ldr_decoder \<Rightarrow> decoder_status \<Rightarrow> decoder_status" where
  "argos_report_valid now d status =
     (let m = add_decoder (data status) (Some d);
          m = add_pdu m (d_frame_buffer d) (d_received_bytes d - 2);
          m = add_time_iso8601 now m;
          m = add_crc_valid m True;
          m = add_sample_start m (d_frame_start d);
          m = add_sample_cnt m (d_sample_cnt d)
      in status\<lparr>data := m, decode_success := True\<rparr>)"

definition argos_report_invalid ::
    "string \<Rightarrow> argos_ldr_decoder \<Rightarrow> decoder_status \<Rightarrow> decoder_status" where
  "argos_report_invalid now d status =
     (let m = add_decoder (data status) (Some d);
          m = add_pdu m (d_frame_buffer d) (d_received_bytes d - 2);
          m = add_time_iso8601 now m;
          m = add_crc_valid m False
      in status\<lparr>data := m, decode_success := True\<rparr>)"

definition argos_enter_frame_end ::
    "string \<Rightarrow> argos_ldr_decoder \<times> decoder_status \<Rightarrow>
     (bool \<times> argos_ldr_decoder \<times> decoder_status) res" where
  "argos_enter_frame_end now = (\<lambda>(d, status).
     if d_received_bytes d < 1 + 2 then Inr (False, argos_reset_state d, status)
     else res_bind (argos_frame_check (d_received_bytes d) (d_frame_buffer d)) (\<lambda>valid.
          if valid then Inr (True, argos_reset_state d, argos_report_valid now d status)
          else if \<not> d_crc_check d
          then Inr (False, argos_reset_state d, argos_report_invalid now d status)
          else Inr (False, d, status)))"

section \<open>The loops of one iteration\<close>

text \<open>\<open>NO_SYNC\<close>: look for three flags in a row at any bit position.\<close>

fun argos_scan_flag ::
    "nat \<Rightarrow> u8 list \<Rightarrow> argos_ldr_decoder \<Rightarrow> nat option \<times> argos_ldr_decoder" where
  "argos_scan_flag i [] d = (None, d)"
| "argos_scan_flag i (b # bs) d =
     (let d1 = argos_decode_1b b d;
          test = ucast sync_flag OR push_bit 8 (ucast sync_flag) OR push_bit 16 (ucast sync_flag)
      in if test = d_shift_reg d1 then (Some i, d1) else argos_scan_flag (i + 1) bs d1)"

fun argos_scan_sync ::
    "nat \<Rightarrow> u8 list \<Rightarrow> argos_ldr_decoder \<Rightarrow> nat option \<times> argos_ldr_decoder" where
  "argos_scan_sync i [] d = (None, d)"
| "argos_scan_sync i (b # bs) d =
     (let d1 = argos_decode_1b b d;
          d2 = d1\<lparr>d_decoded_bits := d_decoded_bits d1 + 1\<rparr>
      in if d_decoded_bits d2 = 8
         then if d_shift_reg d2 AND 0xFF \<noteq> ucast sync_flag then (Some i, d2)
              else argos_scan_sync (i + 1) bs (d2\<lparr>d_decoded_bits := 0\<rparr>)
         else argos_scan_sync (i + 1) bs d2)"

datatype argos_end = Flag_at nat | Invalid | Limit_reached | Out_of_bits

fun argos_scan_data ::
    "nat \<Rightarrow> u8 list \<Rightarrow> argos_ldr_decoder \<Rightarrow> (argos_end \<times> argos_ldr_decoder) res" where
  "argos_scan_data i [] d = Inr (Out_of_bits, d)"
| "argos_scan_data i (b # bs) d =
     (let d1 = argos_decode_1b b d
      in if d_shift_reg d1 AND 0xFF = ucast sync_flag then Inr (Flag_at i, d1)
         else if (d_shift_reg d1 AND 0xFF) AND 0xfc = 0x7c
         then argos_scan_data (i + 1) bs (d1\<lparr>d_dec_b := drop_bit 1 (d_dec_b d1)\<rparr>)
         else if (d_shift_reg d1 AND 0xFF) AND 0xfe = 0xfe then Inr (Invalid, d1)
         else let d2 = d1\<lparr>d_decoded_bits := d_decoded_bits d1 + 1\<rparr>
              in if d_decoded_bits d2 = 8
                 then res_bind (buf_set (d_frame_buffer d2) (d_received_bytes d2) (d_dec_b d2)) (\<lambda>buf.
                      let d3 = d2\<lparr>d_frame_buffer := buf,
                                  d_received_bytes := d_received_bytes d2 + 1, d_decoded_bits := 0\<rparr>
                      in if d_max_frame_len d3 \<le> d_received_bytes d3 then Inr (Limit_reached, d3)
                         else argos_scan_data (i + 1) bs d3)
                 else argos_scan_data (i + 1) bs d2)"

section \<open>decode\<close>

definition argos_drop :: "nat \<Rightarrow> argos_ldr_decoder \<Rightarrow> argos_ldr_decoder res" where
  "argos_drop n d =
     res_bind (erase_front n 0 (d_bitstream d)) (\<lambda>bs.
     Inr (incr_nitems_read n (d\<lparr>d_bitstream := bs\<rparr>)))"

type_synonym argos_loop = "argos_ldr_decoder \<times> decoder_status"

definition argos_no_sync :: "argos_loop \<Rightarrow> (argos_loop, bool) outcome res" where
  "argos_no_sync = (\<lambda>(d, status).
     case argos_scan_flag 0 (d_bitstream d) d of
       (Some i, d1) \<Rightarrow>
         res_bind (argos_drop (i + 1) d1) (\<lambda>d2.
         let d3 = argos_enter_sync_state d2
         in Inr (Continue (d3\<lparr>d_frame_start := d_nitems_read d3, d_start_idx := 0\<rparr>, status)))
     | (None, d1) \<Rightarrow>
         Inr (Return ((incr_nitems_read (length (d_bitstream d1)) d1)\<lparr>d_bitstream := []\<rparr>, status) False))"

definition argos_in_sync :: "argos_loop \<Rightarrow> (argos_loop, bool) outcome res" where
  "argos_in_sync = (\<lambda>(d, status).
     case argos_scan_sync (d_start_idx d) (drop (d_start_idx d) (d_bitstream d)) d of
       (Some i, d1) \<Rightarrow>
         res_bind (argos_enter_decoding_state (d1\<lparr>d_start_idx := i + 1\<rparr>)) (\<lambda>d2.
         Inr (Continue (d2, status)))
     | (None, d1) \<Rightarrow> Inr (Return (d1\<lparr>d_start_idx := length (d_bitstream d1)\<rparr>, status) False))"

definition argos_decoding :: "string \<Rightarrow> argos_loop \<Rightarrow> (argos_loop, bool) outcome res" where
  "argos_decoding now = (\<lambda>(d, status).
     res_bind (argos_scan_data (d_start_idx d) (drop (d_start_idx d) (d_bitstream d)) d) (\<lambda>(ending, d1).
       case ending of
         Flag_at i \<Rightarrow>
           let d2 = d1\<lparr>d_sample_cnt := d_nitems_read d1 + of_nat i - d_frame_start d1\<rparr>
           in res_bind (argos_enter_frame_end now (d2, status)) (\<lambda>(r, d3, status3).
              if r then res_bind (argos_drop (i + 1) d3) (\<lambda>d4.
                   Inr (Return (d4\<lparr>d_start_idx := length (d_bitstream d4)\<rparr>, status3) True))
              else Inr (Continue (d3, status3)))
       | Invalid \<Rightarrow> Inr (Continue (argos_reset_state d1, status))
       | Limit_reached \<Rightarrow> Inr (Continue (argos_reset_state d1, status))
       | Out_of_bits \<Rightarrow>
           Inr (Return (d1\<lparr>d_start_idx := length (d_bitstream d1)\<rparr>, status) False)))"

definition argos_iteration :: "string \<Rightarrow> argos_loop \<Rightarrow> (argos_loop, bool) outcome res" where
  "argos_iteration now s =
     (case d_state (fst s) of
        NO_SYNC \<Rightarrow> argos_no_sync s
      | IN_SYNC \<Rightarrow> argos_in_sync s
      | DECODING \<Rightarrow> argos_decoding now s)"

definition argos_fuel :: "argos_ldr_decoder \<Rightarrow> nat" where
  "argos_fuel d = (3 * length (d_bitstream d) + 3) * (16 * d_max_frame_len d + 40)"

definition argos_decode ::
    "string \<Rightarrow> argos_ldr_decoder \<Rightarrow> u8 list \<Rightarrow> (argos_ldr_decoder \<times> decoder_status) res option" where
  "argos_decode now d inp =
     (let d1 = d\<lparr>d_bitstream := d_bitstream d @ inp\<rparr>
      in case run_loop (argos_iteration now) (argos_fuel d1) (d1, status_new) of
           None \<Rightarrow> None
         | Some (Inl e) \<Rightarrow> Some (Inl e)
         | Some (Inr ((d2, status), r)) \<Rightarrow> Some (Inr (d2, status\<lparr>consumed := int (length inp)\<rparr>)))"

section \<open>What the scans change\<close>

lemma argos_scan_flag_frame:
  "argos_scan_flag i bs d = (r, d1) \<Longrightarrow>
   (\<exists>sr db. d1 = d\<lparr>d_shift_reg := sr, d_dec_b := db\<rparr>) \<and>
   (case r of None \<Rightarrow> True | Some j \<Rightarrow> i \<le> j \<and> j < i + length bs)"
proof (induction bs arbitrary: i d)
  case Nil
  then have "d1 = d\<lparr>d_shift_reg := d_shift_reg d, d_dec_b := d_dec_b d\<rparr>" and r: "r = None" by simp_all
  then have "\<exists>sr db. d1 = d\<lparr>d_shift_reg := sr, d_dec_b := db\<rparr>" by blast
  with r show ?case by simp
next
  case (Cons b bs)
  note scan = Cons.prems [unfolded argos_scan_flag.simps Let_def]
  show ?case
  proof (cases "r = Some i \<and> d1 = argos_decode_1b b d")
    case True
    then show ?thesis by (auto simp: argos_decode_1b_def)
  next
    case False
    then have "argos_scan_flag (i + 1) bs (argos_decode_1b b d) = (r, d1)" using scan by (auto split: if_splits)
    from Cons.IH [OF this] show ?thesis by (auto simp: argos_decode_1b_def split: option.splits)
  qed
qed

lemma argos_scan_sync_frame:
  "argos_scan_sync i bs d = (r, d1) \<Longrightarrow> d_decoded_bits d < 8 \<Longrightarrow>
   (\<exists>sr db k. d1 = d\<lparr>d_shift_reg := sr, d_dec_b := db, d_decoded_bits := k\<rparr>) \<and>
   (case r of None \<Rightarrow> d_decoded_bits d1 < 8 | Some j \<Rightarrow> i \<le> j \<and> j < i + length bs)"
proof (induction bs arbitrary: i d)
  case Nil
  then have "d1 = d\<lparr>d_shift_reg := d_shift_reg d, d_dec_b := d_dec_b d, d_decoded_bits := d_decoded_bits d\<rparr>"
    and r: "r = None" by simp_all
  then have "\<exists>sr db k. d1 = d\<lparr>d_shift_reg := sr, d_dec_b := db, d_decoded_bits := k\<rparr>" by blast
  with r show ?case using Nil.prems by simp
next
  case (Cons b bs)
  let ?d = "(argos_decode_1b b d)\<lparr>d_decoded_bits := Suc (d_decoded_bits d)\<rparr>"
  have dd: "d_decoded_bits (argos_decode_1b b d) = d_decoded_bits d" by (simp add: argos_decode_1b_def)
  note scan = Cons.prems(1) [unfolded argos_scan_sync.simps Let_def]
  have rest: ?case if "argos_scan_sync (i + 1) bs (?d\<lparr>d_decoded_bits := k\<rparr>) = (r, d1)" "k < 8" for k
    using Cons.IH [OF that(1)] that(2) by (auto simp: argos_decode_1b_def split: option.splits)
  consider "r = Some i" "d1 = ?d" | "argos_scan_sync (i + 1) bs (?d\<lparr>d_decoded_bits := 0\<rparr>) = (r, d1)"
    | "argos_scan_sync (i + 1) bs (?d\<lparr>d_decoded_bits := Suc (d_decoded_bits d)\<rparr>) = (r, d1)" "Suc (d_decoded_bits d) < 8"
    using scan Cons.prems(2) dd by (auto split: if_splits)
  then show ?case
  proof cases
    case 1
    then show ?thesis by (auto simp: argos_decode_1b_def)
  qed (use rest in auto)
qed

definition argos_room :: "argos_ldr_decoder \<Rightarrow> bool" where
  "argos_room d \<longleftrightarrow>
     length (d_frame_buffer d) = d_max_frame_len d + 2 \<and> d_decoded_bits d < 8 \<and>
     (d_received_bytes d < d_max_frame_len d \<or> d_received_bytes d \<le> 1)"

text \<open>What \<open>argos_scan_data\<close> leaves alone, and the number of bits it has kept.\<close>

definition argos_change :: "argos_ldr_decoder \<Rightarrow> argos_ldr_decoder \<Rightarrow> bool" where
  "argos_change d d1 \<longleftrightarrow>
     d1 = d\<lparr>d_shift_reg := d_shift_reg d1, d_dec_b := d_dec_b d1, d_decoded_bits := d_decoded_bits d1,
        d_frame_buffer := d_frame_buffer d1, d_received_bytes := d_received_bytes d1\<rparr> \<and>
     length (d_frame_buffer d1) = length (d_frame_buffer d)"

definition bits_kept :: "argos_ldr_decoder \<Rightarrow> nat" where
  "bits_kept d = 8 * d_received_bytes d + d_decoded_bits d"

definition at_flag :: "argos_ldr_decoder \<Rightarrow> bool" where
  "at_flag d \<longleftrightarrow> d_shift_reg d AND 0xFF = ucast sync_flag"

lemma argos_change_refl: "argos_change d d"
  by (simp add: argos_change_def)

lemma argos_change_trans:
  assumes "argos_change d d1" and "argos_change d1 d2"
  shows "argos_change d d2"
proof -
  from assms(2) obtain sr db k buf r where d2: "d2 = d1\<lparr>d_shift_reg := sr, d_dec_b := db, d_decoded_bits := k,
        d_frame_buffer := buf, d_received_bytes := r\<rparr>" "length buf = length (d_frame_buffer d1)"
    unfolding argos_change_def by metis
  from assms(1) obtain sr1 db1 k1 buf1 r1 where d1: "d1 = d\<lparr>d_shift_reg := sr1, d_dec_b := db1, d_decoded_bits := k1,
        d_frame_buffer := buf1, d_received_bytes := r1\<rparr>" "length buf1 = length (d_frame_buffer d)"
    unfolding argos_change_def by metis
  show ?thesis using d2(2) d1(2) unfolding argos_change_def d2(1) d1(1) by simp
qed

lemma argos_change_steps:
  "argos_change d (argos_decode_1b b d)"
  "argos_change d (d\<lparr>d_dec_b := db\<rparr>)"
  "argos_change d (d\<lparr>d_decoded_bits := k\<rparr>)"
  "argos_change d (d\<lparr>d_frame_buffer := (d_frame_buffer d)[n := x], d_received_bytes := r, d_decoded_bits := k\<rparr>)"
  by (simp_all add: argos_change_def argos_decode_1b_def)

definition argos_end_in :: "argos_end \<Rightarrow> nat \<Rightarrow> nat \<Rightarrow> bool" where
  "argos_end_in e i n \<longleftrightarrow> (case e of Flag_at j \<Rightarrow> i \<le> j \<and> j < i + n | _ \<Rightarrow> True)"

lemma argos_end_in_Suc: "argos_end_in e (i + 1) n \<Longrightarrow> argos_end_in e i (Suc n)"
  by (auto simp: argos_end_in_def split: argos_end.splits)

text \<open>After a flag the next bit is neither a flag nor a stuffed bit.\<close>

lemma after_flag:
  assumes "at_flag d"
  shows "\<not> at_flag (argos_decode_1b b d)" "(d_shift_reg (argos_decode_1b b d) AND 0xFF) AND 0xfc \<noteq> 0x7c"
proof -
  have "bit (d_shift_reg d AND 0xFF) 6" using assms unfolding at_flag_def by (simp add: sync_flag_def)
  then have "bit (d_shift_reg d) 6" by (simp add: bit_and_iff)
  then have b: "bit (d_shift_reg (argos_decode_1b b d)) 7"
    by (simp add: argos_decode_1b_def bit_and_iff bit_or_iff bit_shl1)
  have "bit (d_shift_reg (argos_decode_1b b d) AND 0xFF) 7" using b by (simp add: bit_and_iff)
  moreover have "\<not> bit (ucast sync_flag :: u32) 7" by (simp add: sync_flag_def)
  ultimately show "\<not> at_flag (argos_decode_1b b d)" unfolding at_flag_def by metis
  have "bit ((d_shift_reg (argos_decode_1b b d) AND 0xFF) AND 0xfc) 7" using b by (simp add: bit_and_iff)
  moreover have "\<not> bit (0x7c :: u32) 7" by simp
  ultimately show "(d_shift_reg (argos_decode_1b b d) AND 0xFF) AND 0xfc \<noteq> 0x7c" by metis
qed

text \<open>
  What a scan of the data field ends with. \<open>bits_kept\<close> never decreases, and a scan that starts
  with the flag in the register keeps at least one bit before it meets the next flag: this is
  why re-reading a rejected frame ends.
\<close>

definition argos_scan_ok ::
    "nat \<Rightarrow> u8 list \<Rightarrow> argos_ldr_decoder \<Rightarrow> argos_end \<Rightarrow> argos_ldr_decoder \<Rightarrow> bool" where
  "argos_scan_ok i bs d e d1 \<longleftrightarrow>
     argos_change d d1 \<and> (e \<noteq> Limit_reached \<longrightarrow> argos_room d1 \<and> bits_kept d \<le> bits_kept d1) \<and>
     argos_end_in e i (length bs) \<and>
     (\<forall>j. e = Flag_at j \<longrightarrow> at_flag d1 \<and> (at_flag d \<longrightarrow> bits_kept d < bits_kept d1))"

lemma argos_scan_data_frame:
  "argos_room d \<Longrightarrow> \<exists>e d1. argos_scan_data i bs d = Inr (e, d1) \<and> argos_scan_ok i bs d e d1"
proof (induction bs arbitrary: i d)
  case Nil
  then show ?case by (simp add: argos_scan_ok_def argos_change_refl argos_end_in_def)
next
  case (Cons b bs)
  define d1 where "d1 = argos_decode_1b b d"
  have d1: "argos_change d d1" unfolding d1_def by (rule argos_change_steps)
  have room1: "argos_room d1" using Cons.prems by (simp add: d1_def argos_room_def argos_decode_1b_def)
  have kept1: "bits_kept d1 = bits_kept d" by (simp add: d1_def bits_kept_def argos_decode_1b_def)
  note flagged = after_flag [of d b, folded d1_def]
  let ?stuffed = "d1\<lparr>d_dec_b := drop_bit 1 (d_dec_b d1)\<rparr>"
  let ?next = "d1\<lparr>d_decoded_bits := Suc (d_decoded_bits d1)\<rparr>"
  let ?byte = "d1\<lparr>d_frame_buffer := (d_frame_buffer d1)[d_received_bytes d1 := d_dec_b d1],
      d_received_bytes := Suc (d_received_bytes d1), d_decoded_bits := 0\<rparr>"
  have rest: ?case if step: "argos_scan_data i (b # bs) d = argos_scan_data (i + 1) bs d2" and room: "argos_room d2"
    and ch: "argos_change d1 d2" and kept: "bits_kept d1 \<le> bits_kept d2" "at_flag d \<Longrightarrow> bits_kept d1 < bits_kept d2" for d2
  proof -
    obtain e d3 where d3: "argos_scan_data (i + 1) bs d2 = Inr (e, d3)" "argos_scan_ok (i + 1) bs d2 e d3"
      using Cons.IH [OF room, of "i + 1"] by blast
    have "argos_change d d3" using d3(2) d1 ch argos_change_trans unfolding argos_scan_ok_def by blast
    moreover have "argos_end_in e i (length (b # bs))"
      using d3(2) argos_end_in_Suc unfolding argos_scan_ok_def by simp
    ultimately have "argos_scan_ok i (b # bs) d e d3"
      using d3(2) kept kept1 unfolding argos_scan_ok_def by auto
    then show ?thesis using step d3(1) by simp
  qed
  consider (flag) "at_flag d1"
    | (stuffed) "\<not> at_flag d1" "(d_shift_reg d1 AND 0xFF) AND 0xfc = 0x7c"
    | (invalid) "\<not> at_flag d1" "(d_shift_reg d1 AND 0xFF) AND 0xfc \<noteq> 0x7c" "(d_shift_reg d1 AND 0xFF) AND 0xfe = 0xfe"
    | (bit) "\<not> at_flag d1" "(d_shift_reg d1 AND 0xFF) AND 0xfc \<noteq> 0x7c" "(d_shift_reg d1 AND 0xFF) AND 0xfe \<noteq> 0xfe"
        "d_decoded_bits d1 < 7"
    | (byte) "\<not> at_flag d1" "(d_shift_reg d1 AND 0xFF) AND 0xfc \<noteq> 0x7c" "(d_shift_reg d1 AND 0xFF) AND 0xfe \<noteq> 0xfe"
        "d_decoded_bits d1 = 7"
    using room1 unfolding argos_room_def by linarith
  then show ?case
  proof cases
    case flag
    then have "argos_scan_data i (b # bs) d = Inr (Flag_at i, d1)" by (simp add: d1_def Let_def at_flag_def)
    moreover have "argos_scan_ok i (b # bs) d (Flag_at i) d1"
      using d1 room1 kept1 flagged(1) flag by (auto simp: argos_scan_ok_def argos_end_in_def)
    ultimately show ?thesis by blast
  next
    case stuffed
    then have step: "argos_scan_data i (b # bs) d = argos_scan_data (i + 1) bs ?stuffed"
      by (simp only: argos_scan_data.simps Let_def d1_def at_flag_def if_True if_False simp_thms)
    show ?thesis
    proof (rule rest [OF step _ argos_change_steps(2)])
      show "bits_kept d1 < bits_kept ?stuffed" if "at_flag d" using flagged(2) [OF that] stuffed(2) by blast
    qed (use room1 in \<open>simp_all add: argos_room_def bits_kept_def\<close>)
  next
    case invalid
    then have "argos_scan_data i (b # bs) d = Inr (Invalid, d1)"
      by (simp only: argos_scan_data.simps Let_def d1_def at_flag_def if_True if_False simp_thms)
    moreover have "argos_scan_ok i (b # bs) d Invalid d1"
      using d1 room1 kept1 by (auto simp: argos_scan_ok_def argos_end_in_def)
    ultimately show ?thesis by blast
  next
    case bit
    then have step: "argos_scan_data i (b # bs) d = argos_scan_data (i + 1) bs ?next"
      by (simp add: d1_def [symmetric] Let_def at_flag_def)
    show ?thesis
      by (rule rest [OF step _ argos_change_steps(3)]) (use room1 bit(4) in \<open>simp_all add: argos_room_def bits_kept_def\<close>)
  next
    case byte
    have lt: "d_received_bytes d1 < length (d_frame_buffer d1)" using room1 by (auto simp: argos_room_def)
    show ?thesis
    proof (cases "d_max_frame_len d1 \<le> Suc (d_received_bytes d1)")
      case True
      then have "argos_scan_data i (b # bs) d = Inr (Limit_reached, ?byte)"
        using byte lt by (simp add: d1_def [symmetric] Let_def buf_simps at_flag_def)
      moreover have "argos_scan_ok i (b # bs) d Limit_reached ?byte"
        using argos_change_trans [OF d1 argos_change_steps(4)] by (simp add: argos_scan_ok_def argos_end_in_def)
      ultimately show ?thesis by blast
    next
      case False
      then have step: "argos_scan_data i (b # bs) d = argos_scan_data (i + 1) bs ?byte"
        using byte lt by (simp add: d1_def [symmetric] Let_def buf_simps at_flag_def)
      show ?thesis
        by (rule rest [OF step _ argos_change_steps(4)])
          (use room1 False byte(4) in \<open>simp_all add: argos_room_def bits_kept_def\<close>)
    qed
  qed
qed

section \<open>The contract of the loop\<close>

definition argos_inv :: "argos_ldr_decoder \<Rightarrow> bool" where
  "argos_inv d \<longleftrightarrow>
     length (d_frame_buffer d) = d_max_frame_len d + 2 \<and>
     (case d_state d of
        NO_SYNC \<Rightarrow> True
      | IN_SYNC \<Rightarrow> d_decoded_bits d < 8 \<and> d_start_idx d \<le> length (d_bitstream d)
      | DECODING \<Rightarrow> argos_room d \<and> d_start_idx d \<le> length (d_bitstream d))"

definition argos_items :: "argos_ldr_decoder \<Rightarrow> u64" where
  "argos_items d = d_nitems_read d + of_nat (length (d_bitstream d))"

definition argos_const :: "argos_ldr_decoder \<Rightarrow> bool \<times> nat \<times> u64" where
  "argos_const d = (d_crc_check d, d_max_frame_len d, argos_items d)"

text \<open>A status is either untouched or reports a received frame with the truth about its check.\<close>

definition argos_status_ok :: "bool \<times> nat \<times> u64 \<Rightarrow> decoder_status \<Rightarrow> bool" where
  "argos_status_ok K st \<longleftrightarrow>
     (if decode_success st
      then \<exists>frame v. 3 \<le> length frame \<and> length frame < fst (snd K) \<and>
        data st ''pdu'' = Some (Blob (take (length frame - 2) frame)) \<and>
        data st ''crc_valid'' = Some (PBool v) \<and>
        argos_frame_check (length frame) frame = Inr v \<and> (v \<or> \<not> fst K)
      else st = status_new)"

definition argos_loop_inv :: "bool \<times> nat \<times> u64 \<Rightarrow> argos_loop \<Rightarrow> bool" where
  "argos_loop_inv K s \<longleftrightarrow> argos_inv (fst s) \<and> argos_const (fst s) = K \<and> argos_status_ok K (snd s)"

definition argos_post :: "bool \<times> nat \<times> u64 \<Rightarrow> argos_loop \<Rightarrow> bool \<Rightarrow> bool" where
  "argos_post K s r \<longleftrightarrow> argos_loop_inv K s \<and> (r \<longrightarrow> decode_success (snd s))"

fun argos_rank :: "argos_state_t \<Rightarrow> nat" where
  "argos_rank NO_SYNC = 0"
| "argos_rank DECODING = 1"
| "argos_rank IN_SYNC = 2"

definition reread_left :: "argos_ldr_decoder \<Rightarrow> nat" where
  "reread_left d =
     (if d_state d = DECODING
      then 2 * (8 * d_max_frame_len d + 16 - bits_kept d) + (if at_flag d then 0 else 1) else 0)"

definition argos_measure :: "argos_loop \<Rightarrow> nat" where
  "argos_measure s =
     (3 * length (d_bitstream (fst s)) + argos_rank (d_state (fst s))) * (16 * d_max_frame_len (fst s) + 40) +
     reread_left (fst s)"

lemma reread_left_less: "reread_left d < 16 * d_max_frame_len d + 40"
proof -
  define x where "x = 8 * d_max_frame_len d + 16 - bits_kept d"
  have "x \<le> 8 * d_max_frame_len d + 16" by (simp add: x_def)
  then show ?thesis unfolding reread_left_def x_def [symmetric] by simp
qed

lemma measure_rank:
  assumes "3 * length (d_bitstream d') + argos_rank (d_state d') < 3 * length (d_bitstream d) + argos_rank (d_state d)"
    and "d_max_frame_len d' = d_max_frame_len d"
  shows "argos_measure (d', st') < argos_measure (d, st)"
proof -
  let ?B = "16 * d_max_frame_len d + 40"
  let ?a' = "3 * length (d_bitstream d') + argos_rank (d_state d')" and ?a = "3 * length (d_bitstream d) + argos_rank (d_state d)"
  have "?a' * ?B + reread_left d' < Suc ?a' * ?B" using reread_left_less [of d'] assms(2) by simp
  also have "\<dots> \<le> ?a * ?B" using assms(1) by (intro mult_le_mono1) simp
  also have "\<dots> \<le> ?a * ?B + reread_left d" by simp
  finally show ?thesis by (simp only: argos_measure_def fst_conv assms(2))
qed

lemma argos_items_drop:
  "k \<le> length bs \<Longrightarrow> (x :: u64) + of_nat k + of_nat (length (drop k bs)) = x + of_nat (length bs)"
  by (simp flip: of_nat_add add: add.assoc)

lemma argos_drop_ok:
  assumes "n \<le> length (d_bitstream d)"
  shows "\<exists>d'. argos_drop n d = Inr d' \<and>
    d' = d\<lparr>d_bitstream := drop n (d_bitstream d), d_nitems_read := d_nitems_read d + of_nat n\<rparr> \<and>
    argos_const d' = argos_const d"
  using assms argos_items_drop [OF assms, of "d_nitems_read d"]
  by (simp add: argos_drop_def buf_simps incr_nitems_read_def argos_const_def argos_items_def)

definition argos_step_ok :: "argos_loop \<Rightarrow> (argos_loop, bool) outcome res \<Rightarrow> bool" where
  "argos_step_ok s out \<longleftrightarrow>
     (\<exists>s'. out = Inr (Continue s') \<and> argos_loop_inv (argos_const (fst s)) s' \<and> argos_measure s' < argos_measure s) \<or>
     (\<exists>s' r. out = Inr (Return s' r) \<and> argos_post (argos_const (fst s)) s' r)"

lemma argos_continue:
  assumes "out = Inr (Continue (d', st'))" and "argos_inv d'" and "argos_const d' = argos_const d"
    and "argos_status_ok (argos_const d) st'" and "argos_measure (d', st') < argos_measure (d, st)"
  shows "argos_step_ok (d, st) out"
  using assms by (auto simp: argos_step_ok_def argos_loop_inv_def)

lemma argos_return:
  assumes "out = Inr (Return (d', st') r)" and "argos_inv d'" and "argos_const d' = argos_const d"
    and "argos_status_ok (argos_const d) st'" and "r \<longrightarrow> decode_success st'"
  shows "argos_step_ok (d, st) out"
  using assms by (auto simp: argos_step_ok_def argos_post_def argos_loop_inv_def)

lemma argos_no_sync_step:
  assumes "argos_inv d" and "d_state d = NO_SYNC" and st: "argos_status_ok (argos_const d) st"
  shows "argos_step_ok (d, st) (argos_no_sync (d, st))"
proof -
  obtain r d1 where s: "argos_scan_flag 0 (d_bitstream d) d = (r, d1)" by fastforce
  then obtain sr db where d1: "d1 = d\<lparr>d_shift_reg := sr, d_dec_b := db\<rparr>"
    and r: "case r of None \<Rightarrow> True | Some j \<Rightarrow> j < length (d_bitstream d)"
    using argos_scan_flag_frame [OF s] by (auto split: option.splits)
  have c1: "argos_const d1 = argos_const d" by (simp add: d1 argos_const_def argos_items_def)
  show ?thesis
  proof (cases r)
    case None
    let ?d = "(incr_nitems_read (length (d_bitstream d1)) d1)\<lparr>d_bitstream := []\<rparr>"
    show ?thesis
    proof (rule argos_return [of _ ?d st False])
      show "argos_no_sync (d, st) = Inr (Return (?d, st) False)"
        by (simp add: argos_no_sync_def s None)
    qed (use assms in \<open>simp_all add: d1 argos_inv_def argos_const_def argos_items_def incr_nitems_read_def\<close>)
  next
    case (Some i)
    with r have i: "i < length (d_bitstream d)" by simp
    then have "i + 1 \<le> length (d_bitstream d1)" by (simp add: d1)
    then obtain d2 where d2: "argos_drop (i + 1) d1 = Inr d2"
      "d2 = d1\<lparr>d_bitstream := drop (i + 1) (d_bitstream d1), d_nitems_read := d_nitems_read d1 + of_nat (i + 1)\<rparr>"
      "argos_const d2 = argos_const d1"
      using argos_drop_ok by blast
    let ?e = "argos_enter_sync_state d2"
    let ?d = "?e\<lparr>d_frame_start := d_nitems_read ?e, d_start_idx := 0\<rparr>"
    have bs: "d_bitstream ?d = drop (i + 1) (d_bitstream d)" by (simp add: argos_enter_sync_state_def d2(2) d1)
    show ?thesis
    proof (rule argos_continue [of _ ?d st])
      show "argos_no_sync (d, st) = Inr (Continue (?d, st))"
        using d2(1) by (simp add: argos_no_sync_def s Some Let_def)
      show "argos_inv ?d" using assms by (simp add: argos_inv_def argos_enter_sync_state_def d2(2) d1)
      have "argos_const ?d = argos_const d2" by (simp add: argos_const_def argos_items_def argos_enter_sync_state_def)
      then show "argos_const ?d = argos_const d" using d2(3) c1 by simp
      show "argos_measure (?d, st) < argos_measure (d, st)"
      proof (rule measure_rank)
        have "d_state ?d = IN_SYNC" by (simp add: argos_enter_sync_state_def)
        then show "3 * length (d_bitstream ?d) + argos_rank (d_state ?d) < 3 * length (d_bitstream d) + argos_rank (d_state d)"
          unfolding bs using i assms(2) by simp
      qed (simp add: argos_enter_sync_state_def d2(2) d1)
    qed (rule st)
  qed
qed

lemma argos_in_sync_step:
  assumes "argos_inv d" and "d_state d = IN_SYNC" and st: "argos_status_ok (argos_const d) st"
  shows "argos_step_ok (d, st) (argos_in_sync (d, st))"
proof -
  let ?s = "d_start_idx d" and ?bs = "d_bitstream d"
  have inv: "d_decoded_bits d < 8" "?s \<le> length ?bs" "length (d_frame_buffer d) = d_max_frame_len d + 2"
    using assms by (simp_all add: argos_inv_def)
  obtain r d1 where s: "argos_scan_sync ?s (drop ?s ?bs) d = (r, d1)" by fastforce
  then obtain sr db k where d1: "d1 = d\<lparr>d_shift_reg := sr, d_dec_b := db, d_decoded_bits := k\<rparr>"
    and r: "case r of None \<Rightarrow> d_decoded_bits d1 < 8 | Some j \<Rightarrow> j < ?s + length (drop ?s ?bs)"
    using argos_scan_sync_frame [OF s inv(1)] by (auto split: option.splits)
  show ?thesis
  proof (cases r)
    case None
    let ?d = "d1\<lparr>d_start_idx := length (d_bitstream d1)\<rparr>"
    show ?thesis
    proof (rule argos_return [of _ ?d st False])
      show "argos_in_sync (d, st) = Inr (Return (?d, st) False)"
        by (simp add: argos_in_sync_def s None)
    qed (use assms inv r None in \<open>simp_all add: d1 argos_inv_def argos_const_def argos_items_def\<close>)
  next
    case (Some i)
    with r inv have i: "i < length ?bs" by auto
    let ?b = "d1\<lparr>d_start_idx := i + 1\<rparr>"
    obtain d' where d': "argos_enter_decoding_state ?b = Inr d'"
      "argos_room d'" "d_state d' = DECODING" "d_start_idx d' = i + 1" "d_bitstream d' = ?bs"
      "argos_const d' = argos_const d" "d_max_frame_len d' = d_max_frame_len d"
      using inv(3) by (cases "drop_bit 16 sr AND 0xfc = 0x7c")
        (simp_all add: d1 argos_enter_decoding_state_def buf_simps argos_room_def argos_const_def argos_items_def)
    show ?thesis
    proof (rule argos_continue [of _ d' st])
      show "argos_in_sync (d, st) = Inr (Continue (d', st))"
        using d'(1) by (simp add: argos_in_sync_def s Some)
      show "argos_inv d'" using d' i by (simp add: argos_inv_def argos_room_def)
      show "argos_measure (d', st) < argos_measure (d, st)"
        using d' assms(2) by (intro measure_rank) simp_all
    qed (use d' st in simp_all)
  qed
qed

lemma argos_report_ok:
  assumes "argos_room d" and "3 \<le> d_received_bytes d"
    and "argos_frame_check (d_received_bytes d) (d_frame_buffer d) = Inr v" and "v \<or> \<not> d_crc_check d"
    and "st = (if v then argos_report_valid now d st0 else argos_report_invalid now d st0)"
  shows "argos_status_ok (argos_const d) st \<and> decode_success st"
proof -
  let ?n = "d_received_bytes d"
  let ?f = "take ?n (d_frame_buffer d)"
  have n: "?n < d_max_frame_len d" "?n \<le> length (d_frame_buffer d)" "length ?f = ?n"
    using assms(1,2) by (auto simp: argos_room_def)
  have "?f ! (?n - 2) = d_frame_buffer d ! (?n - 2)" "?f ! (?n - 1) = d_frame_buffer d ! (?n - 1)"
    using assms(2) by simp_all
  moreover have "take (?n - 2) ?f = take (?n - 2) (d_frame_buffer d)" by (simp add: min_def)
  ultimately have check: "argos_frame_check (length ?f) ?f = Inr v"
    using assms(2,3) n by (simp add: argos_frame_check_def Let_def split: if_splits)
  have "data st ''pdu'' = Some (Blob (take (length ?f - 2) ?f)) \<and> data st ''crc_valid'' = Some (PBool v)"
    using assms(5) n(3) by (cases v) (simp_all add: argos_report_valid_def argos_report_invalid_def Let_def add_decoder_def
      add_pdu_def add_time_iso8601_def add_crc_valid_def add_sample_start_def add_sample_cnt_def dict_put_def min_def)
  moreover have "decode_success st"
    using assms(5) by (cases v) (simp_all add: argos_report_valid_def argos_report_invalid_def Let_def)
  moreover have "3 \<le> length ?f" "length ?f < fst (snd (argos_const d))" "v \<or> \<not> fst (argos_const d)"
    using assms(2,4) n by (simp_all add: argos_const_def)
  ultimately show ?thesis using check unfolding argos_status_ok_def by (simp only: if_True simp_thms) blast
qed

lemma argos_frame_check_total: "2 \<le> n \<Longrightarrow> n \<le> length buf \<Longrightarrow> \<exists>v. argos_frame_check n buf = Inr v"
  by (auto simp: argos_frame_check_def Let_def)

text \<open>The end of a frame: either the decoder was reset, or it is left as it was.\<close>

lemma argos_enter_frame_end_ok:
  assumes "argos_room d" and st: "argos_status_ok (argos_const d) st"
  shows "\<exists>r d' st'. argos_enter_frame_end now (d, st) = Inr (r, d', st') \<and>
    (d' = argos_reset_state d \<or> \<not> r \<and> d' = d) \<and> argos_status_ok (argos_const d) st' \<and> (r \<longrightarrow> decode_success st')"
proof (cases "d_received_bytes d < 3")
  case True
  then show ?thesis using st by (intro exI [of _ False]) (simp add: argos_enter_frame_end_def)
next
  case False
  then have n: "3 \<le> d_received_bytes d" "2 \<le> d_received_bytes d" by simp_all
  have "d_received_bytes d \<le> length (d_frame_buffer d)" using assms(1) n by (auto simp: argos_room_def)
  then obtain v where v: "argos_frame_check (d_received_bytes d) (d_frame_buffer d) = Inr v"
    using argos_frame_check_total [OF n(2)] by blast
  note rep = argos_report_ok [OF assms(1) n(1) v]
  show ?thesis
  proof (cases "v \<or> \<not> d_crc_check d")
    case True
    then show ?thesis using rep [OF True refl, of now st] False v
      by (cases v) (simp_all add: argos_enter_frame_end_def)
  next
    case 2: False
    then have "argos_enter_frame_end now (d, st) = Inr (False, d, st)"
      using False v by (simp add: argos_enter_frame_end_def)
    then show ?thesis using st by blast
  qed
qed

lemma argos_reset_facts:
  assumes "argos_change d d1" and "length (d_frame_buffer d) = d_max_frame_len d + 2" and "d_state d = DECODING"
  shows "argos_inv (argos_reset_state d1)" "argos_const (argos_reset_state d1) = argos_const d"
    "argos_measure (argos_reset_state d1, st1) < argos_measure (d, st)"
proof -
  from assms(1) obtain sr db k buf r where d1: "d1 = d\<lparr>d_shift_reg := sr, d_dec_b := db, d_decoded_bits := k,
        d_frame_buffer := buf, d_received_bytes := r\<rparr>" "length buf = length (d_frame_buffer d)"
    unfolding argos_change_def by metis
  show "argos_inv (argos_reset_state d1)" "argos_const (argos_reset_state d1) = argos_const d"
    using assms(2) d1(2) by (simp_all add: d1(1) argos_inv_def argos_reset_state_def argos_const_def argos_items_def)
  show "argos_measure (argos_reset_state d1, st1) < argos_measure (d, st)"
    using assms(3) by (intro measure_rank) (simp_all add: d1(1) argos_reset_state_def)
qed

lemma reread_left_decreases:
  assumes "argos_scan_ok i bs d (Flag_at j) d1" and "argos_room d1" and "d_state d = DECODING" and "d_state d1 = DECODING"
    and "d_max_frame_len d1 = d_max_frame_len d"
  shows "reread_left d1 < reread_left d"
proof -
  have f: "at_flag d1" "bits_kept d \<le> bits_kept d1" "at_flag d \<Longrightarrow> bits_kept d < bits_kept d1"
    using assms(1) by (simp_all add: argos_scan_ok_def)
  have "bits_kept d1 < 8 * d_max_frame_len d + 16"
    using assms(2,5) by (auto simp: argos_room_def bits_kept_def)
  then show ?thesis using f assms(3-5) by (cases "at_flag d") (simp_all add: reread_left_def)
qed

lemma argos_decoding_step:
  assumes "argos_inv d" and "d_state d = DECODING" and st: "argos_status_ok (argos_const d) st"
  shows "argos_step_ok (d, st) (argos_decoding now (d, st))"
proof -
  let ?s = "d_start_idx d" and ?bs = "d_bitstream d"
  have inv: "?s \<le> length ?bs" "argos_room d" using assms by (simp_all add: argos_inv_def)
  have len: "length (d_frame_buffer d) = d_max_frame_len d + 2" using inv(2) by (simp add: argos_room_def)
  obtain e d1 where s: "argos_scan_data ?s (drop ?s ?bs) d = Inr (e, d1)" and ok: "argos_scan_ok ?s (drop ?s ?bs) d e d1"
    using argos_scan_data_frame [OF inv(2)] by blast
  have ch: "argos_change d d1" using ok by (simp add: argos_scan_ok_def)
  then obtain sr db k buf n where d1: "d1 = d\<lparr>d_shift_reg := sr, d_dec_b := db, d_decoded_bits := k,
      d_frame_buffer := buf, d_received_bytes := n\<rparr>"
    unfolding argos_change_def by metis
  have const1: "argos_const d1 = argos_const d" by (simp add: d1 argos_const_def argos_items_def)
  note reset = argos_reset_facts [OF ch len assms(2)]
  have again: "argos_step_ok (d, st) (Inr (Continue (argos_reset_state d1, st)))"
    by (rule argos_continue [OF refl reset(1,2) st reset(3)])
  show ?thesis
  proof (cases e)
    case (Flag_at j)
    have j: "j < length ?bs" using ok inv(1) by (auto simp: argos_scan_ok_def argos_end_in_def Flag_at)
    have room1: "argos_room d1" using ok by (simp add: argos_scan_ok_def Flag_at)
    define d2 where "d2 = d1\<lparr>d_sample_cnt := d_nitems_read d1 + of_nat j - d_frame_start d1\<rparr>"
    have d2: "argos_room d2" "argos_const d2 = argos_const d" "d_state d2 = DECODING" "d_max_frame_len d2 = d_max_frame_len d"
      "d_bitstream d2 = ?bs" "d_start_idx d2 = ?s" "reread_left d2 = reread_left d1"
      using room1 const1 assms(2)
      by (simp_all add: d2_def argos_room_def argos_const_def argos_items_def d1 reread_left_def bits_kept_def at_flag_def)
    obtain r d3 st3 where fe: "argos_enter_frame_end now (d2, st) = Inr (r, d3, st3)"
      "d3 = argos_reset_state d2 \<or> \<not> r \<and> d3 = d2" "argos_status_ok (argos_const d) st3" "r \<longrightarrow> decode_success st3"
      using argos_enter_frame_end_ok [OF d2(1), of st now] st unfolding d2(2) by blast
    have dec: "argos_decoding now (d, st) = (if r then res_bind (argos_drop (j + 1) d3) (\<lambda>d4.
        Inr (Return (d4\<lparr>d_start_idx := length (d_bitstream d4)\<rparr>, st3) True)) else Inr (Continue (d3, st3)))"
      using fe(1) by (simp add: argos_decoding_def s Flag_at Let_def d2_def)
    have reset2: "argos_inv (argos_reset_state d2)" "argos_const (argos_reset_state d2) = argos_const d"
      "argos_measure (argos_reset_state d2, st3) < argos_measure (d, st)"
      using reset(1,2) reset(3) [of st3 st] d2(2,4,5)
      by (simp_all add: d2_def argos_inv_def argos_reset_state_def argos_const_def argos_items_def argos_measure_def reread_left_def)
    show ?thesis
    proof (cases r)
      case True
      then have d3: "d3 = argos_reset_state d2" using fe(2) by simp
      have bs3: "d_bitstream d3 = ?bs" by (simp add: d3 argos_reset_state_def d2(5))
      then have "j + 1 \<le> length (d_bitstream d3)" using j by simp
      then obtain d4 where d4: "argos_drop (j + 1) d3 = Inr d4"
        "d4 = d3\<lparr>d_bitstream := drop (j + 1) (d_bitstream d3), d_nitems_read := d_nitems_read d3 + of_nat (j + 1)\<rparr>"
        "argos_const d4 = argos_const d3"
        using argos_drop_ok by blast
      let ?d = "d4\<lparr>d_start_idx := length (d_bitstream d4)\<rparr>"
      show ?thesis
      proof (rule argos_return [of _ ?d st3 True])
        show "argos_decoding now (d, st) = Inr (Return (?d, st3) True)" using True d4(1) by (simp add: dec)
        show "argos_inv ?d" using reset2(1) unfolding d4(2) d3 by (simp add: argos_inv_def argos_reset_state_def)
        have "argos_const ?d = argos_const d4" by (simp add: argos_const_def argos_items_def)
        then show "argos_const ?d = argos_const d" using d4(3) reset2(2) by (simp add: d3)
      qed (use fe True in simp_all)
    next
      case False
      then have out: "argos_decoding now (d, st) = Inr (Continue (d3, st3))" by (simp add: dec)
      show ?thesis
      proof (cases "d3 = d2")
        case True
        have "argos_inv d2" using d2 inv(1) by (simp add: argos_inv_def argos_room_def)
        moreover have "argos_measure (d2, st3) < argos_measure (d, st)"
          using reread_left_decreases [OF ok [unfolded Flag_at] room1 assms(2)] d2 assms(2)
          by (simp add: argos_measure_def d1)
        ultimately show ?thesis using argos_continue [OF out] True d2(2) fe(3) by simp
      next
        case 2: False
        then have "d3 = argos_reset_state d2" using fe(2) by blast
        then show ?thesis using argos_continue [OF out] reset2 fe(3) by simp
      qed
    qed
  next
    case Invalid
    then show ?thesis using again by (simp add: argos_decoding_def s)
  next
    case Limit_reached
    then show ?thesis using again by (simp add: argos_decoding_def s)
  next
    case Out_of_bits
    let ?d = "d1\<lparr>d_start_idx := length (d_bitstream d1)\<rparr>"
    have room: "argos_room d1" using ok by (simp add: argos_scan_ok_def Out_of_bits)
    show ?thesis
    proof (rule argos_return [of _ ?d st False])
      show "argos_decoding now (d, st) = Inr (Return (?d, st) False)" by (simp add: argos_decoding_def s Out_of_bits)
      show "argos_inv ?d" using room assms(2) by (simp add: argos_inv_def argos_room_def d1)
      show "argos_const ?d = argos_const d" by (simp add: d1 argos_const_def argos_items_def)
    qed (use st in simp_all)
  qed
qed

lemma argos_step:
  assumes "argos_loop_inv K s"
  shows "K = argos_const (fst s) \<and> argos_step_ok s (argos_iteration now s)"
proof -
  obtain d st where s: "s = (d, st)" by (cases s)
  have inv: "argos_inv d" "argos_status_ok (argos_const d) st" "K = argos_const d"
    using assms by (auto simp: argos_loop_inv_def s)
  show ?thesis
    using argos_no_sync_step [OF inv(1) _ inv(2)] argos_in_sync_step [OF inv(1) _ inv(2)]
      argos_decoding_step [OF inv(1) _ inv(2)] inv(3)
    by (cases "d_state d") (simp_all add: argos_iteration_def s)
qed

interpretation argos_loop: step_loop "argos_iteration now" "argos_loop_inv K" argos_measure "argos_post K"
  for now K
proof unfold_locales
  fix s s' r
  assume "argos_loop_inv K s"
  note step = argos_step [OF this, of now, unfolded argos_step_ok_def]
  show "\<exists>x. argos_iteration now s = Inr x" using step by auto
  show "argos_iteration now s = Inr (Continue s') \<Longrightarrow> argos_loop_inv K s' \<and> argos_measure s' < argos_measure s"
    using step by auto
  show "argos_iteration now s = Inr (Return s' r) \<Longrightarrow> argos_post K s' r"
    using step by auto
qed

section \<open>Calls of decode\<close>

lemma argos_new_inv: "argos_inv (argos_new uid junk crc_check m)"
  by (simp add: argos_new_def argos_inv_def argos_ldr_decoder.defs decoder_base.defs)

lemma argos_decode_result:
  assumes "argos_inv d"
  shows "\<exists>d' st r. argos_decode now d inp = Some (Inr (d', st\<lparr>consumed := int (length inp)\<rparr>)) \<and>
    argos_post (argos_const (d\<lparr>d_bitstream := d_bitstream d @ inp\<rparr>)) (d', st) r"
proof -
  let ?d = "d\<lparr>d_bitstream := d_bitstream d @ inp\<rparr>"
  have "argos_inv ?d" using assms by (auto simp: argos_inv_def argos_room_def split: argos_state_t.splits)
  then have inv: "argos_loop_inv (argos_const ?d) (?d, status_new)"
    by (simp add: argos_loop_inv_def argos_status_ok_def status_new_def)
  have "argos_rank (d_state ?d) \<le> 2" by (cases "d_state ?d") simp_all
  then have "Suc (3 * length (d_bitstream ?d) + argos_rank (d_state ?d)) * (16 * d_max_frame_len ?d + 40) \<le> argos_fuel ?d"
    unfolding argos_fuel_def by (intro mult_le_mono1) simp
  then have "argos_measure (?d, status_new) < argos_fuel ?d"
    using reread_left_less [of ?d] unfolding argos_measure_def fst_conv mult_Suc by linarith
  then obtain s' r where "run_loop (argos_iteration now) (argos_fuel ?d) (?d, status_new) = Some (Inr (s', r))"
    "argos_post (argos_const ?d) s' r"
    using argos_loop.loop_returns [OF inv] by blast
  then show ?thesis by (cases s') (auto simp: argos_decode_def Let_def)
qed

text \<open>C19: Every call of \<open>decode\<close> returns, whatever was received before: the decoder may read a
  rejected frame again and again, because a failed check neither resets it nor drops the frame,
  but every such pass keeps at least one bit, so the length limit ends it. The buffers are never
  left, all input is consumed and the counter of dropped items stays exact.\<close>

theorem argos_decode_terminates:
  assumes "argos_inv d"
  shows "\<exists>d' st. argos_decode now d inp = Some (Inr (d', st)) \<and> argos_inv d' \<and>
    consumed st = int (length inp) \<and>
    d_nitems_read d' + of_nat (length (d_bitstream d')) =
    d_nitems_read d + of_nat (length (d_bitstream d)) + of_nat (length inp)"
  using argos_decode_result [OF assms, of now inp]
  by (auto simp: argos_post_def argos_loop_inv_def argos_const_def argos_items_def add.assoc)

theorem argos_decode_terminates_witness:
  "\<exists>d' st. argos_decode ''now'' (argos_new 1 (\<lambda>_. 0) True 64) [1, 0, 1] = Some (Inr (d', st)) \<and> argos_inv d' \<and>
    consumed st = int (length [1 :: u8, 0, 1]) \<and>
    d_nitems_read d' + of_nat (length (d_bitstream d')) =
    d_nitems_read (argos_new 1 (\<lambda>_. 0) True 64) + of_nat (length (d_bitstream (argos_new 1 (\<lambda>_. 0) True 64))) +
    of_nat (length [1 :: u8, 0, 1])"
  by (rule argos_decode_terminates [OF argos_new_inv])

text \<open>What a call reports is sound: a reported frame is shorter than the limit, it passed the
  frame check exactly when it is reported as valid, a valid frame is never all zeros, and invalid
  frames are reported only when the check is not required.\<close>

theorem argos_report_sound:
  assumes "argos_inv d" and "argos_decode now d inp = Some (Inr (d', st))"
  shows "if decode_success st
    then \<exists>frame v. 3 \<le> length frame \<and> length frame < d_max_frame_len d \<and>
      data st ''pdu'' = Some (Blob (take (length frame - 2) frame)) \<and>
      data st ''crc_valid'' = Some (PBool v) \<and> (v \<or> \<not> d_crc_check d) \<and>
      (v \<longleftrightarrow> (\<exists>x \<in> set frame. x \<noteq> 0) \<and> crc16_ccitt (take (length frame - 2) frame) =
        push_bit 8 (ucast (frame ! (length frame - 2))) OR ucast (frame ! (length frame - 1)))
    else data st = Map.empty"
proof -
  let ?K = "argos_const (d\<lparr>d_bitstream := d_bitstream d @ inp\<rparr>)"
  obtain st' where st: "st = st'\<lparr>consumed := int (length inp)\<rparr>" "argos_status_ok ?K st'"
    using argos_decode_result [OF assms(1), of now inp] assms(2) by (auto simp: argos_post_def argos_loop_inv_def)
  have K: "fst ?K = d_crc_check d" "fst (snd ?K) = d_max_frame_len d" by (simp_all add: argos_const_def)
  show ?thesis
  proof (cases "decode_success st'")
    case False
    then show ?thesis using st by (simp add: argos_status_ok_def status_new_def)
  next
    case True
    then obtain frame v where f: "3 \<le> length frame" "length frame < d_max_frame_len d"
      "data st' ''pdu'' = Some (Blob (take (length frame - 2) frame))" "data st' ''crc_valid'' = Some (PBool v)"
      "argos_frame_check (length frame) frame = Inr v" "v \<or> \<not> d_crc_check d"
      using st(2) unfolding argos_status_ok_def K by auto
    have "v \<longleftrightarrow> (\<exists>x \<in> set frame. x \<noteq> 0) \<and> crc16_ccitt (take (length frame - 2) frame) =
        push_bit 8 (ucast (frame ! (length frame - 2))) OR ucast (frame ! (length frame - 1))"
      using f(1,5) by (auto simp: argos_frame_check_def Let_def list_all_iff split: if_splits)
    then show ?thesis using f True st(1) by (simp only: if_True decoder_status.select_convs decoder_status.update_convs) auto
  qed
qed

theorem argos_report_sound_witness:
  "\<exists>d' st. argos_decode ''now'' (argos_new 1 (\<lambda>_. 0) False 64) [1, 0, 1] = Some (Inr (d', st)) \<and>
    (\<not> decode_success st \<longrightarrow> data st = Map.empty)"
proof -
  obtain d' st where r: "argos_decode ''now'' (argos_new 1 (\<lambda>_. 0) False 64) [1, 0, 1] = Some (Inr (d', st))"
    using argos_decode_result [OF argos_new_inv] by blast
  show ?thesis using argos_report_sound [OF argos_new_inv r] r by auto
qed

section \<open>The preamble and the first byte\<close>

definition shift8 :: "u32 \<Rightarrow> u8 list \<Rightarrow> u32" where
  "shift8 r w = (push_bit 8 r OR ucast (pack_msb w)) AND 0xFFFFFF"

lemma take_bit_24: "x AND 0xFFFFFF = take_bit 24 x" for x :: u32
  by (simp add: take_bit_eq_mask mask_eq_exp_minus_1)

lemma length_8_cases:
  assumes "length w = 8"
  obtains a b c d e f g h where "w = [a, b, c, d, e, f, g, h]"
  using assms by (auto simp: numeral_eq_Suc length_Suc_conv)

lemma decode_byte_regs:
  assumes "length w = 8" and "\<forall>b \<in> set w. is_bit b"
  shows "fold argos_decode_1b w d = d\<lparr>d_shift_reg := shift8 (d_shift_reg d) w, d_dec_b := pack_msb w\<rparr>"
proof -
  obtain b0 b1 b2 b3 b4 b5 b6 b7 where w: "w = [b0, b1, b2, b3, b4, b5, b6, b7]" using length_8_cases [OF assms(1)] .
  have b: "bit b0 n \<longleftrightarrow> n = 0 \<and> b0 = 1" "bit b1 n \<longleftrightarrow> n = 0 \<and> b1 = 1" "bit b2 n \<longleftrightarrow> n = 0 \<and> b2 = 1"
    "bit b3 n \<longleftrightarrow> n = 0 \<and> b3 = 1" "bit b4 n \<longleftrightarrow> n = 0 \<and> b4 = 1" "bit b5 n \<longleftrightarrow> n = 0 \<and> b5 = 1"
    "bit b6 n \<longleftrightarrow> n = 0 \<and> b6 = 1" "bit b7 n \<longleftrightarrow> n = 0 \<and> b7 = 1" for n
    using assms(2) is_bit_bit by (simp_all add: w)
  have "d_dec_b (fold argos_decode_1b w d) = pack_msb w"
  proof (rule bit_word_eqI)
    fix n assume "n < LENGTH(8)"
    then have "n < 8" by simp
    then show "bit (d_dec_b (fold argos_decode_1b w d)) n = bit (pack_msb w) n"
      by (rule all_upto_8) (simp add: w argos_decode_1b_def pack_msb_def bit_or_iff bit_shl1 bit_push_bit_iff b)
  qed
  moreover have "d_shift_reg (fold argos_decode_1b w d) = shift8 (d_shift_reg d) w"
  proof (rule bit_word_eqI)
    fix n assume "n < LENGTH(32)"
    then have "n < 32" by simp
    then show "bit (d_shift_reg (fold argos_decode_1b w d)) n = bit (shift8 (d_shift_reg d) w) n"
      by (rule all_upto_32)
        (simp add: w argos_decode_1b_def shift8_def pack_msb_def take_bit_24 bit_or_iff bit_shl1 bit_push_bit_iff
          bit_take_bit_iff bit_ucast_iff b)
  qed
  moreover have "fold argos_decode_1b w d = d\<lparr>d_shift_reg := d_shift_reg (fold argos_decode_1b w d),
      d_dec_b := d_dec_b (fold argos_decode_1b w d)\<rparr>"
    by (simp add: w argos_decode_1b_def)
  ultimately show ?thesis by simp
qed

lemma decode_1b_bits:
  "argos_decode_1b b (d\<lparr>d_decoded_bits := k\<rparr>) = (argos_decode_1b b d)\<lparr>d_decoded_bits := k\<rparr>"
  by (simp add: argos_decode_1b_def)

lemma scan_sync_fold:
  "k + length w < 8 \<Longrightarrow> d_decoded_bits d = k \<Longrightarrow>
   argos_scan_sync i (w @ rest) d =
   argos_scan_sync (i + length w) rest ((fold argos_decode_1b w d)\<lparr>d_decoded_bits := k + length w\<rparr>)"
proof (induction w arbitrary: i d k)
  case Nil
  then have "d\<lparr>d_decoded_bits := k\<rparr> = d" by (cases d) auto
  then show ?case by simp
next
  case (Cons b w)
  let ?d = "(argos_decode_1b b d)\<lparr>d_decoded_bits := Suc k\<rparr>"
  have fold_bits: "fold argos_decode_1b w (e\<lparr>d_decoded_bits := m\<rparr>) = (fold argos_decode_1b w e)\<lparr>d_decoded_bits := m\<rparr>" for e m
    by (induction w arbitrary: e) (simp_all add: decode_1b_bits)
  have "argos_scan_sync i ((b # w) @ rest) d = argos_scan_sync (i + 1) (w @ rest) ?d"
    using Cons.prems by (simp add: Let_def argos_decode_1b_def)
  also have "\<dots> = argos_scan_sync (i + 1 + length w) rest ((fold argos_decode_1b w ?d)\<lparr>d_decoded_bits := Suc k + length w\<rparr>)"
    using Cons.prems by (intro Cons.IH) simp_all
  finally show ?case by (simp add: fold_bits)
qed

lemma low_byte_shift8: "length w = 8 \<Longrightarrow> shift8 r w AND 0xFF = ucast (pack_msb w)"
proof (rule bit_word_eqI)
  fix n assume "n < LENGTH(32)"
  have m: "(0xFF :: u32) = mask 8" by (simp add: mask_eq_exp_minus_1)
  show "bit (shift8 r w AND 0xFF) n = bit (ucast (pack_msb w) :: u32) n"
    unfolding m by (auto simp: shift8_def take_bit_24 bit_and_iff bit_mask_iff bit_take_bit_iff bit_or_iff bit_push_bit_iff bit_ucast_iff
        dest: bit_imp_le_length)
qed

lemma ucast_8_inj: "(ucast x :: u32) = ucast y \<longleftrightarrow> x = y" for x y :: u8
proof
  assume eq: "(ucast x :: u32) = ucast y"
  show "x = y"
  proof (rule bit_word_eqI)
    fix n assume "n < LENGTH(8)"
    moreover have "bit (ucast x :: u32) n = bit (ucast y :: u32) n" using eq by simp
    ultimately show "bit x n = bit y n" by (simp add: bit_ucast_iff)
  qed
qed simp

lemma scan_sync_byte8:
  assumes "length w = 8" and "\<forall>b \<in> set w. is_bit b" and "d_decoded_bits d = 0"
  shows "argos_scan_sync i (w @ rest) d =
    (let d1 = d\<lparr>d_shift_reg := shift8 (d_shift_reg d) w, d_dec_b := pack_msb w\<rparr>
     in if pack_msb w \<noteq> sync_flag then (Some (i + 7), d1\<lparr>d_decoded_bits := 8\<rparr>)
        else argos_scan_sync (i + 8) rest d1)"
proof -
  let ?a = "take 7 w" and ?b = "w ! 7"
  have w: "w = ?a @ [?b]" using assms(1) take_Suc_conv_app_nth [of 7 w] by simp
  let ?d = "(fold argos_decode_1b ?a d)\<lparr>d_decoded_bits := 7\<rparr>"
  have "argos_scan_sync i (w @ rest) d = argos_scan_sync i (?a @ (?b # rest)) d" by (subst w) simp
  also have "\<dots> = argos_scan_sync (i + 7) (?b # rest) ?d"
    using scan_sync_fold [of 0 ?a d i "?b # rest"] assms by simp
  finally have s: "argos_scan_sync i (w @ rest) d = argos_scan_sync (i + 7) (?b # rest) ?d" .
  have "argos_decode_1b ?b (fold argos_decode_1b ?a d) = fold argos_decode_1b w d" by (subst (3) w) simp
  then have d: "argos_decode_1b ?b ?d = (d\<lparr>d_shift_reg := shift8 (d_shift_reg d) w, d_dec_b := pack_msb w\<rparr>)\<lparr>d_decoded_bits := 7\<rparr>"
    unfolding decode_byte_regs [OF assms(1,2)] decode_1b_bits by simp
  have "(ucast (pack_msb w) :: u32) = ucast sync_flag \<longleftrightarrow> pack_msb w = sync_flag"
    by (rule ucast_8_inj)
  moreover have e: "d\<lparr>d_shift_reg := x, d_dec_b := y, d_decoded_bits := 0\<rparr> = d\<lparr>d_shift_reg := x, d_dec_b := y\<rparr>" for x y
    using assms(3) by (cases d) auto
  ultimately show ?thesis unfolding s using low_byte_shift8 [OF assms(1), of "d_shift_reg d"] assms(3)
    by (simp add: Let_def d add.commute e)
qed

text \<open>The register after \<open>p\<close> flags: its upper byte is a flag as soon as \<open>p\<close> is at least 3.\<close>

definition regs_after :: "nat \<Rightarrow> u32" where
  "regs_after p = ((\<lambda>r. shift8 r flag_bits) ^^ p) 0"

lemma scan_sync_flags8:
  "d_decoded_bits d = 0 \<Longrightarrow> d_shift_reg d = regs_after q \<Longrightarrow>
   \<exists>db. argos_scan_sync i (concat (replicate p flag_bits) @ rest) d =
     argos_scan_sync (i + 8 * p) rest (d\<lparr>d_shift_reg := regs_after (q + p), d_dec_b := db\<rparr>)"
proof (induction p arbitrary: i d q)
  case 0
  then have "d\<lparr>d_shift_reg := regs_after q, d_dec_b := d_dec_b d\<rparr> = d" by simp
  then show ?case by (intro exI [of _ "d_dec_b d"]) simp
next
  case (Suc p)
  let ?d = "d\<lparr>d_shift_reg := shift8 (d_shift_reg d) flag_bits, d_dec_b := pack_msb flag_bits\<rparr>"
  have "argos_scan_sync i (concat (replicate (Suc p) flag_bits) @ rest) d =
      argos_scan_sync (i + 8) (concat (replicate p flag_bits) @ rest) ?d"
    using scan_sync_byte8 [of flag_bits d i "concat (replicate p flag_bits) @ rest"] Suc.prems
    by (simp add: flag_bits_def pack_msb_def sync_flag_def Let_def)
  moreover have "d_shift_reg ?d = regs_after (Suc q)" using Suc.prems by (simp add: regs_after_def)
  then obtain db where "argos_scan_sync (i + 8) (concat (replicate p flag_bits) @ rest) ?d =
      argos_scan_sync (i + 8 + 8 * p) rest (?d\<lparr>d_shift_reg := regs_after (Suc q + p), d_dec_b := db\<rparr>)"
    using Suc.IH [of ?d "Suc q" "i + 8"] Suc.prems by auto
  ultimately show ?case by (intro exI [of _ db]) (simp add: add.assoc)
qed

lemma upper_byte:
  assumes "length w = 8"
  shows "drop_bit 16 (shift8 (regs_after p) w) AND 0xfc = 0x7c \<longleftrightarrow> 2 \<le> p"
proof -
  have f: "shift8 0 flag_bits = 0x7e" "shift8 0x7e flag_bits = 0x7e7e" "shift8 0x7e7e flag_bits = 0x7e7e7e"
    "shift8 0x7e7e7e flag_bits = 0x7e7e7e"
    by (simp_all add: shift8_def flag_bits_def pack_msb_def)
  have three: "regs_after (3 + k) = 0x7e7e7e" for k
    by (induction k) (simp_all add: regs_after_def f numeral_eq_Suc)
  have two: "regs_after 2 = 0x7e7e" "regs_after (Suc 0) = 0x7e" "regs_after 0 = 0"
    by (simp_all add: regs_after_def f numeral_eq_Suc)
  have up: "drop_bit 16 (shift8 r w) = drop_bit 8 r AND 0xFF" for r
  proof (rule bit_word_eqI)
    fix n assume n: "n < LENGTH(32)"
    have m: "(0xFF :: u32) = mask 8" by (simp add: mask_eq_exp_minus_1)
    show "bit (drop_bit 16 (shift8 r w)) n = bit (drop_bit 8 r AND 0xFF) n"
      unfolding m using n
      by (auto simp: shift8_def take_bit_24 bit_drop_bit_eq bit_and_iff bit_mask_iff bit_take_bit_iff bit_or_iff
          bit_push_bit_iff bit_ucast_iff dest: bit_imp_le_length)
  qed
  consider "p = 0" | "p = 1" | "p = 2" | "3 \<le> p" by linarith
  then show ?thesis
  proof cases
    case 4
    then obtain k where "p = 3 + k" using le_Suc_ex by blast
    then show ?thesis by (simp add: up three)
  qed (simp_all add: up two)
qed

text \<open>After the three flags that start the synchronisation, \<open>p\<close> more flags and the first byte of
  a frame: with at most one more flag the byte is stored and the frame follows in step; with two
  or more of them the test for a stuffed bit reads the bits of an old flag (\<open>d_shift_reg >> 16\<close>,
  while new bits enter at the other end), a bit of the frame is dropped and every byte of it is
  read one bit late.\<close>

theorem argos_first_byte:
  assumes "d_state d = IN_SYNC" and "d_shift_reg d = 0" and "d_start_idx d = 0" and "d_decoded_bits d = 0"
    and "d_bitstream d = concat (replicate p flag_bits) @ w @ rest"
    and "length w = 8" and "\<forall>b \<in> set w. is_bit b" and "pack_msb w \<noteq> sync_flag"
    and "length (d_frame_buffer d) = d_max_frame_len d + 2"
  shows "\<exists>d'. argos_iteration now (d, st) = Inr (Continue (d', st)) \<and> d_state d' = DECODING \<and>
    d_start_idx d' = 8 * p + 8 \<and>
    (if p \<le> 1 then d_received_bytes d' = 1 \<and> d_decoded_bits d' = 0 \<and> d_frame_buffer d' ! 0 = pack_msb w
     else d_received_bytes d' = 0 \<and> d_decoded_bits d' = 7 \<and> d_dec_b d' = drop_bit 1 (pack_msb w))"
proof -
  have "d_shift_reg d = regs_after 0" using assms(2) by (simp add: regs_after_def)
  then obtain db where "argos_scan_sync 0 (concat (replicate p flag_bits) @ w @ rest) d =
      argos_scan_sync (8 * p) (w @ rest) (d\<lparr>d_shift_reg := regs_after p, d_dec_b := db\<rparr>)"
    using scan_sync_flags8 [OF assms(4), of 0 0 p "w @ rest"] by auto
  also have "\<dots> = (Some (8 * p + 7), d\<lparr>d_shift_reg := shift8 (regs_after p) w, d_dec_b := pack_msb w, d_decoded_bits := 8\<rparr>)"
    using scan_sync_byte8 [OF assms(6,7), of "d\<lparr>d_shift_reg := regs_after p, d_dec_b := db\<rparr>" "8 * p" rest] assms(4,8)
    by (simp add: Let_def)
  finally have scan: "argos_scan_sync (d_start_idx d) (drop (d_start_idx d) (d_bitstream d)) d =
      (Some (8 * p + 7), d\<lparr>d_shift_reg := shift8 (regs_after p) w, d_dec_b := pack_msb w, d_decoded_bits := 8\<rparr>)"
    by (simp add: assms(3,5))
  show ?thesis
    using assms(1,9) upper_byte [OF assms(6), of p] scan
    by (cases "p \<le> 1") (simp_all add: argos_iteration_def argos_in_sync_def argos_enter_decoding_state_def buf_simps)
qed

definition synced_argos :: "nat \<Rightarrow> argos_ldr_decoder" where
  "synced_argos p = (argos_new 1 (\<lambda>_. 0) True 64)\<lparr>d_state := IN_SYNC,
     d_bitstream := concat (replicate p flag_bits) @ unpack_msb 0xA5\<rparr>"

theorem argos_first_byte_witness:
  "(\<exists>d'. argos_iteration ''now'' (synced_argos 1, status_new) = Inr (Continue (d', status_new)) \<and>
     d_received_bytes d' = 1) \<and>
   (\<exists>d'. argos_iteration ''now'' (synced_argos 2, status_new) = Inr (Continue (d', status_new)) \<and>
     d_received_bytes d' = 0)"
proof -
  have p: "d_state (synced_argos p) = IN_SYNC" "d_shift_reg (synced_argos p) = 0" "d_start_idx (synced_argos p) = 0"
    "d_decoded_bits (synced_argos p) = 0"
    "d_bitstream (synced_argos p) = concat (replicate p flag_bits) @ unpack_msb 0xA5 @ []"
    "length (d_frame_buffer (synced_argos p)) = d_max_frame_len (synced_argos p) + 2" for p
    by (simp_all add: synced_argos_def argos_new_def argos_ldr_decoder.defs decoder_base.defs)
  have w: "length (unpack_msb 0xA5) = 8" "\<forall>b \<in> set (unpack_msb 0xA5). is_bit b" "pack_msb (unpack_msb 0xA5) \<noteq> sync_flag"
    using unpack_msb_bits by (auto simp: sync_flag_def)
  note f = argos_first_byte [OF p(1-5) w p(6), where now = "''now''" and st = status_new]
  show ?thesis using f [of 1] f [of 2] by auto
qed

end
