(* ===== verification/Frame_Blocks.thy ===== *)
theory Frame_Blocks
  imports Ieee_Encoder Ax25_Encoder Ax25_Decoder Argos_Decoder
begin

text \<open>
  \<open>lib/frame_decoder_impl.cc\<close>, \<open>lib/frame_encoder_impl.cc\<close> and \<open>lib/encoder.cc\<close>: the blocks that
  run any decoder or encoder behind the virtual interface. The interface is the record
  \<open>decoder_vtable\<close>, its contract the locale \<open>decoder_contract\<close>, interpreted on the decoders of
  the development. GNU Radio message ports are the lists of published messages.
\<close>

unbundle bit_operations_syntax

section \<open>The decoder block\<close>

text \<open>
  The virtual functions of the class \<open>decoder\<close>, as the block calls them. \<open>decode\<close> is \<open>None\<close> when
  it does not return.
\<close>

record 'd decoder_vtable =
  vt_decode :: "'d \<Rightarrow> u8 list \<Rightarrow> ('d \<times> decoder_status) res option"
  vt_reset :: "'d \<Rightarrow> 'd res"
  vt_input_multiple :: nat
  vt_sizeof_input_item :: "'d \<Rightarrow> int"

record 'd frame_decoder =
  d_decoder :: 'd
  d_output_multiple :: nat

definition frame_decoder_new :: "'d decoder_vtable \<Rightarrow> 'd \<Rightarrow> int \<Rightarrow> 'd frame_decoder res" where
  "frame_decoder_new V decoder_object input_size =
     (if input_size \<noteq> vt_sizeof_input_item V decoder_object
      then Inl (Invalid_argument ''frame_decoder: Size mismatch between the block input and the decoder'')
      else Inr \<lparr>d_decoder = decoder_object, d_output_multiple = vt_input_multiple V\<rparr>)"

definition frame_decoder_reset :: "'d decoder_vtable \<Rightarrow> 'd frame_decoder \<Rightarrow> 'd frame_decoder res" where
  "frame_decoder_reset V f = res_bind (vt_reset V (d_decoder f)) (\<lambda>d. Inr (f\<lparr>d_decoder := d\<rparr>))"

text \<open>\<open>work\<close>: the number of items consumed, the messages published and the new state.\<close>

definition frame_decoder_work ::
    "'d decoder_vtable \<Rightarrow> 'd frame_decoder \<Rightarrow> u8 list \<Rightarrow> (int \<times> dict list \<times> 'd frame_decoder) res option" where
  "frame_decoder_work V f inp =
     (case vt_decode V (d_decoder f) inp of
        None \<Rightarrow> None
      | Some (Inl e) \<Rightarrow> Some (Inl e)
      | Some (Inr (d, status)) \<Rightarrow>
          Some (Inr (consumed status, if decode_success status then [data status] else [], f\<lparr>d_decoder := d\<rparr>)))"

text \<open>
  The runtime calls \<open>work\<close> with what is available as long as that is at least the output
  multiple, and drops what was consumed. \<open>feed\<close> returns the items left over and everything
  published; its first argument bounds the number of calls.
\<close>

fun feed ::
    "nat \<Rightarrow> 'd decoder_vtable \<Rightarrow> 'd frame_decoder \<Rightarrow> u8 list \<Rightarrow>
     (u8 list \<times> dict list \<times> 'd frame_decoder) res option" where
  "feed n V f inp =
     (if length inp < d_output_multiple f \<or> inp = [] then Some (Inr (inp, [], f))
      else case n of
        0 \<Rightarrow> None
      | Suc n \<Rightarrow>
          (case frame_decoder_work V f inp of
             None \<Rightarrow> None
           | Some (Inl e) \<Rightarrow> Some (Inl e)
           | Some (Inr (c, ms, f1)) \<Rightarrow>
               (case feed n V f1 (drop (nat c) inp) of
                  Some (Inr (rest, ms', f2)) \<Rightarrow> Some (Inr (rest, ms @ ms', f2))
                | r \<Rightarrow> r)))"

declare feed.simps [simp del]

section \<open>What the block needs of a decoder\<close>

text \<open>
  The contract of \<open>decode\<close>: called in a legal state with at least \<open>input_multiple\<close> items, and with
  one at least, it returns, stays legal and consumes some of the items.
\<close>

locale decoder_contract =
  fixes V :: "'d decoder_vtable"
    and inv :: "'d \<Rightarrow> bool"
  assumes progress: "inv d \<Longrightarrow> vt_input_multiple V \<le> length inp \<Longrightarrow> inp \<noteq> [] \<Longrightarrow>
    \<exists>d' st. vt_decode V d inp = Some (Inr (d', st)) \<and> inv d' \<and> 0 < consumed st \<and> consumed st \<le> int (length inp)"
begin

lemma feed_drains:
  "inv (d_decoder f) \<Longrightarrow> d_output_multiple f = vt_input_multiple V \<Longrightarrow> length inp \<le> n \<Longrightarrow>
   \<exists>rest ms f'. feed n V f inp = Some (Inr (rest, ms, f')) \<and> inv (d_decoder f') \<and>
     d_output_multiple f' = vt_input_multiple V \<and> (length rest < vt_input_multiple V \<or> rest = []) \<and>
     (\<exists>k \<le> length inp. rest = drop k inp)"
proof (induction n arbitrary: f inp)
  case 0
  then show ?case by (simp add: feed.simps)
next
  case (Suc n)
  show ?case
  proof (cases "length inp < d_output_multiple f \<or> inp = []")
    case True
    then have "feed (Suc n) V f inp = Some (Inr (inp, [], f))" by (subst feed.simps) simp
    then show ?thesis using True Suc.prems by (auto intro!: exI [of _ 0])
  next
    case False
    obtain d' st where d: "vt_decode V (d_decoder f) inp = Some (Inr (d', st))" "inv d'"
      "0 < consumed st" "consumed st \<le> int (length inp)"
      using progress [OF Suc.prems(1), of inp] False Suc.prems(2) by auto
    let ?f = "f\<lparr>d_decoder := d'\<rparr>" and ?c = "nat (consumed st)"
    have "length (drop ?c inp) \<le> n" using d(3,4) Suc.prems(3) by simp
    then obtain rest ms f' where r: "feed n V ?f (drop ?c inp) = Some (Inr (rest, ms, f'))" "inv (d_decoder f')"
      "d_output_multiple f' = vt_input_multiple V" "length rest < vt_input_multiple V \<or> rest = []"
      "\<exists>k \<le> length (drop ?c inp). rest = drop k (drop ?c inp)"
      using Suc.IH [of ?f "drop ?c inp"] d(2) Suc.prems(2) by auto
    then obtain k where k: "k \<le> length (drop ?c inp)" "rest = drop (k + ?c) inp" by auto
    have "k + ?c \<le> length inp" using k(1) d(4) by simp
    moreover have "\<exists>ms'. feed (Suc n) V f inp = Some (Inr (rest, ms', f'))"
      using False d(1) r(1) by (subst feed.simps) (simp add: frame_decoder_work_def)
    ultimately show ?thesis using r(2-4) k(2) by blast
  qed
qed

end

section \<open>The decoders fulfil it\<close>

definition ieee_vtable :: "'l lfsr_ops \<Rightarrow> bool \<Rightarrow> string \<Rightarrow> 'l ieee_decoder decoder_vtable" where
  "ieee_vtable L be now = \<lparr>vt_decode = (\<lambda>d inp. Some (ieee_decode L be now d inp)), vt_reset = ieee_reset L,
     vt_input_multiple = ieee_input_multiple, vt_sizeof_input_item = d_sizeof_in\<rparr>"

definition ax25_vtable :: "'l lfsr_ops \<Rightarrow> string \<Rightarrow> 'l ax25_decoder decoder_vtable" where
  "ax25_vtable L now = \<lparr>vt_decode = ax25_decode L now, vt_reset = (\<lambda>d. Inr (ax25_reset d)),
     vt_input_multiple = 1, vt_sizeof_input_item = d_sizeof_in\<rparr>"

definition argos_vtable :: "string \<Rightarrow> argos_ldr_decoder decoder_vtable" where
  "argos_vtable now = \<lparr>vt_decode = argos_decode now, vt_reset = (\<lambda>d. Inr (argos_reset d)),
     vt_input_multiple = 1, vt_sizeof_input_item = d_sizeof_in\<rparr>"

interpretation ieee_block: decoder_contract "ieee_vtable L be now" ieee_inv for L be now
  by unfold_locales (use ieee_decode_ok in \<open>fastforce simp: ieee_vtable_def ieee_input_multiple_def\<close>)

interpretation ax25_block: decoder_contract "ax25_vtable L now" ax25_inv for L :: "'l lfsr_ops" and now
proof unfold_locales
  fix d :: "'l ax25_decoder" and inp :: "u8 list"
  assume "ax25_inv d" "inp \<noteq> []"
  then show "\<exists>d' st. vt_decode (ax25_vtable L now) d inp = Some (Inr (d', st)) \<and> ax25_inv d' \<and>
      0 < consumed st \<and> consumed st \<le> int (length inp)"
    using ax25_decode_result [of d L now inp] by (auto simp: ax25_vtable_def ax25_post_def)
qed

interpretation argos_block: decoder_contract "argos_vtable now" argos_inv for now
proof unfold_locales
  fix d :: argos_ldr_decoder and inp :: "u8 list"
  assume "argos_inv d" "inp \<noteq> []"
  then show "\<exists>d' st. vt_decode (argos_vtable now) d inp = Some (Inr (d', st)) \<and> argos_inv d' \<and>
      0 < consumed st \<and> consumed st \<le> int (length inp)"
    using argos_decode_result [of d now inp] by (auto simp: argos_vtable_def argos_post_def argos_loop_inv_def)
qed

text \<open>C23: The frame decoder block is live with each of the three decoders: from a legal decoder, a
  stream of any contents is consumed by repeated calls of \<open>work\<close>, at most one per item, up to a
  rest shorter than the multiple the decoder asks for; the rest is the end of the stream.\<close>

theorem frame_decoder_live:
  assumes "frame_decoder_new (ieee_vtable L be now) d1 sz1 = Inr f1" and "ieee_inv d1"
    and "frame_decoder_new (ax25_vtable L now) d2 sz2 = Inr f2" and "ax25_inv d2"
    and "frame_decoder_new (argos_vtable now) d3 sz3 = Inr f3" and "argos_inv d3"
  shows "(\<exists>k ms f'. feed (length inp) (ieee_vtable L be now) f1 inp = Some (Inr (drop k inp, ms, f')) \<and>
      k \<le> length inp \<and> length inp < k + 8) \<and>
    (\<exists>ms f'. feed (length inp) (ax25_vtable L now) f2 inp = Some (Inr ([], ms, f'))) \<and>
    (\<exists>ms f'. feed (length inp) (argos_vtable now) f3 inp = Some (Inr ([], ms, f')))"
proof -
  have f: "d_decoder f1 = d1" "d_output_multiple f1 = vt_input_multiple (ieee_vtable L be now)" "d_decoder f2 = d2"
    "d_output_multiple f2 = vt_input_multiple (ax25_vtable L now)" "d_decoder f3 = d3"
    "d_output_multiple f3 = vt_input_multiple (argos_vtable now)"
    using assms(1,3,5) by (auto simp: frame_decoder_new_def split: if_splits)
  have m: "vt_input_multiple (ieee_vtable L be now) = 8" "vt_input_multiple (ax25_vtable L now) = 1"
    "vt_input_multiple (argos_vtable now) = 1"
    by (simp_all add: ieee_vtable_def ax25_vtable_def argos_vtable_def ieee_input_multiple_def)
  note a = ieee_block.feed_drains [of f1 L be now inp "length inp"]
    and b = ax25_block.feed_drains [of f2 L now inp "length inp"]
    and c = argos_block.feed_drains [of f3 now inp "length inp"]
  have "\<exists>k ms f'. feed (length inp) (ieee_vtable L be now) f1 inp = Some (Inr (drop k inp, ms, f')) \<and>
      k \<le> length inp \<and> length inp < k + 8"
    using a f m(1) assms(2) by fastforce
  moreover have "\<exists>ms f'. feed (length inp) (ax25_vtable L now) f2 inp = Some (Inr ([], ms, f'))"
    using b f m(2) assms(4) by fastforce
  moreover have "\<exists>ms f'. feed (length inp) (argos_vtable now) f3 inp = Some (Inr ([], ms, f'))"
    using c f m(3) assms(6) by fastforce
  ultimately show ?thesis by blast
qed

theorem frame_decoder_live_witness:
  "(\<exists>k ms f'. feed 20 (ieee_vtable fib_lfsr False ''now'')
      \<lparr>d_decoder = example_ieee True 255, d_output_multiple = 8\<rparr> (replicate 20 1) = Some (Inr (drop k (replicate 20 1), ms, f')) \<and>
      k \<le> 20 \<and> 20 < k + 8) \<and>
    (\<exists>ms f'. feed 20 (argos_vtable ''now'') \<lparr>d_decoder = argos_new 1 (\<lambda>_. 0) True 64, d_output_multiple = 1\<rparr> (replicate 20 1) =
      Some (Inr ([], ms, f')))"
proof -
  let ?A = "ax25_decoder_new fib_lfsr 1 (\<lambda>_. 0) False True True 512 False"
  have new: "frame_decoder_new (ieee_vtable fib_lfsr False ''now'') (example_ieee True 255) (d_sizeof_in (example_ieee True 255)) =
      Inr \<lparr>d_decoder = example_ieee True 255, d_output_multiple = 8\<rparr>"
    "frame_decoder_new (ax25_vtable fib_lfsr ''now'') ?A (d_sizeof_in ?A) = Inr \<lparr>d_decoder = ?A, d_output_multiple = 1\<rparr>"
    "frame_decoder_new (argos_vtable ''now'') (argos_new 1 (\<lambda>_. 0) True 64) (d_sizeof_in (argos_new 1 (\<lambda>_. 0) True 64)) =
      Inr \<lparr>d_decoder = argos_new 1 (\<lambda>_. 0) True 64, d_output_multiple = 1\<rparr>"
    by (simp_all add: frame_decoder_new_def ieee_vtable_def ax25_vtable_def argos_vtable_def ieee_input_multiple_def)
  have inv: "ieee_inv (example_ieee True 255)" by (rule example_ieee_inv) simp_all
  show ?thesis
    using frame_decoder_live [OF new(1) inv new(2) ax25_decoder_new_inv new(3) argos_new_inv, of "replicate 20 1"] by simp
qed

section \<open>The encoder block\<close>

text \<open>\<open>encode\<close> is a virtual function; the encoder may change state.\<close>

definition frame_encoder_encode ::
    "('e \<Rightarrow> pmt \<Rightarrow> (pmt \<times> 'e) res) \<Rightarrow> 'e \<Rightarrow> pmt \<Rightarrow> (pmt list \<times> 'e) res" where
  "frame_encoder_encode enc e pdu = res_bind (enc e pdu) (\<lambda>(m, e1). Inr ([m], e1))"

text \<open>The base class of the encoders only numbers its objects.\<close>

definition encoder_new :: "int \<Rightarrow> int \<times> int" where
  "encoder_new base_unique_id = (base_unique_id, base_unique_id + 1)"

end
