(* ===== verification/Reed_Solomon.thy ===== *)
theory Reed_Solomon
  imports Prelude
begin

text \<open>
  The Reed-Solomon codec of \<open>lib/libfec\<close>: the control block (\<open>init_rs.h\<close>), the encoder and the
  decoder (\<open>encode_rs.h\<close>, \<open>decode_rs.h\<close>), which the C code includes into functions that supply
  macros, and the entry points for bytes: general (\<open>*_char.c\<close>), CCSDS (\<open>*_8.c\<close>) and CCSDS in the
  dual basis (\<open>*_ccsds.c\<close>). Tables are indexed with what the code computes; the loops are
  folds over the index ranges of the \<open>for\<close> loops.
\<close>

unbundle bit_operations_syntax

section \<open>Reduction modulo the order of the field\<close>

text \<open>
  \<open>modnn\<close> of \<open>rs-common.h\<close>. The member \<open>nn\<close> of the control block is set once, to
  \<open>(1 << symsize) - 1\<close>, and is written out here. \<open>init_rs\<close> accepts no code with \<open>mm = 0\<close>,
  for which the loop would not end.
\<close>

lemma masked_sum:
  fixes y :: int
  assumes "0 \<le> y"
  shows "y AND (2 ^ k - 1) = y mod 2 ^ k" "drop_bit k y = y div 2 ^ k"
    "drop_bit k y + (y AND (2 ^ k - 1)) \<le> y" "0 \<le> drop_bit k y + (y AND (2 ^ k - 1))"
proof -
  show m: "y AND (2 ^ k - 1) = y mod 2 ^ k"
    by (simp add: mask_eq_exp_minus_1 [symmetric] take_bit_eq_mask [symmetric] take_bit_eq_mod)
  show d: "drop_bit k y = y div 2 ^ k" by (rule drop_bit_eq_div)
  have "0 \<le> y div 2 ^ k" using assms by (simp add: pos_imp_zdiv_nonneg_iff)
  then have "y div 2 ^ k \<le> y div 2 ^ k * 2 ^ k" using mult_left_mono [of 1 "2 ^ k" "y div 2 ^ k"] by simp
  then have "y div 2 ^ k + y mod 2 ^ k \<le> y div 2 ^ k * 2 ^ k + y mod 2 ^ k" by (rule add_right_mono)
  then show "drop_bit k y + (y AND (2 ^ k - 1)) \<le> y" unfolding m d div_mult_mod_eq .
  show "0 \<le> drop_bit k y + (y AND (2 ^ k - 1))" unfolding m d using assms by (simp add: pos_imp_zdiv_nonneg_iff)
qed

function modnn :: "nat \<Rightarrow> int \<Rightarrow> int" where
  "modnn mm x =
     (if 0 < mm \<and> 2 ^ mm - 1 \<le> x
      then modnn mm (drop_bit mm (x - (2 ^ mm - 1)) + ((x - (2 ^ mm - 1)) AND (2 ^ mm - 1)))
      else x)"
  by pat_completeness auto
termination
proof (relation "measure (\<lambda>(mm, x). nat x)", simp)
  fix mm :: nat and x :: int
  assume a: "0 < mm \<and> 2 ^ mm - 1 \<le> x"
  let ?y = "x - (2 ^ mm - 1)"
  have "(2 :: int) ^ 1 \<le> 2 ^ mm" using a by (intro power_increasing) simp_all
  then have "?y < x" "0 \<le> ?y" using a by simp_all
  then show "((mm, drop_bit mm ?y + (?y AND (2 ^ mm - 1))), mm, x) \<in> measure (\<lambda>(mm, x). nat x)"
    using masked_sum [of ?y mm] by simp
qed

declare modnn.simps [simp del]

text \<open>\<open>mod255\<close> of \<open>fixed.h\<close>.\<close>

function mod255 :: "int \<Rightarrow> int" where
  "mod255 x = (if 255 \<le> x then mod255 (drop_bit 8 (x - 255) + ((x - 255) AND 255)) else x)"
  by pat_completeness auto
termination
proof (relation "measure nat", simp)
  fix x :: int
  assume "255 \<le> x"
  then show "(drop_bit 8 (x - 255) + ((x - 255) AND 255), x) \<in> measure nat"
    using masked_sum [of "x - 255" 8] by simp
qed

declare mod255.simps [simp del]

lemma mod255_modnn: "mod255 x = modnn 8 x"
proof (induction x rule: mod255.induct)
  case (1 x)
  then show ?case by (subst mod255.simps, subst modnn.simps) simp
qed

lemma fold_mod: "(y div 2 ^ k + y mod 2 ^ k) mod (2 ^ k - 1) = y mod (2 ^ k - 1)" for y :: int
proof -
  have "y = y div 2 ^ k * (2 ^ k - 1) + (y div 2 ^ k + y mod 2 ^ k)"
    by (simp add: algebra_simps)
  then show ?thesis by (metis mod_mult_self3)
qed

lemma modnn_mod: "0 < mm \<Longrightarrow> 0 \<le> x \<Longrightarrow> modnn mm x = x mod (2 ^ mm - 1)"
proof (induction mm x rule: modnn.induct)
  case (1 mm x)
  let ?y = "x - (2 ^ mm - 1)"
  show ?case
  proof (cases "2 ^ mm - 1 \<le> x")
    case True
    then have "modnn mm x = modnn mm (drop_bit mm ?y + (?y AND (2 ^ mm - 1)))"
      using 1 by (subst modnn.simps) simp
    also have "\<dots> = (drop_bit mm ?y + (?y AND (2 ^ mm - 1))) mod (2 ^ mm - 1)"
      using 1 True masked_sum [of ?y mm] by (intro "1.IH") simp_all
    also have "\<dots> = ?y mod (2 ^ mm - 1)"
      using True masked_sum [of ?y mm] fold_mod [of ?y mm] by simp
    also have "\<dots> = x mod (2 ^ mm - 1)" by (simp add: mod_diff_eq [symmetric])
    finally show ?thesis .
  next
    case False
    then show ?thesis using 1 by (subst modnn.simps) simp
  qed
qed

lemma mod255_mod: "0 \<le> x \<Longrightarrow> mod255 x = x mod 255"
  using modnn_mod [of 8 x] by (simp add: mod255_modnn)

section \<open>The control block\<close>

record rs =
  rs_mm :: nat
  rs_nn :: nat
  rs_alpha_to :: "u8 list"
  rs_index_of :: "u8 list"
  rs_genpoly :: "u8 list"
  rs_nroots :: nat
  rs_fcr :: nat
  rs_prim :: nat
  rs_iprim :: nat
  rs_pad :: nat

text \<open>The loop that fills the logarithm tables: \<open>sr\<close> runs through the powers of alpha.\<close>

definition gf_next :: "nat \<Rightarrow> nat \<Rightarrow> nat \<Rightarrow> nat" where
  "gf_next symsize gfpoly sr =
     (let sr1 = push_bit 1 sr;
          sr2 = (if sr1 AND push_bit symsize 1 \<noteq> 0 then sr1 XOR gfpoly else sr1)
      in sr2 AND (2 ^ symsize - 1))"

fun gf_tables :: "nat \<Rightarrow> nat \<Rightarrow> nat \<Rightarrow> nat \<Rightarrow> nat \<Rightarrow> u8 list \<times> u8 list \<Rightarrow> nat \<times> u8 list \<times> u8 list" where
  "gf_tables symsize gfpoly i 0 sr (index_of, alpha_to) = (sr, index_of, alpha_to)"
| "gf_tables symsize gfpoly i (Suc n) sr (index_of, alpha_to) =
     gf_tables symsize gfpoly (i + 1) n (gf_next symsize gfpoly sr)
       (index_of[sr := of_nat i], alpha_to[i := of_nat sr])"

text \<open>\<open>iprim\<close>: the residues modulo \<open>prim\<close> repeat after \<open>prim\<close> steps; \<open>None\<close> is a loop that does not end.\<close>

fun find_iprim :: "nat \<Rightarrow> nat \<Rightarrow> nat \<Rightarrow> nat \<Rightarrow> nat option" where
  "find_iprim 0 prim nn iprim = None"
| "find_iprim (Suc n) prim nn iprim =
     (if iprim mod prim = 0 then Some iprim else find_iprim n prim nn (iprim + nn))"

text \<open>Multiplying the generator polynomial in place by \<open>x + alpha^root\<close>, from degree \<open>j\<close> down.\<close>

fun gen_inner :: "(nat \<Rightarrow> u8) \<Rightarrow> u8 list \<Rightarrow> nat \<Rightarrow> nat \<Rightarrow> u8 list \<Rightarrow> u8 list" where
  "gen_inner alpha index_of root 0 g = g[0 := alpha (unat (index_of ! unat (g ! 0)) + root)]"
| "gen_inner alpha index_of root (Suc j) g =
     gen_inner alpha index_of root j
       (g[Suc j := if g ! Suc j \<noteq> 0
                   then g ! j XOR alpha (unat (index_of ! unat (g ! Suc j)) + root)
                   else g ! j])"

fun gen_loop :: "(nat \<Rightarrow> u8) \<Rightarrow> u8 list \<Rightarrow> nat \<Rightarrow> nat \<Rightarrow> nat \<Rightarrow> nat \<Rightarrow> u8 list \<Rightarrow> u8 list" where
  "gen_loop alpha index_of prim i root 0 g = g"
| "gen_loop alpha index_of prim i root (Suc n) g =
     gen_loop alpha index_of prim (i + 1) (root + prim) n
       (gen_inner alpha index_of root i (g[i + 1 := 1]))"

text \<open>
  \<open>init_rs_char\<close>: the outer option is \<open>None\<close> when the search for \<open>iprim\<close> does not end, the
  inner one when the parameters are rejected. The allocations are assumed to succeed; the
  generator polynomial is allocated uninitialised and written before it is read.
\<close>

definition init_rs :: "int \<Rightarrow> nat \<Rightarrow> int \<Rightarrow> int \<Rightarrow> int \<Rightarrow> int \<Rightarrow> rs option option" where
  "init_rs symsize gfpoly fcr prim nroots pad =
     (if symsize < 0 \<or> 8 < symsize then Some None
      else let m = nat symsize; n1 = 2 ^ m :: int in
      if fcr < 0 \<or> n1 \<le> fcr then Some None
      else if prim \<le> 0 \<or> n1 \<le> prim then Some None
      else if nroots < 0 \<or> n1 \<le> nroots then Some None
      else if pad < 0 \<or> n1 - 1 - nroots \<le> pad then Some None
      else let nn = 2 ^ m - 1 :: nat;
               index0 = (replicate (nn + 1) 0)[0 := of_nat nn];
               alpha0 = (replicate (nn + 1) 0)[nn := 0];
               (sr, index_of, alpha_to) = gf_tables m gfpoly 0 nn 1 (index0, alpha0)
           in if sr \<noteq> 1 then Some None
              else (case find_iprim (nat prim) (nat prim) nn 1 of
                  None \<Rightarrow> None
                | Some iprim \<Rightarrow>
                    let alpha = (\<lambda>x. alpha_to ! nat (modnn m (int x)));
                        g0 = (replicate (nat nroots + 1) 0)[0 := 1];
                        g = gen_loop alpha index_of (nat prim) 0 (nat fcr * nat prim) (nat nroots) g0
                    in Some (Some \<lparr>rs_mm = m, rs_nn = nn, rs_alpha_to = alpha_to, rs_index_of = index_of,
                         rs_genpoly = map (\<lambda>x. index_of ! unat x) g, rs_nroots = nat nroots,
                         rs_fcr = nat fcr, rs_prim = nat prim, rs_iprim = iprim div nat prim, rs_pad = nat pad\<rparr>)))"

section \<open>The macros of the codecs\<close>

text \<open>
  \<open>encode_rs.h\<close> and \<open>decode_rs.h\<close> are included into a function that supplies these macros.
  Symbols are bytes; a symbol in index form is a natural number, with \<open>A0 = NN\<close> for zero.
\<close>

record rs_macros =
  NN :: nat
  ALPHA_TO :: "u8 list"
  INDEX_OF :: "u8 list"
  GENPOLY :: "u8 list"
  NROOTS :: nat
  FCR :: nat
  PRIM :: nat
  IPRIM :: nat
  MODNN :: "int \<Rightarrow> int"

text \<open>\<open>char.h\<close>: the macros read the control block.\<close>

definition char_macros :: "rs \<Rightarrow> rs_macros" where
  "char_macros r = \<lparr>NN = rs_nn r, ALPHA_TO = rs_alpha_to r, INDEX_OF = rs_index_of r,
     GENPOLY = rs_genpoly r, NROOTS = rs_nroots r, FCR = rs_fcr r, PRIM = rs_prim r, IPRIM = rs_iprim r,
     MODNN = modnn (rs_mm r)\<rparr>"

text \<open>
  \<open>fixed.h\<close>: the CCSDS code. Its tables are printed by \<open>gen_ccsds.c\<close> from the control block of
  \<open>init_rs_char(8, 0x187, 112, 11, 32, 0)\<close>.
\<close>

definition ccsds_block :: rs where
  "ccsds_block = the (the (init_rs 8 0x187 112 11 32 0))"

definition fixed_macros :: rs_macros where
  "fixed_macros = \<lparr>NN = 255, ALPHA_TO = rs_alpha_to ccsds_block, INDEX_OF = rs_index_of ccsds_block,
     GENPOLY = rs_genpoly ccsds_block, NROOTS = 32, FCR = 112, PRIM = 11, IPRIM = 116, MODNN = mod255\<rparr>"

definition alpha :: "rs_macros \<Rightarrow> int \<Rightarrow> u8" where
  "alpha C x = ALPHA_TO C ! nat (MODNN C x)"

definition index :: "rs_macros \<Rightarrow> u8 \<Rightarrow> nat" where
  "index C a = unat (INDEX_OF C ! unat a)"

section \<open>Encoding\<close>

text \<open>One step of the loop over the data: feedback, the exclusive ors, the shift.\<close>

definition rs_encode_step :: "rs_macros \<Rightarrow> u8 \<Rightarrow> u8 list \<Rightarrow> u8 list" where
  "rs_encode_step C d parity =
     (let feedback = index C (d XOR parity ! 0);
          parity1 = (if feedback \<noteq> NN C
            then map (\<lambda>j. if j = 0 then parity ! 0
                          else parity ! j XOR alpha C (int feedback + int (unat (GENPOLY C ! (NROOTS C - j)))))
                   [0..<NROOTS C]
            else parity)
      in tl parity1 @
         [if feedback \<noteq> NN C then alpha C (int feedback + int (unat (GENPOLY C ! 0))) else 0])"

definition encode_rs :: "rs_macros \<Rightarrow> nat \<Rightarrow> u8 list \<Rightarrow> u8 list" where
  "encode_rs C pad data =
     fold (rs_encode_step C) (take (NN C - NROOTS C - pad) data) (replicate (NROOTS C) 0)"

section \<open>Decoding\<close>

text \<open>The syndromes: Horner's scheme at the roots of the generator polynomial.\<close>

definition rs_syndrome_step :: "rs_macros \<Rightarrow> u8 \<Rightarrow> u8 list \<Rightarrow> u8 list" where
  "rs_syndrome_step C d s =
     map (\<lambda>i. if s ! i = 0 then d
              else d XOR alpha C (int (index C (s ! i)) + int ((FCR C + i) * PRIM C))) [0..<NROOTS C]"

definition rs_syndromes :: "rs_macros \<Rightarrow> nat \<Rightarrow> u8 list \<Rightarrow> u8 list" where
  "rs_syndromes C pad data =
     fold (rs_syndrome_step C) (map ((!) data) [1..<NN C - pad]) (replicate (NROOTS C) (data ! 0))"

text \<open>The erasure locator polynomial.\<close>

fun rs_erasure_inner :: "rs_macros \<Rightarrow> int \<Rightarrow> nat \<Rightarrow> u8 list \<Rightarrow> u8 list" where
  "rs_erasure_inner C u 0 lam = lam"
| "rs_erasure_inner C u (Suc j) lam =
     rs_erasure_inner C u j
       (let tmp = index C (lam ! j)
        in if tmp \<noteq> NN C then lam[Suc j := lam ! Suc j XOR alpha C (u + int tmp)] else lam)"

definition rs_erasures :: "rs_macros \<Rightarrow> int list \<Rightarrow> u8 list" where
  "rs_erasures C eras =
     (let lam = 1 # replicate (NROOTS C) 0;
          u = (\<lambda>e. MODNN C (int (PRIM C) * (int (NN C) - 1 - e)))
      in case eras of
           [] \<Rightarrow> lam
         | e # es \<Rightarrow>
             fold (\<lambda>(i, e) lam. rs_erasure_inner C (u e) (i + 1) lam) (zip [1..<length eras] es)
               (lam[1 := alpha C (int (PRIM C) * (int (NN C) - 1 - e))]))"

text \<open>
  The Berlekamp-Massey iteration. State: \<open>el\<close>, the locator \<open>lam\<close> in polynomial form and \<open>b\<close>
  in index form; \<open>s\<close> are the syndromes in index form.
\<close>

definition rs_discrepancy :: "rs_macros \<Rightarrow> nat list \<Rightarrow> nat \<Rightarrow> u8 list \<Rightarrow> u8" where
  "rs_discrepancy C s r lam =
     fold (\<lambda>i acc. if lam ! i \<noteq> 0 \<and> s ! (r - i - 1) \<noteq> NN C
                   then acc XOR alpha C (int (index C (lam ! i)) + int (s ! (r - i - 1))) else acc)
       [0..<r] 0"

definition rs_bm_step ::
    "rs_macros \<Rightarrow> nat list \<Rightarrow> nat \<Rightarrow> nat \<Rightarrow> nat \<times> u8 list \<times> nat list \<Rightarrow> nat \<times> u8 list \<times> nat list" where
  "rs_bm_step C s no_eras r = (\<lambda>(el, lam, b).
     let discr = index C (rs_discrepancy C s r lam)
     in if discr = NN C then (el, lam, NN C # butlast b)
        else let t = lam ! 0 # map (\<lambda>i. if b ! i \<noteq> NN C then lam ! (i + 1) XOR alpha C (int discr + int (b ! i))
                                        else lam ! (i + 1)) [0..<NROOTS C]
             in if 2 * el \<le> r + no_eras - 1
                then (r + no_eras - el, t,
                      map (\<lambda>i. if lam ! i = 0 then NN C
                               else nat (MODNN C (int (index C (lam ! i)) - int discr + int (NN C)))) [0..<NROOTS C + 1])
                else (el, t, NN C # butlast b))"

definition rs_locator :: "rs_macros \<Rightarrow> nat list \<Rightarrow> int list \<Rightarrow> u8 list" where
  "rs_locator C s eras =
     (let lam = rs_erasures C eras; k = length eras
      in fst (snd (fold (rs_bm_step C s k) [k + 1..<NROOTS C + 1] (k, lam, map (index C) lam))))"

definition rs_degree :: "rs_macros \<Rightarrow> nat list \<Rightarrow> nat" where
  "rs_degree C lam = fold (\<lambda>i deg. if lam ! i \<noteq> NN C then i else deg) [0..<NROOTS C + 1] 0"

text \<open>Chien search; \<open>lam\<close> and \<open>reg\<close> are in index form, \<open>reg ! j\<close> belongs to degree \<open>j\<close>.\<close>

fun rs_chien ::
    "rs_macros \<Rightarrow> nat \<Rightarrow> nat \<Rightarrow> nat \<Rightarrow> nat \<Rightarrow> nat list \<Rightarrow> (nat \<times> nat) list \<Rightarrow> (nat \<times> nat) list" where
  "rs_chien C deg i k 0 reg found = found"
| "rs_chien C deg i k (Suc n) reg found =
     (let reg1 = map (\<lambda>j. if 0 < j \<and> j \<le> deg \<and> reg ! j \<noteq> NN C then nat (MODNN C (int (reg ! j) + int j)) else reg ! j)
                   [0..<length reg];
          q = fold (\<lambda>j q. if reg1 ! j \<noteq> NN C then q XOR ALPHA_TO C ! (reg1 ! j) else q) (rev [1..<deg + 1]) 1;
          next = nat (MODNN C (int k + int (IPRIM C)))
      in if q \<noteq> 0 then rs_chien C deg (i + 1) next n reg1 found
         else let found1 = found @ [(i, k)]
              in if length found1 = deg then found1 else rs_chien C deg (i + 1) next n reg1 found1)"

text \<open>The evaluator polynomial, in index form.\<close>

definition rs_omega :: "rs_macros \<Rightarrow> nat list \<Rightarrow> nat list \<Rightarrow> nat \<Rightarrow> nat list" where
  "rs_omega C s lam deg =
     map (\<lambda>i. index C (fold (\<lambda>j tmp. if s ! (i - j) \<noteq> NN C \<and> lam ! j \<noteq> NN C
                                      then tmp XOR alpha C (int (s ! (i - j)) + int (lam ! j)) else tmp)
                         (rev [0..<i + 1]) 0)) [0..<deg]"

text \<open>The error value at one root and its application to the data.\<close>

definition rs_correct ::
    "rs_macros \<Rightarrow> nat \<Rightarrow> nat list \<Rightarrow> nat list \<Rightarrow> nat \<Rightarrow> nat \<times> nat \<Rightarrow> u8 list \<Rightarrow> u8 list" where
  "rs_correct C pad lam omega deg = (\<lambda>(root, loc) data.
     let num1 = fold (\<lambda>i acc. if omega ! i \<noteq> NN C then acc XOR alpha C (int (omega ! i) + int (i * root)) else acc)
                  (rev [0..<deg]) 0;
         num2 = alpha C (int root * (int (FCR C) - 1) + int (NN C));
         den = fold (\<lambda>i acc. if lam ! (i + 1) \<noteq> NN C then acc XOR alpha C (int (lam ! (i + 1)) + int (i * root)) else acc)
                 (rev (filter even [0..<min deg (NROOTS C - 1) + 1])) 0
     in if num1 \<noteq> 0 \<and> pad \<le> loc
        then data[loc - pad := data ! (loc - pad) XOR
               alpha C (int (index C num1) + int (index C num2) + int (NN C) - int (index C den))]
        else data)"

text \<open>
  The decoder: the return value, the data and, when \<open>eras_pos\<close> is not \<open>NULL\<close>, the positions
  written back to it. \<open>no_eras\<close> is the length of the list of erasures.
\<close>

definition decode_rs ::
    "rs_macros \<Rightarrow> nat \<Rightarrow> int list \<Rightarrow> u8 list \<Rightarrow> int \<times> u8 list \<times> nat list" where
  "decode_rs C pad eras data =
     (let syn = rs_syndromes C pad data
      in if fold (OR) syn 0 = 0 then (0, data, [])
         else let s = map (index C) syn;
                  lam = map (index C) (rs_locator C s eras);
                  deg = rs_degree C lam;
                  found = rs_chien C deg 1 (IPRIM C - 1) (NN C) lam []
              in if deg \<noteq> length found then (-1, data, [])
                 else let omega = rs_omega C s lam deg
                      in (int (length found), fold (rs_correct C pad lam omega deg) (rev found) data, map snd found))"

section \<open>The entry points\<close>

definition encode_rs_char :: "rs \<Rightarrow> u8 list \<Rightarrow> u8 list" where
  "encode_rs_char r data = encode_rs (char_macros r) (rs_pad r) data"

definition decode_rs_char :: "rs \<Rightarrow> int list \<Rightarrow> u8 list \<Rightarrow> int \<times> u8 list \<times> nat list" where
  "decode_rs_char r eras data = decode_rs (char_macros r) (rs_pad r) eras data"

text \<open>Without AltiVec every branch of \<open>encode_rs_8\<close> ends in the portable version.\<close>

definition encode_rs_8 :: "u8 list \<Rightarrow> nat \<Rightarrow> u8 list" where
  "encode_rs_8 data pad = encode_rs fixed_macros pad data"

definition decode_rs_8 :: "u8 list \<Rightarrow> int list \<Rightarrow> int \<Rightarrow> int \<times> u8 list \<times> nat list" where
  "decode_rs_8 data eras pad =
     (if pad < 0 \<or> 222 < pad then (-1, data, []) else decode_rs fixed_macros (nat pad) eras data)"

text \<open>
  \<open>gen_ccsds_tal.c\<close>: the tables of the dual basis, and the wrappers that convert to it and back.
  When nothing was corrected, \<open>decode_rs_ccsds\<close> leaves the data as they are.
\<close>

definition tal :: "u8 list" where
  "tal = [0x8d, 0xef, 0xec, 0x86, 0xfa, 0x99, 0xaf, 0x7b]"

definition taltab_entry :: "nat \<Rightarrow> u8" where
  "taltab_entry i =
     fold (\<lambda>j x. fold (\<lambda>k x. if i AND push_bit k 1 \<noteq> 0 then x XOR (tal ! (7 - k) AND push_bit j 1) else x) [0..<8] x)
       [0..<8] 0"

definition Taltab :: "u8 list" where
  "Taltab = map taltab_entry [0..<256]"

definition Tal1tab :: "u8 list" where
  "Tal1tab = fold (\<lambda>i t. t[unat (Taltab ! i) := of_nat i]) [0..<256] (replicate 256 0)"

definition encode_rs_ccsds :: "u8 list \<Rightarrow> nat \<Rightarrow> u8 list" where
  "encode_rs_ccsds data pad =
     (let cdata = map (\<lambda>x. Tal1tab ! unat x) (take (255 - 32 - pad) data)
      in map (\<lambda>x. Taltab ! unat x) (encode_rs_8 cdata pad))"

definition decode_rs_ccsds :: "u8 list \<Rightarrow> int list \<Rightarrow> int \<Rightarrow> int \<times> u8 list \<times> nat list" where
  "decode_rs_ccsds data eras pad =
     (let n = nat (255 - pad);
          cdata = map (\<lambda>x. Tal1tab ! unat x) (take n data);
          (r, cdata1, pos) = decode_rs_8 cdata eras pad
      in (r, if 0 < r then map (\<lambda>x. Taltab ! unat x) (take n cdata1) @ drop n data else data, pos))"

end
