(* ===== verification/Rs_Field.thy ===== *)
theory Rs_Field
  imports Reed_Solomon
begin

text \<open>
  The field of the CCSDS code: bytes with exclusive or and multiplication by alpha. The theory shows
  that alpha generates the nonzero bytes, that \<open>gf_tables\<close> computes its powers and logarithms,
  and the Vandermonde argument on which the distance of the code rests.
\<close>

unbundle bit_operations_syntax

section \<open>The field of the CCSDS code\<close>

text \<open>Multiplication by alpha; \<open>0x187\<close> is the field generator polynomial.\<close>

definition xt :: "u8 \<Rightarrow> u8" where
  "xt a = (if bit a 7 then push_bit 1 a XOR 0x87 else push_bit 1 a)"

abbreviation X :: "nat \<Rightarrow> u8 \<Rightarrow> u8" where
  "X k \<equiv> xt ^^ k"

lemma xt_0 [simp]: "xt 0 = 0"
  by (simp add: xt_def)

lemma xt_lin: "xt (a XOR b) = xt a XOR xt b"
  by (rule bit_word_eqI) (auto simp: xt_def bit_simps)

lemma X_0 [simp]: "X k 0 = 0"
  by (induction k) simp_all

lemma X_lin: "X k (a XOR b) = X k a XOR X k b"
  by (induction k) (simp_all add: xt_lin)

lemma X_add: "X (j + k) a = X j (X k a)"
  by (simp add: funpow_add)

lemma X_comm: "X j (X k a) = X k (X j a)"
  by (simp add: X_add [symmetric] add.commute)

lemma funpow_numeral: "(f ^^ numeral k) x = (f ^^ pred_numeral k) (f x)"
  by (simp add: numeral_eq_Suc funpow_swap1)

lemma powers:
  "X 15 1 = 0xF4" "X 51 1 = 0x6C" "X 85 1 = 0xAA" "X 255 1 = 1"
  by (simp_all add: funpow_numeral xt_def)

lemma gf_next_xt: "gf_next 8 0x187 (unat w) = unat (xt w)"
proof (rule bit_eqI)
  fix n
  have e: "sr2 AND (2 ^ 8 - 1) = take_bit 8 sr2" for sr2 :: nat
    by (simp add: take_bit_eq_mask mask_eq_exp_minus_1)
  have u: "bit (unat w) k \<longleftrightarrow> k < 8 \<and> bit w k" for w :: u8 and k
    by (auto simp: bit_unsigned_iff dest: bit_imp_le_length)
  have s: "bit (push_bit 1 (unat w)) k \<longleftrightarrow> 1 \<le> k \<and> k - 1 < 8 \<and> bit w (k - 1)" for k
    unfolding bit_push_bit_iff_nat u ..
  have c: "push_bit 1 (unat w) AND push_bit 8 1 \<noteq> 0 \<longleftrightarrow> bit w 7"
    using and_exp_eq_0_iff_not_bit [of "push_bit 1 (unat w)" 8] s [of 8] by (simp add: push_bit_of_1)
  have p: "bit (0x187 :: nat) k \<longleftrightarrow> bit (0x87 :: u8) k" if "k < 8" for k
    using that by (rule all_upto_8) simp
  have x: "bit (xt w) n \<longleftrightarrow> n < 8 \<and> ((1 \<le> n \<and> bit w (n - 1)) \<noteq> (bit w 7 \<and> bit (0x87 :: u8) n))"
    by (auto simp: xt_def bit_xor_iff bit_shl1 dest: bit_imp_le_length)
  show "bit (gf_next 8 0x187 (unat w)) n = bit (unat (xt w)) n"
    unfolding gf_next_def Let_def e c u x bit_take_bit_iff using p s by (auto simp only: bit_xor_iff if_True if_False simp_thms split: if_splits)
qed

lemma X_1_nonzero: "X k 1 \<noteq> 0"
proof (induction k)
  case (Suc k)
  have "xt a = 0 \<Longrightarrow> a = 0" for a
  proof -
    assume "xt a = 0"
    then have b: "\<not> bit (xt a) n" for n by simp
    have "\<not> bit a 7" using b [of 0] by (auto simp: xt_def bit_xor_iff bit_shl1)
    then have "xt a = push_bit 1 a" by (simp add: xt_def)
    then have "\<not> bit a n" if "n < 7" for n using b [of "Suc n"] that by (simp add: bit_shl1)
    with \<open>\<not> bit a 7\<close> have "\<not> bit a n" if "n < 8" for n using that by (cases "n = 7") simp_all
    then show "a = 0" by (intro bit_word_eqI) simp
  qed
  then show ?case using Suc by auto
qed simp

lemma X_period_1: "X (255 * q + r) 1 = X r 1"
proof (induction q)
  case (Suc q)
  have "X (255 * Suc q + r) 1 = X (255 * q + r) (X 255 1)" by (simp only: X_add [symmetric]) (simp add: algebra_simps)
  then show ?case using Suc powers(4) by simp
qed simp

lemma X_mod_1: "X (n mod 255) 1 = X n 1"
  using X_period_1 [of "n div 255" "n mod 255"] by simp

text \<open>The order of alpha is 255: its powers below that are distinct and are all nonzero bytes.\<close>

lemma divisors_255: "list_all (\<lambda>g. g dvd 255 \<longrightarrow> g dvd 15 \<or> g dvd 51 \<or> g dvd (85 :: nat)) [0..<255]"
  by code_simp

lemma X_order:
  assumes "0 < k" and "k < 255"
  shows "X k 1 \<noteq> 1"
proof
  assume e: "X k 1 = 1"
  have m: "X (k * j) 1 = 1" for j
  proof (induction j)
    case (Suc j)
    then show ?case using e by (simp add: X_add)
  qed simp
  let ?g = "gcd k 255"
  obtain a b where "k * a = 255 * b + ?g" using bezout_nat [of k 255] assms(1) by auto
  then have g1: "X ?g 1 = 1" using m [of a] X_period_1 [of b ?g] by simp
  have gm: "X (?g * j) 1 = 1" for j
  proof (induction j)
    case (Suc j)
    then show ?case using g1 by (simp add: X_add)
  qed simp
  have "?g dvd 255" "?g < 255" using assms by (auto intro: le_less_trans [OF gcd_le1_nat])
  then have "?g dvd 15 \<or> ?g dvd 51 \<or> ?g dvd 85" using divisors_255 by (auto simp: list_all_iff)
  moreover have "X n 1 = 1" if "?g dvd n" for n using that gm by (auto elim!: dvdE)
  ultimately have "X 15 1 = 1 \<or> X 51 1 = 1 \<or> X 85 1 = 1" by blast
  then show False by (simp add: powers)
qed

lemma X_inj: "i < 255 \<Longrightarrow> j < 255 \<Longrightarrow> X i 1 = X j 1 \<Longrightarrow> i = j"
proof (induction i j rule: linorder_wlog)
  case (le i j)
  show ?case
  proof (rule ccontr)
    assume "i \<noteq> j"
    then have k: "0 < j - i" "j - i < 255" using le by simp_all
    have "X (255 - i + i) 1 = X (255 - i + j) 1" unfolding X_add using le by simp
    moreover have "255 - i + j = 255 * 1 + (j - i)" using le by simp
    moreover have "255 - i + i = 255" using le by simp
    ultimately have "X (j - i) 1 = 1" using X_period_1 [of 1 "j - i"] powers(4) by (simp only: mult_1_right)
    then show False using X_order [OF k] by simp
  qed
next
  case (sym i j)
  then show ?case by simp
qed

lemma X_surj:
  assumes "a \<noteq> 0"
  obtains i where "i < 255" "a = X i 1"
proof -
  let ?P = "(\<lambda>i. X i 1) ` {0..<255}"
  have "inj_on (\<lambda>i. X i 1) {0..<255}" using X_inj by (auto simp: inj_on_def)
  then have "card ?P = 255" by (simp add: card_image)
  moreover have "card (UNIV - {0 :: u8}) = 255" by (simp add: card_word)
  moreover have "?P \<subseteq> UNIV - {0}" using X_1_nonzero by auto
  ultimately have "?P = UNIV - {0}" by (intro card_subset_eq) simp_all
  then have "a \<in> ?P" using assms by blast
  then show thesis using that by auto
qed

lemma X_period: "X (255 * q + r) a = X r a"
proof (cases "a = 0")
  case False
  then obtain i where "a = X i 1" using X_surj by blast
  then show ?thesis using X_period_1 [of q "r + i"] by (simp add: X_add [symmetric] add.assoc)
qed simp

lemma X_mod: "X (n mod 255) a = X n a"
  using X_period [of "n div 255" "n mod 255" a] by simp

section \<open>The tables\<close>

lemma gf_tables_ok:
  "n + i = 255 \<Longrightarrow> length ix = 256 \<Longrightarrow> length al = 256 \<Longrightarrow> sr = unat (X i 1) \<Longrightarrow>
   (\<forall>k < i. al ! k = X k 1 \<and> ix ! unat (X k 1) = of_nat k) \<Longrightarrow> al ! 255 = 0 \<Longrightarrow> ix ! 0 = 255 \<Longrightarrow>
   \<exists>ix' al'. gf_tables 8 0x187 i n sr (ix, al) = (1, ix', al') \<and> length ix' = 256 \<and> length al' = 256 \<and>
     (\<forall>k < 255. al' ! k = X k 1 \<and> ix' ! unat (X k 1) = of_nat k) \<and> al' ! 255 = 0 \<and> ix' ! 0 = 255"
proof (induction n arbitrary: i sr ix al)
  case 0
  then show ?case using powers(4) by simp
next
  case (Suc n)
  have lt: "unat (X i 1) < 256" using unsigned_less [of "X i 1"] by simp
  have nz: "unat (X i 1) \<noteq> 0" using X_1_nonzero [of i] by (simp add: unat_eq_0)
  have "X k 1 \<noteq> X i 1" if "k < i" for k using X_inj [of k i] that Suc.prems(1) by auto
  then have ne: "unat (X i 1) \<noteq> unat (X k 1)" if "k < i" for k using that unsigned_word_eqI by metis
  have "gf_next 8 0x187 sr = unat (X (i + 1) 1)" using Suc.prems(4) by (simp add: gf_next_xt)
  then show ?case
    using Suc.prems lt nz ne
    by (subst gf_tables.simps, intro Suc.IH) (auto simp: nth_list_update less_Suc_eq)
qed

lemma X_eq_0 [simp]: "X k a = 0 \<longleftrightarrow> a = 0"
proof
  assume z: "X k a = 0"
  show "a = 0"
  proof (rule ccontr)
    assume "a \<noteq> 0"
    then obtain i where "a = X i 1" using X_surj by blast
    then show False using z X_1_nonzero [of "k + i"] by (simp add: X_add)
  qed
qed simp

lemma X_cancel:
  assumes "X i a = X j a" and "a \<noteq> 0"
  shows "i mod 255 = j mod 255"
proof -
  obtain k where k: "k < 255" "a = X k 1" using X_surj [OF assms(2)] by blast
  have "X (i + k) 1 = X (j + k) 1" using assms(1) by (simp add: X_add k(2))
  then have "X ((i + k) mod 255) 1 = X ((j + k) mod 255) 1" by (simp only: X_mod_1)
  then have "(i + k) mod 255 = (j + k) mod 255" by (intro X_inj) simp_all
  then have "((i + k) mod 255 + (255 - k)) mod 255 = ((j + k) mod 255 + (255 - k)) mod 255" by simp
  then have "(i + k + (255 - k)) mod 255 = (j + k + (255 - k)) mod 255" by (simp only: mod_add_left_eq)
  moreover have "m + k + (255 - k) = m + 255" for m using k(1) by simp
  ultimately show ?thesis by simp
qed

text \<open>Sums in the field are exclusive ors.\<close>

definition xsum :: "('a \<Rightarrow> u8) \<Rightarrow> 'a list \<Rightarrow> u8" where
  "xsum f js = foldr (\<lambda>j acc. f j XOR acc) js 0"

lemma xsum_simps [simp]:
  "xsum f [] = 0" "xsum f (j # js) = f j XOR xsum f js"
  by (simp_all add: xsum_def)

lemma xsum_append: "xsum f (xs @ ys) = xsum f xs XOR xsum f ys"
  by (induction xs) (simp_all add: xor.assoc)

lemma xsum_cong: "(\<And>j. j \<in> set js \<Longrightarrow> f j = g j) \<Longrightarrow> xsum f js = xsum g js"
  by (induction js) simp_all

lemma xsum_xor: "xsum (\<lambda>j. f j XOR g j) js = xsum f js XOR xsum g js"
  by (induction js) (simp_all add: ac_simps)

lemma xsum_X: "X k (xsum f js) = xsum (\<lambda>j. X k (f j)) js"
  by (induction js) (simp_all add: X_lin)

lemma xsum_zero: "(\<And>j. j \<in> set js \<Longrightarrow> f j = 0) \<Longrightarrow> xsum f js = 0"
  by (induction js) simp_all

lemma xsum_upt_Suc: "xsum f [0..<Suc n] = f 0 XOR xsum (\<lambda>j. f (Suc j)) [0..<n]"
proof -
  have "xsum f (map Suc js) = xsum (\<lambda>j. f (Suc j)) js" for js by (induction js) simp_all
  then have "xsum f [Suc 0..<Suc n] = xsum (\<lambda>j. f (Suc j)) [0..<n]" by (simp only: map_Suc_upt [symmetric])
  then show ?thesis by (simp only: upt_conv_Cons [of 0 "Suc n"] zero_less_Suc xsum_simps) 
qed

lemma xsum_upt_last: "xsum f [0..<Suc n] = xsum f [0..<n] XOR f n"
  by (simp add: xsum_append)

lemma xsum_filter: "(\<And>j. j \<in> set js \<Longrightarrow> \<not> P j \<Longrightarrow> f j = 0) \<Longrightarrow> xsum f (filter P js) = xsum f js"
  by (induction js) auto

text \<open>
  Vandermonde: a combination of at most \<open>n\<close> distinct powers that vanishes for \<open>n\<close> consecutive
  exponents is trivial.
\<close>

lemma vandermonde:
  "distinct js \<Longrightarrow> (\<And>j j'. j \<in> set js \<Longrightarrow> j' \<in> set js \<Longrightarrow> e j mod 255 = e j' mod 255 \<Longrightarrow> j = j') \<Longrightarrow>
   length js \<le> n \<Longrightarrow> (\<And>i. i < n \<Longrightarrow> xsum (\<lambda>j. X (e j * i) (c j)) js = 0) \<Longrightarrow> \<forall>j \<in> set js. c j = 0"
proof (induction js arbitrary: c n)
  case Nil
  then show ?case by simp
next
  case (Cons m js)
  obtain k where n: "n = Suc k" "length js \<le> k" using Cons.prems(3) by (cases n) auto
  define c' where "c' = (\<lambda>j. X (e j) (c j) XOR X (e m) (c j))"
  have "xsum (\<lambda>j. X (e j * i) (c' j)) js = 0" if i: "i < k" for i
  proof -
    have "xsum (\<lambda>j. X (e j * Suc i) (c j)) (m # js) XOR X (e m) (xsum (\<lambda>j. X (e j * i) (c j)) (m # js)) = 0"
      using Cons.prems(4) [of "Suc i"] Cons.prems(4) [of i] i n(1) by simp
    then have "xsum (\<lambda>j. X (e j * Suc i) (c j) XOR X (e m) (X (e j * i) (c j))) (m # js) = 0"
      by (simp only: xsum_X xsum_xor)
    moreover have "X (e j * Suc i) (c j) XOR X (e m) (X (e j * i) (c j)) = X (e j * i) (c' j)" for j
      unfolding c'_def X_lin by (simp add: X_add X_comm add.commute)
    ultimately have "X (e m * i) (c' m) XOR xsum (\<lambda>j. X (e j * i) (c' j)) js = 0" by simp
    moreover have "c' m = 0" by (simp add: c'_def)
    ultimately show ?thesis by simp
  qed
  then have c'0: "\<forall>j \<in> set js. c' j = 0"
    using Cons.prems(1,2) n(2) by (intro Cons.IH) auto
  have zero: "c j = 0" if "j \<in> set js" for j
  proof (rule ccontr)
    assume "c j \<noteq> 0"
    have "X (e j) (c j) = X (e m) (c j)" using c'0 that by (auto simp: c'_def xor_eq_0)
    then have "e j mod 255 = e m mod 255" using \<open>c j \<noteq> 0\<close> by (rule X_cancel)
    then have "j = m" using that by (intro Cons.prems(2)) simp_all
    then show False using Cons.prems(1) that by simp
  qed
  have "xsum (\<lambda>j. X (e j * 0) (c j)) (m # js) = 0" using Cons.prems(4) [of 0] n(1) by simp
  then have "c m XOR xsum c js = 0" by simp
  moreover have "xsum c js = 0" using zero by (intro xsum_zero) simp
  ultimately show ?case using zero by simp
qed

end
