(* ===== verification/Rs_Code.thy ===== *)
theory Rs_Code
  imports Rs_Field
begin

text \<open>
  The CCSDS Reed-Solomon code: \<open>init_rs\<close> builds the generator polynomial with the 32 roots it
  should have, the encoder appends the remainder, the syndromes of the decoder are the values of
  the block at the roots. An encoded block is accepted, and the code has distance 33.
\<close>

unbundle bit_operations_syntax

section \<open>Multiplying the generator polynomial\<close>

text \<open>The value of a polynomial, lowest degree first, at a power of alpha.\<close>

definition peval :: "u8 list \<Rightarrow> nat \<Rightarrow> u8" where
  "peval g r = xsum (\<lambda>j. X (r * j) (g ! j)) [0..<length g]"

definition log_table :: "u8 list \<Rightarrow> bool" where
  "log_table ix \<longleftrightarrow> (\<forall>k < 255. ix ! unat (X k 1) = of_nat k) \<and> ix ! 0 = 255"

lemma log_table_nonzero:
  assumes "log_table ix" and "a \<noteq> 0"
  shows "X (unat (ix ! unat a)) 1 = a" "unat (ix ! unat a) < 255"
proof -
  obtain i where i: "i < 255" "a = X i 1" using X_surj [OF assms(2)] by blast
  then have "unat (ix ! unat a) = i" using assms(1) by (simp add: log_table_def unat_of_nat)
  then show "X (unat (ix ! unat a)) 1 = a" "unat (ix ! unat a) < 255" using i by simp_all
qed

lemma log_table_times:
  assumes "log_table ix" and "a \<noteq> 0"
  shows "X (unat (ix ! unat a) + n) 1 = X n a"
proof -
  have "X (unat (ix ! unat a) + n) 1 = X n (X (unat (ix ! unat a)) 1)"
    unfolding X_add by (rule X_comm)
  then show ?thesis by (simp only: log_table_nonzero(1) [OF assms])
qed

lemma gen_inner_nth:
  assumes "log_table ix" and "j < length g" and "g ! 0 \<noteq> 0"
  shows "gen_inner (\<lambda>x. X x 1) ix root j g =
    map (\<lambda>i. if j < i then g ! i else if i = 0 then X root (g ! 0) else g ! (i - 1) XOR X root (g ! i)) [0..<length g]"
  using assms(2,3)
proof (induction j arbitrary: g)
  case 0
  then have "X (unat (ix ! unat (g ! 0)) + root) 1 = X root (g ! 0)" by (intro log_table_times [OF assms(1)])
  then have "gen_inner (\<lambda>x. X x 1) ix root 0 g = g[0 := X root (g ! 0)]" by (simp only: gen_inner.simps)
  then show ?case using 0 by (intro nth_equalityI) (simp_all add: nth_list_update)
next
  case (Suc j)
  let ?g = "g[Suc j := if g ! Suc j \<noteq> 0 then g ! j XOR X (unat (ix ! unat (g ! Suc j)) + root) 1 else g ! j]"
  have "g ! Suc j \<noteq> 0 \<Longrightarrow> X (unat (ix ! unat (g ! Suc j)) + root) 1 = X root (g ! Suc j)"
    by (rule log_table_times [OF assms(1)])
  then have s: "?g = g[Suc j := g ! j XOR X root (g ! Suc j)]" by simp
  have "gen_inner (\<lambda>x. X x 1) ix root (Suc j) g = gen_inner (\<lambda>x. X x 1) ix root j (g[Suc j := g ! j XOR X root (g ! Suc j)])"
    by (simp only: gen_inner.simps s)
  also have "\<dots> = map (\<lambda>i. if j < i then g[Suc j := g ! j XOR X root (g ! Suc j)] ! i
      else if i = 0 then X root (g[Suc j := g ! j XOR X root (g ! Suc j)] ! 0)
      else g[Suc j := g ! j XOR X root (g ! Suc j)] ! (i - 1) XOR X root (g[Suc j := g ! j XOR X root (g ! Suc j)] ! i))
      [0..<length g]"
    using Suc.prems by (subst Suc.IH) simp_all
  also have "\<dots> = map (\<lambda>i. if Suc j < i then g ! i else if i = 0 then X root (g ! 0) else g ! (i - 1) XOR X root (g ! i)) [0..<length g]"
    using Suc.prems by (intro map_cong) (auto simp: nth_list_update not_less_eq less_Suc_eq)
  finally show ?case .
qed

text \<open>The generator after \<open>i\<close> roots: monic of degree \<open>i\<close>, constant term nonzero, zero at the roots so far.\<close>

definition gen_inv :: "nat \<Rightarrow> nat \<Rightarrow> nat \<Rightarrow> nat \<Rightarrow> u8 list \<Rightarrow> bool" where
  "gen_inv n r0 p i g \<longleftrightarrow> length g = n + 1 \<and> g ! i = 1 \<and> (\<forall>j. i < j \<longrightarrow> j \<le> n \<longrightarrow> g ! j = 0) \<and> g ! 0 \<noteq> 0 \<and>
     (\<forall>t < i. peval g (r0 + t * p) = 0)"

lemma gen_inner_eval:
  assumes "log_table ix" and "g ! i = 1" and "\<forall>j. i < j \<longrightarrow> j \<le> n \<longrightarrow> g ! j = 0" and "g ! 0 \<noteq> 0"
    and "length g = n + 1" and "i < n"
  shows "peval (gen_inner (\<lambda>x. X x 1) ix root i (g[i + 1 := 1])) r = X r (peval g r) XOR X root (peval g r)"
proof -
  let ?g = "gen_inner (\<lambda>x. X x 1) ix root i (g[i + 1 := 1])"
  have len: "length ?g = n + 1"
    using assms by (subst gen_inner_nth) simp_all
  have nth: "?g ! j = (if j = 0 then X root (g ! 0) else g ! (j - 1) XOR X root (g ! j))" if "j \<le> n" for j
    using assms that by (subst gen_inner_nth) (auto simp: nth_list_update nth_append)
  have "peval ?g r = xsum (\<lambda>j. X (r * j) (if j = 0 then 0 else g ! (j - 1)) XOR X (r * j) (X root (g ! j))) [0..<n + 1]"
    unfolding peval_def len using nth by (intro xsum_cong) (auto simp: X_lin)
  also have "\<dots> = xsum (\<lambda>j. X (r * j) (if j = 0 then 0 else g ! (j - 1))) [0..<n + 1]
      XOR xsum (\<lambda>j. X (r * j) (X root (g ! j))) [0..<n + 1]"
    by (rule xsum_xor)
  also have "xsum (\<lambda>j. X (r * j) (X root (g ! j))) [0..<n + 1] = X root (peval g r)"
    unfolding peval_def assms(5) xsum_X by (intro xsum_cong) (simp add: X_comm)
  also have "xsum (\<lambda>j. X (r * j) (if j = 0 then 0 else g ! (j - 1))) [0..<n + 1] =
      xsum (\<lambda>j. X (r * Suc j) (g ! j)) [0..<n]"
    unfolding Suc_eq_plus1 [symmetric] xsum_upt_Suc by simp
  also have "\<dots> = X r (xsum (\<lambda>j. X (r * j) (g ! j)) [0..<n])"
    unfolding xsum_X by (intro xsum_cong) (simp add: X_add)
  also have "xsum (\<lambda>j. X (r * j) (g ! j)) [0..<n] = peval g r"
    unfolding peval_def assms(5) Suc_eq_plus1 [symmetric] xsum_upt_last using assms(3,6) by simp
  finally show ?thesis .
qed

lemma gen_loop_inv:
  "log_table ix \<Longrightarrow> gen_inv n r0 p i g \<Longrightarrow> i + m = n \<Longrightarrow>
   gen_inv n r0 p n (gen_loop (\<lambda>x. X x 1) ix p i (r0 + i * p) m g)"
proof (induction m arbitrary: i g)
  case 0
  then show ?case by simp
next
  case (Suc m)
  let ?g = "gen_inner (\<lambda>x. X x 1) ix (r0 + i * p) i (g[i + 1 := 1])"
  have inv: "length g = n + 1" "g ! i = 1" "\<forall>j. i < j \<longrightarrow> j \<le> n \<longrightarrow> g ! j = 0" "g ! 0 \<noteq> 0"
    "\<forall>t < i. peval g (r0 + t * p) = 0"
    using Suc.prems(2) by (simp_all add: gen_inv_def)
  have lt: "i < n" using Suc.prems(3) by simp
  have ev: "peval ?g r = X r (peval g r) XOR X (r0 + i * p) (peval g r)" for r
    by (rule gen_inner_eval [OF Suc.prems(1) inv(2,3,4,1) lt])
  have "gen_inv n r0 p (Suc i) ?g"
    unfolding gen_inv_def
  proof (intro conjI)
    show "\<forall>t < Suc i. peval ?g (r0 + t * p) = 0" unfolding ev using inv(5) by (auto simp: less_Suc_eq)
  qed (use Suc.prems inv lt in \<open>auto simp: gen_inner_nth nth_list_update nth_append\<close>)
  then have "gen_inv n r0 p n (gen_loop (\<lambda>x. X x 1) ix p (Suc i) (r0 + Suc i * p) m ?g)"
    using Suc.prems by (intro Suc.IH) simp_all
  then show ?case by (simp add: add.commute add.left_commute)
qed
section \<open>The CCSDS control block\<close>

lemma find_iprim_11: "find_iprim 11 11 255 1 = Some 1276"
  by code_simp

lemma init_rs_ccsds:
  "\<exists>ix al g. init_rs 8 0x187 112 11 32 0 = Some (Some \<lparr>rs_mm = 8, rs_nn = 255, rs_alpha_to = al, rs_index_of = ix,
       rs_genpoly = map (\<lambda>x. ix ! unat x) g, rs_nroots = 32, rs_fcr = 112, rs_prim = 11, rs_iprim = 116, rs_pad = 0\<rparr>) \<and>
     log_table ix \<and> length al = 256 \<and> (\<forall>k < 255. al ! k = X k 1) \<and> al ! 255 = 0 \<and> gen_inv 32 1232 11 32 g"
proof -
  let ?ix = "255 # replicate 255 0 :: u8 list" and ?al = "0 # (replicate 255 0)[254 := 0] :: u8 list"
  obtain ix al where t: "gf_tables 8 0x187 0 255 1 (?ix, ?al) = (1, ix, al)"
    and t': "length al = 256" "\<forall>k < 255. al ! k = X k 1 \<and> ix ! unat (X k 1) = of_nat k" "al ! 255 = 0" "ix ! 0 = 255"
    using gf_tables_ok [of 255 0 ?ix ?al 1] by auto
  have log: "log_table ix" using t' by (simp add: log_table_def)
  let ?g0 = "1 # replicate 32 0 :: u8 list"
  have g0: "(replicate 33 0)[0 := 1] = ?g0" by (simp add: numeral_eq_Suc)
  have al: "(\<lambda>x. al ! nat (modnn 8 (int x))) = (\<lambda>x. X x 1)"
  proof
    fix x
    have "nat (modnn 8 (int x)) = x mod 255" by (simp add: modnn_mod nat_mod_distrib)
    then show "al ! nat (modnn 8 (int x)) = X x 1" using t' X_mod_1 [of x] by simp
  qed
  have "gen_inv 32 1232 11 0 ?g0" by (auto simp: gen_inv_def nth_Cons split: nat.splits)
  then have g: "gen_inv 32 1232 11 32 (gen_loop (\<lambda>x. X x 1) ix 11 0 1232 32 ?g0)"
    using gen_loop_inv [OF log, of 32 1232 11 0 ?g0 32] by simp
  have "init_rs 8 0x187 112 11 32 0 = Some (Some \<lparr>rs_mm = 8, rs_nn = 255, rs_alpha_to = al, rs_index_of = ix,
      rs_genpoly = map (\<lambda>x. ix ! unat x) (gen_loop (\<lambda>x. X x 1) ix 11 0 1232 32 ?g0), rs_nroots = 32, rs_fcr = 112,
      rs_prim = 11, rs_iprim = 116, rs_pad = 0\<rparr>)"
    using t al find_iprim_11 g0 by (simp add: init_rs_def Let_def)
  then show ?thesis using log t' g by blast
qed

text \<open>The generator polynomial itself, lowest degree first.\<close>

lemma fixed_macros_ok:
  obtains g where "NN fixed_macros = 255" "NROOTS fixed_macros = 32" "FCR fixed_macros = 112" "PRIM fixed_macros = 11"
    "log_table (INDEX_OF fixed_macros)" "\<And>x. 0 \<le> x \<Longrightarrow> alpha fixed_macros x = X (nat x) 1"
    "GENPOLY fixed_macros = map (\<lambda>x. INDEX_OF fixed_macros ! unat x) g" "gen_inv 32 1232 11 32 g"
proof -
  obtain ix al g where i: "init_rs 8 0x187 112 11 32 0 = Some (Some \<lparr>rs_mm = 8, rs_nn = 255, rs_alpha_to = al, rs_index_of = ix,
       rs_genpoly = map (\<lambda>x. ix ! unat x) g, rs_nroots = 32, rs_fcr = 112, rs_prim = 11, rs_iprim = 116, rs_pad = 0\<rparr>)"
    and p: "log_table ix" "\<forall>k < 255. al ! k = X k 1" "gen_inv 32 1232 11 32 g"
    using init_rs_ccsds by blast
  have m: "ALPHA_TO fixed_macros = al" "INDEX_OF fixed_macros = ix" "GENPOLY fixed_macros = map (\<lambda>x. ix ! unat x) g"
    "MODNN fixed_macros = mod255"
    by (simp_all add: fixed_macros_def ccsds_block_def i)
  have a: "alpha fixed_macros x = X (nat x) 1" if "0 \<le> x" for x
  proof -
    have "nat (mod255 x) = nat x mod 255" using that by (simp add: mod255_mod nat_mod_distrib)
    then show ?thesis using p(2) X_mod_1 [of "nat x"] by (simp add: alpha_def m)
  qed
  show thesis using a p by (intro that [of g]) (simp_all add: m, simp_all add: fixed_macros_def)
qed

lemma xsum_skip:
  assumes "f m = 0" and "m < n"
  shows "xsum f (filter (\<lambda>j. j \<noteq> m) [0..<n]) = xsum f [0..<n]"
  using assms by (intro xsum_filter) auto

lemma mult_11_inj:
  fixes a b :: nat
  assumes "a < 255" "b < 255" "11 * a mod 255 = 11 * b mod 255"
  shows "a = b"
proof -
  have i: "116 * (11 * c) mod 255 = c mod 255" for c :: nat
    using mod_mult_self4 [of 5 "255 * c" 0] by (simp add: mod_mult_left_eq [symmetric])
  have "116 * (11 * a) mod 255 = 116 * (11 * b) mod 255" using assms(3) by (metis mod_mult_right_eq)
  then show ?thesis using assms(1,2) unfolding i by simp
qed

lemma mult_11_shift: "X ((1232 + t * 11) * j) a = X (11 * j * t) (X (1232 * j) a)"
  unfolding X_add [symmetric] by (simp add: algebra_simps)

lemma generator_coefficients:
  assumes g: "gen_inv 32 1232 11 32 g" and "m \<le> 32"
  shows "g ! m \<noteq> 0"
proof
  assume z: "g ! m = 0"
  let ?js = "filter (\<lambda>j. j \<noteq> m) [0..<33]"
  have "\<forall>j \<in> set ?js. X (1232 * j) (g ! j) = 0"
  proof (rule vandermonde [where e = "\<lambda>j. 11 * j" and n = 32])
    have "length ?js = card (set ?js)" by (intro distinct_card [symmetric] distinct_filter distinct_upt)
    also have "set ?js = {0..<33} - {m}" by auto
    finally show "length ?js \<le> 32" using assms(2) by simp
    show "xsum (\<lambda>j. X (11 * j * i) (X (1232 * j) (g ! j))) ?js = 0" if "i < 32" for i
    proof -
      have "xsum (\<lambda>j. X (11 * j * i) (X (1232 * j) (g ! j))) ?js = xsum (\<lambda>j. X ((1232 + i * 11) * j) (g ! j)) ?js"
        by (simp only: mult_11_shift)
      also have "\<dots> = xsum (\<lambda>j. X ((1232 + i * 11) * j) (g ! j)) [0..<33]"
        using z assms(2) by (intro xsum_skip) simp_all
      also have "\<dots> = peval g (1232 + i * 11)" using g by (simp add: peval_def gen_inv_def)
      also have "\<dots> = 0" using g that by (simp add: gen_inv_def)
      finally show ?thesis .
    qed
  qed (auto dest!: mult_11_inj [rotated -1])
  moreover have "m \<noteq> 0" using z g by (cases "m = 0") (simp_all add: gen_inv_def)
  ultimately show False using g by (auto simp: gen_inv_def)
qed
section \<open>Horner's scheme\<close>

definition horner :: "nat \<Rightarrow> u8 list \<Rightarrow> u8 \<Rightarrow> u8" where
  "horner r ws a = fold (\<lambda>d s. d XOR X r s) ws a"

lemma horner_simps [simp]:
  "horner r [] a = a" "horner r (d # ws) a = horner r ws (d XOR X r a)" "horner r (ws @ vs) a = horner r vs (horner r ws a)"
  by (simp_all add: horner_def)

lemma horner_start: "horner r ws a = X (r * length ws) a XOR horner r ws 0"
proof (induction ws arbitrary: a)
  case (Cons d ws)
  have e: "X (r * length ws) (X r a) = X (r * length (d # ws)) a"
    unfolding X_add [symmetric] by (simp add: add.commute)
  have "horner r (d # ws) a = X (r * length ws) (d XOR X r a) XOR horner r ws 0"
    using Cons [of "d XOR X r a"] by simp
  also have "\<dots> = X (r * length (d # ws)) a XOR (X (r * length ws) d XOR horner r ws 0)"
    unfolding X_lin e by (simp only: ac_simps)
  also have "X (r * length ws) d XOR horner r ws 0 = horner r ws d"
    using Cons [of d] by simp
  finally show ?case by simp
qed simp

lemma horner_xor:
  "length ws = length vs \<Longrightarrow> horner r (map2 (XOR) ws vs) (a XOR b) = horner r ws a XOR horner r vs b"
proof (induction ws vs arbitrary: a b rule: list_induct2)
  case (Cons w ws v vs)
  then show ?case using Cons.IH [of "w XOR X r a" "v XOR X r b"] by (simp add: X_lin ac_simps)
qed simp

lemma horner_scale: "horner r (map (X n) ws) (X n a) = X n (horner r ws a)"
proof (induction ws arbitrary: a)
  case (Cons w ws)
  have "X n w XOR X r (X n a) = X n (w XOR X r a)" by (simp add: X_lin X_comm)
  then show ?case using Cons by simp
qed simp

lemma horner_sum: "horner r ws 0 = xsum (\<lambda>j. X (r * (length ws - 1 - j)) (ws ! j)) [0..<length ws]"
proof (induction ws)
  case (Cons w ws)
  have "horner r (w # ws) 0 = X (r * length ws) w XOR horner r ws 0"
    using horner_start [of r ws w] by simp
  also have "\<dots> = xsum (\<lambda>j. X (r * (length (w # ws) - 1 - j)) ((w # ws) ! j)) [0..<length (w # ws)]"
    unfolding Cons list.size add_0_right add_Suc_right xsum_upt_Suc
    by simp
  finally show ?case .
qed simp

lemma horner_rev: "horner r (rev g) 0 = peval g r"
proof -
  have "horner r (rev g) 0 = xsum (\<lambda>j. X (r * (length g - 1 - j)) (rev g ! j)) [0..<length g]"
    by (simp add: horner_sum)
  also have "\<dots> = xsum (\<lambda>j. X (r * j) (g ! j)) (rev [0..<length g])"
  proof -
    have "rev [0..<length g] = map (\<lambda>j. length g - 1 - j) [0..<length g]"
      by (intro nth_equalityI) (simp_all add: rev_nth)
    moreover have "xsum f (map h js) = xsum (\<lambda>j. f (h j)) js" for f :: "nat \<Rightarrow> u8" and h :: "nat \<Rightarrow> nat" and js
      by (induction js) simp_all
    ultimately show ?thesis by (simp only:) (intro xsum_cong, simp add: rev_nth)
  qed
  also have "\<dots> = xsum (\<lambda>j. X (r * j) (g ! j)) [0..<length g]"
  proof -
    have "xsum f (rev js) = xsum f js" for f :: "nat \<Rightarrow> u8" and js
      by (induction js) (simp_all add: xsum_append ac_simps)
    then show ?thesis .
  qed
  finally show ?thesis by (simp add: peval_def)
qed

section \<open>The encoder\<close>

text \<open>The roots of the generator polynomial, as exponents of alpha.\<close>

definition rs_root :: "nat \<Rightarrow> nat" where
  "rs_root i = (112 + i) * 11"

lemma rs_root_horner:
  assumes g: "gen_inv 32 1232 11 32 g" and i: "i < 32"
  shows "horner (rs_root i) (rev (take 32 g)) 0 = X (32 * rs_root i) 1"
proof -
  have rev_g: "rev g = 1 # rev (take 32 g)"
  proof -
    have "length g = 33" "g ! 32 = 1" using g by (simp_all add: gen_inv_def)
    then have "g = take 32 g @ [1]" using take_Suc_conv_app_nth [of 32 g] by simp
    then have "rev g = rev (take 32 g @ [1])" by (rule arg_cong)
    then show ?thesis by simp
  qed
  have "peval g (rs_root i) = 0" using g i by (simp add: gen_inv_def rs_root_def algebra_simps)
  then have "horner (rs_root i) (rev g) 0 = 0" by (simp only: horner_rev)
  then have "horner (rs_root i) (rev (take 32 g)) 1 = 0"
    by (simp only: rev_g horner_simps X_0 xor.right_neutral)
  then have "X (rs_root i * 32) 1 XOR horner (rs_root i) (rev (take 32 g)) 0 = 0"
    using horner_start [of "rs_root i" "rev (take 32 g)" 1] g by (simp add: gen_inv_def)
  then show ?thesis by (simp add: xor_eq_0 mult.commute)
qed

lemma log_index: "log_table (INDEX_OF C) \<Longrightarrow> index C a = 255 \<longleftrightarrow> a = 0"
  using log_table_nonzero(2) [of "INDEX_OF C" a] by (cases "a = 0") (auto simp: index_def log_table_def)

lemma alpha_index:
  assumes "a \<noteq> 0"
  shows "alpha fixed_macros (int (index fixed_macros a) + int n) = X n a"
    "alpha fixed_macros (int n + int (index fixed_macros a)) = X n a"
proof -
  have l: "log_table (INDEX_OF fixed_macros)" using fixed_macros_ok by metis
  have a: "alpha fixed_macros x = X (nat x) 1" if "0 \<le> x" for x
    using fixed_macros_ok that by metis
  show "alpha fixed_macros (int (index fixed_macros a) + int n) = X n a"
    using log_table_times [OF l assms] by (simp add: a index_def nat_add_distrib)
  then show "alpha fixed_macros (int n + int (index fixed_macros a)) = X n a" by (simp add: add.commute)
qed

lemma encode_step_shape:
  assumes g: "gen_inv 32 1232 11 32 g" "GENPOLY fixed_macros = map (\<lambda>x. INDEX_OF fixed_macros ! unat x) g"
    and p: "length p = 32"
  shows "d XOR p ! 0 = 0 \<Longrightarrow> rs_encode_step fixed_macros d p = tl p @ [0]"
    "d XOR p ! 0 \<noteq> 0 \<Longrightarrow> rs_encode_step fixed_macros d p =
       map2 (XOR) (tl p @ [0]) (map (X (index fixed_macros (d XOR p ! 0))) (rev (take 32 g)))"
proof -
  have nn: "NN fixed_macros = 255" "NROOTS fixed_macros = 32" and l: "log_table (INDEX_OF fixed_macros)"
    using fixed_macros_ok by metis+
  show "d XOR p ! 0 = 0 \<Longrightarrow> rs_encode_step fixed_macros d p = tl p @ [0]"
    using log_index [OF l, of 0] by (simp add: rs_encode_step_def nn Let_def)
  assume f: "d XOR p ! 0 \<noteq> 0"
  let ?n = "index fixed_macros (d XOR p ! 0)"
  have n: "?n \<noteq> 255" using f log_index [OF l] by simp
  have len: "length g = 33" using g by (simp add: gen_inv_def)
  have a: "alpha fixed_macros (int ?n + int (unat (GENPOLY fixed_macros ! m))) = X ?n (g ! m)" if "m \<le> 32" for m
  proof -
    have "unat (GENPOLY fixed_macros ! m) = index fixed_macros (g ! m)"
      using that len by (simp add: g(2) index_def)
    then show ?thesis using alpha_index(2) [OF generator_coefficients [OF g(1) that], of ?n] by simp
  qed
  have "rs_encode_step fixed_macros d p =
      tl (map (\<lambda>j. if j = 0 then p ! 0
                 else p ! j XOR alpha fixed_macros (int ?n + int (unat (GENPOLY fixed_macros ! (32 - j))))) [0..<32]) @
      [alpha fixed_macros (int ?n + int (unat (GENPOLY fixed_macros ! 0)))]"
    using n unfolding rs_encode_step_def nn Let_def by simp
  also have "\<dots> = tl (map (\<lambda>j. if j = 0 then p ! 0 else p ! j XOR X ?n (g ! (32 - j))) [0..<32]) @ [X ?n (g ! 0)]"
    by (simp only: a diff_le_self le0)
  also have "\<dots> = map2 (XOR) (tl p @ [0]) (map (X ?n) (rev (take 32 g)))"
    using p len by (intro nth_equalityI) (auto simp: nth_append nth_tl rev_nth less_Suc_eq)
  finally show "rs_encode_step fixed_macros d p = map2 (XOR) (tl p @ [0]) (map (X ?n) (rev (take 32 g)))" .
qed

lemma rs_encode_step_horner:
  assumes p: "length p = 32" and i: "i < 32"
  shows "length (rs_encode_step fixed_macros d p) = 32"
    "horner (rs_root i) (rs_encode_step fixed_macros d p) 0 =
       X (rs_root i) (horner (rs_root i) p 0) XOR X (32 * rs_root i) d"
proof -
  obtain g where g: "gen_inv 32 1232 11 32 g" "GENPOLY fixed_macros = map (\<lambda>x. INDEX_OF fixed_macros ! unat x) g"
    and l: "log_table (INDEX_OF fixed_macros)"
    using fixed_macros_ok by metis
  have len: "length (rev (take 32 g)) = 32" using g by (simp add: gen_inv_def)
  let ?r = "rs_root i"
  obtain p0 ps where ps: "p = p0 # ps" "length ps = 31" using p by (cases p) auto
  have e: "X ?r (horner ?r p 0) = X (32 * ?r) p0 XOR X ?r (horner ?r ps 0)"
    using horner_start [of ?r ps p0] ps
    by (simp add: X_lin X_add [symmetric])
  have m: "horner ?r (map (X n) (rev (take 32 g))) 0 = X n (X (32 * ?r) 1)" for n
    using horner_scale [of ?r n "rev (take 32 g)" 0] rs_root_horner [OF g(1) i] by simp
  have "length (rs_encode_step fixed_macros d p) = 32 \<and>
    horner ?r (rs_encode_step fixed_macros d p) 0 = X ?r (horner ?r ps 0) XOR X (32 * ?r) (d XOR p0)"
  proof (cases "d XOR p0 = 0")
    case True
    then show ?thesis using encode_step_shape(1) [OF g p, of d] ps by simp
  next
    case False
    let ?n = "index fixed_macros (d XOR p0)"
    have "rs_encode_step fixed_macros d p = map2 (XOR) (ps @ [0]) (map (X ?n) (rev (take 32 g)))"
      using encode_step_shape(2) [OF g p, of d] False ps by simp
    moreover have "X ?n (X (32 * ?r) 1) = X (32 * ?r) (d XOR p0)"
      using log_table_nonzero(1) [OF l False] X_comm [of ?n "32 * ?r" 1] by (simp only: index_def)
    ultimately show ?thesis
      using horner_xor [of "ps @ [0]" "map (X ?n) (rev (take 32 g))" ?r 0 0] ps(2) len m [of ?n] by simp
  qed
  moreover have "X (32 * ?r) (d XOR p0) = X (32 * ?r) d XOR X (32 * ?r) p0" by (rule X_lin)
  ultimately show "length (rs_encode_step fixed_macros d p) = 32"
    "horner ?r (rs_encode_step fixed_macros d p) 0 = X ?r (horner ?r p 0) XOR X (32 * ?r) d"
    unfolding e by (simp_all only: ac_simps)
qed

lemma rs_encode_fold:
  assumes "i < 32"
  shows "length p = 32 \<Longrightarrow> horner (rs_root i) p 0 = X (32 * rs_root i) a \<Longrightarrow>
    length (fold (rs_encode_step fixed_macros) ds p) = 32 \<and>
    horner (rs_root i) (fold (rs_encode_step fixed_macros) ds p) 0 = X (32 * rs_root i) (horner (rs_root i) ds a)"
proof (induction ds arbitrary: p a)
  case (Cons d ds)
  have "X (rs_root i) (X (32 * rs_root i) a) XOR X (32 * rs_root i) d = X (32 * rs_root i) (d XOR X (rs_root i) a)"
    unfolding X_lin X_comm [of "rs_root i" "32 * rs_root i"] by (rule xor.commute)
  then show ?case
    using Cons rs_encode_step_horner [OF Cons.prems(1) assms, of d] by simp
qed simp

text \<open>The data followed by the parity is zero at every root.\<close>

lemma codeword_horner:
  assumes "length data = 223 - pad" and "i < 32"
  shows "length (encode_rs_8 data pad) = 32" "horner (rs_root i) (data @ encode_rs_8 data pad) 0 = 0"
proof -
  have "NN fixed_macros = 255" "NROOTS fixed_macros = 32" using fixed_macros_ok by metis+
  then have e: "encode_rs_8 data pad = fold (rs_encode_step fixed_macros) data (replicate 32 0)"
    using assms(1) by (simp add: encode_rs_8_def encode_rs_def)
  have "horner r (replicate n 0) 0 = 0" for r n by (induction n) simp_all
  then have f: "length (encode_rs_8 data pad) = 32 \<and>
      horner (rs_root i) (encode_rs_8 data pad) 0 = X (32 * rs_root i) (horner (rs_root i) data 0)"
    unfolding e using rs_encode_fold [OF assms(2), of "replicate 32 0" 0 data] by simp
  then show "length (encode_rs_8 data pad) = 32" by simp
  show "horner (rs_root i) (data @ encode_rs_8 data pad) 0 = 0"
    using f horner_start [of "rs_root i" "encode_rs_8 data pad" "horner (rs_root i) data 0"]
    by (simp add: mult.commute)
qed

section \<open>The syndromes\<close>

lemma rs_syndromes_horner:
  assumes "length ws = 255 - pad" and "pad < 255"
  shows "rs_syndromes fixed_macros pad ws = map (\<lambda>i. horner (rs_root i) ws 0) [0..<32]"
proof -
  have c: "NN fixed_macros = 255" "NROOTS fixed_macros = 32" "FCR fixed_macros = 112" "PRIM fixed_macros = 11"
    using fixed_macros_ok by metis+
  have step: "rs_syndrome_step fixed_macros d s = map (\<lambda>i. d XOR X (rs_root i) (s ! i)) [0..<32]" for d s
    unfolding rs_syndrome_step_def c
  proof (intro map_cong refl)
    fix i
    show "(if s ! i = 0 then d else d XOR alpha fixed_macros (int (index fixed_macros (s ! i)) + int ((112 + i) * 11))) =
        d XOR X (rs_root i) (s ! i)"
      unfolding rs_root_def using alpha_index(1) [of "s ! i" "(112 + i) * 11"] by simp
  qed
  have f: "fold (rs_syndrome_step fixed_macros) ds (map f [0..<32]) = map (\<lambda>i. horner (rs_root i) ds (f i)) [0..<32]" for ds f
  proof (induction ds arbitrary: f)
    case (Cons d ds)
    have "rs_syndrome_step fixed_macros d (map f [0..<32]) = map (\<lambda>i. d XOR X (rs_root i) (f i)) [0..<32]"
      unfolding step by (intro map_cong refl) simp
    then show ?case using Cons by simp
  qed simp
  obtain w vs where w: "ws = w # vs" "length vs = 254 - pad" using assms by (cases ws) auto
  have "map ((!) ws) [1..<255 - pad] = vs" using w assms by (intro nth_equalityI) simp_all
  moreover have "replicate 32 w = map (\<lambda>i. w) [0..<32]" by (intro nth_equalityI) simp_all
  ultimately show ?thesis unfolding rs_syndromes_def c using f [of vs "\<lambda>i. w"] w by simp
qed

text \<open>
  Two words that pass the syndrome test and differ in at most 32 positions are equal: the distance
  of the code is 33. The data of both are counted from the first position.
\<close>

lemma codeword_distance:
  assumes len: "length u = n" "length v = n" "n \<le> 255"
    and z: "\<And>i. i < 32 \<Longrightarrow> horner (rs_root i) u 0 = 0" "\<And>i. i < 32 \<Longrightarrow> horner (rs_root i) v 0 = 0"
    and d: "length (filter (\<lambda>j. u ! j \<noteq> v ! j) [0..<n]) \<le> 32"
  shows "u = v"
proof (rule nth_equalityI)
  let ?js = "filter (\<lambda>j. u ! j \<noteq> v ! j) [0..<n]"
  let ?c = "\<lambda>j. X (1232 * (n - 1 - j)) (u ! j XOR v ! j)"
  have "\<forall>j \<in> set ?js. ?c j = 0"
  proof (rule vandermonde [where e = "\<lambda>j. 11 * (n - 1 - j)" and n = 32])
    show "j = j'" if "j \<in> set ?js" "j' \<in> set ?js" "11 * (n - 1 - j) mod 255 = 11 * (n - 1 - j') mod 255" for j j'
    proof -
      have b: "j < n" "j' < n" using that(1,2) by simp_all
      then have "n - 1 - j < 255" "n - 1 - j' < 255" using len(3) by linarith+
      then have "n - 1 - j = n - 1 - j'" using that(3) by (rule mult_11_inj)
      then show ?thesis using b by linarith
    qed
    show "xsum (\<lambda>j. X (11 * (n - 1 - j) * i) (?c j)) ?js = 0" if i: "i < 32" for i
    proof -
      have "X (11 * (n - 1 - j) * i) (?c j) = X (rs_root i * (n - 1 - j)) (u ! j XOR v ! j)" for j
        using mult_11_shift [of i "n - 1 - j"] by (simp add: rs_root_def algebra_simps)
      then have "xsum (\<lambda>j. X (11 * (n - 1 - j) * i) (?c j)) ?js =
          xsum (\<lambda>j. X (rs_root i * (n - 1 - j)) (u ! j XOR v ! j)) ?js" by (simp only:)
      also have "\<dots> = xsum (\<lambda>j. X (rs_root i * (n - 1 - j)) (u ! j XOR v ! j)) [0..<n]"
        by (intro xsum_filter) simp
      also have "\<dots> = horner (rs_root i) u 0 XOR horner (rs_root i) v 0"
        unfolding horner_sum len X_lin xsum_xor ..
      finally show ?thesis using z i by simp
    qed
  qed (use d in simp_all)
  then show "u ! j = v ! j" if "j < length u" for j using that len by (auto simp: xor_eq_0)
qed (simp add: len)

lemma rs_syndromes_zero:
  assumes "length ws = 255 - pad" and "pad < 255"
  shows "fold (OR) (rs_syndromes fixed_macros pad ws) 0 = 0 \<longleftrightarrow> (\<forall>i < 32. horner (rs_root i) ws 0 = 0)"
proof -
  have "fold (OR) as a = 0 \<longleftrightarrow> a = 0 \<and> (\<forall>b \<in> set as. b = 0)" for as and a :: u8
  proof (induction as arbitrary: a)
    case (Cons b as)
    have "b OR a = 0 \<longleftrightarrow> b = 0 \<and> a = 0" by (auto simp: or_eq_0_iff)
    then show ?case using Cons by auto
  qed simp
  then show ?thesis unfolding rs_syndromes_horner [OF assms] by auto
qed

lemma horner_zeros: "horner r (replicate n 0) 0 = 0"
  by (induction n) simp_all

lemma decode_rs_8_length:
  "decode_rs_8 ws [] pad = (ret, out, pos) \<Longrightarrow> length out = length ws"
proof -
  have c: "length (rs_correct C p lam om deg x bs) = length bs" for C p lam om deg x bs
    by (cases x) (simp add: rs_correct_def Let_def)
  have f: "length (fold (rs_correct C p lam om deg) xs bs) = length bs" for C p lam om deg xs bs
    by (induction xs arbitrary: bs) (simp_all add: c)
  show "decode_rs_8 ws [] pad = (ret, out, pos) \<Longrightarrow> length out = length ws"
    by (auto simp: decode_rs_8_def decode_rs_def Let_def f split: if_splits)
qed

lemma rs_accepts:
  assumes "pad \<le> 222" and "length data = 223 - pad"
  shows "length (encode_rs_8 data pad) = 32 \<and>
    decode_rs_8 (data @ encode_rs_8 data pad) [] (int pad) = (0, data @ encode_rs_8 data pad, [])"
proof -
  let ?c = "data @ encode_rs_8 data pad"
  have l: "length (encode_rs_8 data pad) = 32" using codeword_horner(1) [OF assms(2), of 0] by simp
  then have "fold (OR) (rs_syndromes fixed_macros pad ?c) 0 = 0"
    using assms codeword_horner(2) [OF assms(2)] by (subst rs_syndromes_zero) simp_all
  then show ?thesis using l assms(1) by (simp add: decode_rs_8_def decode_rs_def Let_def)
qed

text \<open>C25: A block that the CCSDS encoder completed is accepted by the decoder: for every padding
  and every block of \<open>223 - pad\<close> bytes, \<open>decode_rs_8\<close> of the data followed by the 32 bytes of
  \<open>encode_rs_8\<close> returns 0, the block unchanged and no positions.\<close>

theorem rs_roundtrip:
  assumes "pad \<le> 222" and "length data = 223 - pad"
  shows "length (encode_rs_8 data pad) = 32 \<and>
    decode_rs_8 (data @ encode_rs_8 data pad) [] (int pad) = (0, data @ encode_rs_8 data pad, [])"
  by (rule rs_accepts [OF assms])

theorem rs_roundtrip_witness:
  "length (encode_rs_8 [0x1A] 222) = 32 \<and>
    decode_rs_8 ([0x1A] @ encode_rs_8 [0x1A] 222) [] (int 222) = (0, [0x1A] @ encode_rs_8 [0x1A] 222, [])"
  by (rule rs_roundtrip) simp_all

text \<open>C24: Up to 32 wrong bytes never turn one encoded block into another: if the syndrome test of
  \<open>decode_rs\<close> accepts a word that differs from an encoded block in at most 32 positions, the
  word is that block.\<close>

theorem rs_detects:
  assumes "pad \<le> 222" and "length data = 223 - pad" and "length w = 255 - pad"
    and "fold (OR) (rs_syndromes fixed_macros pad w) 0 = 0"
    and "length (filter (\<lambda>j. w ! j \<noteq> (data @ encode_rs_8 data pad) ! j) [0..<255 - pad]) \<le> 32"
  shows "w = data @ encode_rs_8 data pad"
proof (rule codeword_distance [OF assms(3)])
  have l: "length (encode_rs_8 data pad) = 32" using codeword_horner(1) [OF assms(2), of 0] by simp
  then show "length (data @ encode_rs_8 data pad) = 255 - pad" using assms(1,2) by simp
  show "horner (rs_root i) w 0 = 0" if "i < 32" for i
    using rs_syndromes_zero [OF assms(3)] assms(1,4) that by simp
  show "horner (rs_root i) (data @ encode_rs_8 data pad) 0 = 0" if "i < 32" for i
    using codeword_horner(2) [OF assms(2) that] .
qed (use assms(5) in simp_all)

theorem rs_detects_witness:
  "replicate 33 0 = replicate 1 0 @ encode_rs_8 (replicate 1 0) 222"
proof -
  have h: "horner (rs_root i) (replicate 33 0) 0 = 0" for i by (simp add: numeral_eq_Suc)
  have s: "fold (OR) (rs_syndromes fixed_macros 222 (replicate 33 0)) 0 = 0"
    by (subst rs_syndromes_zero) (simp_all add: h)
  have "encode_rs_8 [0] 222 = replicate 32 0"
  proof -
    have nn: "NN fixed_macros = 255" "NROOTS fixed_macros = 32" and l: "log_table (INDEX_OF fixed_macros)"
      using fixed_macros_ok by metis+
    obtain g where g: "gen_inv 32 1232 11 32 g" "GENPOLY fixed_macros = map (\<lambda>x. INDEX_OF fixed_macros ! unat x) g"
      using fixed_macros_ok by metis
    have "tl (replicate 32 0) @ [0] = replicate 32 (0 :: u8)" by (simp add: numeral_eq_Suc)
    then have "rs_encode_step fixed_macros 0 (replicate 32 0) = replicate 32 0"
      using encode_step_shape(1) [OF g, of "replicate 32 0" 0] by (simp only:) simp
    then show ?thesis by (simp add: encode_rs_8_def encode_rs_def nn)
  qed
  then have e: "replicate 1 0 @ encode_rs_8 (replicate 1 0) 222 = replicate 33 0"
    by (simp add: numeral_eq_Suc)
  show ?thesis
    by (rule rs_detects [of 222 "replicate 1 0" "replicate 33 0"], simp, simp, simp, rule s)
      (simp only: e, simp)
qed

end
