(* ===== verification/Ax100_Mode5.thy ===== *)
theory Ax100_Mode5
  imports Ieee_Decoder Golay Rs_Code
begin

text \<open>
  \<open>lib/ax100_mode5.cc\<close>: the receiver of preamble, sync word, Golay coded length, and a payload with an
  optional scrambler, optional Reed-Solomon parity and an optional CRC32. The state operations, the
  invariant, what a call guarantees for frames of a usable length, the length the decoder does
  not survive, and the link from a transmitter to the reported PDU.
\<close>

unbundle bit_operations_syntax

section \<open>The class\<close>

datatype mode5_state_t = SEARCHING | SEARCHING_SYNC | DECODING_FRAME_LEN | DECODING_PAYLOAD

text \<open>The member \<open>d_len\<close> is called \<open>d_frame_len\<close> here, as \<open>d_len\<close> names the length of a shift register.\<close>

record 'l ax100_mode5 = decoder_base +
  d_preamble :: shift_reg
  d_preamble_shift_reg :: shift_reg
  d_preamble_len :: nat
  d_preamble_thrsh :: nat
  d_sync :: shift_reg
  d_sync_shift_reg :: shift_reg
  d_sync_len :: nat
  d_sync_thrsh :: nat
  d_crc :: crc_t
  d_descrambler :: "'l whitening option"
  d_rs :: bool
  d_state :: mode5_state_t
  d_cnt :: nat
  d_frame_len :: nat
  d_frame_start :: u64
  d_length_field_len :: nat
  d_pdu :: "u8 list"

definition ax100_mode5_new ::
    "int \<Rightarrow> (nat \<Rightarrow> u8) \<Rightarrow> u8 list \<Rightarrow> nat \<Rightarrow> u8 list \<Rightarrow> nat \<Rightarrow> crc_t \<Rightarrow> 'l whitening option \<Rightarrow> bool \<Rightarrow>
     'l ax100_mode5 res" where
  "ax100_mode5_new base_unique_id junk preamble preamble_threshold sync sync_threshold crc descrambler enable_rs =
     (let plen = length preamble * 8; slen = length sync * 8
      in res_bind (load_word preamble (sr_make plen)) (\<lambda>p.
         res_bind (load_word sync (sr_make slen)) (\<lambda>s.
         if slen < 8
         then Inl (Invalid_argument ''SYNC word should be at least 8 bits'')
         else if plen < 2 * preamble_threshold
         then Inl (Invalid_argument ''Too many error bits are allowed for the preamble.Consider lowering the threshold'')
         else if slen < 2 * sync_threshold
         then Inl (Invalid_argument ''Too many error bits are allowed for the sync word. Consider lowering the threshold'')
         else Inr (decoder_base.extend
           (fst (decoder_new ''ax100_mode5'' ''1.0'' 1 (if enable_rs then 255 else 1024) base_unique_id))
           (ax100_mode5.fields p (sr_make plen) plen preamble_threshold s (sr_make slen) slen sync_threshold
              crc descrambler enable_rs SEARCHING 0 0 0 3 (map junk [0..<1024]))))))"

definition mode5_make ::
    "int \<Rightarrow> (nat \<Rightarrow> u8) \<Rightarrow> u8 list \<Rightarrow> nat \<Rightarrow> u8 list \<Rightarrow> nat \<Rightarrow> crc_t \<Rightarrow> 'l whitening option \<Rightarrow> bool \<Rightarrow>
     'l ax100_mode5 res" where
  "mode5_make = ax100_mode5_new"

definition mode5_reset :: "'l lfsr_ops \<Rightarrow> 'l ax100_mode5 \<Rightarrow> 'l ax100_mode5 res" where
  "mode5_reset L d =
     (let d1 = d\<lparr>d_descrambler := map_option (whitening_reset L) (d_descrambler d), d_cnt := 0, d_state := SEARCHING\<rparr>
      in res_bind (sr_reset (d_preamble_shift_reg d1)) (\<lambda>p.
         res_bind (sr_reset (d_sync_shift_reg d1)) (\<lambda>s.
         Inr (d1\<lparr>d_preamble_shift_reg := p, d_sync_shift_reg := s\<rparr>))))"

section \<open>The states\<close>

fun mode5_search_sync :: "'l lfsr_ops \<Rightarrow> nat \<Rightarrow> u8 list \<Rightarrow> 'l ax100_mode5 \<Rightarrow> (nat \<times> 'l ax100_mode5) res" where
  "mode5_search_sync L i [] d = Inr (i, d)"
| "mode5_search_sync L i (b # bs) d =
     res_bind (sr_shl (d_sync_shift_reg d) (b \<noteq> 0)) (\<lambda>r.
     let d1 = d\<lparr>d_sync_shift_reg := r\<rparr>
     in res_bind (sr_xor (d_sync_shift_reg d1) (d_sync d1)) (\<lambda>tmp.
        let d2 = d1\<lparr>d_cnt := d_cnt d1 + 1\<rparr>
        in if sr_count tmp \<le> d_sync_thrsh d2
           then Inr (i + 1, d2\<lparr>d_state := DECODING_FRAME_LEN, d_cnt := 0\<rparr>)
           else if d_preamble_len d2 * 2 + d_sync_len d2 < d_cnt d2
           then res_bind (mode5_reset L d2) (\<lambda>d3. Inr (i + 1, d3))
           else mode5_search_sync L (i + 1) bs d2))"

fun mode5_preamble_loop :: "nat \<Rightarrow> u8 list \<Rightarrow> 'l ax100_mode5 \<Rightarrow> (nat \<times> 'l ax100_mode5) res" where
  "mode5_preamble_loop i [] d = Inr (i, d)"
| "mode5_preamble_loop i (b # bs) d =
     res_bind (sr_shl (d_preamble_shift_reg d) (b \<noteq> 0)) (\<lambda>r.
     let d1 = d\<lparr>d_preamble_shift_reg := r\<rparr>
     in res_bind (sr_xor (d_preamble_shift_reg d1) (d_preamble d1)) (\<lambda>tmp.
        if sr_count tmp \<le> d_preamble_thrsh d1
        then Inr (i + 1, d1\<lparr>d_state := SEARCHING_SYNC, d_cnt := 0,
                           d_frame_start := d_nitems_read d1 + of_nat i + 1\<rparr>)
        else mode5_preamble_loop (i + 1) bs d1))"

definition mode5_search_preamble :: "'l lfsr_ops \<Rightarrow> u8 list \<Rightarrow> 'l ax100_mode5 \<Rightarrow> (nat \<times> 'l ax100_mode5) res" where
  "mode5_search_preamble L inp d =
     (if d_preamble_len d = 0
      then mode5_search_sync L 0 inp (d\<lparr>d_state := SEARCHING_SYNC, d_frame_start := d_nitems_read d\<rparr>)
      else mode5_preamble_loop 0 inp d)"

text \<open>The Golay word of the length field; \<open>n\<close> items of the call are used.\<close>

definition coded_length :: "u8 list \<Rightarrow> u32" where
  "coded_length pdu = push_bit 16 (ucast (pdu ! 0)) OR push_bit 8 (ucast (pdu ! 1)) OR ucast (pdu ! 2)"

definition mode5_length :: "'l lfsr_ops \<Rightarrow> nat \<Rightarrow> 'l ax100_mode5 \<Rightarrow> (nat \<times> 'l ax100_mode5) res" where
  "mode5_length L n d =
     (case decode24 (coded_length (d_pdu d)) of
        None \<Rightarrow> res_bind (mode5_reset L d) (\<lambda>d1. Inr (n, d1))
      | Some len \<Rightarrow>
          let d1 = d\<lparr>d_frame_len := unat (len AND 0xFF)\<rparr>
          in if d_max_frame d1 < d_frame_len d1
             then res_bind (mode5_reset L d1) (\<lambda>d2. Inr (n, d2))
             else res_bind (buf_copy (d_pdu d1) 0 (replicate (d_max_frame d1) 0)) (\<lambda>buf.
                  Inr (n, d1\<lparr>d_cnt := 0, d_state := DECODING_PAYLOAD, d_pdu := buf\<rparr>)))"

fun mode5_len_loop :: "'l lfsr_ops \<Rightarrow> nat \<Rightarrow> u8 list \<Rightarrow> 'l ax100_mode5 \<Rightarrow> (nat \<times> 'l ax100_mode5) res" where
  "mode5_len_loop L i [] d = Inr (i * 8, d)"
| "mode5_len_loop L i (b # bs) d =
     res_bind (buf_set (d_pdu d) (d_cnt d) b) (\<lambda>buf.
     let d1 = d\<lparr>d_pdu := buf, d_cnt := d_cnt d + 1\<rparr>
     in if d_cnt d1 = d_length_field_len d1 then mode5_length L ((i + 1) * 8) d1
        else mode5_len_loop L (i + 1) bs d1)"

definition mode5_decode_frame_len :: "'l lfsr_ops \<Rightarrow> u8 list \<Rightarrow> 'l ax100_mode5 \<Rightarrow> (nat \<times> 'l ax100_mode5) res" where
  "mode5_decode_frame_len L inp d = mode5_len_loop L 0 (input_bytes inp) d"

text \<open>\<open>check_crc\<close>; \<open>frame\<close> is the first \<open>d_len\<close> bytes of the buffer.\<close>

definition mode5_check_crc :: "bool \<Rightarrow> crc_t \<Rightarrow> u8 list \<Rightarrow> bool res" where
  "mode5_check_crc be crc frame =
     (case crc of
        CRC_NONE \<Rightarrow> Inr True
      | CRC32_C \<Rightarrow> check32 be crc32_c frame
      | _ \<Rightarrow> Inl (Runtime_error ''ax100_decoder: Invalid CRC''))"

text \<open>
  The end of a frame that was not given up. A payload length smaller than the checksum wraps
  around: \<open>add_pdu\<close> is then asked for almost \<open>2^64\<close> bytes.
\<close>

definition mode5_report_frame ::
    "'l lfsr_ops \<Rightarrow> bool \<Rightarrow> string \<Rightarrow> nat \<Rightarrow> 'l ax100_mode5 \<times> decoder_status \<Rightarrow>
     ('l ax100_mode5 \<times> decoder_status) res" where
  "mode5_report_frame L be now n = (\<lambda>(d, status).
     let m = add_decoder (data status) (Some d);
         m = add_time_iso8601 now m;
         m = add_sample_start m (d_frame_start d);
         m = add_sample_cnt m (d_nitems_read d + of_nat n - d_frame_start d)
     in res_bind (crc_size (d_crc d)) (\<lambda>cs.
        if d_frame_len d < cs then Inl Oob_read
        else let m = add_pdu m (d_pdu d) (d_frame_len d - cs)
             in res_bind (mode5_check_crc be (d_crc d) (take (d_frame_len d) (d_pdu d))) (\<lambda>ok.
                res_bind (mode5_reset L d) (\<lambda>d1.
                Inr (d1, status\<lparr>consumed := int n, decode_success := True, data := add_crc_valid m ok\<rparr>)))))"

text \<open>
  \<open>d_len -= 32\<close> wraps around for a frame shorter than the parity; the decoder rejects such a
  frame, because the padding is then more than 222.
\<close>

definition mode5_frame_end ::
    "'l lfsr_ops \<Rightarrow> bool \<Rightarrow> string \<Rightarrow> nat \<Rightarrow> 'l ax100_mode5 \<times> decoder_status \<Rightarrow>
     ('l ax100_mode5 \<times> decoder_status) res" where
  "mode5_frame_end L be now n = (\<lambda>(d, status).
     let (body, w) = descramble_opt L (d_descrambler d) (take (d_frame_len d) (d_pdu d));
         d = d\<lparr>d_descrambler := w, d_pdu := body @ drop (d_frame_len d) (d_pdu d)\<rparr>
     in if d_rs d
        then let (ret, out, pos) = decode_rs_8 (take (d_frame_len d) (d_pdu d)) [] (255 - int (d_frame_len d));
                 d = d\<lparr>d_pdu := out @ drop (d_frame_len d) (d_pdu d),
                       d_frame_len := nat ((int (d_frame_len d) - 32) mod 2 ^ 64)\<rparr>
             in if - 1 < ret
                then mode5_report_frame L be now n
                       (d, status\<lparr>data := add_corrected_bits (data status) (word_of_int ret)\<rparr>)
                else res_bind (mode5_reset L d) (\<lambda>d1. Inr (d1, status\<lparr>consumed := int n\<rparr>))
        else mode5_report_frame L be now n (d, status))"

fun mode5_payload ::
    "'l lfsr_ops \<Rightarrow> bool \<Rightarrow> string \<Rightarrow> nat \<Rightarrow> u8 list \<Rightarrow> 'l ax100_mode5 \<times> decoder_status \<Rightarrow>
     ('l ax100_mode5 \<times> decoder_status) res" where
  "mode5_payload L be now i [] (d, status) = Inr (d, status\<lparr>consumed := int i * 8\<rparr>)"
| "mode5_payload L be now i (b # bs) (d, status) =
     res_bind (buf_set (d_pdu d) (d_cnt d) b) (\<lambda>buf.
     let d1 = d\<lparr>d_pdu := buf, d_cnt := d_cnt d + 1\<rparr>
     in if d_cnt d1 = d_frame_len d1
        then mode5_frame_end L be now ((i + 1) * 8) (d1, status)
        else mode5_payload L be now (i + 1) bs (d1, status))"

definition mode5_decode_payload ::
    "'l lfsr_ops \<Rightarrow> bool \<Rightarrow> string \<Rightarrow> u8 list \<Rightarrow> 'l ax100_mode5 \<times> decoder_status \<Rightarrow>
     ('l ax100_mode5 \<times> decoder_status) res" where
  "mode5_decode_payload L be now inp s = mode5_payload L be now 0 (input_bytes inp) s"

section \<open>decode\<close>

definition mode5_decode ::
    "'l lfsr_ops \<Rightarrow> bool \<Rightarrow> string \<Rightarrow> 'l ax100_mode5 \<Rightarrow> u8 list \<Rightarrow> ('l ax100_mode5 \<times> decoder_status) res" where
  "mode5_decode L be now d inp =
     (let quiet = (\<lambda>r. res_bind r (\<lambda>(n, d). Inr (d, status_new\<lparr>consumed := int n\<rparr>)))
      in res_bind (case d_state d of
           SEARCHING \<Rightarrow> quiet (mode5_search_preamble L inp d)
         | SEARCHING_SYNC \<Rightarrow> quiet (mode5_search_sync L 0 inp d)
         | DECODING_FRAME_LEN \<Rightarrow> quiet (mode5_decode_frame_len L inp d)
         | DECODING_PAYLOAD \<Rightarrow> mode5_decode_payload L be now inp (d, status_new))
         (\<lambda>(d, status). Inr (incr_nitems_read (nat (consumed status)) d, status)))"

section \<open>The invariant\<close>

definition mode5_regs :: "'l ax100_mode5 \<Rightarrow> bool" where
  "mode5_regs d \<longleftrightarrow>
     sr_wf (d_preamble d) \<and> d_len (d_preamble d) = d_preamble_len d \<and>
     sr_wf (d_preamble_shift_reg d) \<and> d_len (d_preamble_shift_reg d) = d_preamble_len d \<and>
     sr_wf (d_sync d) \<and> d_len (d_sync d) = d_sync_len d \<and>
     sr_wf (d_sync_shift_reg d) \<and> d_len (d_sync_shift_reg d) = d_sync_len d \<and> 8 \<le> d_sync_len d"

definition mode5_room :: "'l ax100_mode5 \<Rightarrow> bool" where
  "mode5_room d \<longleftrightarrow> length (d_pdu d) = 1024 \<and> d_length_field_len d = 3 \<and> (d_crc d = CRC_NONE \<or> d_crc d = CRC32_C) \<and>
     255 \<le> d_max_frame d \<and> d_max_frame d \<le> 1024"

definition mode5_inv :: "'l ax100_mode5 \<Rightarrow> bool" where
  "mode5_inv d \<longleftrightarrow> mode5_regs d \<and> mode5_room d \<and>
     (case d_state d of
        DECODING_FRAME_LEN \<Rightarrow> d_cnt d < 3
      | DECODING_PAYLOAD \<Rightarrow> d_frame_len d < 256 \<and> (d_cnt d < d_frame_len d \<or> d_frame_len d = 0 \<and> d_cnt d \<le> 1024)
      | _ \<Rightarrow> True)"

text \<open>
  The announced lengths with which the decoder cannot cope: an empty frame and a frame, its parity
  removed, that is shorter than its checksum.
\<close>

definition checksum_bytes :: "crc_t \<Rightarrow> nat" where
  "checksum_bytes t = (if t = CRC32_C then 4 else 0)"



definition mode5_conf :: "'l ax100_mode5 \<Rightarrow> crc_t \<times> bool" where
  "mode5_conf d = (d_crc d, d_rs d)"


lemmas mode5_defs = mode5_inv_def mode5_regs_def mode5_room_def mode5_conf_def

lemma mode5_reset_ok:
  assumes "mode5_regs d" and "mode5_room d"
  shows "\<exists>d'. mode5_reset L d = Inr d' \<and> mode5_inv d' \<and> mode5_conf d' = mode5_conf d"
  using assms by (auto simp: mode5_reset_def Let_def sr_reset_eq mode5_defs sr_wf_make sr_make_def sr_wf_def)






section \<open>The end of a frame\<close>

lemma mode5_check_crc_total:
  "t = CRC_NONE \<or> t = CRC32_C \<Longrightarrow> checksum_bytes t \<le> length frame \<Longrightarrow> \<exists>v. mode5_check_crc be t frame = Inr v"
  by (auto simp: mode5_check_crc_def check32_def Let_def checksum_bytes_def)

lemma checksum_bytes_size: "t = CRC_NONE \<or> t = CRC32_C \<Longrightarrow> crc_size t = Inr (checksum_bytes t)"
  by (auto simp: checksum_bytes_def)

lemma mode5_report_frame_eq:
  assumes "mode5_room d" and "d_frame_len d \<le> 1024"
  shows "d_frame_len d < checksum_bytes (d_crc d) \<Longrightarrow> mode5_report_frame L be now n (d, status) = Inl Oob_read"
    "checksum_bytes (d_crc d) \<le> d_frame_len d \<Longrightarrow> mode5_regs d \<Longrightarrow>
     \<exists>d' st v. mode5_report_frame L be now n (d, status) = Inr (d', st) \<and> mode5_inv d' \<and> mode5_conf d' = mode5_conf d \<and>
       consumed st = int n \<and> decode_success st \<and>
       mode5_check_crc be (d_crc d) (take (d_frame_len d) (d_pdu d)) = Inr v \<and> data st ''crc_valid'' = Some (PBool v) \<and>
       data st ''pdu'' = Some (Blob (take (d_frame_len d - checksum_bytes (d_crc d)) (d_pdu d)))"
proof -
  have t: "d_crc d = CRC_NONE \<or> d_crc d = CRC32_C" "length (d_pdu d) = 1024" using assms(1) by (auto simp: mode5_room_def)
  note cs = checksum_bytes_size [OF t(1)]
  show "d_frame_len d < checksum_bytes (d_crc d) \<Longrightarrow> mode5_report_frame L be now n (d, status) = Inl Oob_read"
    by (simp add: mode5_report_frame_def cs Let_def)
  assume le: "checksum_bytes (d_crc d) \<le> d_frame_len d" and regs: "mode5_regs d"
  obtain v where v: "mode5_check_crc be (d_crc d) (take (d_frame_len d) (d_pdu d)) = Inr v"
    using mode5_check_crc_total [OF t(1)] le assms(2) t(2) by fastforce
  obtain d' where d': "mode5_reset L d = Inr d'" "mode5_inv d'" "mode5_conf d' = mode5_conf d"
    using mode5_reset_ok [OF regs assms(1)] by blast
  have eq: "\<exists>m. mode5_report_frame L be now n (d, status) =
      Inr (d', status\<lparr>consumed := int n, decode_success := True,
        data := add_crc_valid (add_pdu m (d_pdu d) (d_frame_len d - checksum_bytes (d_crc d))) v\<rparr>)"
    using le by (simp add: mode5_report_frame_def cs Let_def v d'(1)) blast
  then obtain m where m: "mode5_report_frame L be now n (d, status) =
      Inr (d', status\<lparr>consumed := int n, decode_success := True,
        data := add_crc_valid (add_pdu m (d_pdu d) (d_frame_len d - checksum_bytes (d_crc d))) v\<rparr>)" by blast
  show "\<exists>d' st v. mode5_report_frame L be now n (d, status) = Inr (d', st) \<and> mode5_inv d' \<and> mode5_conf d' = mode5_conf d \<and>
       consumed st = int n \<and> decode_success st \<and>
       mode5_check_crc be (d_crc d) (take (d_frame_len d) (d_pdu d)) = Inr v \<and> data st ''crc_valid'' = Some (PBool v) \<and>
       data st ''pdu'' = Some (Blob (take (d_frame_len d - checksum_bytes (d_crc d)) (d_pdu d)))"
    using m d'(2,3) v by (simp add: report_dict)
qed





lemma ax100_mode5_new_inv:
  assumes new: "ax100_mode5_new uid junk pre pt sync st crc w rs = Inr d" and crc: "crc = CRC_NONE \<or> crc = CRC32_C"
  shows "mode5_inv d" "d_state d = SEARCHING" "mode5_conf d = (crc, rs)" "d_descrambler d = w"
proof -
  obtain p where p: "load_word pre (sr_make (length pre * 8)) = Inr p" "sr_wf p" "d_len p = length pre * 8"
    using load_word_ok [OF refl] by blast
  obtain s where s: "load_word sync (sr_make (length sync * 8)) = Inr s" "sr_wf s" "d_len s = length sync * 8"
    using load_word_ok [OF refl] by blast
  have l: "8 \<le> length sync * 8" and d: "d = decoder_base.extend
           (fst (decoder_new ''ax100_mode5'' ''1.0'' 1 (if rs then 255 else 1024) uid))
           (ax100_mode5.fields p (sr_make (length pre * 8)) (length pre * 8) pt s (sr_make (length sync * 8)) (length sync * 8) st
              crc w rs SEARCHING 0 0 0 3 (map junk [0..<1024]))"
    using new p(1) s(1) by (auto simp: ax100_mode5_new_def Let_def Suc_le_eq split: if_splits)
  show "mode5_inv d" "d_state d = SEARCHING" "mode5_conf d = (crc, rs)" "d_descrambler d = w"
    using p(2,3) s(2,3) l crc
    by (simp_all add: d mode5_defs ax100_mode5.defs decoder_base.defs sr_wf_make decoder_new_def)
      (simp_all add: sr_make_def)
qed

section \<open>Safety and soundness\<close>


definition example_mode5 :: "bool \<Rightarrow> crc_t \<Rightarrow> (u32 \<times> u32 \<times> u32) ax100_mode5" where
  "example_mode5 rs crc = (case ax100_mode5_new 1 (\<lambda>_. 0) [0xAA, 0xAA] 2 [0x93, 0x0B, 0x51, 0xDE] 3 crc None rs of Inr d \<Rightarrow> d)"

lemma example_mode5_new:
  "ax100_mode5_new 1 (\<lambda>_. 0) [0xAA, 0xAA] 2 [0x93, 0x0B, 0x51, 0xDE] 3 crc None rs = Inr (example_mode5 rs crc)"
proof -
  obtain p where p: "load_word [0xAA, 0xAA] (sr_make 16) = Inr p"
    using load_word_ok [of 16 "[0xAA, 0xAA]"] by auto
  obtain s where s: "load_word [0x93, 0x0B, 0x51, 0xDE] (sr_make 32) = Inr s"
    using load_word_ok [of 32 "[0x93, 0x0B, 0x51, 0xDE]"] by auto
  show ?thesis using p s by (simp add: example_mode5_def ax100_mode5_new_def Let_def)
qed

lemma example_mode5_inv:
  assumes "crc = CRC_NONE \<or> crc = CRC32_C"
  shows "mode5_inv (example_mode5 rs crc)" "d_state (example_mode5 rs crc) = SEARCHING"
    "d_crc (example_mode5 rs crc) = crc" "d_rs (example_mode5 rs crc) = rs" "d_descrambler (example_mode5 rs crc) = None"
  using ax100_mode5_new_inv [OF example_mode5_new assms, of rs] by (simp_all add: mode5_conf_def)


section \<open>Frames the decoder does not survive\<close>

lemma mode5_payload_zero:
  "d_frame_len d = 0 \<Longrightarrow> d_cnt d \<le> length (d_pdu d) \<Longrightarrow> length (d_pdu d) < d_cnt d + length bs \<Longrightarrow>
   mode5_payload L be now i bs (d, st) = Inl Oob_write"
proof (induction bs arbitrary: i d)
  case Nil
  then show ?case by simp
next
  case (Cons b bs)
  show ?case
  proof (cases "d_cnt d < length (d_pdu d)")
    case False
    then show ?thesis by (simp add: buf_simps)
  next
    case True
    let ?d = "d\<lparr>d_pdu := (d_pdu d)[d_cnt d := b], d_cnt := d_cnt d + 1\<rparr>"
    have "mode5_payload L be now i (b # bs) (d, st) = mode5_payload L be now (i + 1) bs (?d, st)"
      using True Cons.prems by (simp add: buf_simps Let_def)
    also have "\<dots> = Inl Oob_write" using True Cons.prems by (intro Cons.IH) auto
    finally show ?thesis .
  qed
qed

lemma input_bytes_zeros: "input_bytes (replicate 24 0) = [0, 0, 0]"
  by (simp add: input_bytes_def upt_rec pack_msb_def)

text \<open>The word 0 is the code word of the length 0.\<close>

lemma golay_zero: "decode24 0 = Some 0"
proof -
  have "encode12 0 False = 0" by (simp add: encode12_eq Let_def word24_def)
  then show ?thesis using golay_corrects [of 0 0 False] by simp
qed

text \<open>Twenty four zero bits in place of the length field are the code word of the length 0, which
  the decoder accepts; the byte counter then never meets the length, and the first call that
  delivers 1025 bytes writes behind the 1024 bytes of the buffer.\<close>

theorem mode5_zero_length_overflow:
  assumes "mode5_inv d" and "d_state d = DECODING_FRAME_LEN" and "d_cnt d = 0" and "8 * 1025 \<le> length rest"
  shows "\<exists>d' st. mode5_decode L be now d (replicate 24 0) = Inr (d', st) \<and> mode5_decode L be now d' rest = Inl Oob_write"
proof -
  have room: "length (d_pdu d) = 1024" "d_length_field_len d = 3" "d_max_frame d \<le> 1024"
    using assms(1) by (simp_all add: mode5_inv_def mode5_room_def)
  obtain x p1 where p1: "d_pdu d = x # p1" "length p1 = 1023" using room(1) by (cases "d_pdu d") auto
  obtain y p2 where p2: "p1 = y # p2" "length p2 = 1022" using p1(2) by (cases p1) auto
  obtain z q where q: "p2 = z # q" using p2(2) by (cases p2) auto
  note q = p1(1) [unfolded p2(1) q]
  let ?m = "d_max_frame d"
  let ?buf = "replicate ?m 0 @ drop ?m (0 # 0 # 0 # q)"
  have c: "coded_length (0 # 0 # 0 # q) = 0" by (simp add: coded_length_def)
  let ?d = "d\<lparr>d_frame_len := 0, d_cnt := 0, d_state := DECODING_PAYLOAD, d_pdu := ?buf\<rparr>"
  have m: "?m \<le> length (0 # 0 # 0 # q)" using room(1,3) unfolding q by simp
  have "mode5_len_loop L 0 [0, 0, 0] d = Inr (24, ?d)"
    using assms(3) room(2) m by (simp add: q buf_simps Let_def mode5_length_def c golay_zero)
  then have "mode5_decode L be now d (replicate 24 0) = Inr (incr_nitems_read 24 ?d, status_new\<lparr>consumed := 24\<rparr>)"
    by (simp add: mode5_decode_def mode5_decode_frame_len_def assms(2) input_bytes_zeros)
  moreover have "length ?buf = 1024" using m room(1) unfolding q by simp
  then have "mode5_payload L be now 0 (input_bytes rest) (incr_nitems_read 24 ?d, status_new) = Inl Oob_write"
    using assms(4) by (intro mode5_payload_zero) (simp_all add: incr_nitems_read_def)
  then have "mode5_decode L be now (incr_nitems_read 24 ?d) rest = Inl Oob_write"
    by (simp add: mode5_decode_def mode5_decode_payload_def incr_nitems_read_def)
  ultimately show ?thesis by blast
qed

theorem mode5_zero_length_overflow_witness:
  "\<exists>d' st. mode5_decode fib_lfsr False ''now'' ((example_mode5 True CRC32_C)\<lparr>d_state := DECODING_FRAME_LEN, d_cnt := 0\<rparr>)
      (replicate 24 0) = Inr (d', st) \<and>
    mode5_decode fib_lfsr False ''now'' d' (replicate (8 * 1025) 0) = Inl Oob_write"
  using example_mode5_inv [of CRC32_C True]
  by (intro mode5_zero_length_overflow) (simp_all add: mode5_defs)

section \<open>The link\<close>

text \<open>The three bytes of the length field.\<close>

definition length_bytes :: "u32 \<Rightarrow> u8 list" where
  "length_bytes w = [ucast (drop_bit 16 w), ucast (drop_bit 8 w), ucast w]"

lemma coded_length_bytes:
  assumes "w AND 0xFFFFFF = w"
  shows "coded_length (ucast (drop_bit 16 w) # ucast (drop_bit 8 w) # ucast w # q) = w"
proof (rule bit_word_eqI)
  fix n
  assume n: "n < LENGTH(32)"
  have hi: "bit w n \<Longrightarrow> n < 24"
  proof (rule ccontr)
    assume "bit w n" "\<not> n < 24"
    moreover have "bit (w AND 0xFFFFFF) n \<longleftrightarrow> bit w n \<and> bit (mask 24 :: u32) n"
      by (simp add: mask_eq_exp_minus_1 bit_and_iff)
    ultimately show False using assms by (simp add: bit_mask_iff)
  qed
  show "bit (coded_length (ucast (drop_bit 16 w) # ucast (drop_bit 8 w) # ucast w # q)) n = bit w n"
    using n hi by (cases "n < 8"; cases "n < 16") (auto simp: coded_length_def bit_or_iff bit_push_bit_iff bit_ucast_iff bit_drop_bit_eq
      dest: bit_imp_le_length)
qed

lemma encode12_low: "encode12 m False AND 0xFF = ucast m AND 0xFF"
proof (rule bit_word_eqI)
  fix n
  have m: "bit (0xFF :: u32) n \<longleftrightarrow> n < 8" "bit (0xFFF :: u32) n \<longleftrightarrow> n < 12"
    using bit_mask_iff [of 8 n, where ?'a = "32 word"] bit_mask_iff [of 12 n, where ?'a = "32 word"]
    by (auto simp: mask_eq_exp_minus_1 dest: bit_imp_le_length)
  show "bit (encode12 m False AND 0xFF) n = bit (ucast m AND 0xFF :: u32) n"
    using bit_word24 [OF pmul_low [of "ucast m AND 0xFFF"] low12_and [of "ucast m"], of n]
    by (simp only: encode12_eq Let_def if_False bit_and_iff m) auto
qed

lemma mode5_payload_fills:
  "d_cnt d + length bs = d_frame_len d \<Longrightarrow> bs \<noteq> [] \<Longrightarrow> d_cnt d + length bs \<le> length (d_pdu d) \<Longrightarrow>
   mode5_payload L be now i bs (d, st) =
   mode5_frame_end L be now ((i + length bs) * 8) (d\<lparr>d_pdu := take (d_cnt d) (d_pdu d) @ bs @ drop (d_cnt d + length bs) (d_pdu d),
     d_cnt := d_cnt d + length bs\<rparr>, st)"
proof (induction bs arbitrary: i d)
  case Nil
  then show ?case by simp
next
  case (Cons b bs)
  have lt: "d_cnt d < length (d_pdu d)" using Cons.prems by simp
  let ?d = "d\<lparr>d_pdu := (d_pdu d)[d_cnt d := b], d_cnt := d_cnt d + 1\<rparr>"
  show ?case
  proof (cases "bs = []")
    case True
    then have "mode5_payload L be now i (b # bs) (d, st) = mode5_frame_end L be now ((i + 1) * 8) (?d, st)"
      using Cons.prems lt by (simp add: buf_simps Let_def)
    then show ?thesis using True lt by (simp add: upd_conv_take_nth_drop)
  next
    case False
    then have "d_cnt d + 1 \<noteq> d_frame_len d" using Cons.prems by (cases bs) auto
    then have "mode5_payload L be now i (b # bs) (d, st) = mode5_payload L be now (i + 1) bs (?d, st)"
      using Cons.prems lt by (simp add: buf_simps Let_def)
    also have "\<dots> = mode5_frame_end L be now ((i + 1 + length bs) * 8) (?d\<lparr>d_pdu := take (d_cnt ?d) (d_pdu ?d) @ bs @
        drop (d_cnt ?d + length bs) (d_pdu ?d), d_cnt := d_cnt ?d + length bs\<rparr>, st)"
      using Cons.prems False by (intro Cons.IH) simp_all
    also have "take (d_cnt ?d) (d_pdu ?d) = take (d_cnt d) (d_pdu d) @ [b]"
      using lt by (simp add: take_Suc_conv_app_nth [of "d_cnt d" "(d_pdu d)[d_cnt d := b]"])
    finally show ?thesis by simp
  qed
qed

text \<open>What a transmitter sends after the synchronisation word.\<close>

definition mode5_block :: "bool \<Rightarrow> u8 list \<Rightarrow> u8 list" where
  "mode5_block be pdu =
     (let body = pdu @ mem32 be (htonl be (crc32_c pdu)) in body @ encode_rs_8 body (223 - length body))"

definition scramble_from :: "'l lfsr_ops \<Rightarrow> 'l whitening option \<Rightarrow> u8 list \<Rightarrow> u8 list" where
  "scramble_from L w bs = (case w of None \<Rightarrow> bs | Some w \<Rightarrow> fst (scramble L w bs))"

lemma scramble_from_length [simp]: "length (scramble_from L w bs) = length bs"
  by (auto simp: scramble_from_def scramble_def split: option.splits prod.splits dest: length_map_state_fst)

lemma descramble_scramble_from:
  assumes "\<forall>v. w = Some v \<longrightarrow> \<not> d_self_sync v"
  shows "\<exists>w'. descramble_opt L w (scramble_from L w bs) = (bs, w')"
  using assms by (cases w) (simp_all add: scramble_from_def descramble_opt_def descramble_scramble)

lemma mode5_length_field:
  assumes inv: "mode5_inv d" "d_state d = DECODING_FRAME_LEN" "d_cnt d = 0"
    and e: "e AND 0xFFFFFF = e" "popcount e \<le> 3" and n: "n < 256"
  shows "\<exists>q. length q = 1024 \<and> mode5_decode L be now d (concat (map unpack_msb (length_bytes (encode12 (of_nat n) False XOR e)))) =
    Inr (incr_nitems_read 24 (d\<lparr>d_frame_len := n, d_cnt := 0, d_state := DECODING_PAYLOAD, d_pdu := q\<rparr>), status_new\<lparr>consumed := 24\<rparr>)"
proof -
  define w where "w = encode12 (of_nat n) False XOR e"
  have room: "length (d_pdu d) = 1024" "d_length_field_len d = 3" "d_max_frame d \<le> 1024" "255 \<le> d_max_frame d"
    using inv(1) by (simp_all add: mode5_inv_def mode5_room_def)
  obtain x p1 where p1: "d_pdu d = x # p1" "length p1 = 1023" using room(1) by (cases "d_pdu d") auto
  obtain y p2 where p2: "p1 = y # p2" "length p2 = 1022" using p1(2) by (cases p1) auto
  obtain z p3 where p3: "p2 = z # p3" using p2(2) by (cases p2) auto
  note p = p1(1) [unfolded p2(1) p3]
  let ?p = "ucast (drop_bit 16 w) # ucast (drop_bit 8 w) # ucast w # p3 :: u8 list"
  have "w AND 0xFFFFFF = w"
  proof -
    have "encode12 (of_nat n) False AND 0xFFFFFF = encode12 (of_nat n) False"
      using word24_24 [OF pmul_low low12_and] by (simp add: encode12_eq Let_def)
    then have "(encode12 (of_nat n) False AND 0xFFFFFF) XOR (e AND 0xFFFFFF) = w" using e(1) by (simp only: w_def)
    moreover have "(a XOR b) AND m = (a AND m) XOR (b AND m)" for a b m :: u32
      by (rule bit_word_eqI) (auto simp: bit_simps)
    ultimately show ?thesis by (simp only: w_def)
  qed
  then have c: "decode24 (coded_length ?p) = Some (encode12 (of_nat n) False)"
    using golay_corrects [OF e, of "of_nat n" False] by (simp only: coded_length_bytes w_def [symmetric])
  have l: "unat (encode12 (of_nat n) False AND 0xFF) = n"
  proof -
    have u: "unat (ucast (of_nat n :: u16) :: u32) = n"
      using n by (simp add: unsigned_ucast_eq unat_of_nat take_bit_eq_mod)
    have "n AND 255 = take_bit 8 n" by (simp add: take_bit_eq_mask mask_eq_exp_minus_1)
    then have "n AND 255 = n" using n by (simp add: take_bit_eq_mod)
    then show ?thesis unfolding encode12_low unsigned_and_eq u by simp
  qed
  let ?m = "d_max_frame d"
  let ?q = "replicate ?m 0 @ drop ?m ?p"
  have m: "?m \<le> length ?p" using room(1,3) unfolding p by simp
  have "mode5_length L 24 (d\<lparr>d_pdu := ?p, d_cnt := 3\<rparr>) =
      Inr (24, d\<lparr>d_frame_len := n, d_cnt := 0, d_state := DECODING_PAYLOAD, d_pdu := ?q\<rparr>)"
  proof -
    let ?e = "d\<lparr>d_pdu := ?p, d_cnt := 3\<rparr>"
    have "decode24 (coded_length (d_pdu ?e)) = Some (encode12 (of_nat n) False)" using c by simp
    then have "mode5_length L 24 ?e = (let d1 = ?e\<lparr>d_frame_len := n\<rparr> in if d_max_frame d1 < d_frame_len d1
             then res_bind (mode5_reset L d1) (\<lambda>d2. Inr (24, d2))
             else res_bind (buf_copy (d_pdu d1) 0 (replicate (d_max_frame d1) 0)) (\<lambda>buf.
                  Inr (24, d1\<lparr>d_cnt := 0, d_state := DECODING_PAYLOAD, d_pdu := buf\<rparr>)))"
      unfolding mode5_length_def by (simp only: option.case l)
    then show ?thesis using m room(4) n by (simp add: Let_def buf_simps)
  qed
  then have "mode5_len_loop L 0 (length_bytes w) d =
      Inr (24, d\<lparr>d_frame_len := n, d_cnt := 0, d_state := DECODING_PAYLOAD, d_pdu := ?q\<rparr>)"
    using inv(3) room(2) by (simp add: length_bytes_def p buf_simps Let_def numeral_3_eq_3)
  moreover have "length ?q = 1024" using m room(1) unfolding p by simp
  ultimately show ?thesis
    unfolding w_def [symmetric]
    by (intro exI [of _ ?q]) (simp add: mode5_decode_def mode5_decode_frame_len_def inv(2) pack_unpack_stream)
qed

lemma decode_rs_8_codeword:
  assumes "pad \<le> 222" and "length bs = 223 - pad"
  shows "decode_rs_8 (bs @ encode_rs_8 bs pad) [] (int pad) = (0, bs @ encode_rs_8 bs pad, [])"
  using rs_accepts [OF assms] by blast

text \<open>C27: A frame reaches the receiver: whatever PDU of at most 219 bytes a transmitter completes with its
  CRC32, the Reed-Solomon parity and an additive scrambler, and however at most three bits of the
  24 bits of the length field are disturbed, the two calls that follow the synchronisation word
  report exactly that PDU with a valid checksum.\<close>

theorem mode5_link_roundtrip:
  assumes inv: "mode5_inv d" "d_state d = DECODING_FRAME_LEN" "d_cnt d = 0"
    and conf: "d_rs d" "d_crc d = CRC32_C" "\<forall>w. d_descrambler d = Some w \<longrightarrow> \<not> d_self_sync w"
    and pdu: "length pdu \<le> 219"
    and e: "e AND 0xFFFFFF = e" "popcount e \<le> 3"
  shows "\<exists>d1 st1 d2 st.
    mode5_decode L be now d
      (concat (map unpack_msb (length_bytes (encode12 (of_nat (length (mode5_block be pdu))) False XOR e)))) = Inr (d1, st1) \<and>
    mode5_decode L be now d1 (concat (map unpack_msb (scramble_from L (d_descrambler d) (mode5_block be pdu)))) = Inr (d2, st) \<and>
    decode_success st \<and> data st ''pdu'' = Some (Blob pdu) \<and> data st ''crc_valid'' = Some (PBool True)"
proof -
  define body where "body = pdu @ mem32 be (htonl be (crc32_c pdu))"
  have lb: "length body = length pdu + 4" by (simp add: body_def)
  define pad where "pad = 223 - length body"
  have pd: "pad \<le> 222" "length body = 223 - pad" using lb pdu by (simp_all add: pad_def)
  define blk where "blk = body @ encode_rs_8 body pad"
  have blk: "mode5_block be pdu = blk" by (simp add: mode5_block_def body_def blk_def pad_def Let_def)
  have lblk: "length blk = length pdu + 36" using rs_accepts [OF pd] lb by (simp add: blk_def)
  define n where "n = length blk"
  have n: "n < 256" "33 \<le> n" "n = length blk" using pdu lblk by (simp_all add: n_def)
  obtain q where q: "length q = 1024" "mode5_decode L be now d (concat (map unpack_msb (length_bytes (encode12 (of_nat n) False XOR e)))) =
    Inr (incr_nitems_read 24 (d\<lparr>d_frame_len := n, d_cnt := 0, d_state := DECODING_PAYLOAD, d_pdu := q\<rparr>), status_new\<lparr>consumed := 24\<rparr>)"
    using mode5_length_field [OF inv e n(1)] by blast
  let ?d1 = "incr_nitems_read 24 (d\<lparr>d_frame_len := n, d_cnt := 0, d_state := DECODING_PAYLOAD, d_pdu := q\<rparr>)"
  let ?tx = "scramble_from L (d_descrambler d) blk"
  obtain w' where w': "descramble_opt L (d_descrambler d) ?tx = (blk, w')"
    using descramble_scramble_from [OF conf(3)] by blast
  let ?r = "drop n q"
  let ?d2 = "?d1\<lparr>d_pdu := ?tx @ ?r, d_cnt := n\<rparr>"
  have "mode5_payload L be now 0 ?tx (?d1, status_new) = mode5_frame_end L be now (n * 8) (?d2, status_new)"
  proof -
    have "?tx \<noteq> []" using n by (metis length_0_conv scramble_from_length not_numeral_le_zero)
    then show ?thesis using n q(1) by (subst mode5_payload_fills) (simp_all add: incr_nitems_read_def)
  qed
  moreover
  let ?d3 = "?d1\<lparr>d_cnt := n, d_descrambler := w', d_pdu := blk @ ?r, d_frame_len := n - 32\<rparr>"
  let ?s = "status_new\<lparr>data := add_corrected_bits (data status_new) 0\<rparr>"
  have "mode5_frame_end L be now (n * 8) (?d2, status_new) = mode5_report_frame L be now (n * 8) (?d3, ?s)"
  proof -
    have "255 - int n = int pad" using lblk lb pdu by (simp add: n_def pad_def)
    then have "decode_rs_8 blk [] (255 - int n) = (0, blk, [])" using decode_rs_8_codeword [OF pd] by (simp add: blk_def)
    moreover have "nat ((int n - 32) mod 2 ^ 64) = n - 32" using n by (simp add: nat_diff_distrib)
    ultimately show ?thesis
      using w' n conf(1) by (simp add: mode5_frame_end_def Let_def incr_nitems_read_def)
  qed
  moreover
  have "mode5_regs ?d3" "mode5_room ?d3" using inv(1) q(1) n by (auto simp: mode5_defs incr_nitems_read_def)
  moreover have sel: "d_frame_len ?d3 = n - 32" "d_pdu ?d3 = blk @ ?r" "d_crc ?d3 = CRC32_C"
    using conf(2) by (simp_all add: incr_nitems_read_def)
  moreover have tk: "take (n - 32) (blk @ ?r) = body" "take (n - 32 - 4) (blk @ ?r) = pdu"
    using lblk lb by (simp_all add: n_def blk_def body_def)
  moreover have "mode5_check_crc be CRC32_C body = Inr True"
    by (simp add: mode5_check_crc_def body_def)
  ultimately obtain d2 st where fin: "mode5_payload L be now 0 ?tx (?d1, status_new) = Inr (d2, st)" "consumed st = int (n * 8)"
    "decode_success st" "data st ''crc_valid'' = Some (PBool True)" "data st ''pdu'' = Some (Blob pdu)"
    using mode5_report_frame_eq(2) [of ?d3 L be now "n * 8" ?s] n lblk
    unfolding sel by (auto simp: checksum_bytes_def tk n_def)
  have "mode5_decode L be now ?d1 (concat (map unpack_msb ?tx)) = Inr (incr_nitems_read (nat (consumed st)) d2, st)"
    using fin(1) by (simp add: mode5_decode_def mode5_decode_payload_def pack_unpack_stream incr_nitems_read_def)
  then show ?thesis using q(2) fin(3-5) unfolding blk n(3) by blast
qed

theorem mode5_link_roundtrip_witness:
  "\<exists>d1 st1 d2 st.
    mode5_decode fib_lfsr False ''now'' ((example_mode5 True CRC32_C)\<lparr>d_state := DECODING_FRAME_LEN, d_cnt := 0\<rparr>)
      (concat (map unpack_msb (length_bytes (encode12 (of_nat (length (mode5_block False [0x12, 0x34]))) False XOR 0x800101)))) = Inr (d1, st1) \<and>
    mode5_decode fib_lfsr False ''now'' d1 (concat (map unpack_msb (scramble_from fib_lfsr None (mode5_block False [0x12, 0x34])))) = Inr (d2, st) \<and>
    decode_success st \<and> data st ''pdu'' = Some (Blob [0x12, 0x34]) \<and> data st ''crc_valid'' = Some (PBool True)"
proof -
  let ?d = "(example_mode5 True CRC32_C)\<lparr>d_state := DECODING_FRAME_LEN, d_cnt := 0\<rparr>"
  note f = example_mode5_inv [of CRC32_C True]
  have "popcount (0x800101 :: u32) \<le> 3" by (simp add: popcount_code bit_count_def)
  moreover have "mode5_inv ?d" using f by (simp add: mode5_defs)
  ultimately show ?thesis
    using mode5_link_roundtrip [of ?d "[0x12, 0x34]" "0x800101" fib_lfsr False "''now''"] f by simp
qed

end
