(* ===== verification/Ax100_Mode6.thy ===== *)
theory Ax100_Mode6
  imports Ieee_Decoder Ax25 Rs_Code
begin

text \<open>
  \<open>lib/ax100_mode6.cc\<close>: the receiver of AX.25 frames whose payload is a Reed-Solomon block. One
  iteration of the \<open>while (1)\<close> loop of \<open>_decode\<close> is \<open>mode6_iteration\<close>; a frame with a wrong
  checksum is read again from its start, and \<open>mode6_measure\<close> shows that this ends. The loop is an
  instance of \<open>partial_loop\<close>: with CRC32 its body can fail.
\<close>

unbundle bit_operations_syntax

section \<open>The class\<close>

datatype mode6_state_t = NO_SYNC | IN_SYNC | DECODING

record 'l ax100_mode6 = decoder_base +
  d_crc :: crc_t
  d_ax25_descramble :: bool
  d_max_frame_len :: nat
  d_descrambler :: "'l whitening option"
  d_state :: mode6_state_t
  d_shift_reg :: u32
  d_dec_b :: u8
  d_prev_bit_nrzi :: u8
  d_received_bytes :: nat
  d_decoded_bits :: nat
  d_rx_lfsr :: 'l
  d_frame_buffer :: "u8 list"
  d_bitstream :: "u8 list"
  d_start_idx :: nat
  d_frame_start :: u64
  d_sample_cnt :: u64

definition mode6_new ::
    "'l lfsr_ops \<Rightarrow> int \<Rightarrow> (nat \<Rightarrow> u8) \<Rightarrow> crc_t \<Rightarrow> 'l whitening option \<Rightarrow> bool \<Rightarrow> 'l ax100_mode6" where
  "mode6_new L base_unique_id junk crc descrambler ax25_descramble =
     decoder_base.extend
       (fst (decoder_new ''ax100_mode6'' ''1.0'' 1 (255 * 8) base_unique_id))
       (ax100_mode6.fields crc ax25_descramble 255 descrambler NO_SYNC 0 0 0 0 0 (lfsr_new L 0x21 0x0 16)
          (map junk [0..<255 + max_header_len + 2]) [] 0 0 0)"

definition mode6_make ::
    "'l lfsr_ops \<Rightarrow> int \<Rightarrow> (nat \<Rightarrow> u8) \<Rightarrow> crc_t \<Rightarrow> 'l whitening option \<Rightarrow> bool \<Rightarrow> 'l ax100_mode6" where
  "mode6_make = mode6_new"

definition mode6_reset_state :: "'l lfsr_ops \<Rightarrow> 'l ax100_mode6 \<Rightarrow> 'l ax100_mode6" where
  "mode6_reset_state L d =
     d\<lparr>d_descrambler := map_option (whitening_reset L) (d_descrambler d), d_state := NO_SYNC, d_dec_b := 0,
       d_shift_reg := 0, d_decoded_bits := 0, d_received_bytes := 0\<rparr>"

definition mode6_reset :: "'l lfsr_ops \<Rightarrow> 'l ax100_mode6 \<Rightarrow> 'l ax100_mode6" where
  "mode6_reset L d = mode6_reset_state L d"

definition mode6_enter_sync_state :: "'l ax100_mode6 \<Rightarrow> 'l ax100_mode6" where
  "mode6_enter_sync_state d =
     d\<lparr>d_state := IN_SYNC, d_dec_b := 0, d_shift_reg := 0, d_decoded_bits := 0,
       d_received_bytes := 0\<rparr>"

definition mode6_enter_decoding_state :: "'l ax100_mode6 \<Rightarrow> 'l ax100_mode6 res" where
  "mode6_enter_decoding_state d =
     (let d1 = d\<lparr>d_state := DECODING, d_decoded_bits := 0, d_received_bytes := 0\<rparr>
      in if drop_bit 16 (d_shift_reg d1) AND 0xfc = 0x7c
         then Inr (d1\<lparr>d_dec_b := push_bit 1 (d_dec_b d1), d_decoded_bits := 7\<rparr>)
         else res_bind (buf_set (d_frame_buffer d1) 0 (d_dec_b d1)) (\<lambda>buf.
              Inr (d1\<lparr>d_frame_buffer := buf, d_decoded_bits := 0, d_received_bytes := 1\<rparr>)))"

definition mode6_decode_1b :: "u8 \<Rightarrow> 'l ax100_mode6 \<Rightarrow> 'l ax100_mode6" where
  "mode6_decode_1b inp d =
     d\<lparr>d_shift_reg := drop_bit 1 (d_shift_reg d) OR push_bit 23 (ucast inp),
       d_dec_b := drop_bit 1 (d_dec_b d) OR push_bit 7 inp\<rparr>"

text \<open>The report, the same for both kinds of frames up to the length and the validity.\<close>

definition mode6_report ::
    "string \<Rightarrow> nat \<Rightarrow> bool \<Rightarrow> int \<Rightarrow> 'l ax100_mode6 \<Rightarrow> decoder_status \<Rightarrow> decoder_status" where
  "mode6_report now n valid ret d status =
     (let m = add_decoder (data status) (Some d);
          m = add_pdu m (d_frame_buffer d) n;
          m = add_time_iso8601 now m;
          m = add_crc_valid m valid;
          m = add_sample_start m (d_frame_start d);
          m = add_sample_cnt m (d_sample_cnt d);
          m = add_corrected_bits m (word_of_int ret)
      in status\<lparr>data := m, decode_success := True\<rparr>)"

text \<open>
  \<open>enter_frame_end\<close>. The parity is removed before the checksum is looked for; a payload of less than
  four bytes makes the length of the checked part wrap around. A wrong checksum does not reset.
\<close>

definition mode6_enter_frame_end ::
    "'l lfsr_ops \<Rightarrow> bool \<Rightarrow> string \<Rightarrow> 'l ax100_mode6 \<times> decoder_status \<Rightarrow>
     (bool \<times> 'l ax100_mode6 \<times> decoder_status) res" where
  "mode6_enter_frame_end L be now = (\<lambda>(d, status).
     if d_received_bytes d < min_addr_len + 2 + 2 + 32 then Inr (False, mode6_reset_state L d, status)
     else if 255 + 2 + min_addr_len + 2 < d_received_bytes d then Inr (False, mode6_reset_state L d, status)
     else let n = d_received_bytes d - (2 + min_addr_len + 2);
              hdr = 2 + min_addr_len;
              (body, w) = descramble_opt L (d_descrambler d) (take n (drop hdr (d_frame_buffer d)));
              (ret, out, pos) = decode_rs_8 body [] (255 - int n);
              d = d\<lparr>d_descrambler := w,
                    d_frame_buffer := take hdr (d_frame_buffer d) @ out @ drop (hdr + n) (d_frame_buffer d)\<rparr>;
              n = n - 32
          in if ret < 0 then Inr (False, mode6_reset_state L d, status)
             else (case d_crc d of
                 CRC_NONE \<Rightarrow> Inr (True, mode6_reset_state L d, mode6_report now (hdr + n) False ret d status)
               | CRC32_C \<Rightarrow>
                   if n < 4 then Inl Oob_read
                   else res_bind (check32 be crc32_c (take n (drop hdr (d_frame_buffer d)))) (\<lambda>ok.
                        if ok then Inr (True, mode6_reset_state L d, mode6_report now (hdr + n - 4) True ret d status)
                        else Inr (False, d, status))
               | _ \<Rightarrow> Inl (Runtime_error ''ax100_decoder: Invalid CRC'')))"

section \<open>The loops of one iteration\<close>

text \<open>\<open>NO_SYNC\<close>: look for three flags in a row at any bit position.\<close>

fun mode6_scan_flag :: "nat \<Rightarrow> u8 list \<Rightarrow> 'l ax100_mode6 \<Rightarrow> nat option \<times> 'l ax100_mode6" where
  "mode6_scan_flag i [] d = (None, d)"
| "mode6_scan_flag i (b # bs) d =
     (let d1 = mode6_decode_1b b d;
          test = ucast sync_flag OR push_bit 8 (ucast sync_flag) OR push_bit 16 (ucast sync_flag)
      in if test = d_shift_reg d1 then (Some i, d1) else mode6_scan_flag (i + 1) bs d1)"

fun mode6_scan_sync :: "nat \<Rightarrow> u8 list \<Rightarrow> 'l ax100_mode6 \<Rightarrow> nat option \<times> 'l ax100_mode6" where
  "mode6_scan_sync i [] d = (None, d)"
| "mode6_scan_sync i (b # bs) d =
     (let d1 = mode6_decode_1b b d;
          d2 = d1\<lparr>d_decoded_bits := d_decoded_bits d1 + 1\<rparr>
      in if d_decoded_bits d2 = 8
         then if drop_bit 16 (d_shift_reg d2) \<noteq> ucast sync_flag then (Some i, d2)
              else mode6_scan_sync (i + 1) bs (d2\<lparr>d_decoded_bits := 0\<rparr>)
         else mode6_scan_sync (i + 1) bs d2)"

datatype mode6_end = Flag_at nat | Limit_reached | Out_of_bits

fun mode6_scan_data ::
    "nat \<Rightarrow> u8 list \<Rightarrow> 'l ax100_mode6 \<Rightarrow> (mode6_end \<times> 'l ax100_mode6) res" where
  "mode6_scan_data i [] d = Inr (Out_of_bits, d)"
| "mode6_scan_data i (b # bs) d =
     (let d1 = mode6_decode_1b b d
      in if drop_bit 16 (d_shift_reg d1) = ucast sync_flag then Inr (Flag_at i, d1)
         else if drop_bit 16 (d_shift_reg d1) AND 0xfc = 0x7c
         then mode6_scan_data (i + 1) bs (d1\<lparr>d_dec_b := push_bit 1 (d_dec_b d1)\<rparr>)
         else let d2 = d1\<lparr>d_decoded_bits := d_decoded_bits d1 + 1\<rparr>
              in if d_decoded_bits d2 = 8
                 then res_bind (buf_set (d_frame_buffer d2) (d_received_bytes d2) (d_dec_b d2)) (\<lambda>buf.
                      let d3 = d2\<lparr>d_frame_buffer := buf,
                                  d_received_bytes := d_received_bytes d2 + 1, d_decoded_bits := 0\<rparr>
                      in if d_max_frame_len d3 \<le> d_received_bytes d3 then Inr (Limit_reached, d3)
                         else mode6_scan_data (i + 1) bs d3)
                 else mode6_scan_data (i + 1) bs d2)"

section \<open>decode\<close>

definition mode6_drop :: "nat \<Rightarrow> 'l ax100_mode6 \<Rightarrow> 'l ax100_mode6 res" where
  "mode6_drop n d =
     res_bind (erase_front n 0 (d_bitstream d)) (\<lambda>bs.
     Inr (incr_nitems_read n (d\<lparr>d_bitstream := bs\<rparr>)))"

type_synonym 'l mode6_loop = "'l ax100_mode6 \<times> decoder_status"

definition mode6_no_sync :: "'l mode6_loop \<Rightarrow> ('l mode6_loop, bool) outcome res" where
  "mode6_no_sync = (\<lambda>(d, status).
     case mode6_scan_flag 0 (d_bitstream d) d of
       (Some i, d1) \<Rightarrow>
         res_bind (mode6_drop (i + 1) d1) (\<lambda>d2.
         let d3 = mode6_enter_sync_state d2
         in Inr (Continue (d3\<lparr>d_frame_start := d_nitems_read d3, d_start_idx := 0\<rparr>, status)))
     | (None, d1) \<Rightarrow>
         Inr (Return ((incr_nitems_read (length (d_bitstream d1)) d1)\<lparr>d_bitstream := []\<rparr>, status) False))"

definition mode6_in_sync :: "'l mode6_loop \<Rightarrow> ('l mode6_loop, bool) outcome res" where
  "mode6_in_sync = (\<lambda>(d, status).
     case mode6_scan_sync (d_start_idx d) (drop (d_start_idx d) (d_bitstream d)) d of
       (Some i, d1) \<Rightarrow>
         res_bind (mode6_enter_decoding_state (d1\<lparr>d_start_idx := i + 1\<rparr>)) (\<lambda>d2.
         Inr (Continue (d2, status)))
     | (None, d1) \<Rightarrow> Inr (Return (d1\<lparr>d_start_idx := length (d_bitstream d1)\<rparr>, status) False))"

definition mode6_decoding ::
    "'l lfsr_ops \<Rightarrow> bool \<Rightarrow> string \<Rightarrow> 'l mode6_loop \<Rightarrow> ('l mode6_loop, bool) outcome res" where
  "mode6_decoding L be now = (\<lambda>(d, status).
     res_bind (mode6_scan_data (d_start_idx d) (drop (d_start_idx d) (d_bitstream d)) d) (\<lambda>(ending, d1).
       case ending of
         Flag_at i \<Rightarrow>
           let d2 = d1\<lparr>d_sample_cnt := d_nitems_read d1 + of_nat i - d_frame_start d1\<rparr>
           in res_bind (mode6_enter_frame_end L be now (d2, status)) (\<lambda>(r, d3, status3).
              if r then res_bind (mode6_drop (i + 1) d3) (\<lambda>d4.
                   Inr (Return (d4\<lparr>d_start_idx := length (d_bitstream d4)\<rparr>, status3) True))
              else Inr (Continue (d3, status3)))
       | Limit_reached \<Rightarrow> Inr (Continue (mode6_reset_state L d1, status))
       | Out_of_bits \<Rightarrow>
           Inr (Return (d1\<lparr>d_start_idx := length (d_bitstream d1)\<rparr>, status) False)))"

definition mode6_iteration ::
    "'l lfsr_ops \<Rightarrow> bool \<Rightarrow> string \<Rightarrow> 'l mode6_loop \<Rightarrow> ('l mode6_loop, bool) outcome res" where
  "mode6_iteration L be now s =
     (case d_state (fst s) of
        NO_SYNC \<Rightarrow> mode6_no_sync s
      | IN_SYNC \<Rightarrow> mode6_in_sync s
      | DECODING \<Rightarrow> mode6_decoding L be now s)"

definition mode6_receive :: "'l lfsr_ops \<Rightarrow> u8 \<Rightarrow> 'l ax100_mode6 \<Rightarrow> 'l ax100_mode6" where
  "mode6_receive L inp d =
     (let b = nrzi_bit (d_prev_bit_nrzi d) inp;
          d1 = d\<lparr>d_prev_bit_nrzi := inp\<rparr>
      in if d_ax25_descramble d
         then let (b', l) = next_bit_descramble L (d_rx_lfsr d1) b
              in d1\<lparr>d_rx_lfsr := l, d_bitstream := d_bitstream d1 @ [b']\<rparr>
         else d1\<lparr>d_bitstream := d_bitstream d1 @ [b]\<rparr>)"

definition mode6_fuel :: "'l ax100_mode6 \<Rightarrow> nat" where
  "mode6_fuel d = (3 * length (d_bitstream d) + 3) * (16 * d_max_frame_len d + 40)"

definition mode6_decode ::
    "'l lfsr_ops \<Rightarrow> bool \<Rightarrow> string \<Rightarrow> 'l ax100_mode6 \<Rightarrow> u8 list \<Rightarrow> ('l ax100_mode6 \<times> decoder_status) res option" where
  "mode6_decode L be now d inp =
     (let d1 = fold (mode6_receive L) inp d
      in case run_loop (mode6_iteration L be now) (mode6_fuel d1) (d1, status_new) of
           None \<Rightarrow> None
         | Some (Inl e) \<Rightarrow> Some (Inl e)
         | Some (Inr ((d2, status), r)) \<Rightarrow> Some (Inr (d2, status\<lparr>consumed := int (length inp)\<rparr>)))"

section \<open>What the scans change\<close>

lemma mode6_scan_flag_frame:
  "mode6_scan_flag i bs d = (r, d1) \<Longrightarrow>
   (\<exists>sr db. d1 = d\<lparr>d_shift_reg := sr, d_dec_b := db\<rparr>) \<and>
   (case r of None \<Rightarrow> True | Some j \<Rightarrow> i \<le> j \<and> j < i + length bs)"
proof (induction bs arbitrary: i d)
  case Nil
  then have "d1 = d\<lparr>d_shift_reg := d_shift_reg d, d_dec_b := d_dec_b d\<rparr>" and r: "r = None" by simp_all
  then have "\<exists>sr db. d1 = d\<lparr>d_shift_reg := sr, d_dec_b := db\<rparr>" by blast
  with r show ?case by simp
next
  case (Cons b bs)
  note scan = Cons.prems [unfolded mode6_scan_flag.simps Let_def]
  show ?case
  proof (cases "r = Some i \<and> d1 = mode6_decode_1b b d")
    case True
    then show ?thesis by (auto simp: mode6_decode_1b_def)
  next
    case False
    then have "mode6_scan_flag (i + 1) bs (mode6_decode_1b b d) = (r, d1)" using scan by (auto split: if_splits)
    from Cons.IH [OF this] show ?thesis by (auto simp: mode6_decode_1b_def split: option.splits)
  qed
qed

lemma mode6_scan_sync_frame:
  "mode6_scan_sync i bs d = (r, d1) \<Longrightarrow> d_decoded_bits d < 8 \<Longrightarrow>
   (\<exists>sr db k. d1 = d\<lparr>d_shift_reg := sr, d_dec_b := db, d_decoded_bits := k\<rparr>) \<and>
   (case r of None \<Rightarrow> d_decoded_bits d1 < 8 | Some j \<Rightarrow> i \<le> j \<and> j < i + length bs)"
proof (induction bs arbitrary: i d)
  case Nil
  then have "d1 = d\<lparr>d_shift_reg := d_shift_reg d, d_dec_b := d_dec_b d, d_decoded_bits := d_decoded_bits d\<rparr>"
    and r: "r = None" by simp_all
  then have "\<exists>sr db k. d1 = d\<lparr>d_shift_reg := sr, d_dec_b := db, d_decoded_bits := k\<rparr>" by blast
  with r show ?case using Nil.prems by simp
next
  case (Cons b bs)
  let ?d = "(mode6_decode_1b b d)\<lparr>d_decoded_bits := Suc (d_decoded_bits d)\<rparr>"
  have dd: "d_decoded_bits (mode6_decode_1b b d) = d_decoded_bits d" by (simp add: mode6_decode_1b_def)
  note scan = Cons.prems(1) [unfolded mode6_scan_sync.simps Let_def]
  have rest: ?case if "mode6_scan_sync (i + 1) bs (?d\<lparr>d_decoded_bits := k\<rparr>) = (r, d1)" "k < 8" for k
    using Cons.IH [OF that(1)] that(2) by (auto simp: mode6_decode_1b_def split: option.splits)
  consider "r = Some i" "d1 = ?d" | "mode6_scan_sync (i + 1) bs (?d\<lparr>d_decoded_bits := 0\<rparr>) = (r, d1)"
    | "mode6_scan_sync (i + 1) bs (?d\<lparr>d_decoded_bits := Suc (d_decoded_bits d)\<rparr>) = (r, d1)" "Suc (d_decoded_bits d) < 8"
    using scan Cons.prems(2) dd by (auto split: if_splits)
  then show ?case
  proof cases
    case 1
    then show ?thesis by (auto simp: mode6_decode_1b_def)
  qed (use rest in auto)
qed

definition mode6_room :: "'l ax100_mode6 \<Rightarrow> bool" where
  "mode6_room d \<longleftrightarrow>
     length (d_frame_buffer d) = d_max_frame_len d + 75 \<and> d_decoded_bits d < 8 \<and>
     (d_received_bytes d < d_max_frame_len d \<or> d_received_bytes d \<le> 1)"

text \<open>What \<open>mode6_scan_data\<close> leaves alone, and the number of bits it has kept.\<close>

definition mode6_change :: "'l ax100_mode6 \<Rightarrow> 'l ax100_mode6 \<Rightarrow> bool" where
  "mode6_change d d1 \<longleftrightarrow>
     d1 = d\<lparr>d_shift_reg := d_shift_reg d1, d_dec_b := d_dec_b d1, d_decoded_bits := d_decoded_bits d1,
        d_frame_buffer := d_frame_buffer d1, d_received_bytes := d_received_bytes d1\<rparr> \<and>
     length (d_frame_buffer d1) = length (d_frame_buffer d)"

definition mode6_kept :: "'l ax100_mode6 \<Rightarrow> nat" where
  "mode6_kept d = 8 * d_received_bytes d + d_decoded_bits d"

definition mode6_flag :: "'l ax100_mode6 \<Rightarrow> bool" where
  "mode6_flag d \<longleftrightarrow> drop_bit 16 (d_shift_reg d) = ucast sync_flag"

lemma mode6_change_refl: "mode6_change d d"
  by (simp add: mode6_change_def)

lemma mode6_change_trans:
  assumes "mode6_change d d1" and "mode6_change d1 d2"
  shows "mode6_change d d2"
proof -
  from assms(2) obtain sr db k buf r where d2: "d2 = d1\<lparr>d_shift_reg := sr, d_dec_b := db, d_decoded_bits := k,
        d_frame_buffer := buf, d_received_bytes := r\<rparr>" "length buf = length (d_frame_buffer d1)"
    unfolding mode6_change_def by metis
  from assms(1) obtain sr1 db1 k1 buf1 r1 where d1: "d1 = d\<lparr>d_shift_reg := sr1, d_dec_b := db1, d_decoded_bits := k1,
        d_frame_buffer := buf1, d_received_bytes := r1\<rparr>" "length buf1 = length (d_frame_buffer d)"
    unfolding mode6_change_def by metis
  show ?thesis using d2(2) d1(2) unfolding mode6_change_def d2(1) d1(1) by simp
qed

lemma mode6_change_steps:
  "mode6_change d (mode6_decode_1b b d)"
  "mode6_change d (d\<lparr>d_dec_b := db\<rparr>)"
  "mode6_change d (d\<lparr>d_decoded_bits := k\<rparr>)"
  "mode6_change d (d\<lparr>d_frame_buffer := (d_frame_buffer d)[n := x], d_received_bytes := r, d_decoded_bits := k\<rparr>)"
  by (simp_all add: mode6_change_def mode6_decode_1b_def)

definition mode6_end_in :: "mode6_end \<Rightarrow> nat \<Rightarrow> nat \<Rightarrow> bool" where
  "mode6_end_in e i n \<longleftrightarrow> (case e of Flag_at j \<Rightarrow> i \<le> j \<and> j < i + n | _ \<Rightarrow> True)"

lemma mode6_end_in_Suc: "mode6_end_in e (i + 1) n \<Longrightarrow> mode6_end_in e i (Suc n)"
  by (auto simp: mode6_end_in_def split: mode6_end.splits)

text \<open>After a flag the next bit is neither a flag nor a stuffed bit.\<close>

lemma mode6_after_flag:
  assumes "mode6_flag d"
  shows "\<not> mode6_flag (mode6_decode_1b b d)" "drop_bit 16 (d_shift_reg (mode6_decode_1b b d)) AND 0xfc \<noteq> 0x7c"
proof -
  have f: "\<not> bit (drop_bit 16 (d_shift_reg d)) 7" using assms unfolding mode6_flag_def by (simp add: sync_flag_def)
  then have "\<not> bit (drop_bit 16 (d_shift_reg (mode6_decode_1b b d))) 6"
    by (simp add: mode6_decode_1b_def bit_drop_bit_eq bit_or_iff bit_push_bit_iff)
  moreover have "bit (ucast sync_flag :: u32) 6" "bit (0x7c :: u32) 6" by (simp_all add: sync_flag_def)
  ultimately show "\<not> mode6_flag (mode6_decode_1b b d)" "drop_bit 16 (d_shift_reg (mode6_decode_1b b d)) AND 0xfc \<noteq> 0x7c"
    unfolding mode6_flag_def by (metis, metis bit_and_iff)
qed

text \<open>
  What a scan of the data field ends with. \<open>mode6_kept\<close> never decreases, and a scan that starts
  with the flag in the register keeps at least one bit before it meets the next flag: this is
  why re-reading a rejected frame ends.
\<close>

definition mode6_scan_ok ::
    "nat \<Rightarrow> u8 list \<Rightarrow> 'l ax100_mode6 \<Rightarrow> mode6_end \<Rightarrow> 'l ax100_mode6 \<Rightarrow> bool" where
  "mode6_scan_ok i bs d e d1 \<longleftrightarrow>
     mode6_change d d1 \<and> (e \<noteq> Limit_reached \<longrightarrow> mode6_room d1 \<and> mode6_kept d \<le> mode6_kept d1) \<and>
     mode6_end_in e i (length bs) \<and>
     (\<forall>j. e = Flag_at j \<longrightarrow> mode6_flag d1 \<and> (mode6_flag d \<longrightarrow> mode6_kept d < mode6_kept d1))"

lemma mode6_scan_data_frame:
  "mode6_room d \<Longrightarrow> \<exists>e d1. mode6_scan_data i bs d = Inr (e, d1) \<and> mode6_scan_ok i bs d e d1"
proof (induction bs arbitrary: i d)
  case Nil
  then show ?case by (simp add: mode6_scan_ok_def mode6_change_refl mode6_end_in_def)
next
  case (Cons b bs)
  define d1 where "d1 = mode6_decode_1b b d"
  have d1: "mode6_change d d1" unfolding d1_def by (rule mode6_change_steps)
  have room1: "mode6_room d1" using Cons.prems by (simp add: d1_def mode6_room_def mode6_decode_1b_def)
  have kept1: "mode6_kept d1 = mode6_kept d" by (simp add: d1_def mode6_kept_def mode6_decode_1b_def)
  note flagged = mode6_after_flag [of d b, folded d1_def]
  let ?stuffed = "d1\<lparr>d_dec_b := push_bit 1 (d_dec_b d1)\<rparr>"
  let ?next = "d1\<lparr>d_decoded_bits := Suc (d_decoded_bits d1)\<rparr>"
  let ?byte = "d1\<lparr>d_frame_buffer := (d_frame_buffer d1)[d_received_bytes d1 := d_dec_b d1],
      d_received_bytes := Suc (d_received_bytes d1), d_decoded_bits := 0\<rparr>"
  have rest: ?case if step: "mode6_scan_data i (b # bs) d = mode6_scan_data (i + 1) bs d2" and room: "mode6_room d2"
    and ch: "mode6_change d1 d2" and kept: "mode6_kept d1 \<le> mode6_kept d2" "mode6_flag d \<Longrightarrow> mode6_kept d1 < mode6_kept d2" for d2
  proof -
    obtain e d3 where d3: "mode6_scan_data (i + 1) bs d2 = Inr (e, d3)" "mode6_scan_ok (i + 1) bs d2 e d3"
      using Cons.IH [OF room, of "i + 1"] by blast
    have "mode6_change d d3" using d3(2) d1 ch mode6_change_trans unfolding mode6_scan_ok_def by blast
    moreover have "mode6_end_in e i (length (b # bs))"
      using d3(2) mode6_end_in_Suc unfolding mode6_scan_ok_def by simp
    ultimately have "mode6_scan_ok i (b # bs) d e d3"
      using d3(2) kept kept1 unfolding mode6_scan_ok_def by auto
    then show ?thesis using step d3(1) by simp
  qed
  consider (flag) "mode6_flag d1"
    | (stuffed) "\<not> mode6_flag d1" "drop_bit 16 (d_shift_reg d1) AND 0xfc = 0x7c"
    | (bit) "\<not> mode6_flag d1" "drop_bit 16 (d_shift_reg d1) AND 0xfc \<noteq> 0x7c"
        "d_decoded_bits d1 < 7"
    | (byte) "\<not> mode6_flag d1" "drop_bit 16 (d_shift_reg d1) AND 0xfc \<noteq> 0x7c"
        "d_decoded_bits d1 = 7"
    using room1 unfolding mode6_room_def by linarith
  then show ?case
  proof cases
    case flag
    then have "mode6_scan_data i (b # bs) d = Inr (Flag_at i, d1)" by (simp add: d1_def Let_def mode6_flag_def)
    moreover have "mode6_scan_ok i (b # bs) d (Flag_at i) d1"
      using d1 room1 kept1 flagged(1) flag by (auto simp: mode6_scan_ok_def mode6_end_in_def)
    ultimately show ?thesis by blast
  next
    case stuffed
    then have step: "mode6_scan_data i (b # bs) d = mode6_scan_data (i + 1) bs ?stuffed"
      by (simp only: mode6_scan_data.simps Let_def d1_def mode6_flag_def if_True if_False simp_thms)
    show ?thesis
    proof (rule rest [OF step _ mode6_change_steps(2)])
      show "mode6_kept d1 < mode6_kept ?stuffed" if "mode6_flag d" using flagged(2) [OF that] stuffed(2) by blast
    qed (use room1 in \<open>simp_all add: mode6_room_def mode6_kept_def\<close>)
  next
    case bit
    then have step: "mode6_scan_data i (b # bs) d = mode6_scan_data (i + 1) bs ?next"
      by (simp add: d1_def [symmetric] Let_def mode6_flag_def)
    show ?thesis
      by (rule rest [OF step _ mode6_change_steps(3)]) (use room1 bit(3) in \<open>simp_all add: mode6_room_def mode6_kept_def\<close>)
  next
    case byte
    have lt: "d_received_bytes d1 < length (d_frame_buffer d1)" using room1 by (auto simp: mode6_room_def)
    show ?thesis
    proof (cases "d_max_frame_len d1 \<le> Suc (d_received_bytes d1)")
      case True
      then have "mode6_scan_data i (b # bs) d = Inr (Limit_reached, ?byte)"
        using byte lt by (simp add: d1_def [symmetric] Let_def buf_simps mode6_flag_def)
      moreover have "mode6_scan_ok i (b # bs) d Limit_reached ?byte"
        using mode6_change_trans [OF d1 mode6_change_steps(4)] by (simp add: mode6_scan_ok_def mode6_end_in_def)
      ultimately show ?thesis by blast
    next
      case False
      then have step: "mode6_scan_data i (b # bs) d = mode6_scan_data (i + 1) bs ?byte"
        using byte lt by (simp add: d1_def [symmetric] Let_def buf_simps mode6_flag_def)
      show ?thesis
        by (rule rest [OF step _ mode6_change_steps(4)])
          (use room1 False byte(3) in \<open>simp_all add: mode6_room_def mode6_kept_def\<close>)
    qed
  qed
qed

section \<open>The contract of the loop\<close>

definition mode6_inv :: "'l ax100_mode6 \<Rightarrow> bool" where
  "mode6_inv d \<longleftrightarrow>
     length (d_frame_buffer d) = d_max_frame_len d + 75 \<and>
     (case d_state d of
        NO_SYNC \<Rightarrow> True
      | IN_SYNC \<Rightarrow> d_decoded_bits d < 8 \<and> d_start_idx d \<le> length (d_bitstream d)
      | DECODING \<Rightarrow> mode6_room d \<and> d_start_idx d \<le> length (d_bitstream d))"

definition mode6_items :: "'l ax100_mode6 \<Rightarrow> u64" where
  "mode6_items d = d_nitems_read d + of_nat (length (d_bitstream d))"

definition mode6_const :: "'l ax100_mode6 \<Rightarrow> crc_t \<times> nat \<times> u64" where
  "mode6_const d = (d_crc d, d_max_frame_len d, mode6_items d)"

text \<open>A status is either untouched or reports a block that came out of the Reed-Solomon decoder.\<close>

definition mode6_status_ok :: "bool \<Rightarrow> crc_t \<times> nat \<times> u64 \<Rightarrow> decoder_status \<Rightarrow> bool" where
  "mode6_status_ok be K st \<longleftrightarrow>
     (if decode_success st
      then \<exists>hdr received ret out pos block. length hdr = 16 \<and> length received + 18 < fst (snd K) \<and>
        decode_rs_8 received [] (255 - int (length received)) = (ret, out, pos) \<and> 0 \<le> ret \<and>
        block = take (length received - 32) out \<and>
        (fst K = CRC_NONE \<and> data st ''pdu'' = Some (Blob (hdr @ block)) \<and> data st ''crc_valid'' = Some (PBool False) \<or>
         fst K = CRC32_C \<and> 4 \<le> length block \<and> check32 be crc32_c block = Inr True \<and>
           data st ''pdu'' = Some (Blob (hdr @ take (length block - 4) block)) \<and>
           data st ''crc_valid'' = Some (PBool True))
      else st = status_new)"

text \<open>The errors a call can end with.\<close>

definition mode6_error :: "crc_t \<Rightarrow> err \<Rightarrow> bool" where
  "mode6_error t e \<longleftrightarrow> t = CRC32_C \<and> e = Oob_read \<or>
     t \<noteq> CRC_NONE \<and> t \<noteq> CRC32_C \<and> e = Runtime_error ''ax100_decoder: Invalid CRC''"

definition mode6_loop_inv :: "bool \<Rightarrow> crc_t \<times> nat \<times> u64 \<Rightarrow> 'l mode6_loop \<Rightarrow> bool" where
  "mode6_loop_inv be K s \<longleftrightarrow> mode6_inv (fst s) \<and> mode6_const (fst s) = K \<and> mode6_status_ok be K (snd s)"

definition mode6_post :: "bool \<Rightarrow> crc_t \<times> nat \<times> u64 \<Rightarrow> 'l mode6_loop \<Rightarrow> bool \<Rightarrow> bool" where
  "mode6_post be K s r \<longleftrightarrow> mode6_loop_inv be K s \<and> (r \<longrightarrow> decode_success (snd s))"

fun mode6_rank :: "mode6_state_t \<Rightarrow> nat" where
  "mode6_rank NO_SYNC = 0"
| "mode6_rank DECODING = 1"
| "mode6_rank IN_SYNC = 2"

definition mode6_left :: "'l ax100_mode6 \<Rightarrow> nat" where
  "mode6_left d =
     (if d_state d = DECODING
      then 2 * (8 * d_max_frame_len d + 16 - mode6_kept d) + (if mode6_flag d then 0 else 1) else 0)"

definition mode6_measure :: "'l mode6_loop \<Rightarrow> nat" where
  "mode6_measure s =
     (3 * length (d_bitstream (fst s)) + mode6_rank (d_state (fst s))) * (16 * d_max_frame_len (fst s) + 40) +
     mode6_left (fst s)"

lemma mode6_left_less: "mode6_left d < 16 * d_max_frame_len d + 40"
proof -
  define x where "x = 8 * d_max_frame_len d + 16 - mode6_kept d"
  have "x \<le> 8 * d_max_frame_len d + 16" by (simp add: x_def)
  then show ?thesis unfolding mode6_left_def x_def [symmetric] by simp
qed

lemma mode6_measure_rank:
  assumes "3 * length (d_bitstream d') + mode6_rank (d_state d') < 3 * length (d_bitstream d) + mode6_rank (d_state d)"
    and "d_max_frame_len d' = d_max_frame_len d"
  shows "mode6_measure (d', st') < mode6_measure (d, st)"
proof -
  let ?B = "16 * d_max_frame_len d + 40"
  let ?a' = "3 * length (d_bitstream d') + mode6_rank (d_state d')" and ?a = "3 * length (d_bitstream d) + mode6_rank (d_state d)"
  have "?a' * ?B + mode6_left d' < Suc ?a' * ?B" using mode6_left_less [of d'] assms(2) by simp
  also have "\<dots> \<le> ?a * ?B" using assms(1) by (intro mult_le_mono1) simp
  also have "\<dots> \<le> ?a * ?B + mode6_left d" by simp
  finally show ?thesis by (simp only: mode6_measure_def fst_conv assms(2))
qed

lemma mode6_items_drop:
  "k \<le> length bs \<Longrightarrow> (x :: u64) + of_nat k + of_nat (length (drop k bs)) = x + of_nat (length bs)"
  by (simp flip: of_nat_add add: add.assoc)

lemma mode6_drop_ok:
  assumes "n \<le> length (d_bitstream d)"
  shows "\<exists>d'. mode6_drop n d = Inr d' \<and>
    d' = d\<lparr>d_bitstream := drop n (d_bitstream d), d_nitems_read := d_nitems_read d + of_nat n\<rparr> \<and>
    mode6_const d' = mode6_const d"
  using assms mode6_items_drop [OF assms, of "d_nitems_read d"]
  by (simp add: mode6_drop_def buf_simps incr_nitems_read_def mode6_const_def mode6_items_def)

definition mode6_step_ok :: "bool \<Rightarrow> 'l mode6_loop \<Rightarrow> ('l mode6_loop, bool) outcome res \<Rightarrow> bool" where
  "mode6_step_ok be s out \<longleftrightarrow>
     (\<exists>s'. out = Inr (Continue s') \<and> mode6_loop_inv be (mode6_const (fst s)) s' \<and> mode6_measure s' < mode6_measure s) \<or>
     (\<exists>s' r. out = Inr (Return s' r) \<and> mode6_post be (mode6_const (fst s)) s' r) \<or>
     (\<exists>e. out = Inl e \<and> mode6_error (d_crc (fst s)) e)"

lemma mode6_continue:
  assumes "out = Inr (Continue (d', st'))" and "mode6_inv d'" and "mode6_const d' = mode6_const d"
    and "mode6_status_ok be (mode6_const d) st'" and "mode6_measure (d', st') < mode6_measure (d, st)"
  shows "mode6_step_ok be (d, st) out"
  using assms by (auto simp: mode6_step_ok_def mode6_loop_inv_def)

lemma mode6_return:
  assumes "out = Inr (Return (d', st') r)" and "mode6_inv d'" and "mode6_const d' = mode6_const d"
    and "mode6_status_ok be (mode6_const d) st'" and "r \<longrightarrow> decode_success st'"
  shows "mode6_step_ok be (d, st) out"
  using assms by (auto simp: mode6_step_ok_def mode6_post_def mode6_loop_inv_def)

lemma mode6_no_sync_step:
  assumes "mode6_inv d" and "d_state d = NO_SYNC" and st: "mode6_status_ok be (mode6_const d) st"
  shows "mode6_step_ok be (d, st) (mode6_no_sync (d, st))"
proof -
  obtain r d1 where s: "mode6_scan_flag 0 (d_bitstream d) d = (r, d1)" by fastforce
  then obtain sr db where d1: "d1 = d\<lparr>d_shift_reg := sr, d_dec_b := db\<rparr>"
    and r: "case r of None \<Rightarrow> True | Some j \<Rightarrow> j < length (d_bitstream d)"
    using mode6_scan_flag_frame [OF s] by (auto split: option.splits)
  have c1: "mode6_const d1 = mode6_const d" by (simp add: d1 mode6_const_def mode6_items_def)
  show ?thesis
  proof (cases r)
    case None
    let ?d = "(incr_nitems_read (length (d_bitstream d1)) d1)\<lparr>d_bitstream := []\<rparr>"
    show ?thesis
    proof (rule mode6_return [of _ ?d st False])
      show "mode6_no_sync (d, st) = Inr (Return (?d, st) False)"
        by (simp add: mode6_no_sync_def s None)
    qed (use assms in \<open>simp_all add: d1 mode6_inv_def mode6_const_def mode6_items_def incr_nitems_read_def\<close>)
  next
    case (Some i)
    with r have i: "i < length (d_bitstream d)" by simp
    then have "i + 1 \<le> length (d_bitstream d1)" by (simp add: d1)
    then obtain d2 where d2: "mode6_drop (i + 1) d1 = Inr d2"
      "d2 = d1\<lparr>d_bitstream := drop (i + 1) (d_bitstream d1), d_nitems_read := d_nitems_read d1 + of_nat (i + 1)\<rparr>"
      "mode6_const d2 = mode6_const d1"
      using mode6_drop_ok by blast
    let ?e = "mode6_enter_sync_state d2"
    let ?d = "?e\<lparr>d_frame_start := d_nitems_read ?e, d_start_idx := 0\<rparr>"
    have bs: "d_bitstream ?d = drop (i + 1) (d_bitstream d)" by (simp add: mode6_enter_sync_state_def d2(2) d1)
    show ?thesis
    proof (rule mode6_continue [of _ ?d st])
      show "mode6_no_sync (d, st) = Inr (Continue (?d, st))"
        using d2(1) by (simp add: mode6_no_sync_def s Some Let_def)
      show "mode6_inv ?d" using assms by (simp add: mode6_inv_def mode6_enter_sync_state_def d2(2) d1)
      have "mode6_const ?d = mode6_const d2" by (simp add: mode6_const_def mode6_items_def mode6_enter_sync_state_def)
      then show "mode6_const ?d = mode6_const d" using d2(3) c1 by simp
      show "mode6_measure (?d, st) < mode6_measure (d, st)"
      proof (rule mode6_measure_rank)
        have "d_state ?d = IN_SYNC" by (simp add: mode6_enter_sync_state_def)
        then show "3 * length (d_bitstream ?d) + mode6_rank (d_state ?d) < 3 * length (d_bitstream d) + mode6_rank (d_state d)"
          unfolding bs using i assms(2) by simp
      qed (simp add: mode6_enter_sync_state_def d2(2) d1)
    qed (rule st)
  qed
qed

lemma mode6_in_sync_step:
  assumes "mode6_inv d" and "d_state d = IN_SYNC" and st: "mode6_status_ok be (mode6_const d) st"
  shows "mode6_step_ok be (d, st) (mode6_in_sync (d, st))"
proof -
  let ?s = "d_start_idx d" and ?bs = "d_bitstream d"
  have inv: "d_decoded_bits d < 8" "?s \<le> length ?bs" "length (d_frame_buffer d) = d_max_frame_len d + 75"
    using assms by (simp_all add: mode6_inv_def)
  obtain r d1 where s: "mode6_scan_sync ?s (drop ?s ?bs) d = (r, d1)" by fastforce
  then obtain sr db k where d1: "d1 = d\<lparr>d_shift_reg := sr, d_dec_b := db, d_decoded_bits := k\<rparr>"
    and r: "case r of None \<Rightarrow> d_decoded_bits d1 < 8 | Some j \<Rightarrow> j < ?s + length (drop ?s ?bs)"
    using mode6_scan_sync_frame [OF s inv(1)] by (auto split: option.splits)
  show ?thesis
  proof (cases r)
    case None
    let ?d = "d1\<lparr>d_start_idx := length (d_bitstream d1)\<rparr>"
    show ?thesis
    proof (rule mode6_return [of _ ?d st False])
      show "mode6_in_sync (d, st) = Inr (Return (?d, st) False)"
        by (simp add: mode6_in_sync_def s None)
    qed (use assms inv r None in \<open>simp_all add: d1 mode6_inv_def mode6_const_def mode6_items_def\<close>)
  next
    case (Some i)
    with r inv have i: "i < length ?bs" by auto
    let ?b = "d1\<lparr>d_start_idx := i + 1\<rparr>"
    obtain d' where d': "mode6_enter_decoding_state ?b = Inr d'"
      "mode6_room d'" "d_state d' = DECODING" "d_start_idx d' = i + 1" "d_bitstream d' = ?bs"
      "mode6_const d' = mode6_const d" "d_max_frame_len d' = d_max_frame_len d"
      using inv(3) by (cases "drop_bit 16 sr AND 0xfc = 0x7c")
        (simp_all add: d1 mode6_enter_decoding_state_def buf_simps mode6_room_def mode6_const_def mode6_items_def)
    show ?thesis
    proof (rule mode6_continue [of _ d' st])
      show "mode6_in_sync (d, st) = Inr (Continue (d', st))"
        using d'(1) by (simp add: mode6_in_sync_def s Some)
      show "mode6_inv d'" using d' i by (simp add: mode6_inv_def mode6_room_def)
      show "mode6_measure (d', st) < mode6_measure (d, st)"
        using d' assms(2) by (intro mode6_measure_rank) simp_all
    qed (use d' st in simp_all)
  qed
qed

lemma mode6_report_dict:
  "decode_success (mode6_report now k v ret d st)"
  "data (mode6_report now k v ret d st) ''pdu'' = Some (Blob (take k (d_frame_buffer d)))"
  "data (mode6_report now k v ret d st) ''crc_valid'' = Some (PBool v)"
  by (simp_all add: mode6_report_def Let_def add_decoder_def add_pdu_def add_time_iso8601_def add_crc_valid_def
      add_sample_start_def add_sample_cnt_def add_corrected_bits_def dict_put_def)

text \<open>The end of a frame changes the descrambler and the buffer, then resets or leaves the rest.\<close>

lemma mode6_touched:
  assumes "d0 = d\<lparr>d_descrambler := w, d_frame_buffer := buf\<rparr>" and "length buf = length (d_frame_buffer d)"
  shows "mode6_room d0 = mode6_room d" "mode6_const d0 = mode6_const d" "d_state d0 = d_state d"
    "d_max_frame_len d0 = d_max_frame_len d" "d_bitstream d0 = d_bitstream d" "d_start_idx d0 = d_start_idx d"
    "mode6_left d0 = mode6_left d"
  using assms by (simp_all add: mode6_room_def mode6_const_def mode6_items_def mode6_left_def mode6_kept_def mode6_flag_def)

definition mode6_frame_end_ok :: "'l lfsr_ops \<Rightarrow> bool \<Rightarrow> 'l ax100_mode6 \<Rightarrow> (bool \<times> 'l ax100_mode6 \<times> decoder_status) res \<Rightarrow> bool" where
  "mode6_frame_end_ok L be d out \<longleftrightarrow>
     (\<exists>e. out = Inl e \<and> mode6_error (d_crc d) e) \<or>
     (\<exists>r d' st d0 w buf. out = Inr (r, d', st) \<and> d0 = d\<lparr>d_descrambler := w, d_frame_buffer := buf\<rparr> \<and>
        length buf = length (d_frame_buffer d) \<and> (d' = mode6_reset_state L d0 \<or> \<not> r \<and> d' = d0) \<and>
        mode6_status_ok be (mode6_const d) st \<and> (r \<longrightarrow> decode_success st))"

lemma mode6_frame_endI:
  assumes "out = Inr (r, d', st)" and "d0 = d\<lparr>d_descrambler := w, d_frame_buffer := buf\<rparr>"
    and "length buf = length (d_frame_buffer d)" and "d' = mode6_reset_state L d0 \<or> \<not> r \<and> d' = d0"
    and "mode6_status_ok be (mode6_const d) st" and "r \<longrightarrow> decode_success st"
  shows "mode6_frame_end_ok L be d out"
  using assms unfolding mode6_frame_end_ok_def by blast

lemma mode6_enter_frame_end_ok:
  assumes room: "mode6_room d" and st: "mode6_status_ok be (mode6_const d) st"
  shows "mode6_frame_end_ok L be d (mode6_enter_frame_end L be now (d, st))"
proof (cases "d_received_bytes d < 50 \<or> 273 < d_received_bytes d")
  case True
  then have "mode6_enter_frame_end L be now (d, st) = Inr (False, mode6_reset_state L d, st)"
    by (auto simp: mode6_enter_frame_end_def min_addr_len_def)
  moreover have "d = d\<lparr>d_descrambler := d_descrambler d, d_frame_buffer := d_frame_buffer d\<rparr>" by simp
  ultimately show ?thesis
    by (rule mode6_frame_endI [OF _ _ refl disjI1 [OF refl] st]) simp
next
  case False
  let ?fb = "d_frame_buffer d"
  define n where "n = d_received_bytes d - 18"
  have n: "32 \<le> n" "n + 18 < d_max_frame_len d" "length ?fb = d_max_frame_len d + 75"
    using False room by (auto simp: n_def mode6_room_def)
  obtain body w where b: "descramble_opt L (d_descrambler d) (take n (drop 16 ?fb)) = (body, w)" by fastforce
  have bl: "length body = n" using descramble_opt_length [OF b] n by simp
  obtain ret out pos where dec: "decode_rs_8 body [] (255 - int n) = (ret, out, pos)" by (metis prod_cases3)
  have ol: "length out = n" using decode_rs_8_length [OF dec] bl by simp
  define buf where "buf = take 16 ?fb @ out @ drop (16 + n) ?fb"
  have lbuf: "length buf = length ?fb" using ol n by (simp add: buf_def)
  define d0 where "d0 = d\<lparr>d_descrambler := w, d_frame_buffer := buf\<rparr>"
  let ?block = "take (n - 32) out"
  have e: "mode6_enter_frame_end L be now (d, st) =
    (if ret < 0 then Inr (False, mode6_reset_state L d0, st)
     else (case d_crc d0 of
         CRC_NONE \<Rightarrow> Inr (True, mode6_reset_state L d0, mode6_report now (16 + (n - 32)) False ret d0 st)
       | CRC32_C \<Rightarrow>
           if n - 32 < 4 then Inl Oob_read
           else res_bind (check32 be crc32_c (take (n - 32) (drop 16 buf))) (\<lambda>ok.
                if ok then Inr (True, mode6_reset_state L d0, mode6_report now (16 + (n - 32) - 4) True ret d0 st)
                else Inr (False, d0, st))
       | _ \<Rightarrow> Inl (Runtime_error ''ax100_decoder: Invalid CRC'')))"
    using False b dec unfolding d0_def buf_def
    by (cases "d_crc d") (simp_all add: mode6_enter_frame_end_def min_addr_len_def n_def [symmetric] Let_def)
  have hdr: "take (16 + k) buf = take 16 ?fb @ take k out" "take k (drop 16 buf) = take k out" if "k \<le> n" for k
    using that n ol by (simp_all add: buf_def)
  have status: "mode6_status_ok be (mode6_const d) (mode6_report now k v ret d0 st)"
    if "0 \<le> ret" "d_crc d = CRC_NONE \<and> k = 16 + (n - 32) \<and> \<not> v \<or>
      d_crc d = CRC32_C \<and> 4 \<le> n - 32 \<and> check32 be crc32_c ?block = Inr True \<and> k = 16 + (n - 32 - 4) \<and> v" for k v
  proof -
    let ?st = "mode6_report now k v ret d0 st"
    have buf0: "d_frame_buffer d0 = buf" by (simp add: d0_def)
    have len: "length ?block = n - 32" using ol by simp
    have "take (length ?block - 4) ?block = take (n - 32 - 4) out" unfolding len by (simp add: min_def)
    then have "d_crc d = CRC_NONE \<and> data ?st ''pdu'' = Some (Blob (take 16 ?fb @ ?block)) \<and> data ?st ''crc_valid'' = Some (PBool False) \<or>
      d_crc d = CRC32_C \<and> 4 \<le> length ?block \<and> check32 be crc32_c ?block = Inr True \<and>
        data ?st ''pdu'' = Some (Blob (take 16 ?fb @ take (length ?block - 4) ?block)) \<and> data ?st ''crc_valid'' = Some (PBool True)"
      using that(2) hdr(1) [of "n - 32"] hdr(1) [of "n - 32 - 4"] unfolding mode6_report_dict buf0 len by auto
    moreover have "length (take 16 ?fb) = 16" "length body + 18 < d_max_frame_len d" "decode_rs_8 body [] (255 - int (length body)) = (ret, out, pos)"
      "?block = take (length body - 32) out"
      using n bl dec by simp_all
    ultimately show ?thesis
      unfolding mode6_status_ok_def mode6_const_def fst_conv snd_conv mode6_report_dict(1) [THEN eqTrueI] if_True using that(1) by blast
  qed
  note fin = mode6_frame_endI [OF _ d0_def lbuf]
  show ?thesis
  proof (cases "ret < 0")
    case True
    then show ?thesis by (intro fin [of _ False "mode6_reset_state L d0" st]) (simp_all add: e st)
  next
    case ret: False
    show ?thesis
    proof (cases "d_crc d = CRC_NONE")
      case True
      then show ?thesis using ret status [of "16 + (n - 32)" False]
        by (intro fin [of _ True "mode6_reset_state L d0" "mode6_report now (16 + (n - 32)) False ret d0 st"])
          (simp_all add: e d0_def mode6_report_dict)
    next
      case nn: False
      show ?thesis
      proof (cases "d_crc d = CRC32_C \<and> \<not> n - 32 < 4")
        case True
        then have "\<exists>ok. check32 be crc32_c ?block = Inr ok" using ol by (auto simp: check32_def Let_def)
        then obtain ok where ok: "check32 be crc32_c ?block = Inr ok" by blast
        have e': "mode6_enter_frame_end L be now (d, st) =
          (if ok then Inr (True, mode6_reset_state L d0, mode6_report now (16 + (n - 32 - 4)) True ret d0 st) else Inr (False, d0, st))"
        proof -
          have "16 + (n - 32) - 4 = 16 + (n - 32 - 4)" using True by linarith
          note eq = e [unfolded this]
          show ?thesis unfolding eq using ret True ok hdr(2) [of "n - 32"] by (simp add: d0_def)
        qed
        show ?thesis
        proof (cases ok)
          case True
          then show ?thesis using e' ok ret \<open>d_crc d = CRC32_C \<and> \<not> n - 32 < 4\<close> status [of "16 + (n - 32 - 4)" True]
            by (intro fin [of _ True "mode6_reset_state L d0" "mode6_report now (16 + (n - 32 - 4)) True ret d0 st"])
              (simp_all add: mode6_report_dict)
        next
          case False
          then show ?thesis using e' by (intro fin [of _ False d0 st]) (simp_all add: st)
        qed
      next
        case False
        then have "\<exists>er. mode6_enter_frame_end L be now (d, st) = Inl er \<and> mode6_error (d_crc d) er"
          unfolding e using ret nn by (cases "d_crc d") (simp_all add: d0_def mode6_error_def)
        then show ?thesis by (simp add: mode6_frame_end_ok_def)
      qed
    qed
  qed
qed

lemma mode6_reset_facts:
  assumes "mode6_change d d1" and "length (d_frame_buffer d) = d_max_frame_len d + 75" and "d_state d = DECODING"
  shows "mode6_inv (mode6_reset_state L d1)" "mode6_const (mode6_reset_state L d1) = mode6_const d"
    "mode6_measure (mode6_reset_state L d1, st1) < mode6_measure (d, st)"
proof -
  from assms(1) obtain sr db k buf r where d1: "d1 = d\<lparr>d_shift_reg := sr, d_dec_b := db, d_decoded_bits := k,
        d_frame_buffer := buf, d_received_bytes := r\<rparr>" "length buf = length (d_frame_buffer d)"
    unfolding mode6_change_def by metis
  show "mode6_inv (mode6_reset_state L d1)" "mode6_const (mode6_reset_state L d1) = mode6_const d"
    using assms(2) d1(2) by (simp_all add: d1(1) mode6_inv_def mode6_reset_state_def mode6_const_def mode6_items_def)
  show "mode6_measure (mode6_reset_state L d1, st1) < mode6_measure (d, st)"
    using assms(3) by (intro mode6_measure_rank) (simp_all add: d1(1) mode6_reset_state_def)
qed

lemma mode6_left_decreases:
  assumes "mode6_scan_ok i bs d (Flag_at j) d1" and "mode6_room d1" and "d_state d = DECODING" and "d_state d1 = DECODING"
    and "d_max_frame_len d1 = d_max_frame_len d"
  shows "mode6_left d1 < mode6_left d"
proof -
  have f: "mode6_flag d1" "mode6_kept d \<le> mode6_kept d1" "mode6_flag d \<Longrightarrow> mode6_kept d < mode6_kept d1"
    using assms(1) by (simp_all add: mode6_scan_ok_def)
  have "mode6_kept d1 < 8 * d_max_frame_len d + 16"
    using assms(2,5) by (auto simp: mode6_room_def mode6_kept_def)
  then show ?thesis using f assms(3-5) by (cases "mode6_flag d") (simp_all add: mode6_left_def)
qed

lemma mode6_decoding_step:
  assumes "mode6_inv d" and "d_state d = DECODING" and st: "mode6_status_ok be (mode6_const d) st"
  shows "mode6_step_ok be (d, st) (mode6_decoding L be now (d, st))"
proof -
  let ?s = "d_start_idx d" and ?bs = "d_bitstream d"
  have inv: "?s \<le> length ?bs" "mode6_room d" using assms by (simp_all add: mode6_inv_def)
  have len: "length (d_frame_buffer d) = d_max_frame_len d + 75" using inv(2) by (simp add: mode6_room_def)
  obtain e d1 where s: "mode6_scan_data ?s (drop ?s ?bs) d = Inr (e, d1)" and ok: "mode6_scan_ok ?s (drop ?s ?bs) d e d1"
    using mode6_scan_data_frame [OF inv(2)] by blast
  have ch: "mode6_change d d1" using ok by (simp add: mode6_scan_ok_def)
  then obtain sr db k buf n where d1: "d1 = d\<lparr>d_shift_reg := sr, d_dec_b := db, d_decoded_bits := k,
      d_frame_buffer := buf, d_received_bytes := n\<rparr>"
    unfolding mode6_change_def by metis
  have const1: "mode6_const d1 = mode6_const d" by (simp add: d1 mode6_const_def mode6_items_def)
  note reset = mode6_reset_facts [OF ch len assms(2)]
  have again: "mode6_step_ok be (d, st) (Inr (Continue (mode6_reset_state L d1, st)))"
    by (rule mode6_continue [OF refl reset(1,2) st reset(3)])
  show ?thesis
  proof (cases e)
    case (Flag_at j)
    have j: "j < length ?bs" using ok inv(1) by (auto simp: mode6_scan_ok_def mode6_end_in_def Flag_at)
    have room1: "mode6_room d1" using ok by (simp add: mode6_scan_ok_def Flag_at)
    define d2 where "d2 = d1\<lparr>d_sample_cnt := d_nitems_read d1 + of_nat j - d_frame_start d1\<rparr>"
    have d2: "mode6_room d2" "mode6_const d2 = mode6_const d" "d_state d2 = DECODING" "d_max_frame_len d2 = d_max_frame_len d"
      "d_bitstream d2 = ?bs" "d_start_idx d2 = ?s" "mode6_left d2 = mode6_left d1"
      using room1 const1 assms(2)
      by (simp_all add: d2_def mode6_room_def mode6_const_def mode6_items_def d1 mode6_left_def mode6_kept_def mode6_flag_def)
    note frame_end = mode6_enter_frame_end_ok [OF d2(1), of be st L now, unfolded d2(2), OF st]
    have out: "mode6_decoding L be now (d, st) = res_bind (mode6_enter_frame_end L be now (d2, st)) (\<lambda>(r, d3, st3).
        if r then res_bind (mode6_drop (j + 1) d3) (\<lambda>d4.
        Inr (Return (d4\<lparr>d_start_idx := length (d_bitstream d4)\<rparr>, st3) True)) else Inr (Continue (d3, st3)))"
      by (simp add: mode6_decoding_def s Flag_at Let_def d2_def)
    have "d_crc d2 = d_crc d" by (simp add: d2_def d1)
    then consider (error) e where "mode6_enter_frame_end L be now (d2, st) = Inl e" "mode6_error (d_crc d) e"
      | (ended) r d3 st3 d0 w buf' where "mode6_enter_frame_end L be now (d2, st) = Inr (r, d3, st3)"
        "d0 = d2\<lparr>d_descrambler := w, d_frame_buffer := buf'\<rparr>" "length buf' = length (d_frame_buffer d2)"
        "d3 = mode6_reset_state L d0 \<or> \<not> r \<and> d3 = d0" "mode6_status_ok be (mode6_const d) st3" "r \<longrightarrow> decode_success st3"
      using frame_end unfolding mode6_frame_end_ok_def d2(2) by metis
    then show ?thesis
    proof cases
      case error
      then show ?thesis unfolding out by (simp add: mode6_step_ok_def)
    next
      case ended
      note fe = ended(1,4,5,6)
      note t = mode6_touched [OF ended(2,3)]
      have d0: "mode6_room d0" "mode6_const d0 = mode6_const d" "d_state d0 = DECODING" "d_max_frame_len d0 = d_max_frame_len d"
        "d_bitstream d0 = ?bs" "d_start_idx d0 = ?s" "mode6_left d0 = mode6_left d1"
        using t d2 by simp_all
      have dec: "mode6_decoding L be now (d, st) = (if r then res_bind (mode6_drop (j + 1) d3) (\<lambda>d4.
          Inr (Return (d4\<lparr>d_start_idx := length (d_bitstream d4)\<rparr>, st3) True)) else Inr (Continue (d3, st3)))"
        using fe(1) by (simp add: out)
      have reset0: "mode6_inv (mode6_reset_state L d0)" "mode6_const (mode6_reset_state L d0) = mode6_const d"
        "mode6_measure (mode6_reset_state L d0, st3) < mode6_measure (d, st)"
      proof -
        show "mode6_inv (mode6_reset_state L d0)" using d0(1) by (simp add: mode6_inv_def mode6_reset_state_def mode6_room_def)
        show "mode6_const (mode6_reset_state L d0) = mode6_const d"
          using d0(2) by (simp add: mode6_reset_state_def mode6_const_def mode6_items_def)
        show "mode6_measure (mode6_reset_state L d0, st3) < mode6_measure (d, st)"
          using assms(2) d0 by (intro mode6_measure_rank) (simp_all add: mode6_reset_state_def)
      qed
      show ?thesis
      proof (cases r)
        case True
        then have d3: "d3 = mode6_reset_state L d0" using fe(2) by simp
        have bs3: "d_bitstream d3 = ?bs" by (simp add: d3 mode6_reset_state_def d0(5))
        then have "j + 1 \<le> length (d_bitstream d3)" using j by simp
        then obtain d4 where d4: "mode6_drop (j + 1) d3 = Inr d4"
          "d4 = d3\<lparr>d_bitstream := drop (j + 1) (d_bitstream d3), d_nitems_read := d_nitems_read d3 + of_nat (j + 1)\<rparr>"
          "mode6_const d4 = mode6_const d3"
          using mode6_drop_ok by blast
        let ?d = "d4\<lparr>d_start_idx := length (d_bitstream d4)\<rparr>"
        show ?thesis
        proof (rule mode6_return [of _ ?d st3 True])
          show "mode6_decoding L be now (d, st) = Inr (Return (?d, st3) True)" using True d4(1) by (simp add: dec)
          show "mode6_inv ?d" using reset0(1) unfolding d4(2) d3 by (simp add: mode6_inv_def mode6_reset_state_def)
          have "mode6_const ?d = mode6_const d4" by (simp add: mode6_const_def mode6_items_def)
          then show "mode6_const ?d = mode6_const d" using d4(3) reset0(2) by (simp add: d3)
        qed (use fe True in simp_all)
      next
        case False
        then have out: "mode6_decoding L be now (d, st) = Inr (Continue (d3, st3))" by (simp add: dec)
        show ?thesis
        proof (cases "d3 = d0")
          case True
          have "mode6_inv d0" using d0 inv(1) by (simp add: mode6_inv_def mode6_room_def)
          moreover have "mode6_measure (d0, st3) < mode6_measure (d, st)"
            using mode6_left_decreases [OF ok [unfolded Flag_at] room1 assms(2)] d0 assms(2)
            by (simp add: mode6_measure_def d1)
          ultimately show ?thesis using mode6_continue [OF out] True d0(2) fe(3) by simp
        next
          case 2: False
          then have "d3 = mode6_reset_state L d0" using fe(2) by blast
          then show ?thesis using mode6_continue [OF out] reset0 fe(3) by simp
        qed
      qed
    qed
  next
    case Limit_reached
    then show ?thesis using again by (simp add: mode6_decoding_def s)
  next
    case Out_of_bits
    let ?d = "d1\<lparr>d_start_idx := length (d_bitstream d1)\<rparr>"
    have room: "mode6_room d1" using ok by (simp add: mode6_scan_ok_def Out_of_bits)
    show ?thesis
    proof (rule mode6_return [of _ ?d st False])
      show "mode6_decoding L be now (d, st) = Inr (Return (?d, st) False)" by (simp add: mode6_decoding_def s Out_of_bits)
      show "mode6_inv ?d" using room assms(2) by (simp add: mode6_inv_def mode6_room_def d1)
      show "mode6_const ?d = mode6_const d" by (simp add: d1 mode6_const_def mode6_items_def)
    qed (use st in simp_all)
  qed
qed

lemma mode6_step:
  fixes L :: "'l lfsr_ops"
  assumes "mode6_loop_inv be K s"
  shows "K = mode6_const (fst s) \<and> mode6_step_ok be s (mode6_iteration L be now s)"
proof -
  obtain d st where s: "s = (d, st)" by (cases s)
  have inv: "mode6_inv d" "mode6_status_ok be (mode6_const d) st" "K = mode6_const d"
    using assms by (auto simp: mode6_loop_inv_def s)
  show ?thesis
    using mode6_no_sync_step [OF inv(1) _ inv(2)] mode6_in_sync_step [OF inv(1) _ inv(2)]
      mode6_decoding_step [OF inv(1) _ inv(2)] inv(3)
    by (cases "d_state d") (simp_all add: mode6_iteration_def s)
qed

interpretation mode6_loop: partial_loop "mode6_iteration L be now" "mode6_loop_inv be K" mode6_measure "mode6_post be K"
  for L :: "'l lfsr_ops" and be now K
proof unfold_locales
  fix s s' :: "'l mode6_loop" and r
  assume "mode6_loop_inv be K s"
  note step = mode6_step [OF this, where L = L and now = now, unfolded mode6_step_ok_def]
  show "mode6_iteration L be now s = Inr (Continue s') \<Longrightarrow> mode6_loop_inv be K s' \<and> mode6_measure s' < mode6_measure s"
    using step by auto
  show "mode6_iteration L be now s = Inr (Return s' r) \<Longrightarrow> mode6_post be K s' r"
    using step by auto
qed
section \<open>Calls of decode\<close>

lemma mode6_new_inv:
  "mode6_inv (mode6_new L uid junk crc w ds)" "d_crc (mode6_new L uid junk crc w ds) = crc"
  "d_max_frame_len (mode6_new L uid junk crc w ds) = 255"
  by (simp_all add: mode6_new_def mode6_inv_def ax100_mode6.defs decoder_base.defs max_header_len_def max_addr_len_def
      max_ctrl_len_def pid_len_def)

lemma mode6_receive_change:
  "\<exists>b l. mode6_receive L x d = d\<lparr>d_prev_bit_nrzi := x, d_rx_lfsr := l, d_bitstream := d_bitstream d @ [b]\<rparr>"
proof (cases "d_ax25_descramble d")
  case True
  then show ?thesis by (auto simp: mode6_receive_def Let_def split_def)
next
  case False
  then have "mode6_receive L x d = d\<lparr>d_prev_bit_nrzi := x, d_rx_lfsr := d_rx_lfsr d,
      d_bitstream := d_bitstream d @ [nrzi_bit (d_prev_bit_nrzi d) x]\<rparr>"
    by (simp add: mode6_receive_def Let_def)
  then show ?thesis by blast
qed

lemma mode6_receive_inv:
  "mode6_inv d \<Longrightarrow> mode6_inv (fold (mode6_receive L) inp d) \<and>
   mode6_items (fold (mode6_receive L) inp d) = mode6_items d + of_nat (length inp) \<and>
   d_crc (fold (mode6_receive L) inp d) = d_crc d \<and>
   d_max_frame_len (fold (mode6_receive L) inp d) = d_max_frame_len d"
proof (induction inp arbitrary: d)
  case Nil
  then show ?case by simp
next
  case (Cons x xs)
  obtain b l where r: "mode6_receive L x d = d\<lparr>d_prev_bit_nrzi := x, d_rx_lfsr := l, d_bitstream := d_bitstream d @ [b]\<rparr>"
    using mode6_receive_change [of L x d] by blast
  have "mode6_inv (mode6_receive L x d)" using Cons.prems unfolding r
    by (auto simp: mode6_inv_def mode6_room_def split: mode6_state_t.splits)
  moreover have "mode6_items (mode6_receive L x d) = mode6_items d + 1"
    unfolding r by (simp add: mode6_items_def algebra_simps)
  moreover have "d_crc (mode6_receive L x d) = d_crc d"
    "d_max_frame_len (mode6_receive L x d) = d_max_frame_len d" unfolding r by simp_all
  ultimately show ?case using Cons.IH [of "mode6_receive L x d"] by (simp add: algebra_simps)
qed

lemma mode6_decode_result:
  assumes "mode6_inv d"
  shows "(\<exists>e. mode6_decode L be now d inp = Some (Inl e) \<and> mode6_error (d_crc d) e) \<or>
    (\<exists>d' st. mode6_decode L be now d inp = Some (Inr (d', st\<lparr>consumed := int (length inp)\<rparr>)) \<and> mode6_inv d' \<and>
      mode6_items d' = mode6_items d + of_nat (length inp) \<and> mode6_status_ok be (mode6_const d) st)"
proof -
  let ?d = "fold (mode6_receive L) inp d"
  have rec: "mode6_inv ?d" "mode6_items ?d = mode6_items d + of_nat (length inp)" "d_crc ?d = d_crc d"
    "d_max_frame_len ?d = d_max_frame_len d"
    using mode6_receive_inv [OF assms, of L inp] by simp_all
  have inv: "mode6_loop_inv be (mode6_const ?d) (?d, status_new)"
    using rec(1) by (simp add: mode6_loop_inv_def mode6_status_ok_def status_new_def)
  have "mode6_rank (d_state ?d) \<le> 2" by (cases "d_state ?d") simp_all
  then have "Suc (3 * length (d_bitstream ?d) + mode6_rank (d_state ?d)) * (16 * d_max_frame_len ?d + 40) \<le> mode6_fuel ?d"
    unfolding mode6_fuel_def by (intro mult_le_mono1) simp
  then have lt: "mode6_measure (?d, status_new) < mode6_fuel ?d"
    using mode6_left_less [of ?d] unfolding mode6_measure_def fst_conv mult_Suc by linarith
  have K: "mode6_status_ok be (mode6_const ?d) st = mode6_status_ok be (mode6_const d) st" for st
    by (simp add: mode6_status_ok_def mode6_const_def rec(3,4))
  consider (error) s' e where "run_loop (mode6_iteration L be now) (mode6_fuel ?d) (?d, status_new) = Some (Inl e)"
      "mode6_loop_inv be (mode6_const ?d) s'" "mode6_iteration L be now s' = Inl e"
    | (ok) s' r where "run_loop (mode6_iteration L be now) (mode6_fuel ?d) (?d, status_new) = Some (Inr (s', r))"
      "mode6_post be (mode6_const ?d) s' r"
    using mode6_loop.loop_ends [OF inv lt, of L now] by blast
  then show ?thesis
  proof cases
    case error
    have "d_crc (fst s') = d_crc d" using error(2) rec(3) by (simp add: mode6_loop_inv_def mode6_const_def)
    moreover have "mode6_error (d_crc (fst s')) e"
      using mode6_step [OF error(2), where L = L and now = now] error(3) by (simp add: mode6_step_ok_def)
    ultimately have "mode6_error (d_crc d) e" by simp
    then show ?thesis using error(1) by (simp add: mode6_decode_def Let_def)
  next
    case ok
    obtain d' st where s': "s' = (d', st)" by (cases s')
    have "mode6_inv d'" "mode6_items d' = mode6_items ?d" "mode6_status_ok be (mode6_const ?d) st"
      using ok(2) by (simp_all add: s' mode6_post_def mode6_loop_inv_def mode6_const_def)
    moreover have "mode6_decode L be now d inp = Some (Inr (d', st\<lparr>consumed := int (length inp)\<rparr>))"
      using ok(1) by (simp add: mode6_decode_def Let_def s')
    ultimately show ?thesis using rec(2) K by auto
  qed
qed

text \<open>C29: Every call of \<open>decode\<close> returns, although a frame with a wrong checksum is read again
  without a reset. Without a checksum it always succeeds: no access leaves the buffer, all input is
  consumed and the counter of dropped items stays exact. With CRC32 the only other outcome is the
  read outside the buffer, and every other method ends in the exception of the code.\<close>

theorem mode6_decode_returns:
  assumes "mode6_inv d"
  shows "case mode6_decode L be now d inp of
      None \<Rightarrow> False
    | Some (Inl e) \<Rightarrow> d_crc d = CRC32_C \<and> e = Oob_read \<or>
        d_crc d \<noteq> CRC_NONE \<and> d_crc d \<noteq> CRC32_C \<and> e = Runtime_error ''ax100_decoder: Invalid CRC''
    | Some (Inr (d', st)) \<Rightarrow> mode6_inv d' \<and> consumed st = int (length inp) \<and>
        d_nitems_read d' + of_nat (length (d_bitstream d')) =
        d_nitems_read d + of_nat (length (d_bitstream d)) + of_nat (length inp)"
  using mode6_decode_result [OF assms, of L be now inp] by (auto simp: mode6_error_def mode6_items_def)

theorem mode6_decode_returns_witness:
  "case mode6_decode fib_lfsr False ''now'' (mode6_new fib_lfsr 1 (\<lambda>_. 0) CRC_NONE None True) [1, 0, 1] of
      None \<Rightarrow> False
    | Some (Inl e) \<Rightarrow> False
    | Some (Inr (d', st)) \<Rightarrow> mode6_inv d' \<and> consumed st = 3"
  using mode6_decode_returns [OF mode6_new_inv(1) [of fib_lfsr 1 "\<lambda>_. 0" CRC_NONE None True],
      where L = fib_lfsr and be = False and now = "''now''" and inp = "[1, 0, 1]"]
  by (auto simp: mode6_new_inv(2) split: option.splits sum.splits)




lemma decode_rs_8_zeros: "decode_rs_8 (replicate 33 0) [] 222 = (0, replicate 33 0, [])"
proof -
  have "fold (OR) (rs_syndromes fixed_macros 222 (replicate 33 0)) 0 = 0"
    by (subst rs_syndromes_zero) (simp_all add: horner_zeros)
  then show ?thesis by (simp add: decode_rs_8_def decode_rs_def Let_def)
qed



section \<open>A short payload\<close>

text \<open>A frame of 51 to 53 bytes carries one to three bytes besides the header, the frame checks and
  the parity. When the parity accepts it, the receiver that checks the CRC32 takes four bytes off
  its length and reads far outside the buffer.\<close>

theorem mode6_short_payload:
  assumes "d_crc d = CRC32_C" and "51 \<le> d_received_bytes d" and "d_received_bytes d \<le> 53"
    and "d_descrambler d = None"
    and "decode_rs_8 (take (d_received_bytes d - 18) (drop 16 (d_frame_buffer d))) [] (255 - int (d_received_bytes d - 18)) = (ret, out, pos)"
    and "0 \<le> ret"
  shows "mode6_enter_frame_end L be now (d, st) = Inl Oob_read"
proof -
  have "d_received_bytes d - 18 - 32 < 4" "\<not> d_received_bytes d < 50" "\<not> 273 < d_received_bytes d" using assms(2,3) by linarith+
  then show ?thesis using assms by (simp add: mode6_enter_frame_end_def min_addr_len_def descramble_opt_def Let_def)
qed

theorem mode6_short_payload_witness:
  "mode6_enter_frame_end fib_lfsr False ''now''
    ((mode6_new fib_lfsr 1 (\<lambda>_. 0) CRC32_C None True)\<lparr>d_received_bytes := 51\<rparr>, status_new) = Inl Oob_read"
proof -
  let ?d = "(mode6_new fib_lfsr 1 (\<lambda>_. 0) CRC32_C None True)\<lparr>d_received_bytes := 51\<rparr>"
  have "map (\<lambda>_. 0 :: u8) [0..<255 + max_header_len + 2] = replicate (255 + max_header_len + 2) 0"
    by (simp add: map_replicate_const)
  then have b: "take 33 (drop 16 (d_frame_buffer ?d)) = replicate 33 0"
    by (simp add: mode6_new_def ax100_mode6.defs decoder_base.defs)
  then show ?thesis
    using decode_rs_8_zeros b by (intro mode6_short_payload [where ret = 0])
      (simp_all add: mode6_new_inv, simp_all add: mode6_new_def ax100_mode6.defs decoder_base.defs)
qed

end
