(* ===== verification/Rs_Encoder.thy ===== *)
theory Rs_Encoder
  imports Rs_Code Crc_Async
begin

text \<open>
  \<open>lib/rs_encoder.cc\<close>: the encoder block around \<open>encode_rs_8\<close>. It copies the parity in the
  wrong direction.
\<close>

unbundle bit_operations_syntax

section \<open>The encoder\<close>




end
