(* ===== verification/Morse.thy ===== *)
theory Morse
  imports Prelude
begin

text \<open>
  \<open>include/satnogs/morse.h\<close> and \<open>lib/morse_tree.cc\<close>: the symbols of the Morse code and the binary
  tree that turns dots and dashes into the characters of one word. A node is a tree of its own, the
  null pointer is \<open>Nullptr\<close>; the position in the tree is the subtree found there, and \<open>walk_not_root\<close>
  shows that comparing subtrees decides the comparison of pointers in the code. The buffer of the
  word starts with what \<open>new char[]\<close> left there (\<open>junk\<close>).
\<close>

section \<open>Symbols\<close>

datatype morse_symbol_t =
    MORSE_DOT | MORSE_DASH | MORSE_INTRA_SPACE | MORSE_S_SPACE | MORSE_L_SPACE | MORSE_END_MSG_SPACE

text \<open>The value of an enumerator, which is what travels in a message.\<close>

fun symbol_code :: "morse_symbol_t \<Rightarrow> nat" where
  "symbol_code MORSE_DOT = 0"
| "symbol_code MORSE_DASH = 1"
| "symbol_code MORSE_INTRA_SPACE = 2"
| "symbol_code MORSE_S_SPACE = 3"
| "symbol_code MORSE_L_SPACE = 4"
| "symbol_code MORSE_END_MSG_SPACE = 5"

lemma symbol_code_inj: "symbol_code s = symbol_code t \<longleftrightarrow> s = t"
  by (cases s; cases t) simp_all

text \<open>Enumerators compare as their values do.\<close>

instantiation morse_symbol_t :: linorder
begin

definition less_eq_morse_symbol_t :: "morse_symbol_t \<Rightarrow> morse_symbol_t \<Rightarrow> bool" where
  "less_eq_morse_symbol_t s t \<longleftrightarrow> symbol_code s \<le> symbol_code t"

definition less_morse_symbol_t :: "morse_symbol_t \<Rightarrow> morse_symbol_t \<Rightarrow> bool" where
  "less_morse_symbol_t s t \<longleftrightarrow> symbol_code s < symbol_code t"

instance
  by standard (auto simp: less_eq_morse_symbol_t_def less_morse_symbol_t_def symbol_code_inj)

end

section \<open>The tree\<close>

datatype tree_node =
    Nullptr
  | Tree_node (get_char: char) (get_left_child: tree_node) (get_right_child: tree_node)

abbreviation leaf :: "char \<Rightarrow> tree_node" where
  "leaf c \<equiv> Tree_node c Nullptr Nullptr"

definition construct_tree :: tree_node where
  "construct_tree =
    (let n5 = leaf CHR ''5''; n4 = leaf CHR ''4''; a_s = leaf CHR ''S''; n3 = leaf CHR ''3'';
         a_e = leaf CHR ''E''; d_d = leaf CHR ''D''; n2 = leaf CHR ''2''; d_e = leaf CHR ''E'';
         plus = leaf CHR ''+''; d_a = leaf CHR ''A''; d_j = leaf CHR ''J''; n1 = leaf CHR ''1'';
         n6 = leaf CHR ''6''; eq = leaf CHR ''=''; slash = leaf CHR ''/''; null1 = leaf CHR 0x00;
         n7 = leaf CHR ''7''; null2 = leaf CHR 0x00; n8 = leaf CHR ''8''; n9 = leaf CHR ''9'';
         n0 = leaf CHR ''0'';
         h = Tree_node CHR ''H'' n5 n4; v = Tree_node CHR ''V'' a_s n3;
         f = Tree_node CHR ''F'' a_e Nullptr; u_u = Tree_node CHR ''U'' d_d n2;
         l = Tree_node CHR ''L'' Nullptr d_e; u_a = Tree_node CHR ''A'' plus Nullptr;
         p = Tree_node CHR ''P'' Nullptr d_a; j = Tree_node CHR ''J'' d_j n1;
         b = Tree_node CHR ''B'' n6 eq; x = Tree_node CHR ''X'' slash Nullptr;
         c = Tree_node CHR ''C'' Nullptr null1; y = leaf CHR ''Y'';
         z = Tree_node CHR ''Z'' n7 null2; q = leaf CHR ''Q'';
         u_o = Tree_node CHR ''O'' n8 Nullptr; null0 = Tree_node CHR 0x00 n9 n0;
         s = Tree_node CHR ''S'' h v; u = Tree_node CHR ''U'' f u_u; r = Tree_node CHR ''R'' l u_a;
         w = Tree_node CHR ''W'' p j; d = Tree_node CHR ''D'' b x; k = Tree_node CHR ''K'' c y;
         g = Tree_node CHR ''G'' z q; o' = Tree_node CHR ''O'' u_o null0;
         i = Tree_node CHR ''I'' s u; a = Tree_node CHR ''A'' r w; n = Tree_node CHR ''N'' d k;
         m = Tree_node CHR ''M'' g o';
         e = Tree_node CHR ''E'' i a; t = Tree_node CHR ''T'' n m
     in Tree_node CHR 0x00 e t)"

section \<open>The decoder of one word\<close>

record morse_tree =
  d_unrecognized_symbol :: char
  d_root :: tree_node
  d_current :: tree_node
  d_buff_len :: nat
  d_word_len :: nat
  d_word_buffer :: "char list"

definition morse_tree_new :: "char \<Rightarrow> nat \<Rightarrow> (nat \<Rightarrow> char) \<Rightarrow> morse_tree" where
  "morse_tree_new unrecognized max_len junk =
     \<lparr>d_unrecognized_symbol = unrecognized, d_root = construct_tree, d_current = construct_tree,
      d_buff_len = max_len, d_word_len = 0, d_word_buffer = map junk [0..<max_len]\<rparr>"

definition tree_reset :: "morse_tree \<Rightarrow> morse_tree" where
  "tree_reset t =
     t\<lparr>d_current := d_root t, d_word_len := 0, d_word_buffer := replicate (d_buff_len t) CHR 0x00\<rparr>"

definition tree_received_symbol :: "morse_symbol_t \<Rightarrow> morse_tree \<Rightarrow> (bool \<times> morse_tree) res" where
  "tree_received_symbol s t =
     (if d_word_len t = d_buff_len t then Inr (False, t)
      else case s of
        MORSE_DOT \<Rightarrow>
          if get_left_child (d_current t) \<noteq> Nullptr
          then Inr (True, t\<lparr>d_current := get_left_child (d_current t)\<rparr>) else Inr (False, t)
      | MORSE_DASH \<Rightarrow>
          if get_right_child (d_current t) \<noteq> Nullptr
          then Inr (True, t\<lparr>d_current := get_right_child (d_current t)\<rparr>) else Inr (False, t)
      | MORSE_S_SPACE \<Rightarrow>
          if d_current t = d_root t then Inr (True, t)
          else let c = get_char (d_current t);
                   t = t\<lparr>d_current := d_root t\<rparr>
               in if c \<noteq> CHR 0x00
                  then res_bind (buf_set (d_word_buffer t) (d_word_len t) c) (\<lambda>b.
                       Inr (True, t\<lparr>d_word_len := d_word_len t + 1, d_word_buffer := b\<rparr>))
                  else Inr (False, t)
      | _ \<Rightarrow> Inr (False, t))"

definition get_word :: "morse_tree \<Rightarrow> string" where
  "get_word t = take (d_word_len t) (d_word_buffer t)"

definition get_max_word_len :: "morse_tree \<Rightarrow> nat" where
  "get_max_word_len t = d_buff_len t"

definition get_word_len :: "morse_tree \<Rightarrow> nat" where
  "get_word_len t = d_word_len t"

section \<open>Walks\<close>

text \<open>What the sequence of dots and dashes \<open>w\<close> leads to; \<open>Nullptr\<close> when there is no such node.\<close>

fun child :: "morse_symbol_t \<Rightarrow> tree_node \<Rightarrow> tree_node" where
  "child MORSE_DOT (Tree_node c l r) = l"
| "child MORSE_DASH (Tree_node c l r) = r"
| "child _ _ = Nullptr"

definition walk :: "tree_node \<Rightarrow> morse_symbol_t list \<Rightarrow> tree_node" where
  "walk n w = fold child w n"

definition marks :: "morse_symbol_t list \<Rightarrow> bool" where
  "marks w \<longleftrightarrow> set w \<subseteq> {MORSE_DOT, MORSE_DASH}"

lemma walk_simps [simp]: "walk n [] = n" "walk n (s # w) = walk (child s n) w" "walk Nullptr w = Nullptr"
proof -
  show "walk Nullptr w = Nullptr" by (induction w) (simp_all add: walk_def)
qed (simp_all add: walk_def)

lemma walk_append [simp]: "walk n (w @ v) = walk (walk n w) v"
  by (simp add: walk_def)

lemma size_child: "n \<noteq> Nullptr \<Longrightarrow> size (child s n) < size n"
  by (cases s; cases n) simp_all

text \<open>The code compares pointers; a node below the root is never equal to the root as a tree either.\<close>

lemma walk_size: "walk n w \<noteq> Nullptr \<Longrightarrow> size (walk n w) + length w \<le> size n"
proof (induction w arbitrary: n)
  case (Cons s w)
  then have "n \<noteq> Nullptr" by auto
  then show ?case using Cons size_child [of n s] by fastforce
qed simp

lemma walk_not_root: "walk n w \<noteq> Nullptr \<Longrightarrow> w \<noteq> [] \<Longrightarrow> walk n w \<noteq> n"
  using walk_size [of n w] by (cases w) auto

definition morse_inv :: "morse_tree \<Rightarrow> bool" where
  "morse_inv t \<longleftrightarrow>
     d_root t = construct_tree \<and> (\<exists>w. marks w \<and> d_current t = walk construct_tree w) \<and>
     d_current t \<noteq> Nullptr \<and> length (d_word_buffer t) = d_buff_len t \<and> d_word_len t \<le> d_buff_len t \<and>
     CHR 0x00 \<notin> set (get_word t)"

lemma construct_tree_not_null [simp]: "construct_tree \<noteq> Nullptr"
  by (simp add: construct_tree_def Let_def)

lemma morse_tree_new_inv: "morse_inv (morse_tree_new u n junk)"
  by (auto simp: morse_inv_def morse_tree_new_def get_word_def marks_def intro: exI [of _ "[]"])

lemma tree_reset_inv: "morse_inv t \<Longrightarrow> morse_inv (tree_reset t)"
  by (auto simp: morse_inv_def tree_reset_def get_word_def marks_def intro: exI [of _ "[]"])

lemma get_child:
  "n \<noteq> Nullptr \<Longrightarrow> get_left_child n = child MORSE_DOT n"
  "n \<noteq> Nullptr \<Longrightarrow> get_right_child n = child MORSE_DASH n"
  by (cases n; simp)+

lemma tree_received_mark:
  assumes "s \<in> {MORSE_DOT, MORSE_DASH}" and "d_current t \<noteq> Nullptr"
  shows "tree_received_symbol s t =
    Inr (if d_word_len t \<noteq> d_buff_len t \<and> child s (d_current t) \<noteq> Nullptr
         then (True, t\<lparr>d_current := child s (d_current t)\<rparr>) else (False, t))"
  using assms by (auto simp: tree_received_symbol_def get_child)

lemma tree_received_space:
  assumes "morse_inv t"
  shows "\<exists>r t'. tree_received_symbol MORSE_S_SPACE t = Inr (r, t') \<and> d_buff_len t' = d_buff_len t \<and> d_root t' = d_root t \<and>
    (if d_word_len t = d_buff_len t then \<not> r \<and> t' = t
     else d_current t' = construct_tree \<and> length (d_word_buffer t') = d_buff_len t \<and>
       (if d_current t = construct_tree then r \<and> t' = t
        else if get_char (d_current t) = CHR 0x00 then \<not> r \<and> d_word_len t' = d_word_len t \<and> get_word t' = get_word t
        else r \<and> d_word_len t' = d_word_len t + 1 \<and> get_word t' = get_word t @ [get_char (d_current t)]))"
  using assms
  by (auto simp: tree_received_symbol_def morse_inv_def buf_simps get_word_def take_Suc_conv_app_nth Let_def)

lemma tree_received_inv:
  assumes "morse_inv t"
  shows "\<exists>r t'. tree_received_symbol s t = Inr (r, t') \<and> morse_inv t' \<and> d_buff_len t' = d_buff_len t"
proof -
  consider (mark) "s \<in> {MORSE_DOT, MORSE_DASH}" | (space) "s = MORSE_S_SPACE"
    | (other) "tree_received_symbol s t = Inr (False, t)"
    by (cases s) (auto simp: tree_received_symbol_def)
  then show ?thesis
  proof cases
    case mark
    obtain w where "marks w" "d_current t = walk construct_tree w" using assms by (auto simp: morse_inv_def)
    then have "marks (w @ [s]) \<and> child s (d_current t) = walk construct_tree (w @ [s])"
      using mark by (auto simp: marks_def)
    then show ?thesis
      using assms mark by (auto simp: tree_received_mark morse_inv_def get_word_def)
  next
    case space
    obtain r t' where t': "tree_received_symbol MORSE_S_SPACE t = Inr (r, t')" "d_buff_len t' = d_buff_len t"
      "d_root t' = d_root t"
      "if d_word_len t = d_buff_len t then \<not> r \<and> t' = t
       else d_current t' = construct_tree \<and> length (d_word_buffer t') = d_buff_len t \<and>
         (if d_current t = construct_tree then r \<and> t' = t
          else if get_char (d_current t) = CHR 0x00 then \<not> r \<and> d_word_len t' = d_word_len t \<and> get_word t' = get_word t
          else r \<and> d_word_len t' = d_word_len t + 1 \<and> get_word t' = get_word t @ [get_char (d_current t)])"
      using tree_received_space [OF assms] by blast
    have "marks []" by (simp add: marks_def)
    then have "morse_inv t'"
      using t'(2-4) assms by (auto simp: morse_inv_def split: if_splits intro: exI [of _ "[]"])
    then show ?thesis using t'(1,2) space by blast
  qed (use assms in blast)
qed

end
