(* ===== verification/Morse_Source.thy ===== *)
theory Morse_Source
  imports Morse
begin

text \<open>
  \<open>lib/morse_debug_source_impl.cc\<close>: the block that turns a sentence into Morse symbols for a test. One
  turn of its endless loop is \<open>send_debug_msg\<close>; the messages it publishes are a list. The sleeps have
  no effect on the symbols, and a dot of zero milliseconds stops the program by a division by zero.
\<close>

section \<open>The tables\<close>

definition d_chars :: string where
  "d_chars = ''ABCDEFGHIJKLMNOPQRSTUVWXYZ1234567890''"

definition d_symbols :: "string list" where
  "d_symbols =
    [''.-'', ''-...'', ''-.-.'', ''-..'', ''.'', ''..-.'', ''--.'', ''....'', ''..'',
     ''.---'', ''-.-'', ''.-..'', ''--'', ''-.'', ''---'', ''.--.'', ''--.-'',
     ''.-.'', ''...'', ''-'', ''..-'', ''...-'', ''.--'', ''-..-'', ''-.--'',
     ''--..'', ''.----'', ''..---'', ''...--'', ''....-'', ''.....'', ''-....'',
     ''--...'', ''---..'', ''----.'', ''-----'']"

text \<open>The index of the first occurrence; the length when there is none.\<close>

fun find_char_idx :: "string \<Rightarrow> char \<Rightarrow> nat" where
  "find_char_idx [] c = 0"
| "find_char_idx (x # xs) c = (if x = c then 0 else Suc (find_char_idx xs c))"

text \<open>\<open>std::toupper\<close> in the C locale.\<close>

definition toupper :: "char \<Rightarrow> char" where
  "toupper c = (if 97 \<le> (of_char c :: nat) \<and> (of_char c :: nat) \<le> 122 then char_of (of_char c - 32 :: nat) else c)"

section \<open>One round of the source\<close>

fun send_element :: "bool \<Rightarrow> char \<Rightarrow> morse_symbol_t list" where
  "send_element inject_error e =
     (if e = CHR ''.''
      then (if inject_error then [MORSE_DASH, MORSE_INTRA_SPACE] else [MORSE_DOT, MORSE_INTRA_SPACE])
      else (if inject_error then [MORSE_DOT, MORSE_INTRA_SPACE] else [MORSE_DASH, MORSE_INTRA_SPACE]))"

text \<open>
  The loop over the sentence. \<open>draws\<close> are the outcomes of the Bernoulli distribution still to come;
  one is drawn for every character in the table when errors are to be injected.
\<close>

fun send_chars :: "bool \<Rightarrow> (nat \<Rightarrow> bool) \<Rightarrow> string \<Rightarrow> morse_symbol_t list" where
  "send_chars inject draws [] = []"
| "send_chars inject draws (x # xs) =
     (let c = toupper x;
          blank = (if c = CHR '' '' then [MORSE_L_SPACE] else []);
          idx = find_char_idx d_chars c
      in if idx \<noteq> length d_chars
         then let (inject_error, draws) = (if inject then (draws 0, \<lambda>n. draws (n + 1)) else (False, draws))
           in blank @ concat (map (send_element inject_error) (d_symbols ! idx)) @ [MORSE_S_SPACE] @ send_chars inject draws xs
         else blank @ send_chars inject draws xs)"

text \<open>
  One turn of the loop of \<open>send_debug_msg\<close>: the sentence, the end of its last word and the pause. The
  duration of a dot in milliseconds, \<open>1200 / d_wpm\<close>, divides the pause.
\<close>

definition send_debug_msg :: "nat \<Rightarrow> bool \<Rightarrow> nat \<Rightarrow> (nat \<Rightarrow> bool) \<Rightarrow> string \<Rightarrow> morse_symbol_t list res" where
  "send_debug_msg wpm inject seq_pause_ms draws sentence =
     (if wpm = 0 \<or> 1200 div wpm = 0 then Inl (Runtime_error ''division by zero'')
      else Inr (send_chars inject draws sentence @ [MORSE_L_SPACE] @
             replicate (seq_pause_ms div (1200 div wpm)) MORSE_INTRA_SPACE))"

section \<open>The table and the tree\<close>

text \<open>The marks of a character, as symbols.\<close>

definition code_of :: "char \<Rightarrow> morse_symbol_t list" where
  "code_of c = map (\<lambda>e. if e = CHR ''.'' then MORSE_DOT else MORSE_DASH) (d_symbols ! find_char_idx d_chars c)"

lemma find_char_idx_known: "c \<in> set xs \<Longrightarrow> find_char_idx xs c < length xs"
  by (induction xs) auto

lemma find_char_idx_unknown: "c \<notin> set xs \<Longrightarrow> find_char_idx xs c = length xs"
  by (induction xs) auto

lemma table_in_tree:
  "list_all (\<lambda>c. get_char (walk construct_tree (code_of c)) = c \<and> walk construct_tree (code_of c) \<noteq> Nullptr \<and>
     code_of c \<noteq> [] \<and> marks (code_of c) \<and> c \<noteq> CHR 0x00 \<and> c \<noteq> CHR '' '') d_chars"
  by code_simp

lemma code_walk:
  assumes "c \<in> set d_chars"
  shows "get_char (walk construct_tree (code_of c)) = c" "walk construct_tree (code_of c) \<noteq> Nullptr"
    "code_of c \<noteq> []" "marks (code_of c)" "c \<noteq> CHR 0x00" "c \<noteq> CHR '' ''"
  using table_in_tree assms unfolding list_all_iff by blast+

lemma send_chars_known:
  assumes "toupper x \<in> set d_chars"
  shows "send_chars False draws (x # xs) =
    concat (map (\<lambda>e. [e, MORSE_INTRA_SPACE]) (code_of (toupper x))) @ [MORSE_S_SPACE] @ send_chars False draws xs"
proof -
  have "concat (map (send_element False) w) =
      concat (map (\<lambda>e. [e, MORSE_INTRA_SPACE]) (map (\<lambda>e. if e = CHR ''.'' then MORSE_DOT else MORSE_DASH) w))" for w
    by (induction w) simp_all
  then show ?thesis
    using find_char_idx_known [OF assms] code_walk(6) [OF assms] by (simp add: Let_def code_of_def)
qed

lemma send_chars_blank: "send_chars False draws (CHR '' '' # xs) = MORSE_L_SPACE # send_chars False draws xs"
  by (simp add: toupper_def d_chars_def)

lemma send_chars_word:
  assumes "\<forall>x \<in> set w. toupper x \<in> set d_chars"
  shows "send_chars False draws (w @ xs) =
    concat (map (\<lambda>x. concat (map (\<lambda>e. [e, MORSE_INTRA_SPACE]) (code_of (toupper x))) @ [MORSE_S_SPACE]) w) @
    send_chars False draws xs"
  using assms by (induction w) (simp_all add: send_chars_known del: send_chars.simps(2))

end
