(* ===== verification/Cw_Encoder.thy ===== *)
theory Cw_Encoder
  imports Morse
begin

text \<open>
  \<open>lib/cw_encoder_impl.cc\<close>: the block that keys a carrier with Morse symbols. The constructor takes the
  number of samples of a dot, which the code computes from the sample rate in floating point, and
  chooses the window in which the samples are written; \<open>cw_work\<close> is one call of the scheduler.
\<close>

section \<open>The line\<close>

text \<open>The length of a symbol in dots, whether the key is down, and the key over the time of a list of
  symbols when a dot lasts \<open>n\<close> samples. A symbol of no length is not sent.\<close>

fun units :: "morse_symbol_t \<Rightarrow> nat" where
  "units MORSE_DOT = 1"
| "units MORSE_INTRA_SPACE = 1"
| "units MORSE_DASH = 3"
| "units MORSE_S_SPACE = 3"
| "units MORSE_L_SPACE = 7"
| "units MORSE_END_MSG_SPACE = 0"

definition key_down :: "morse_symbol_t \<Rightarrow> bool" where
  "key_down s \<longleftrightarrow> s \<in> {MORSE_DOT, MORSE_DASH}"

definition key_line :: "nat \<Rightarrow> morse_symbol_t list \<Rightarrow> bool list" where
  "key_line n syms = concat (map (\<lambda>s. replicate (units s * n) (key_down s)) syms)"

lemma key_line_simps [simp]:
  "key_line n [] = []"
  "key_line n (s # syms) = replicate (units s * n) (key_down s) @ key_line n syms"
  "key_line n (xs @ ys) = key_line n xs @ key_line n ys"
  by (simp_all add: key_line_def)

section \<open>The block\<close>

text \<open>The numerically controlled oscillator of GNU Radio is a parameter; \<open>sincos\<close> fills a window.\<close>

record ('n, 'c) nco_ops =
  nco_new :: 'n
  set_freq :: "'n \<Rightarrow> 'n"
  sincos :: "'n \<Rightarrow> nat \<Rightarrow> 'c list \<times> 'n"
  zero_sample :: 'c

record 'n cw_encoder =
  d_dot_samples :: nat
  d_window_size :: nat
  d_windows_remaining :: nat
  d_cw_symbol :: morse_symbol_t
  d_nco :: 'n

lemma div_large: "200 < m div i \<Longrightarrow> 0 < i \<and> 201 * i \<le> m" for m i :: nat
proof -
  assume *: "200 < m div i"
  then have "0 < i" by (cases i) simp_all
  moreover have "201 * i \<le> m div i * i" using * by (intro mult_le_mono1) simp
  ultimately show "0 < i \<and> 201 * i \<le> m" using div_times_less_eq_dividend [of m i] by linarith
qed

text \<open>The first loop of the constructor halts as the divisor grows; the second, entered with a window of
  size zero, divides by zero, and would run on for ever behind a window larger than the dot.\<close>

function window_split :: "nat \<Rightarrow> nat \<Rightarrow> nat" where
  "window_split dot i = (if 200 < dot div i then window_split dot (i + 10) else dot div i)"
  by pat_completeness auto
termination
proof (relation "measure (\<lambda>(dot, i). dot - i)")
  show "((dot, i + 10), dot, i) \<in> measure (\<lambda>(dot, i). dot - i)" if "200 < dot div i" for dot i :: nat
  proof -
    have "i < dot" using div_large [OF that] by linarith
    then show ?thesis by simp
  qed
qed simp

declare window_split.simps [simp del]

partial_function (option) window_fit :: "nat \<Rightarrow> nat \<Rightarrow> nat res option" where
  "window_fit dot w =
     (if w = 0 then Some (Inl (Runtime_error ''division by zero''))
      else if dot mod w \<noteq> 0 then window_fit dot (w + 1) else Some (Inr w))"

definition cw_encoder_new :: "('n, 'c) nco_ops \<Rightarrow> nat \<Rightarrow> 'n cw_encoder res option" where
  "cw_encoder_new N dot_samples =
     map_option (\<lambda>r. res_bind r (\<lambda>w.
         Inr \<lparr>d_dot_samples = dot_samples, d_window_size = w, d_windows_remaining = 0, d_cw_symbol = MORSE_L_SPACE,
              d_nco = set_freq N (nco_new N)\<rparr>))
       (window_fit dot_samples (window_split dot_samples 10))"

text \<open>The inner switch fills one window, the loop around it those of the output buffer. The counter is a
  \<open>size_t\<close>. No other symbol than the five gets as far as the switch.\<close>

definition cw_window :: "('n, 'c) nco_ops \<Rightarrow> 'n cw_encoder \<Rightarrow> 'c list \<times> 'n cw_encoder" where
  "cw_window N e =
     (if d_cw_symbol e \<in> {MORSE_DOT, MORSE_DASH}
      then let (c, n) = sincos N (d_nco e) (d_window_size e) in (c, e\<lparr>d_nco := n\<rparr>)
      else (replicate (d_window_size e) (zero_sample N), e))"

fun cw_work_loop :: "('n, 'c) nco_ops \<Rightarrow> nat \<Rightarrow> 'n cw_encoder \<Rightarrow> 'c list \<times> 'n cw_encoder" where
  "cw_work_loop N 0 e = ([], e)"
| "cw_work_loop N (Suc k) e =
     (let (out, e) = cw_window N e;
          e = e\<lparr>d_windows_remaining := (if d_windows_remaining e = 0 then 2 ^ 64 - 1 else d_windows_remaining e - 1)\<rparr>
      in if d_windows_remaining e = 0 then (out, e)
         else let (rest, e) = cw_work_loop N k e in (out @ rest, e))"

text \<open>\<open>work\<close>: the samples written, the state, and what is left in the queue of the message port.\<close>

definition cw_work ::
    "('n, 'c) nco_ops \<Rightarrow> int \<Rightarrow> morse_symbol_t list \<Rightarrow> 'n cw_encoder \<Rightarrow> 'c list \<times> 'n cw_encoder \<times> morse_symbol_t list" where
  "cw_work N noutput_items queue e =
     (if noutput_items < 0 then ([], e, queue)
      else let windows = (\<lambda>e. cw_work_loop N (nat noutput_items div d_window_size e) e)
        in if d_windows_remaining e = 0
           then (case queue of
               [] \<Rightarrow> ([], e, [])
             | s # queue \<Rightarrow>
                 let e = e\<lparr>d_cw_symbol := s, d_nco := set_freq N (d_nco e)\<rparr>;
                     n = d_dot_samples e div d_window_size e
                 in case s of
                      MORSE_DOT \<Rightarrow> (let (out, e) = windows (e\<lparr>d_windows_remaining := n\<rparr>) in (out, e, queue))
                    | MORSE_INTRA_SPACE \<Rightarrow> (let (out, e) = windows (e\<lparr>d_windows_remaining := n\<rparr>) in (out, e, queue))
                    | MORSE_DASH \<Rightarrow> (let (out, e) = windows (e\<lparr>d_windows_remaining := n * 3\<rparr>) in (out, e, queue))
                    | MORSE_S_SPACE \<Rightarrow> (let (out, e) = windows (e\<lparr>d_windows_remaining := n * 3\<rparr>) in (out, e, queue))
                    | MORSE_L_SPACE \<Rightarrow> (let (out, e) = windows (e\<lparr>d_windows_remaining := n * 7\<rparr>) in (out, e, queue))
                    | _ \<Rightarrow> ([], e, queue))
           else let (out, e) = windows e in (out, e, queue))"

section \<open>The constructor\<close>

lemma window_fit_ends:
  assumes "0 < w" and "w \<le> dot"
  shows "\<exists>v. window_fit dot w = Some (Inr v) \<and> w \<le> v \<and> v \<le> dot \<and> dot mod v = 0"
  using assms
proof (induction "dot - w" arbitrary: w rule: less_induct)
  case less
  show ?case
  proof (cases "dot mod w = 0")
    case True
    then show ?thesis using less.prems by (subst window_fit.simps) auto
  next
    case False
    then have "w < dot" using less.prems by (cases "w = dot") auto
    then obtain v where "window_fit dot (w + 1) = Some (Inr v)" "w + 1 \<le> v" "v \<le> dot" "dot mod v = 0"
      using less.hyps [of "w + 1"] by (metis add.commute add_gr_0 diff_less_mono2 less_eq_Suc_le less_add_one plus_1_eq_Suc zero_less_one)
    then show ?thesis using False less.prems(1) by (subst window_fit.simps) auto
  qed
qed

lemma window_split_le: "window_split dot i \<le> 200"
  by (induction dot i rule: window_split.induct) (subst window_split.simps, simp)

lemma window_split_pos: "10 \<le> dot \<Longrightarrow> 0 < i \<Longrightarrow> i \<le> dot \<Longrightarrow> 0 < window_split dot i"
proof (induction dot i rule: window_split.induct)
  case (1 dot i)
  show ?case
  proof (cases "200 < dot div i")
    case True
    then have "0 < i \<and> 201 * i \<le> dot" by (rule div_large)
    then have "i + 10 \<le> dot" using "1.prems" by linarith
    then show ?thesis using 1 True by (subst window_split.simps) simp
  next
    case False
    then show ?thesis using "1.prems" by (subst window_split.simps) (simp add: div_greater_zero_iff)
  qed
qed

definition cw_encoder_inv :: "nat \<Rightarrow> 'n cw_encoder \<Rightarrow> bool" where
  "cw_encoder_inv n e \<longleftrightarrow>
     d_dot_samples e = n \<and> 0 < n \<and> 0 < d_window_size e \<and> n mod d_window_size e = 0 \<and>
     (0 < d_windows_remaining e \<longrightarrow> units (d_cw_symbol e) \<noteq> 0)"

lemma cw_encoder_new_ok:
  assumes "10 \<le> n"
  shows "\<exists>e. cw_encoder_new N n = Some (Inr e) \<and> cw_encoder_inv n e \<and> d_windows_remaining e = 0"
proof -
  have "window_split n 10 \<le> n"
  proof (cases "n div 10 \<le> 200")
    case True
    then show ?thesis by (subst window_split.simps) simp
  next
    case False
    then show ?thesis using window_split_le [of n 10] by linarith
  qed
  then obtain w where "window_fit n (window_split n 10) = Some (Inr w)" "window_split n 10 \<le> w" "w \<le> n" "n mod w = 0"
    using window_fit_ends [of "window_split n 10" n] window_split_pos [OF assms, of 10] assms by auto
  then show ?thesis using assms window_split_pos [OF assms, of 10]
    by (simp add: cw_encoder_new_def cw_encoder_inv_def)
qed

lemma cw_encoder_slow: "n < 10 \<Longrightarrow> cw_encoder_new N n = Some (Inl (Runtime_error ''division by zero''))"
  by (subst cw_encoder_new_def, subst window_split.simps, subst window_fit.simps) simp

section \<open>What is sent\<close>

text \<open>The samples of the oscillator have an amplitude, silence has none: \<open>on\<close> tells them apart.\<close>

definition nco_ok :: "('n, 'c) nco_ops \<Rightarrow> ('c \<Rightarrow> bool) \<Rightarrow> bool" where
  "nco_ok N on \<longleftrightarrow> (\<forall>n k. length (fst (sincos N n k)) = k \<and> list_all on (fst (sincos N n k))) \<and> \<not> on (zero_sample N)"

text \<open>What is still to be sent.\<close>

definition cw_left :: "nat \<Rightarrow> 'n cw_encoder \<Rightarrow> morse_symbol_t list \<Rightarrow> bool list" where
  "cw_left n e queue =
     replicate (d_windows_remaining e * d_window_size e) (key_down (d_cw_symbol e)) @ key_line n queue"

lemma map_on: "list_all on xs \<Longrightarrow> map on xs = replicate (length xs) True"
  by (induction xs) simp_all

lemma cw_window_on:
  assumes "nco_ok N on"
  obtains c m where "cw_window N e = (c, e\<lparr>d_nco := m\<rparr>)" "map on c = replicate (d_window_size e) (key_down (d_cw_symbol e))"
proof (cases "key_down (d_cw_symbol e)")
  case True
  obtain c m where c: "sincos N (d_nco e) (d_window_size e) = (c, m)" by fastforce
  then have "length c = d_window_size e" "list_all on c" using assms unfolding nco_ok_def by (metis fst_conv)+
  then show ?thesis using True c map_on [of on c] by (auto intro: that [of c m] simp: key_down_def cw_window_def)
next
  case False
  then show ?thesis
    using assms by (intro that [of "replicate (d_window_size e) (zero_sample N)" "d_nco e"]) (auto simp: key_down_def cw_window_def nco_ok_def)
qed

lemma cw_work_loop_line:
  assumes "nco_ok N on" and "cw_encoder_inv n e" and "0 < d_windows_remaining e" and "cw_work_loop N k e = (out, e')"
  shows "cw_encoder_inv n e' \<and> cw_left n e queue = map on out @ cw_left n e' queue \<and>
    (0 < k \<longrightarrow> out \<noteq> []) \<and> d_window_size e' = d_window_size e"
  using assms(2-)
proof (induction k arbitrary: e out)
  case 0
  then show ?case by simp
next
  case (Suc k)
  obtain c m where c: "cw_window N e = (c, e\<lparr>d_nco := m\<rparr>)"
    "map on c = replicate (d_window_size e) (key_down (d_cw_symbol e))" using cw_window_on [OF assms(1)] .
  define e2 where "e2 = e\<lparr>d_nco := m, d_windows_remaining := d_windows_remaining e - 1\<rparr>"
  have inv2: "cw_encoder_inv n e2" using Suc.prems(1,2) by (simp add: e2_def cw_encoder_inv_def)
  have left: "cw_left n e queue = map on c @ cw_left n e2 queue"
    using Suc.prems(2) c(2) by (cases "d_windows_remaining e") (simp_all add: cw_left_def e2_def replicate_add)
  have w: "d_window_size e2 = d_window_size e" by (simp add: e2_def)
  have ne: "c \<noteq> []" using arg_cong [OF c(2), of length] Suc.prems(1) by (auto simp: cw_encoder_inv_def)
  have step: "cw_work_loop N (Suc k) e = (if d_windows_remaining e2 = 0 then (c, e2) else let (rest, e3) = cw_work_loop N k e2 in (c @ rest, e3))"
    using Suc.prems(2) by (simp add: e2_def c(1))
  show ?case
  proof (cases "d_windows_remaining e2 = 0")
    case True
    then show ?thesis using step inv2 left ne w Suc.prems(3) by auto
  next
    case False
    obtain rest where r: "cw_work_loop N k e2 = (rest, e')" "out = c @ rest"
      using step False Suc.prems(3) by (auto split: prod.splits)
    show ?thesis using Suc.IH [OF inv2 _ r(1)] False r(2) left ne w by simp
  qed
qed

lemma cw_work_symbol:
  assumes "units s \<noteq> 0" and "0 \<le> k" and "d_windows_remaining e = 0"
  shows "cw_work N k (s # rest) e =
    (let (out, e') = cw_work_loop N (nat k div d_window_size e)
          (e\<lparr>d_cw_symbol := s, d_nco := set_freq N (d_nco e), d_windows_remaining := d_dot_samples e div d_window_size e * units s\<rparr>)
     in (out, e', rest))"
  using assms by (cases s) (simp_all add: cw_work_def Let_def)

lemma cw_work_line:
  assumes ok: "nco_ok N on" and inv: "cw_encoder_inv n e" and work: "cw_work N k queue e = (out, e', queue')"
  shows "cw_encoder_inv n e' \<and> cw_left n e queue = map on out @ cw_left n e' queue' \<and> d_window_size e' = d_window_size e \<and>
    (int (d_window_size e) \<le> k \<and> (0 < d_windows_remaining e \<or> queue \<noteq> []) \<longrightarrow> out \<noteq> [] \<or> length queue' < length queue)"
proof (cases "k < 0")
  case True
  then show ?thesis using inv work by (auto simp: cw_work_def)
next
  case k: False
  have win: "0 < nat k div d_window_size e" if "int (d_window_size e) \<le> k"
    using that inv by (simp add: cw_encoder_inv_def div_greater_zero_iff nat_le_iff le_nat_iff)
  show ?thesis
  proof (cases "d_windows_remaining e = 0")
    case False
    then have "cw_work_loop N (nat k div d_window_size e) e = (out, e')" "queue' = queue"
      using work k by (auto simp: cw_work_def Let_def split: prod.splits)
    then show ?thesis using cw_work_loop_line [OF ok inv] False win by simp
  next
    case idle: True
    show ?thesis
    proof (cases queue)
      case Nil
      then show ?thesis using idle inv work k by (simp add: cw_work_def)
    next
      case (Cons s rest)
      define e1 where "e1 = e\<lparr>d_cw_symbol := s, d_nco := set_freq N (d_nco e), d_windows_remaining := n div d_window_size e * units s\<rparr>"
      show ?thesis
      proof (cases "units s = 0")
        case True
        then have "s = MORSE_END_MSG_SPACE" by (cases s) simp_all
        then have "out = []" "queue' = rest" "e' = e\<lparr>d_cw_symbol := s, d_nco := set_freq N (d_nco e)\<rparr>"
          using work k idle Cons by (auto simp: cw_work_def Let_def)
        then show ?thesis using inv idle Cons True by (simp add: cw_encoder_inv_def cw_left_def)
      next
        case False
        have w: "n div d_window_size e * d_window_size e = n" "0 < n div d_window_size e"
          using inv by (auto simp: cw_encoder_inv_def div_greater_zero_iff dvd_imp_le mod_0_imp_dvd)
        have inv1: "cw_encoder_inv n e1" using inv False by (simp add: e1_def cw_encoder_inv_def)
        have loop: "cw_work_loop N (nat k div d_window_size e1) e1 = (out, e')" "queue' = rest"
          using work cw_work_symbol [OF False _ idle, of k N rest] k Cons inv
          by (auto simp: e1_def cw_encoder_inv_def split: prod.splits)
        have "cw_left n e queue = cw_left n e1 rest"
          using w(1) idle Cons by (simp add: cw_left_def e1_def algebra_simps)
        then show ?thesis
          using cw_work_loop_line [OF ok inv1 _ loop(1), of rest] loop(2) Cons w(2) False by (simp add: e1_def)
      qed
    qed
  qed
qed

text \<open>The calls of \<open>work\<close> that the scheduler makes, with whatever room it offers, and messages that arrive
  between them.\<close>

inductive cw_runs :: "('n, 'c) nco_ops \<Rightarrow> 'n cw_encoder \<times> morse_symbol_t list \<Rightarrow> morse_symbol_t list \<Rightarrow> 'c list \<Rightarrow>
    'n cw_encoder \<times> morse_symbol_t list \<Rightarrow> bool" for N where
  runs_start: "cw_runs N s [] [] s"
| runs_message: "cw_runs N s msgs out (e, queue) \<Longrightarrow> cw_runs N s (msgs @ [m]) out (e, queue @ [m])"
| runs_work: "cw_runs N s msgs out (e, queue) \<Longrightarrow> cw_work N k queue e = (out', e', queue') \<Longrightarrow>
    cw_runs N s msgs (out @ out') (e', queue')"

lemma cw_left_queue: "cw_left n e (queue @ msgs) = cw_left n e queue @ key_line n msgs"
  by (simp add: cw_left_def)

lemma cw_runs_line:
  assumes "cw_runs N (e0, queue0) msgs out (e, queue)" and "nco_ok N on" and "cw_encoder_inv n e0"
  shows "cw_encoder_inv n e \<and> cw_left n e0 queue0 @ key_line n msgs = map on out @ cw_left n e queue"
  using assms
proof (induction "(e0, queue0)" msgs out "(e, queue)" arbitrary: e queue rule: cw_runs.induct)
  case (runs_message msgs out e queue m)
  then show ?case by (simp add: cw_left_queue)
next
  case (runs_work msgs out e queue k out' e' queue')
  then show ?case using cw_work_line [OF runs_work.prems(1) _ runs_work.hyps(3)] by fastforce
qed simp

text \<open>C32: The encoder keys the line: however the scheduler divides the work, the samples written so far have
  an amplitude exactly where the Morse line of the messages received so far has the key down, and when the
  encoder is idle they are the whole line.\<close>

theorem cw_encoder_keys_line:
  assumes "cw_encoder_new N n = Some (Inr e0)" and "10 \<le> n" and "nco_ok N on" and "cw_runs N (e0, []) msgs out (e, queue)"
  shows "\<exists>rest. key_line n msgs = map on out @ rest \<and> (d_windows_remaining e = 0 \<and> queue = [] \<longrightarrow> rest = [])"
proof -
  have "cw_encoder_inv n e0" "d_windows_remaining e0 = 0" using cw_encoder_new_ok [OF assms(2), of N] assms(1) by auto
  then show ?thesis using cw_runs_line [OF assms(4,3), of n] by (auto simp: cw_left_def)
qed

text \<open>An oscillator without a phase, which writes a constant amplitude.\<close>

definition plain_nco :: "(unit, bool) nco_ops" where
  "plain_nco = \<lparr>nco_new = (), set_freq = (\<lambda>n. n), sincos = (\<lambda>n k. (replicate k True, n)), zero_sample = False\<rparr>"

theorem cw_encoder_keys_line_witness:
  "\<exists>e rest. cw_runs plain_nco (\<lparr>d_dot_samples = 10, d_window_size = 1, d_windows_remaining = 0, d_cw_symbol = MORSE_L_SPACE, d_nco = ()\<rparr>, [])
      [MORSE_DASH] (replicate 5 True) (e, []) \<and> key_line 10 [MORSE_DASH] = replicate 5 True @ rest"
proof -
  let ?e0 = "\<lparr>d_dot_samples = 10, d_window_size = 1, d_windows_remaining = 0, d_cw_symbol = MORSE_L_SPACE, d_nco = ()\<rparr>"
  have new: "cw_encoder_new plain_nco 10 = Some (Inr ?e0)"
    by (simp add: cw_encoder_new_def window_split.simps window_fit.simps plain_nco_def)
  have ok: "nco_ok plain_nco id" by (simp add: nco_ok_def plain_nco_def list_all_iff)
  have "cw_runs plain_nco (?e0, []) ([] @ [MORSE_DASH]) [] (?e0, [] @ [MORSE_DASH])"
    by (rule runs_message) (rule runs_start)
  moreover have "\<exists>e. cw_work plain_nco 5 ([] @ [MORSE_DASH]) ?e0 = (replicate 5 True, e, [])"
    by (simp add: cw_work_def cw_window_def plain_nco_def numeral_eq_Suc Let_def)
  ultimately obtain e where r: "cw_runs plain_nco (?e0, []) ([] @ [MORSE_DASH]) ([] @ replicate 5 True) (e, [])"
    using runs_work by meson
  then show ?thesis using cw_encoder_keys_line [OF new _ ok r] by auto
qed

end
