(* ===== verification/Cw_Decoder.thy ===== *)
theory Cw_Decoder
  imports Complex_Main Morse Metadata
begin

text \<open>
  \<open>include/satnogs/moving_sum.h\<close> and \<open>lib/cw_decoder_priv.cc\<close>: the decoder of one sub-channel of the CW
  decoder. A call of \<open>decode\<close> sees one value of the trigger signal; its first half (\<open>cw_front\<close>) decides
  whether the key is down, its second half (\<open>cw_switch\<close>) measures how long the key is down or up and
  passes dots, dashes and spaces to the Morse tree.
\<close>

section \<open>Floating point\<close>

text \<open>
  The arithmetic of the processor on \<open>float\<close>. Nothing is assumed of it: the theorems hold for every
  rounding. \<open>f_bits\<close> is the value as the 64 bits of a double, the way the dictionary carries it.
\<close>

record 'f float_ops =
  f_of_nat :: "nat \<Rightarrow> 'f"
  f_add :: "'f \<Rightarrow> 'f \<Rightarrow> 'f"
  f_sub :: "'f \<Rightarrow> 'f \<Rightarrow> 'f"
  f_mul :: "'f \<Rightarrow> 'f \<Rightarrow> 'f"
  f_div :: "'f \<Rightarrow> 'f \<Rightarrow> 'f"
  f_sqrt :: "'f \<Rightarrow> 'f"
  f_less :: "'f \<Rightarrow> 'f \<Rightarrow> bool"
  f_bits :: "'f \<Rightarrow> u64"

section \<open>The moving sum\<close>

record 'f moving_sum =
  d_val :: 'f
  d_buf :: "'f list"

definition moving_sum_new :: "'f float_ops \<Rightarrow> nat \<Rightarrow> 'f \<Rightarrow> 'f moving_sum" where
  "moving_sum_new F len init_val = \<lparr>d_val = f_mul F (f_of_nat F len) init_val, d_buf = replicate len init_val\<rparr>"

text \<open>\<open>front\<close> and \<open>pop_front\<close> of an empty deque are undefined.\<close>

definition moving_sum_insert :: "'f float_ops \<Rightarrow> 'f \<Rightarrow> 'f moving_sum \<Rightarrow> ('f \<times> 'f moving_sum) res" where
  "moving_sum_insert F newval m =
     (case d_buf m of
        [] \<Rightarrow> Inl Oob_read
      | old # rest \<Rightarrow>
          let m = m\<lparr>d_buf := rest @ [newval]\<rparr>;
              m = m\<lparr>d_val := f_add F (d_val m) newval\<rparr>;
              m = m\<lparr>d_val := f_sub F (d_val m) old\<rparr>
          in Inr (d_val m, m))"

section \<open>The decoder of one channel\<close>

datatype cw_dec_state_t = NO_SYNC | SEARCH_DOT | SEARCH_DASH | SEARCH_SPACE

record 'f cw_decoder_priv =
  d_freq :: u64
  d_confidence :: 'f
  d_dot_duration :: nat
  d_dash_duration :: nat
  d_short_pause_duration :: nat
  d_long_pause_duration :: nat
  d_min_len :: nat
  d_max_len :: nat
  d_trigger_level :: 'f
  d_width :: nat
  d_morse_tree :: morse_tree
  d_str :: string
  d_state :: cw_dec_state_t
  d_snr :: 'f
  d_movs :: "'f moving_sum"
  d_std_movs :: "'f moving_sum"
  d_std_sq_movs :: "'f moving_sum"

definition cw_new ::
    "'f float_ops \<Rightarrow> (nat \<Rightarrow> char) \<Rightarrow> u64 \<Rightarrow> 'f \<Rightarrow> nat \<Rightarrow> nat \<Rightarrow> nat \<Rightarrow> 'f cw_decoder_priv" where
  "cw_new F junk freq confidence dot_duration min_len max_len =
     \<lparr>d_freq = freq, d_confidence = confidence,
      d_dot_duration = dot_duration - dot_duration div 4,
      d_dash_duration = 3 * dot_duration - dot_duration div 4,
      d_short_pause_duration = 3 * dot_duration - dot_duration div 4,
      d_long_pause_duration = 7 * dot_duration - dot_duration div 4,
      d_min_len = min_len, d_max_len = max_len,
      d_trigger_level = f_mul F (f_of_nat F dot_duration) confidence,
      d_width = 0, d_morse_tree = morse_tree_new CHR ''?'' max_len junk, d_str = '''', d_state = NO_SYNC,
      d_snr = f_of_nat F 0, d_movs = moving_sum_new F (dot_duration div 2) (f_of_nat F 1),
      d_std_movs = moving_sum_new F 5 (f_of_nat F 1), d_std_sq_movs = moving_sum_new F 5 (f_of_nat F 1)\<rparr>"

text \<open>What happens behind the switch of \<open>received_symbol\<close>.\<close>

definition cw_flush :: "bool \<Rightarrow> 'f cw_decoder_priv \<Rightarrow> string \<times> 'f cw_decoder_priv" where
  "cw_flush r d =
     (if \<not> r \<and> get_max_word_len (d_morse_tree d) = get_word_len (d_morse_tree d)
      then (d_str d @ get_word (d_morse_tree d), d\<lparr>d_morse_tree := tree_reset (d_morse_tree d), d_str := ''''\<rparr>)
      else ('''', d))"

definition cw_received_symbol ::
    "morse_symbol_t \<Rightarrow> 'f cw_decoder_priv \<Rightarrow> (string \<times> 'f cw_decoder_priv) res" where
  "cw_received_symbol s d =
     (case s of
        MORSE_L_SPACE \<Rightarrow>
          res_bind (tree_received_symbol MORSE_S_SPACE (d_morse_tree d)) (\<lambda>(r, t).
          let d = d\<lparr>d_morse_tree := t\<rparr>
          in if get_word_len t = 0 then Inr (cw_flush True d)
             else Inr (cw_flush r (d\<lparr>d_morse_tree := tree_reset t, d_str := d_str d @ get_word t @ '' ''\<rparr>)))
      | MORSE_INTRA_SPACE \<Rightarrow> Inr (cw_flush False d)
      | MORSE_END_MSG_SPACE \<Rightarrow>
          if d_min_len d < length (d_str d)
          then Inr (d_str d, d\<lparr>d_morse_tree := tree_reset (d_morse_tree d), d_str := ''''\<rparr>)
          else Inr (cw_flush False d)
      | _ \<Rightarrow>
          res_bind (tree_received_symbol s (d_morse_tree d)) (\<lambda>(r, t).
          Inr (cw_flush r (d\<lparr>d_morse_tree := t\<rparr>))))"

definition is_triggered :: "'f float_ops \<Rightarrow> 'f cw_decoder_priv \<Rightarrow> 'f \<Rightarrow> 'f \<Rightarrow> bool" where
  "is_triggered F d meanval cv \<longleftrightarrow>
     f_less F (d_trigger_level d) meanval \<and> f_less F cv (f_sub F (f_of_nat F 1) (d_confidence d))"

definition check_conf_level :: "'f float_ops \<Rightarrow> 'f cw_decoder_priv \<Rightarrow> nat \<Rightarrow> nat \<Rightarrow> bool" where
  "check_conf_level F d cnt target \<longleftrightarrow>
     f_less F (f_mul F (f_of_nat F target) (d_confidence d)) (f_of_nat F cnt)"

definition enter_no_sync :: "'f cw_decoder_priv \<Rightarrow> 'f cw_decoder_priv" where
  "enter_no_sync d = d\<lparr>d_width := 0, d_state := NO_SYNC\<rparr>"

definition enter_search_dot :: "'f cw_decoder_priv \<Rightarrow> 'f cw_decoder_priv" where
  "enter_search_dot d = d\<lparr>d_width := 0, d_state := SEARCH_DOT\<rparr>"

definition enter_search_dash :: "'f cw_decoder_priv \<Rightarrow> 'f cw_decoder_priv" where
  "enter_search_dash d = d\<lparr>d_state := SEARCH_DASH\<rparr>"

definition enter_search_space :: "'f cw_decoder_priv \<Rightarrow> 'f cw_decoder_priv" where
  "enter_search_space d = d\<lparr>d_width := 0, d_state := SEARCH_SPACE\<rparr>"

definition reset_snr_stats :: "'f float_ops \<Rightarrow> 'f cw_decoder_priv \<Rightarrow> 'f cw_decoder_priv" where
  "reset_snr_stats F d = d\<lparr>d_snr := f_of_nat F 0\<rparr>"

definition cw_reset :: "'f cw_decoder_priv \<Rightarrow> 'f cw_decoder_priv" where
  "cw_reset d = d\<lparr>d_width := 0, d_morse_tree := tree_reset (d_morse_tree d), d_state := NO_SYNC\<rparr>"

text \<open>\<open>std::max\<close>\<close>

definition f_max :: "'f float_ops \<Rightarrow> 'f \<Rightarrow> 'f \<Rightarrow> 'f" where
  "f_max F a b = (if f_less F a b then b else a)"

text \<open>The first half of \<open>decode\<close>: whether the plateau of the moving sums says that the key is down.\<close>

definition cw_front ::
    "'f float_ops \<Rightarrow> 'f \<Rightarrow> 'f cw_decoder_priv \<Rightarrow> (bool \<times> 'f cw_decoder_priv) res" where
  "cw_front F newval d =
     res_bind (moving_sum_insert F (f_add F newval (f_of_nat F 1)) (d_movs d)) (\<lambda>(mv, m1).
     res_bind (moving_sum_insert F mv (d_std_movs d)) (\<lambda>(sum, m2).
     let mu = f_div F sum (f_of_nat F 5) in
     res_bind (moving_sum_insert F (f_mul F mv mv) (d_std_sq_movs d)) (\<lambda>(x, m3).
     let std_val = f_sqrt F (f_sub F (f_div F x (f_of_nat F 5)) (f_mul F mu mu));
         d = d\<lparr>d_movs := m1, d_std_movs := m2, d_std_sq_movs := m3\<rparr>
     in Inr (is_triggered F d mv (f_div F std_val mu), d))))"

text \<open>
  The second half, the switch over the states. Of the strings that \<open>received_symbol\<close> returns, only the
  one for the end of a message is looked at. The width is compared with a product by 1.75, which is
  exact.
\<close>

definition cw_symbol :: "morse_symbol_t \<Rightarrow> 'f cw_decoder_priv \<Rightarrow> 'f cw_decoder_priv res" where
  "cw_symbol s d = res_bind (cw_received_symbol s d) (\<lambda>(_, d). Inr d)"

definition cw_switch ::
    "'f float_ops \<Rightarrow> string \<Rightarrow> bool \<Rightarrow> 'f \<Rightarrow> 'f cw_decoder_priv \<Rightarrow> (decoder_status \<times> 'f cw_decoder_priv) res" where
  "cw_switch F now triggered snr d =
     (case d_state d of
        NO_SYNC \<Rightarrow>
          if triggered then Inr (status_new, enter_search_dot d)
          else let d = d\<lparr>d_width := d_width d + 1\<rparr>
            in if 3 * d_long_pause_duration d < d_width d
               then res_bind (cw_received_symbol MORSE_END_MSG_SPACE d) (\<lambda>(s, d).
                    let m = data status_new;
                        m = add_time_iso8601 now m;
                        m = add_freq_offset m (d_freq d);
                        m = add_snr m (f_bits F (d_snr d));
                        m = add_pdu m (map of_char s) (length s)
                    in Inr (if d_min_len d < length s then status_new\<lparr>decode_success := True, data := m\<rparr>
                            else status_new,
                          enter_no_sync (reset_snr_stats F d)))
               else Inr (status_new, d)
      | SEARCH_DOT \<Rightarrow>
          if triggered
          then let d = d\<lparr>d_width := d_width d + 1, d_snr := f_max F (d_snr d) snr\<rparr>
            in Inr (status_new, if d_dot_duration d < d_width d then enter_search_dash d else d)
          else res_bind (if check_conf_level F d (d_width d) (d_dot_duration d) then cw_symbol MORSE_DOT d else Inr d) (\<lambda>d.
               Inr (status_new, enter_search_space d))
      | SEARCH_DASH \<Rightarrow>
          if triggered
          then Inr (status_new, d\<lparr>d_width := d_width d + 1, d_snr := f_max F (d_snr d) snr\<rparr>)
          else res_bind
                 (if 7 * d_dash_duration d < 4 * d_width d then Inr (d\<lparr>d_width := 0, d_state := NO_SYNC\<rparr>)
                  else if check_conf_level F d (d_width d) (d_dash_duration d) then cw_symbol MORSE_DASH d
                  else cw_symbol MORSE_DOT d) (\<lambda>d.
               Inr (status_new, enter_search_space d))
      | SEARCH_SPACE \<Rightarrow>
          if triggered
          then res_bind
                 (if check_conf_level F d (d_width d) (d_long_pause_duration d) then cw_symbol MORSE_L_SPACE d
                  else if check_conf_level F d (d_width d) (d_short_pause_duration d) then cw_symbol MORSE_S_SPACE d
                  else Inr d) (\<lambda>d.
               Inr (status_new, enter_search_dot d))
          else let d = d\<lparr>d_width := d_width d + 1\<rparr>
            in if check_conf_level F d (d_width d) (d_long_pause_duration d)
               then res_bind (cw_symbol MORSE_L_SPACE d) (\<lambda>d. Inr (status_new, enter_no_sync d))
               else Inr (status_new, d))"

definition cw_decode ::
    "'f float_ops \<Rightarrow> string \<Rightarrow> 'f \<Rightarrow> 'f \<Rightarrow> 'f cw_decoder_priv \<Rightarrow> (decoder_status \<times> 'f cw_decoder_priv) res" where
  "cw_decode F now newval snr d =
     res_bind (cw_front F newval d) (\<lambda>(triggered, d). cw_switch F now triggered snr d)"

section \<open>The contract of one channel\<close>

lemma morse_inv_get_word: "morse_inv t \<Longrightarrow> length (get_word t) = get_word_len t"
  by (simp add: morse_inv_def get_word_def get_word_len_def)

text \<open>The buffers of the moving sums never run empty, which needs a dot of at least two values.\<close>

definition cw_inv :: "'f cw_decoder_priv \<Rightarrow> bool" where
  "cw_inv d \<longleftrightarrow>
     morse_inv (d_morse_tree d) \<and> d_buff_len (d_morse_tree d) = d_max_len d \<and> CHR 0x00 \<notin> set (d_str d) \<and>
     d_buf (d_movs d) \<noteq> [] \<and> d_buf (d_std_movs d) \<noteq> [] \<and> d_buf (d_std_sq_movs d) \<noteq> []"

lemma cw_new_inv:
  "2 \<le> dot_duration \<Longrightarrow> cw_inv (cw_new F junk freq confidence dot_duration min_len max_len)"
  using morse_tree_new_inv [of "CHR ''?''" max_len junk]
  by (simp add: cw_inv_def cw_new_def moving_sum_new_def morse_tree_new_def)

text \<open>What a symbol changes.\<close>

definition cw_change :: "'f cw_decoder_priv \<Rightarrow> 'f cw_decoder_priv \<Rightarrow> bool" where
  "cw_change d d' \<longleftrightarrow> d' = d\<lparr>d_morse_tree := d_morse_tree d', d_str := d_str d'\<rparr>"

lemma cw_flush_inv:
  "cw_inv d \<Longrightarrow> cw_inv (snd (cw_flush r d)) \<and> cw_change d (snd (cw_flush r d)) \<and>
    fst (cw_flush r d) \<in> {'''', d_str d @ get_word (d_morse_tree d)}"
  using tree_reset_inv [of "d_morse_tree d"]
  by (auto simp: cw_flush_def cw_inv_def cw_change_def) (simp add: tree_reset_def)

lemma cw_received_symbol_inv:
  assumes inv: "cw_inv d"
  shows "\<exists>s d'. cw_received_symbol x d = Inr (s, d') \<and> cw_inv d' \<and> cw_change d d' \<and>
    (x = MORSE_END_MSG_SPACE \<longrightarrow> s \<in> {'''', d_str d, d_str d @ get_word (d_morse_tree d)})"
proof -
  have change: "cw_change d d2" if "cw_change (d\<lparr>d_morse_tree := t, d_str := s\<rparr>) d2" for d2 t s
    using that by (cases d2) (simp add: cw_change_def)
  have flush: "\<exists>s d'. Inr (cw_flush r (d\<lparr>d_morse_tree := t, d_str := u\<rparr>)) = (Inr (s, d') :: (string \<times> 'a cw_decoder_priv) res) \<and> cw_inv d' \<and> cw_change d d'"
    if "cw_inv (d\<lparr>d_morse_tree := t, d_str := u\<rparr>)" for r t u
  proof -
    obtain s d' where e: "cw_flush r (d\<lparr>d_morse_tree := t, d_str := u\<rparr>) = (s, d')" by fastforce
    have "cw_inv d'" "cw_change (d\<lparr>d_morse_tree := t, d_str := u\<rparr>) d'" using cw_flush_inv [OF that, of r] e by simp_all
    then show ?thesis using e change by blast
  qed
  have sym: "\<exists>r t. tree_received_symbol y (d_morse_tree d) = Inr (r, t) \<and> morse_inv t \<and> d_buff_len t = d_max_len d" for y
    using tree_received_inv [of "d_morse_tree d" y] inv by (simp add: cw_inv_def)
  have upd: "d\<lparr>d_morse_tree := t\<rparr> = d\<lparr>d_morse_tree := t, d_str := d_str d\<rparr>" for t by simp
  show ?thesis
  proof (cases "x \<in> {MORSE_DOT, MORSE_DASH, MORSE_S_SPACE}")
    case True
    obtain r t where t: "tree_received_symbol x (d_morse_tree d) = Inr (r, t)" "morse_inv t" "d_buff_len t = d_max_len d"
      using sym by blast
    then have "cw_inv (d\<lparr>d_morse_tree := t, d_str := d_str d\<rparr>)" using inv by (simp add: cw_inv_def)
    then show ?thesis using True t(1) flush [where t = t and u = "d_str d" and r = r] by (auto simp: cw_received_symbol_def)
  next
    case False
    then consider "x = MORSE_L_SPACE" | "x = MORSE_INTRA_SPACE" | "x = MORSE_END_MSG_SPACE" by (cases x) auto
    then show ?thesis
    proof cases
      case 1
      obtain r t where t: "tree_received_symbol MORSE_S_SPACE (d_morse_tree d) = Inr (r, t)" "morse_inv t" "d_buff_len t = d_max_len d"
        using sym by blast
      have "cw_inv (d\<lparr>d_morse_tree := t, d_str := d_str d\<rparr>)"
        "cw_inv (d\<lparr>d_morse_tree := tree_reset t, d_str := d_str d @ get_word t @ '' ''\<rparr>)"
        using inv t(2,3) tree_reset_inv [OF t(2)] by (auto simp: cw_inv_def morse_inv_def tree_reset_def)
      from flush [OF this(1), where r = True] flush [OF this(2), where r = r] show ?thesis
        using 1 t(1) by (simp add: cw_received_symbol_def Let_def)
    next
      case 2
      then show ?thesis
        using cw_flush_inv [OF inv, of False] by (cases "cw_flush False d") (auto simp: cw_received_symbol_def)
    next
      case 3
      have "cw_inv (d\<lparr>d_morse_tree := tree_reset (d_morse_tree d), d_str := ''''\<rparr>)"
        using inv tree_reset_inv [of "d_morse_tree d"] by (simp add: cw_inv_def) (simp add: tree_reset_def)
      then show ?thesis
        using 3 cw_flush_inv [OF inv, of False]
        by (cases "cw_flush False d") (auto simp: cw_received_symbol_def cw_change_def)
    qed
  qed
qed

lemma cw_symbol_inv:
  assumes "cw_inv d"
  shows "\<exists>d'. cw_symbol x d = Inr d' \<and> cw_inv d' \<and> cw_change d d'"
  using cw_received_symbol_inv [OF assms, of x] by (auto simp: cw_symbol_def)

lemma cw_front_inv:
  assumes "cw_inv d"
  shows "\<exists>trig m1 m2 m3. cw_front F newval d = Inr (trig, d\<lparr>d_movs := m1, d_std_movs := m2, d_std_sq_movs := m3\<rparr>) \<and>
    cw_inv (d\<lparr>d_movs := m1, d_std_movs := m2, d_std_sq_movs := m3\<rparr>)"
proof -
  have ins: "\<exists>v m'. moving_sum_insert F x m = Inr (v, m') \<and> d_buf m' \<noteq> []" if "d_buf m \<noteq> []" for x m
    using that by (cases "d_buf m") (simp_all add: moving_sum_insert_def Let_def)
  have b: "d_buf (d_movs d) \<noteq> []" "d_buf (d_std_movs d) \<noteq> []" "d_buf (d_std_sq_movs d) \<noteq> []"
    using assms by (simp_all add: cw_inv_def)
  obtain mv m1 where m1: "moving_sum_insert F (f_add F newval (f_of_nat F 1)) (d_movs d) = Inr (mv, m1)" "d_buf m1 \<noteq> []"
    using ins [OF b(1)] by blast
  obtain sum m2 where m2: "moving_sum_insert F mv (d_std_movs d) = Inr (sum, m2)" "d_buf m2 \<noteq> []"
    using ins [OF b(2)] by blast
  obtain x m3 where m3: "moving_sum_insert F (f_mul F mv mv) (d_std_sq_movs d) = Inr (x, m3)" "d_buf m3 \<noteq> []"
    using ins [OF b(3)] by blast
  show ?thesis using assms m1 m2 m3 by (simp add: cw_front_def Let_def cw_inv_def) blast
qed

text \<open>The fields that the switch sets do not matter to the invariant.\<close>

lemma cw_inv_control [simp]:
  "cw_inv (d\<lparr>d_width := n\<rparr>) = cw_inv d" "cw_inv (d\<lparr>d_snr := v\<rparr>) = cw_inv d" "cw_inv (d\<lparr>d_state := q\<rparr>) = cw_inv d"
  by (simp_all add: cw_inv_def)

lemma cw_enter_inv [simp]:
  "cw_inv (enter_no_sync d) = cw_inv d" "cw_inv (enter_search_dot d) = cw_inv d" "cw_inv (enter_search_dash d) = cw_inv d"
  "cw_inv (enter_search_space d) = cw_inv d" "cw_inv (reset_snr_stats F d) = cw_inv d"
  by (simp_all add: enter_no_sync_def enter_search_dot_def enter_search_dash_def enter_search_space_def reset_snr_stats_def cw_inv_def)

definition cw_report :: "'f cw_decoder_priv \<Rightarrow> decoder_status \<Rightarrow> bool" where
  "cw_report d st \<longleftrightarrow>
     (if decode_success st
      then \<exists>s. data st ''pdu'' = Some (Blob (map of_char s)) \<and> d_min_len d < length s \<and> CHR 0x00 \<notin> set s \<and>
        s \<in> {d_str d, d_str d @ get_word (d_morse_tree d)} \<and> d_state d = NO_SYNC
      else st = status_new)"

lemma cw_switch_inv:
  assumes inv: "cw_inv d"
  shows "\<exists>st d'. cw_switch F now trig snr d = Inr (st, d') \<and> cw_inv d' \<and> cw_report d st"
proof (cases "d_state d = NO_SYNC \<and> \<not> trig")
  case True
  let ?d = "d\<lparr>d_width := d_width d + 1\<rparr>"
  have inv': "cw_inv ?d" using inv by simp
  from cw_received_symbol_inv [OF this, of MORSE_END_MSG_SPACE] obtain s d' where s:
    "cw_received_symbol MORSE_END_MSG_SPACE ?d = Inr (s, d')" "cw_inv d'" "cw_change ?d d'"
    "s \<in> {'''', d_str d, d_str d @ get_word (d_morse_tree d)}" by auto
  have z: "CHR 0x00 \<notin> set s" using s(4) inv by (auto simp: cw_inv_def morse_inv_def)
  have "d_min_len d' = d_min_len d" using s(3) by (cases d') (simp add: cw_change_def)
  then show ?thesis
    using True s(1,2,4) z inv
    by (auto simp: cw_switch_def cw_report_def Let_def dict_put_def add_time_iso8601_def add_freq_offset_def
        add_snr_def add_pdu_def status_new_def)
next
  case False
  have sym: "\<exists>d'. cw_symbol x d = Inr d' \<and> cw_inv d'" for x using cw_symbol_inv [OF inv] by blast
  have sym': "\<exists>d'. cw_symbol x (d\<lparr>d_width := n\<rparr>) = Inr d' \<and> cw_inv d'" for x n
    using cw_symbol_inv [of "d\<lparr>d_width := n\<rparr>"] inv by auto
  have "\<exists>d'. cw_switch F now trig snr d = Inr (status_new, d') \<and> cw_inv d'"
  proof (cases "d_state d")
    case SEARCH_DOT
    then show ?thesis using sym [of MORSE_DOT] inv by (auto simp: cw_switch_def Let_def)
  next
    case SEARCH_DASH
    then show ?thesis using sym [of MORSE_DOT] sym [of MORSE_DASH] inv by (auto simp: cw_switch_def Let_def)
  next
    case SEARCH_SPACE
    then show ?thesis
      using sym [of MORSE_S_SPACE] sym [of MORSE_L_SPACE] sym' [of MORSE_L_SPACE "d_width d + 1"] inv
      by (auto simp: cw_switch_def Let_def)
  qed (use False inv in \<open>auto simp: cw_switch_def\<close>)
  moreover have "cw_report d status_new" by (simp add: cw_report_def status_new_def)
  ultimately show ?thesis by blast
qed

text \<open>C33: Whatever the arithmetic, every call of \<open>decode\<close> returns, stays inside its buffers and keeps the
  invariant; a message is only reported while no signal is there, it is longer than the configured
  minimum and consists of characters of the code, the words read so far.\<close>

theorem cw_decode_safe:
  assumes "cw_inv d"
  shows "\<exists>st d'. cw_decode F now newval snr d = Inr (st, d') \<and> cw_inv d' \<and>
    (decode_success st \<longrightarrow> (\<exists>s. data st ''pdu'' = Some (Blob (map of_char s)) \<and> d_min_len d < length s \<and>
       CHR 0x00 \<notin> set s \<and> s \<in> {d_str d, d_str d @ get_word (d_morse_tree d)} \<and> d_state d = NO_SYNC))"
proof -
  obtain trig m1 m2 m3 where f: "cw_front F newval d = Inr (trig, d\<lparr>d_movs := m1, d_std_movs := m2, d_std_sq_movs := m3\<rparr>)"
    "cw_inv (d\<lparr>d_movs := m1, d_std_movs := m2, d_std_sq_movs := m3\<rparr>)"
    using cw_front_inv [OF assms] by blast
  from cw_switch_inv [OF f(2), of F now trig snr] show ?thesis
    using f(1) by (auto simp: cw_decode_def cw_report_def split: if_splits)
qed

text \<open>Exact arithmetic on rational numbers, for examples; the square root is not needed there.\<close>

definition rat_ops :: "rat float_ops" where
  "rat_ops = \<lparr>f_of_nat = of_nat, f_add = (+), f_sub = (-), f_mul = (*), f_div = (/), f_sqrt = (\<lambda>x. x),
     f_less = (<), f_bits = (\<lambda>x. 0)\<rparr>"

theorem cw_decode_safe_witness:
  "\<exists>st d'. cw_decode rat_ops ''now'' 1 10 (cw_new rat_ops (\<lambda>_. CHR 0x00) 0 (9 / 10) 8 5 256) = Inr (st, d') \<and> cw_inv d'"
  using cw_decode_safe [OF cw_new_inv, of 8 rat_ops "''now''" 1 10 rat_ops "\<lambda>_. CHR 0x00" 0 "9 / 10" 5 256] by auto

section \<open>Two flaws\<close>

text \<open>The constructor accepts dots shorter than two values; the first call then takes the front of an
  empty deque.\<close>

lemma cw_short_dot:
  "dot_duration < 2 \<Longrightarrow> cw_decode F now v snr (cw_new F junk freq confidence dot_duration min_len max_len) = Inl Oob_read"
  by (simp add: cw_decode_def cw_front_def cw_new_def moving_sum_insert_def moving_sum_new_def)

text \<open>The message is lost when a word fills the buffer: the next dot or dash makes \<open>received_symbol\<close>
  return the text read so far and forget it, and \<open>decode\<close> ignores what it returns.\<close>

theorem cw_full_word_lost:
  assumes "d_state d = SEARCH_DOT" and "check_conf_level F d (d_width d) (d_dot_duration d)"
    and "d_word_len (d_morse_tree d) = d_buff_len (d_morse_tree d)"
  shows "\<exists>d'. cw_switch F now False snr d = Inr (status_new, d') \<and> d_str d' = '''' \<and> get_word (d_morse_tree d') = '''' \<and>
    cw_received_symbol MORSE_DOT d = Inr (d_str d @ get_word (d_morse_tree d), d\<lparr>d_morse_tree := d_morse_tree d', d_str := ''''\<rparr>)"
  using assms
  by (simp add: cw_switch_def cw_symbol_def cw_received_symbol_def tree_received_symbol_def cw_flush_def
      get_max_word_len_def get_word_len_def enter_search_space_def tree_reset_def get_word_def)

theorem cw_full_word_lost_witness:
  "let d = (cw_new rat_ops (\<lambda>_. CHR ''E'') 0 (9 / 10) 8 5 6)
        \<lparr>d_width := 6, d_morse_tree := (morse_tree_new CHR ''?'' 6 (\<lambda>_. CHR ''E''))\<lparr>d_word_len := 6\<rparr>, d_state := SEARCH_DOT\<rparr>
   in (\<exists>d'. cw_switch rat_ops ''now'' False 0 d = Inr (status_new, d') \<and> d_str d' = '''') \<and>
      get_word (d_morse_tree d) = ''EEEEEE''"
proof -
  define d where "d = (cw_new rat_ops (\<lambda>_. CHR ''E'') 0 (9 / 10) 8 5 6)
        \<lparr>d_width := 6, d_morse_tree := (morse_tree_new CHR ''?'' 6 (\<lambda>_. CHR ''E''))\<lparr>d_word_len := 6\<rparr>, d_state := SEARCH_DOT\<rparr>"
  have "\<exists>d'. cw_switch rat_ops ''now'' False 0 d = Inr (status_new, d') \<and> d_str d' = ''''"
    using cw_full_word_lost [of d rat_ops "''now''" 0]
    by (auto simp: d_def cw_new_def check_conf_level_def rat_ops_def morse_tree_new_def)
  moreover have "get_word (d_morse_tree d) = ''EEEEEE''"
    by (simp add: d_def get_word_def morse_tree_new_def upt_rec)
  ultimately show ?thesis by (simp add: d_def Let_def)
qed

end
