(* ===== verification/Cw_Link.thy ===== *)
theory Cw_Link
  imports Morse_Source Cw_Encoder Cw_Decoder
begin

text \<open>
  The Morse source, the line and the decoder of one channel together. The decisions about the key are taken
  as they would be with a clean signal: \<open>cw_keyed\<close> is the second half of \<open>decode\<close> over a sequence of
  decisions, and \<open>cw_link_roundtrip\<close> follows a sentence from the source to the report.
\<close>

section \<open>Keyed decoding\<close>

text \<open>The second half of \<open>decode\<close> over a sequence of decisions about the key; the reports, and the state.\<close>

fun cw_keyed :: "'f float_ops \<Rightarrow> string \<Rightarrow> (bool \<times> 'f) list \<Rightarrow> 'f cw_decoder_priv \<Rightarrow>
    (decoder_status list \<times> 'f cw_decoder_priv) res" where
  "cw_keyed F now [] d = Inr ([], d)"
| "cw_keyed F now ((key, snr) # xs) d =
     res_bind (cw_switch F now key snr d) (\<lambda>(st, d).
     res_bind (cw_keyed F now xs d) (\<lambda>(sts, d).
     Inr ((if decode_success st then [st] else []) @ sts, d)))"

lemma cw_keyed_append:
  "cw_keyed F now xs d = Inr (sts, d1) \<Longrightarrow> cw_keyed F now ys d1 = Inr (sts', d2) \<Longrightarrow>
   cw_keyed F now (xs @ ys) d = Inr (sts @ sts', d2)"
proof (induction xs arbitrary: d sts)
  case (Cons x xs)
  obtain key snr where x: "x = (key, snr)" by fastforce
  from Cons.prems(1) obtain st d0 ss where c: "cw_switch F now key snr d = Inr (st, d0)" "cw_keyed F now xs d0 = Inr (ss, d1)"
    "sts = (if decode_success st then [st] else []) @ ss"
    by (auto simp: x res_bind_Inr_iff)
  from Cons.IH [OF c(2) Cons.prems(2)] c(1,3) show ?case by (simp add: x)
qed simp

text \<open>The distances between what the code compares: a dot is no dash, a dash and the spaces are recognised.\<close>

definition cw_conf :: "'f float_ops \<Rightarrow> 'f \<Rightarrow> nat \<Rightarrow> nat \<Rightarrow> bool" where
  "cw_conf F c w t \<longleftrightarrow> f_less F (f_mul F (f_of_nat F t) c) (f_of_nat F w)"

definition cw_margins :: "'f float_ops \<Rightarrow> 'f \<Rightarrow> nat \<Rightarrow> bool" where
  "cw_margins F c n \<longleftrightarrow>
     4 \<le> n \<and> list_all (\<lambda>w. \<not> cw_conf F c w (3 * n - n div 4)) [0..<n] \<and>
     (n div 4 \<le> 1 \<longrightarrow> cw_conf F c (n - 1) (n - n div 4)) \<and> cw_conf F c (3 * n - 1) (3 * n - n div 4) \<and>
     list_all (\<lambda>w. \<not> cw_conf F c w (7 * n - n div 4)) [0..<4 * n] \<and> cw_conf F c (4 * n - 1) (3 * n - n div 4) \<and>
     list_ex (\<lambda>w. cw_conf F c w (7 * n - n div 4)) [0..<11 * n]"

lemma cw_marginsD:
  assumes "cw_margins F c n"
  shows "4 \<le> n" "w < n \<Longrightarrow> \<not> cw_conf F c w (3 * n - n div 4)" "w < 4 * n \<Longrightarrow> \<not> cw_conf F c w (7 * n - n div 4)"
    "n div 4 \<le> 1 \<Longrightarrow> cw_conf F c (n - 1) (n - n div 4)" "cw_conf F c (3 * n - 1) (3 * n - n div 4)"
    "cw_conf F c (4 * n - 1) (3 * n - n div 4)" "\<exists>w < 11 * n. cw_conf F c w (7 * n - n div 4)"
  using assms by (auto simp: cw_margins_def list_all_iff list_ex_iff)

definition cw_durations :: "nat \<Rightarrow> 'f cw_decoder_priv \<Rightarrow> bool" where
  "cw_durations n R \<longleftrightarrow>
     d_dot_duration R = n - n div 4 \<and> d_dash_duration R = 3 * n - n div 4 \<and>
     d_short_pause_duration R = 3 * n - n div 4 \<and> d_long_pause_duration R = 7 * n - n div 4"

text \<open>The state during a transmission: everything but these five fields stays as in \<open>R\<close>.\<close>

definition cw_at :: "'f cw_decoder_priv \<Rightarrow> nat \<Rightarrow> morse_tree \<Rightarrow> string \<Rightarrow> cw_dec_state_t \<Rightarrow> 'f \<Rightarrow> 'f cw_decoder_priv" where
  "cw_at R w t s q snr = R\<lparr>d_width := w, d_morse_tree := t, d_str := s, d_state := q, d_snr := snr\<rparr>"

lemma cw_at_simps [simp]:
  "d_width (cw_at R w t s q snr) = w" "d_morse_tree (cw_at R w t s q snr) = t" "d_str (cw_at R w t s q snr) = s"
  "d_state (cw_at R w t s q snr) = q" "d_snr (cw_at R w t s q snr) = snr" "d_min_len (cw_at R w t s q snr) = d_min_len R"
  "d_freq (cw_at R w t s q snr) = d_freq R"
  "d_dot_duration (cw_at R w t s q snr) = d_dot_duration R" "d_dash_duration (cw_at R w t s q snr) = d_dash_duration R"
  "d_short_pause_duration (cw_at R w t s q snr) = d_short_pause_duration R"
  "d_long_pause_duration (cw_at R w t s q snr) = d_long_pause_duration R"
  "d_width_update (\<lambda>_. w') (cw_at R w t s q snr) = cw_at R w' t s q snr"
  "d_morse_tree_update (\<lambda>_. t') (cw_at R w t s q snr) = cw_at R w t' s q snr"
  "d_str_update (\<lambda>_. s') (cw_at R w t s q snr) = cw_at R w t s' q snr"
  "d_state_update (\<lambda>_. q') (cw_at R w t s q snr) = cw_at R w t s q' snr"
  "d_snr_update (\<lambda>_. v') (cw_at R w t s q snr) = cw_at R w t s q v'"
  "enter_no_sync (cw_at R w t s q snr) = cw_at R 0 t s NO_SYNC snr"
  "enter_search_dot (cw_at R w t s q snr) = cw_at R 0 t s SEARCH_DOT snr"
  "enter_search_dash (cw_at R w t s q snr) = cw_at R w t s SEARCH_DASH snr"
  "enter_search_space (cw_at R w t s q snr) = cw_at R 0 t s SEARCH_SPACE snr"
  "reset_snr_stats F (cw_at R w t s q snr) = cw_at R w t s q (f_of_nat F 0)"
  "check_conf_level F (cw_at R w t s q snr) a b = cw_conf F (d_confidence R) a b"
  by (simp_all add: cw_at_def enter_no_sync_def enter_search_dot_def enter_search_dash_def enter_search_space_def
      reset_snr_stats_def check_conf_level_def cw_conf_def)

lemma decode_success_new [simp]: "\<not> decode_success status_new"
  by (simp add: status_new_def)

section \<open>Runs of the key\<close>

lemma run_down:
  assumes "list_all fst xs"
  shows "\<exists>v. cw_keyed F now xs (cw_at R w t s (if d_dot_duration R < w then SEARCH_DASH else SEARCH_DOT) snr) =
    Inr ([], cw_at R (w + length xs) t s (if d_dot_duration R < w + length xs then SEARCH_DASH else SEARCH_DOT) v)"
  using assms
proof (induction xs arbitrary: w snr)
  case (Cons x xs)
  obtain v where x: "x = (True, v)" using Cons.prems by (cases x) auto
  from Cons.prems have "list_all fst xs" by simp
  note ih = Cons.IH [OF this, of "w + 1" "f_max F snr v"]
  have "cw_switch F now True v (cw_at R w t s (if d_dot_duration R < w then SEARCH_DASH else SEARCH_DOT) snr) =
      Inr (status_new, cw_at R (w + 1) t s (if d_dot_duration R < w + 1 then SEARCH_DASH else SEARCH_DOT) (f_max F snr v))"
    by (auto simp: cw_switch_def Let_def)
  then show ?case using ih by (auto simp: x)
qed auto

lemma run_space:
  assumes "list_all (\<lambda>x. \<not> fst x) xs" and "\<forall>v \<le> w + length xs. \<not> cw_conf F (d_confidence R) v (d_long_pause_duration R)"
  shows "cw_keyed F now xs (cw_at R w t s SEARCH_SPACE snr) = Inr ([], cw_at R (w + length xs) t s SEARCH_SPACE snr)"
  using assms
proof (induction xs arbitrary: w)
  case (Cons x xs)
  obtain v where x: "x = (False, v)" using Cons.prems by (cases x) auto
  have "\<not> cw_conf F (d_confidence R) (w + 1) (d_long_pause_duration R)" using Cons.prems(2) by (simp only: length_Cons) simp
  then have "cw_switch F now False v (cw_at R w t s SEARCH_SPACE snr) = Inr (status_new, cw_at R (w + 1) t s SEARCH_SPACE snr)"
    by (simp add: cw_switch_def Let_def)
  then show ?case using Cons.IH [of "w + 1"] Cons.prems by (simp add: x)
qed simp

lemma run_no_sync:
  assumes "list_all (\<lambda>x. \<not> fst x) xs" and "w + length xs \<le> 3 * d_long_pause_duration R"
  shows "cw_keyed F now xs (cw_at R w t s NO_SYNC snr) = Inr ([], cw_at R (w + length xs) t s NO_SYNC snr)"
  using assms
proof (induction xs arbitrary: w)
  case (Cons x xs)
  obtain v where x: "x = (False, v)" using Cons.prems by (cases x) auto
  then show ?case using Cons.IH [of "w + 1"] Cons.prems by (simp add: cw_switch_def Let_def)
qed simp

section \<open>The tree during a transmission\<close>

text \<open>At the start of a character of a word of which \<open>u\<close> has been read.\<close>

definition tree_at :: "nat \<Rightarrow> string \<Rightarrow> morse_tree \<Rightarrow> bool" where
  "tree_at n u t \<longleftrightarrow> morse_inv t \<and> d_buff_len t = n \<and> d_current t = construct_tree \<and> get_word t = u"

lemma tree_at_len: "tree_at n u t \<Longrightarrow> d_word_len t = length u"
  using morse_inv_get_word [of t] by (simp add: tree_at_def get_word_len_def)

lemma tree_reset_at: "morse_inv t \<Longrightarrow> tree_at (d_buff_len t) '''' (tree_reset t)"
  using tree_reset_inv [of t] by (simp add: tree_at_def tree_reset_def get_word_def morse_inv_def)

lemma tree_commit:
  assumes "tree_at n u t" and "length u < n" and "c \<in> set d_chars"
  shows "\<exists>t'. tree_received_symbol MORSE_S_SPACE (t\<lparr>d_current := walk construct_tree (code_of c)\<rparr>) = Inr (True, t') \<and>
    tree_at n (u @ [c]) t'"
proof -
  let ?t = "t\<lparr>d_current := walk construct_tree (code_of c)\<rparr>"
  have inv: "morse_inv ?t" using assms(1) code_walk(2,4) [OF assms(3)] by (auto simp: morse_inv_def tree_at_def get_word_def)
  have nr: "d_current ?t \<noteq> construct_tree" "get_char (d_current ?t) \<noteq> CHR 0x00" "get_char (d_current ?t) = c"
    using walk_not_root [OF code_walk(2,3) [OF assms(3)]] code_walk(1,5) [OF assms(3)] by simp_all
  have w: "d_word_len ?t \<noteq> d_buff_len ?t" "get_word ?t = u" "d_buff_len ?t = n"
    using tree_at_len [OF assms(1)] assms(1,2) by (simp_all add: tree_at_def get_word_def)
  obtain r t' where t': "tree_received_symbol MORSE_S_SPACE ?t = Inr (r, t')" "d_buff_len t' = d_buff_len ?t"
    "d_current t' = construct_tree" "r" "get_word t' = get_word ?t @ [get_char (d_current ?t)]"
    using tree_received_space [OF inv] w(1) nr(1,2) by auto
  have "morse_inv t'" using tree_received_inv [OF inv, of MORSE_S_SPACE] t'(1) by auto
  then show ?thesis using t' w(2,3) nr(3) by (auto simp: tree_at_def)
qed

section \<open>Characters\<close>

text \<open>\<open>d\<close> takes the next value with the key down as the start of a mark, with text \<open>s\<close> and tree \<open>t\<close>.\<close>

definition cw_ready :: "'f float_ops \<Rightarrow> string \<Rightarrow> 'f cw_decoder_priv \<Rightarrow> morse_tree \<Rightarrow> string \<Rightarrow> 'f cw_decoder_priv \<Rightarrow> bool" where
  "cw_ready F now R t s d \<longleftrightarrow>
     (\<forall>v. \<exists>v'. cw_switch F now True v d = Inr (status_new, cw_at R 0 t s SEARCH_DOT v'))"

lemma ready_no_sync: "cw_ready F now R t s (cw_at R w t s NO_SYNC snr)"
  by (auto simp: cw_ready_def cw_switch_def)

lemma map_fst_replicate:
  assumes "map fst xs = replicate n b"
  shows "length xs = n" "list_all (\<lambda>x. fst x = b) xs"
proof -
  show "length xs = n" using arg_cong [OF assms, of length] by simp
  have "set (map fst xs) \<subseteq> {b}" unfolding assms by auto
  then show "list_all (\<lambda>x. fst x = b) xs" by (auto simp: list_all_iff)
qed

lemma map_split: "map f xs = as @ bs \<Longrightarrow> \<exists>ys zs. xs = ys @ zs \<and> map f ys = as \<and> map f zs = bs"
  unfolding map_eq_append_conv by metis

lemma cw_symbol_mark:
  assumes "key_down e" and "child e (d_current t) \<noteq> Nullptr" and "d_word_len t \<noteq> d_buff_len t" and "d_current t \<noteq> Nullptr"
  shows "cw_symbol e (cw_at R w t s q snr) = Inr (cw_at R w (t\<lparr>d_current := child e (d_current t)\<rparr>) s q snr)"
  using assms by (cases e) (simp_all add: cw_symbol_def cw_received_symbol_def tree_received_mark cw_flush_def key_down_def)

lemma key_up_mark:
  assumes mar: "cw_margins F (d_confidence R) n" and dur: "cw_durations n R" and e: "key_down e"
    and t: "child e (d_current t) \<noteq> Nullptr" "d_word_len t \<noteq> d_buff_len t" "d_current t \<noteq> Nullptr"
  shows "cw_switch F now False v
      (cw_at R (units e * n - 1) t s (if d_dot_duration R < units e * n - 1 then SEARCH_DASH else SEARCH_DOT) snr) =
    Inr (status_new, cw_at R 0 (t\<lparr>d_current := child e (d_current t)\<rparr>) s SEARCH_SPACE snr)"
proof -
  note m = cw_marginsD [OF mar]
  note d = dur [unfolded cw_durations_def]
  have n: "4 \<le> n" by (rule m(1))
  have q: "n div 4 \<le> n" by simp
  show ?thesis
  proof (cases "e = MORSE_DOT")
    case True
    have "\<not> cw_conf F (d_confidence R) (n - 1) (3 * n - n div 4)" using n by (intro m(2)) simp
    moreover have "\<not> 7 * (3 * n - n div 4) < 4 * (n - 1)" using q n by linarith
    moreover have "cw_conf F (d_confidence R) (n - 1) (n - n div 4)" if "\<not> n - n div 4 < n - 1"
    proof -
      have "n div 4 \<le> 1" using that n q by linarith
      then show ?thesis by (rule m(4))
    qed
    ultimately show ?thesis
      using True d cw_symbol_mark [OF e t, of R _ s _ snr] by (auto simp: cw_switch_def)
  next
    case False
    then have e': "e = MORSE_DASH" using e by (simp add: key_down_def)
    have "cw_conf F (d_confidence R) (3 * n - 1) (3 * n - n div 4)" by (rule m(5))
    moreover have "\<not> 7 * (3 * n - n div 4) < 4 * (3 * n - 1)" "n - n div 4 < 3 * n - 1" using q n by linarith+
    ultimately show ?thesis
      using e' d cw_symbol_mark [OF e t, of R _ s _ snr] by (auto simp: cw_switch_def)
  qed
qed

lemma run_element:
  assumes mar: "cw_margins F (d_confidence R) n" and dur: "cw_durations n R" and e: "key_down e"
    and t: "child e (d_current t) \<noteq> Nullptr" "d_word_len t \<noteq> d_buff_len t" "d_current t \<noteq> Nullptr"
    and ready: "cw_ready F now R t s d" and xs: "map fst xs = key_line n [e, MORSE_INTRA_SPACE]"
  shows "\<exists>v. cw_keyed F now xs d = Inr ([], cw_at R (n - 1) (t\<lparr>d_current := child e (d_current t)\<rparr>) s SEARCH_SPACE v)"
proof -
  let ?t = "t\<lparr>d_current := child e (d_current t)\<rparr>"
  note m = cw_marginsD [OF mar]
  have n: "4 \<le> n" by (rule m(1))
  obtain as bs where ab: "xs = as @ bs" "map fst as = replicate (units e * n) True" "map fst bs = replicate n False"
    using xs e by (auto simp: map_eq_append_conv key_down_def)
  have u: "0 < units e * n" using e n by (auto simp: key_down_def)
  obtain x as' where as': "as = x # as'" using map_fst_replicate(1) [OF ab(2)] u by (cases as) auto
  obtain y bs' where bs': "bs = y # bs'" using map_fst_replicate(1) [OF ab(3)] n by (cases bs) auto
  have la: "fst x" "list_all fst as'" "length as' = units e * n - 1"
    using map_fst_replicate [OF ab(2)] as' by (auto simp: list_all_iff)
  have lb: "\<not> fst y" "list_all (\<lambda>x. \<not> fst x) bs'" "length bs' = n - 1"
    using map_fst_replicate [OF ab(3)] bs' by (auto simp: list_all_iff)
  obtain v1 where 1: "cw_keyed F now [x] d = Inr ([], cw_at R 0 t s SEARCH_DOT v1)"
  proof -
    obtain v where "x = (True, v)" using la(1) by (cases x) simp
    moreover obtain v1 where "cw_switch F now True v d = Inr (status_new, cw_at R 0 t s SEARCH_DOT v1)"
      using ready unfolding cw_ready_def by blast
    ultimately show ?thesis using that [of v1] by simp
  qed
  obtain v2 where 2: "cw_keyed F now as' (cw_at R 0 t s SEARCH_DOT v1) =
      Inr ([], cw_at R (units e * n - 1) t s (if d_dot_duration R < units e * n - 1 then SEARCH_DASH else SEARCH_DOT) v2)"
    using run_down [OF la(2), of F now R 0 t s v1] la(3) by auto
  have 3: "cw_keyed F now [y] (cw_at R (units e * n - 1) t s (if d_dot_duration R < units e * n - 1 then SEARCH_DASH else SEARCH_DOT) v2) =
      Inr ([], cw_at R 0 ?t s SEARCH_SPACE v2)"
    using key_up_mark [OF mar dur e t, where now = now and s = s and snr = v2] lb(1) by (cases y) simp
  have "\<forall>v \<le> 0 + length bs'. \<not> cw_conf F (d_confidence R) v (d_long_pause_duration R)"
    using m(3) n dur lb(3) by (auto simp: cw_durations_def)
  from run_space [OF lb(2) this] have 4: "cw_keyed F now bs' (cw_at R 0 ?t s SEARCH_SPACE v2) = Inr ([], cw_at R (n - 1) ?t s SEARCH_SPACE v2)"
    using lb(3) by simp
  have "xs = [x] @ as' @ [y] @ bs'" using ab(1) as' bs' by simp
  then show ?thesis
    using cw_keyed_append [OF 1 cw_keyed_append [OF 2 cw_keyed_append [OF 3 4]]] by auto
qed

lemma ready_space:
  assumes "cw_margins F (d_confidence R) n" and "cw_durations n R"
  shows "cw_ready F now R t s (cw_at R (n - 1) t s SEARCH_SPACE snr)"
proof -
  note m = cw_marginsD [OF assms(1)]
  have "\<not> cw_conf F (d_confidence R) (n - 1) (3 * n - n div 4)" "\<not> cw_conf F (d_confidence R) (n - 1) (7 * n - n div 4)"
    using m(1) m(2) [of "n - 1"] m(3) [of "n - 1"] by simp_all
  then show ?thesis using assms(2) by (auto simp: cw_ready_def cw_switch_def cw_durations_def)
qed

lemma ready_commit:
  assumes "cw_margins F (d_confidence R) n" and "cw_durations n R"
    and "tree_received_symbol MORSE_S_SPACE t = Inr (True, t')"
  shows "cw_ready F now R t' s (cw_at R (4 * n - 1) t s SEARCH_SPACE snr)"
proof -
  note m = cw_marginsD [OF assms(1)]
  have "\<not> cw_conf F (d_confidence R) (4 * n - 1) (7 * n - n div 4)" using m(1) m(3) [of "4 * n - 1"] by simp
  then show ?thesis
    using assms(2,3) m(6)
    by (auto simp: cw_ready_def cw_switch_def cw_durations_def cw_symbol_def cw_received_symbol_def cw_flush_def)
qed

definition mark_line :: "morse_symbol_t list \<Rightarrow> morse_symbol_t list" where
  "mark_line w = concat (map (\<lambda>e. [e, MORSE_INTRA_SPACE]) w)"

lemma run_marks:
  assumes mar: "cw_margins F (d_confidence R) n" and dur: "cw_durations n R" and t: "d_word_len t \<noteq> d_buff_len t"
  shows "marks w \<Longrightarrow> w \<noteq> [] \<Longrightarrow> walk (d_current t) w \<noteq> Nullptr \<Longrightarrow> cw_ready F now R t s d \<Longrightarrow>
    map fst xs = key_line n (mark_line w) \<Longrightarrow>
    \<exists>v. cw_keyed F now xs d = Inr ([], cw_at R (n - 1) (t\<lparr>d_current := walk (d_current t) w\<rparr>) s SEARCH_SPACE v)"
  using t
proof (induction w arbitrary: t d xs)
  case (Cons e w)
  have e: "key_down e" using Cons.prems(1) by (simp add: marks_def key_down_def)
  have w: "marks w" using Cons.prems(1) by (simp add: marks_def)
  have nn: "child e (d_current t) \<noteq> Nullptr" using Cons.prems(3) by auto
  then have cn: "d_current t \<noteq> Nullptr" by (cases e) auto
  obtain ys zs where x: "xs = ys @ zs" "map fst ys = key_line n [e, MORSE_INTRA_SPACE]" "map fst zs = key_line n (mark_line w)"
  proof -
    have "map fst xs = key_line n [e, MORSE_INTRA_SPACE] @ key_line n (mark_line w)"
      using Cons.prems(5) by (simp add: mark_line_def)
    then show ?thesis using that unfolding map_eq_append_conv by metis
  qed
  define t1 where "t1 = t\<lparr>d_current := child e (d_current t)\<rparr>"
  obtain v where v: "cw_keyed F now ys d = Inr ([], cw_at R (n - 1) t1 s SEARCH_SPACE v)"
    using run_element [OF mar dur e nn Cons.prems(6) cn Cons.prems(4) x(2)] t1_def by auto
  show ?case
  proof (cases "w = []")
    case True
    then show ?thesis using v x by (auto simp: t1_def mark_line_def)
  next
    case False
    have "\<exists>v'. cw_keyed F now zs (cw_at R (n - 1) t1 s SEARCH_SPACE v) =
        Inr ([], cw_at R (n - 1) (t1\<lparr>d_current := walk (d_current t1) w\<rparr>) s SEARCH_SPACE v')"
      by (rule Cons.IH [OF w False _ ready_space [OF mar dur] x(3)]) (use Cons.prems(3,6) in \<open>simp_all add: t1_def\<close>)
    then obtain v' where "cw_keyed F now zs (cw_at R (n - 1) t1 s SEARCH_SPACE v) =
        Inr ([], cw_at R (n - 1) (t1\<lparr>d_current := walk (d_current t1) w\<rparr>) s SEARCH_SPACE v')" by blast
    then show ?thesis using cw_keyed_append [OF v] x(1) by (auto simp: t1_def)
  qed
qed simp

section \<open>Words\<close>

definition char_line :: "char \<Rightarrow> morse_symbol_t list" where
  "char_line c = mark_line (code_of c) @ [MORSE_S_SPACE]"

definition pending :: "char \<Rightarrow> morse_tree \<Rightarrow> morse_tree" where
  "pending c t = t\<lparr>d_current := walk construct_tree (code_of c)\<rparr>"

lemma run_char:
  assumes mar: "cw_margins F (d_confidence R) n" and dur: "cw_durations n R"
    and t: "tree_at k u t" "length u < k" and c: "c \<in> set d_chars"
    and ready: "cw_ready F now R t s d" and xs: "map fst xs = key_line n (char_line c)"
  shows "\<exists>v. cw_keyed F now xs d = Inr ([], cw_at R (4 * n - 1) (pending c t) s SEARCH_SPACE v)"
proof -
  have "map fst xs = key_line n (mark_line (code_of c)) @ replicate (3 * n) False"
    using xs by (simp add: char_line_def key_down_def)
  then obtain ys zs where x: "xs = ys @ zs" "map fst ys = key_line n (mark_line (code_of c))" "map fst zs = replicate (3 * n) False"
    unfolding map_eq_append_conv by metis
  have tc: "d_current t = construct_tree" "d_word_len t \<noteq> d_buff_len t"
    using t tree_at_len [OF t(1)] by (simp_all add: tree_at_def)
  have "\<exists>v. cw_keyed F now ys d = Inr ([], cw_at R (n - 1) (t\<lparr>d_current := walk (d_current t) (code_of c)\<rparr>) s SEARCH_SPACE v)"
    by (rule run_marks [OF mar dur tc(2) code_walk(4,3) [OF c] _ ready x(2)]) (use code_walk(2) [OF c] tc(1) in simp)
  then obtain v where v: "cw_keyed F now ys d = Inr ([], cw_at R (n - 1) (pending c t) s SEARCH_SPACE v)"
    by (auto simp: pending_def tc(1))
  have l: "length zs = 3 * n" "list_all (\<lambda>x. \<not> fst x) zs" using map_fst_replicate [OF x(3)] by (simp_all add: list_all_iff)
  have len: "n - 1 + length zs = 4 * n - 1" using l(1) cw_marginsD(1) [OF mar] by linarith
  have "\<forall>v \<le> n - 1 + length zs. \<not> cw_conf F (d_confidence R) v (d_long_pause_duration R)"
    using cw_marginsD(3) [OF mar] cw_marginsD(1) [OF mar] dur unfolding len by (auto simp: cw_durations_def)
  from run_space [OF l(2) this] have "cw_keyed F now zs (cw_at R (n - 1) (pending c t) s SEARCH_SPACE v) =
      Inr ([], cw_at R (4 * n - 1) (pending c t) s SEARCH_SPACE v)" unfolding len .
  from cw_keyed_append [OF v this] show ?thesis using x(1) by auto
qed

lemma run_chars:
  assumes mar: "cw_margins F (d_confidence R) n" and dur: "cw_durations n R"
  shows "w \<noteq> [] \<Longrightarrow> set w \<subseteq> set d_chars \<Longrightarrow> tree_at k u t \<Longrightarrow> length u + length w \<le> k \<Longrightarrow> cw_ready F now R t s d \<Longrightarrow>
    map fst xs = key_line n (concat (map char_line w)) \<Longrightarrow>
    \<exists>v t'. cw_keyed F now xs d = Inr ([], cw_at R (4 * n - 1) (pending (last w) t') s SEARCH_SPACE v) \<and>
      tree_at k (u @ butlast w) t'"
proof (induction w arbitrary: u t d xs)
  case (Cons c w)
  have c: "c \<in> set d_chars" "length u < k" using Cons.prems(2,4) by auto
  have "map fst xs = key_line n (char_line c) @ key_line n (concat (map char_line w))" using Cons.prems(6) by simp
  then obtain ys zs where x: "xs = ys @ zs" "map fst ys = key_line n (char_line c)" "map fst zs = key_line n (concat (map char_line w))"
    unfolding map_eq_append_conv by metis
  obtain v where v: "cw_keyed F now ys d = Inr ([], cw_at R (4 * n - 1) (pending c t) s SEARCH_SPACE v)"
    using run_char [OF mar dur Cons.prems(3) c(2,1) Cons.prems(5) x(2)] by blast
  show ?case
  proof (cases "w = []")
    case True
    then show ?thesis using v x Cons.prems(3) by auto
  next
    case False
    obtain t' where t': "tree_received_symbol MORSE_S_SPACE (pending c t) = Inr (True, t')" "tree_at k (u @ [c]) t'"
      using tree_commit [OF Cons.prems(3) c(2,1)] by (auto simp: pending_def)
    obtain v' t'' where e: "cw_keyed F now zs (cw_at R (4 * n - 1) (pending c t) s SEARCH_SPACE v) =
        Inr ([], cw_at R (4 * n - 1) (pending (last w) t'') s SEARCH_SPACE v')" "tree_at k ((u @ [c]) @ butlast w) t''"
      using Cons.IH [OF False _ t'(2) _ ready_commit [OF mar dur t'(1)] x(3)] Cons.prems(2,4) by fastforce
    show ?thesis using cw_keyed_append [OF v e(1)] e(2) x(1) False by auto
  qed
qed simp

lemma run_word_end:
  assumes mar: "cw_margins F (d_confidence R) n" and dur: "cw_durations n R"
    and t: "tree_at k u t" "length u < k" and c: "c \<in> set d_chars" and xs: "map fst xs = replicate (7 * n) False"
  shows "\<exists>w t'. cw_keyed F now xs (cw_at R (4 * n - 1) (pending c t) s SEARCH_SPACE v) =
      Inr ([], cw_at R w t' (s @ u @ [c] @ '' '') NO_SYNC v) \<and> w \<le> 7 * n \<and> tree_at k '''' t'"
proof -
  let ?P = "\<lambda>w. cw_conf F (d_confidence R) w (7 * n - n div 4)"
  have long: "d_long_pause_duration R = 7 * n - n div 4" using dur by (simp add: cw_durations_def)
  have n: "4 \<le> n" using cw_marginsD(1) [OF mar] .
  obtain b where b: "?P b" "\<And>a. a < b \<Longrightarrow> \<not> ?P a" using cw_marginsD(7) [OF mar] exists_least_iff [of ?P] by blast
  have "b < 11 * n" using b(2) cw_marginsD(7) [OF mar] by (meson linorder_not_less order_le_less_trans)
  moreover have "4 * n \<le> b" using b(1) cw_marginsD(3) [OF mar, of b] by (cases "b < 4 * n") auto
  ultimately have bn: "4 * n \<le> b" "b < 11 * n" by simp_all
  have l: "length xs = 7 * n" "list_all (\<lambda>x. \<not> fst x) xs" using map_fst_replicate [OF xs] by (simp_all add: list_all_iff)
  define i where "i = b - 4 * n"
  have i: "i < length xs" "4 * n - 1 + i = b - 1" "0 < b" using bn l(1) n by (simp_all add: i_def)
  have la: "list_all (\<lambda>x. \<not> fst x) (take i xs)" "list_all (\<lambda>x. \<not> fst x) (drop (Suc i) xs)" "\<not> fst (xs ! i)"
    using l(2) i(1) by (auto simp: list_all_iff dest: in_set_takeD in_set_dropD)
  have w: "4 * n - 1 + length (take i xs) = b - 1" using i by simp
  have "\<forall>v \<le> 4 * n - 1 + length (take i xs). \<not> cw_conf F (d_confidence R) v (d_long_pause_duration R)"
    unfolding w long using b(2) i(3) by auto
  from run_space [OF la(1) this] have 1: "cw_keyed F now (take i xs) (cw_at R (4 * n - 1) (pending c t) s SEARCH_SPACE v) =
      Inr ([], cw_at R (b - 1) (pending c t) s SEARCH_SPACE v)" unfolding w .
  obtain t' where t': "tree_received_symbol MORSE_S_SPACE (pending c t) = Inr (True, t')" "tree_at k (u @ [c]) t'"
    using tree_commit [OF t c] by (auto simp: pending_def)
  have wl: "get_word_len t' \<noteq> 0" "get_word t' = u @ [c]"
    using tree_at_len [OF t'(2)] t'(2) by (simp_all add: get_word_len_def tree_at_def)
  have "cw_symbol MORSE_L_SPACE (cw_at R b (pending c t) s SEARCH_SPACE v) =
      Inr (cw_at R b (tree_reset t') (s @ u @ [c] @ '' '') SEARCH_SPACE v)"
    using t'(1) wl by (simp add: cw_symbol_def cw_received_symbol_def cw_flush_def)
  then have "cw_switch F now False x (cw_at R (b - 1) (pending c t) s SEARCH_SPACE v) =
      Inr (status_new, cw_at R 0 (tree_reset t') (s @ u @ [c] @ '' '') NO_SYNC v)" for x
    using b(1) i(3) by (simp add: cw_switch_def long Let_def)
  then have 2: "cw_keyed F now [xs ! i] (cw_at R (b - 1) (pending c t) s SEARCH_SPACE v) =
      Inr ([], cw_at R 0 (tree_reset t') (s @ u @ [c] @ '' '') NO_SYNC v)"
    using la(3) by (cases "xs ! i") simp
  have "0 + length (drop (Suc i) xs) \<le> 3 * d_long_pause_duration R"
    using l(1) n by (simp add: long)
  from run_no_sync [OF la(2) this] have 3: "cw_keyed F now (drop (Suc i) xs) (cw_at R 0 (tree_reset t') (s @ u @ [c] @ '' '') NO_SYNC v) =
      Inr ([], cw_at R (0 + length (drop (Suc i) xs)) (tree_reset t') (s @ u @ [c] @ '' '') NO_SYNC v)" .
  have x: "xs = take i xs @ [xs ! i] @ drop (Suc i) xs" using i(1) by (simp add: Cons_nth_drop_Suc)
  have "tree_at k '''' (tree_reset t')" using tree_reset_at [of t'] t'(2) by (auto simp: tree_at_def)
  moreover have "0 + length (drop (Suc i) xs) \<le> 7 * n" using l(1) by simp
  ultimately show ?thesis
    using cw_keyed_append [OF 1 cw_keyed_append [OF 2 3]] x by auto
qed

definition word_line :: "string \<Rightarrow> morse_symbol_t list" where
  "word_line w = concat (map char_line w) @ [MORSE_L_SPACE]"

lemma run_words:
  assumes mar: "cw_margins F (d_confidence R) n" and dur: "cw_durations n R"
  shows "\<forall>w \<in> set ws. w \<noteq> [] \<and> set w \<subseteq> set d_chars \<and> length w \<le> k \<Longrightarrow> tree_at k '''' t \<Longrightarrow> b \<le> 7 * n \<Longrightarrow>
    map fst xs = key_line n (concat (map word_line ws)) \<Longrightarrow>
    \<exists>b' t' v'. cw_keyed F now xs (cw_at R b t s NO_SYNC v) =
      Inr ([], cw_at R b' t' (s @ concat (map (\<lambda>w. w @ '' '') ws)) NO_SYNC v') \<and> b' \<le> 7 * n \<and> tree_at k '''' t'"
proof (induction ws arbitrary: b t s v xs)
  case (Cons w ws)
  have w: "w \<noteq> []" "set w \<subseteq> set d_chars" "length w \<le> k" using Cons.prems(1) by auto
  have "map fst xs = key_line n (concat (map char_line w)) @ replicate (7 * n) False @ key_line n (concat (map word_line ws))"
    using Cons.prems(4) by (simp add: word_line_def [of w] key_down_def)
  from map_split [OF this] obtain ys zs' where y: "xs = ys @ zs'" "map fst ys = key_line n (concat (map char_line w))"
    "map fst zs' = replicate (7 * n) False @ key_line n (concat (map word_line ws))" by blast
  from map_split [OF y(3)] obtain zs us where "zs' = zs @ us" and z: "map fst zs = replicate (7 * n) False"
    "map fst us = key_line n (concat (map word_line ws))" by blast
  then have x: "xs = ys @ zs @ us" "map fst ys = key_line n (concat (map char_line w))"
    "map fst zs = replicate (7 * n) False" "map fst us = key_line n (concat (map word_line ws))"
    using y by simp_all
  obtain v1 t1 where 1: "cw_keyed F now ys (cw_at R b t s NO_SYNC v) = Inr ([], cw_at R (4 * n - 1) (pending (last w) t1) s SEARCH_SPACE v1)"
    "tree_at k (butlast w) t1"
    proof -
    have "\<exists>v' t'. cw_keyed F now ys (cw_at R b t s NO_SYNC v) =
        Inr ([], cw_at R (4 * n - 1) (pending (last w) t') s SEARCH_SPACE v') \<and> tree_at k ([] @ butlast w) t'"
      by (rule run_chars [OF mar dur w(1,2) Cons.prems(2) _ ready_no_sync x(2)]) (use w(3) in simp)
    then show ?thesis using that by auto
  qed
  have lw: "last w \<in> set d_chars" "length (butlast w) < k" "butlast w @ [last w] = w"
    using w by (auto simp: less_le_trans [OF diff_less])
  obtain b2 t2 where 2: "cw_keyed F now zs (cw_at R (4 * n - 1) (pending (last w) t1) s SEARCH_SPACE v1) =
      Inr ([], cw_at R b2 t2 (s @ butlast w @ [last w] @ '' '') NO_SYNC v1)" "b2 \<le> 7 * n" "tree_at k '''' t2"
    using run_word_end [OF mar dur 1(2) lw(2,1) x(3)] by blast
  obtain b3 t3 v3 where 3: "cw_keyed F now us (cw_at R b2 t2 (s @ butlast w @ [last w] @ '' '') NO_SYNC v1) =
      Inr ([], cw_at R b3 t3 ((s @ butlast w @ [last w] @ '' '') @ concat (map (\<lambda>w. w @ '' '') ws)) NO_SYNC v3)"
    "b3 \<le> 7 * n" "tree_at k '''' t3"
  proof -
    have "\<forall>w \<in> set ws. w \<noteq> [] \<and> set w \<subseteq> set d_chars \<and> length w \<le> k" using Cons.prems(1) by simp
    from Cons.IH [OF this 2(3,2) x(4)] show ?thesis using that by blast
  qed
  have "(s @ butlast w @ [last w] @ '' '') @ concat (map (\<lambda>w. w @ '' '') ws) = s @ concat (map (\<lambda>w. w @ '' '') (w # ws))"
    using lw(3) by (metis append.assoc concat.simps(2) list.simps(9))
  then have 4: "cw_keyed F now us (cw_at R b2 t2 (s @ butlast w @ [last w] @ '' '') NO_SYNC v1) =
      Inr ([], cw_at R b3 t3 (s @ concat (map (\<lambda>w. w @ '' '') (w # ws))) NO_SYNC v3)" using 3(1) by (simp only:)
  have "cw_keyed F now xs (cw_at R b t s NO_SYNC v) =
      Inr ([], cw_at R b3 t3 (s @ concat (map (\<lambda>w. w @ '' '') (w # ws))) NO_SYNC v3)"
    using cw_keyed_append [OF 1(1) cw_keyed_append [OF 2(1) 4]] x(1) by simp
  then show ?case using 3(2,3) by blast
qed auto

section \<open>The end of the message\<close>

lemma run_idle:
  assumes "tree_at k '''' t" and "0 < k"
  shows "list_all (\<lambda>x. \<not> fst x) xs \<Longrightarrow> \<exists>d. cw_keyed F now xs (cw_at R b t '''' NO_SYNC v) = Inr ([], d)"
proof (induction xs arbitrary: b v)
  case (Cons x xs)
  obtain y where x: "x = (False, y)" using Cons.prems by (cases x) auto
  have "d_word_len t = 0" "d_buff_len t = k" using tree_at_len [OF assms(1)] assms(1) by (simp_all add: tree_at_def)
  then have "cw_received_symbol MORSE_END_MSG_SPACE (cw_at R (b + 1) t '''' NO_SYNC v) = Inr ('''', cw_at R (b + 1) t '''' NO_SYNC v)"
    using assms(2) by (simp add: cw_received_symbol_def cw_flush_def get_max_word_len_def get_word_len_def)
  then have "\<exists>b' v'. cw_switch F now False y (cw_at R b t '''' NO_SYNC v) = Inr (status_new, cw_at R b' t '''' NO_SYNC v')"
    by (auto simp: cw_switch_def Let_def)
  then obtain b' v' where "cw_switch F now False y (cw_at R b t '''' NO_SYNC v) = Inr (status_new, cw_at R b' t '''' NO_SYNC v')"
    by blast
  then show ?case using Cons.IH [of b' v'] Cons.prems by (auto simp: x)
qed simp

lemma run_end:
  assumes t: "tree_at k '''' t" "0 < k" and xs: "list_all (\<lambda>x. \<not> fst x) xs"
    and b: "b \<le> 3 * d_long_pause_duration R" "3 * d_long_pause_duration R < b + length xs" and s: "d_min_len R < length s"
  shows "\<exists>st d. cw_keyed F now xs (cw_at R b t s NO_SYNC v) = Inr ([st], d) \<and> data st ''pdu'' = Some (Blob (map of_char s))"
proof -
  let ?m = "3 * d_long_pause_duration R"
  define i where "i = ?m - b"
  have i: "i < length xs" "b + i = ?m" using b by (simp_all add: i_def)
  have la: "list_all (\<lambda>x. \<not> fst x) (take i xs)" "list_all (\<lambda>x. \<not> fst x) (drop (Suc i) xs)" "\<not> fst (xs ! i)"
    using xs i(1) by (auto simp: list_all_iff dest: in_set_takeD in_set_dropD)
  have 1: "cw_keyed F now (take i xs) (cw_at R b t s NO_SYNC v) = Inr ([], cw_at R ?m t s NO_SYNC v)"
    using run_no_sync [OF la(1), of b R F now t s v] i by simp
  have "cw_received_symbol MORSE_END_MSG_SPACE (cw_at R (?m + 1) t s NO_SYNC v) = Inr (s, cw_at R (?m + 1) (tree_reset t) '''' NO_SYNC v)"
    using s by (simp add: cw_received_symbol_def)
  then have "\<exists>st. decode_success st \<and> data st ''pdu'' = Some (Blob (map of_char s)) \<and>
      cw_switch F now False y (cw_at R ?m t s NO_SYNC v) = Inr (st, cw_at R 0 (tree_reset t) '''' NO_SYNC (f_of_nat F 0))" for y
    using s by (simp add: cw_switch_def Let_def dict_put_def add_pdu_def)
  then obtain st where st: "decode_success st" "data st ''pdu'' = Some (Blob (map of_char s))"
      "cw_switch F now False (snd (xs ! i)) (cw_at R ?m t s NO_SYNC v) = Inr (st, cw_at R 0 (tree_reset t) '''' NO_SYNC (f_of_nat F 0))"
    by blast
  have 2: "cw_keyed F now [xs ! i] (cw_at R ?m t s NO_SYNC v) = Inr ([st], cw_at R 0 (tree_reset t) '''' NO_SYNC (f_of_nat F 0))"
    using la(3) st by (cases "xs ! i") simp
  have "tree_at k '''' (tree_reset t)" using tree_reset_at [of t] t(1) by (auto simp: tree_at_def)
  then obtain d where 3: "cw_keyed F now (drop (Suc i) xs) (cw_at R 0 (tree_reset t) '''' NO_SYNC (f_of_nat F 0)) = Inr ([], d)"
    using run_idle [OF _ t(2) la(2)] by blast
  have "xs = take i xs @ [xs ! i] @ drop (Suc i) xs" using i(1) by (simp add: Cons_nth_drop_Suc)
  then show ?thesis using cw_keyed_append [OF 1 cw_keyed_append [OF 2 3]] st(2) by auto
qed

section \<open>From the sentence to the report\<close>

text \<open>A sentence of words with one blank between them.\<close>

fun unwords :: "string list \<Rightarrow> string" where
  "unwords [] = ''''"
| "unwords [w] = w"
| "unwords (w # w' # ws) = w @ CHR '' '' # unwords (w' # ws)"

lemma send_unwords:
  assumes "\<forall>w \<in> set ws. \<forall>x \<in> set w. toupper x \<in> set d_chars" and "ws \<noteq> []"
  shows "send_chars False draws (unwords ws) @ [MORSE_L_SPACE] = concat (map (\<lambda>w. word_line (map toupper w)) ws)"
  using assms
proof (induction ws rule: unwords.induct)
  case (2 w)
  then show ?case
    using send_chars_word [of w draws "''''"] by (simp add: word_line_def char_line_def mark_line_def comp_def)
next
  case (3 w w' ws)
  then show ?case
    using send_chars_word [of w draws "CHR '' '' # unwords (w' # ws)"]
    by (simp add: word_line_def char_line_def mark_line_def comp_def send_chars_blank del: send_chars.simps(2))
qed simp

text \<open>C31: What the Morse source sends arrives: when the key, sampled \<open>n\<close> times a dot, follows the Morse line of
  a sentence and then stays up, the decoder reports exactly one message, the words in capitals with a blank
  behind each. The words must fit the buffer and the message must exceed the minimum length.\<close>

theorem cw_link_roundtrip:
  assumes mar: "cw_margins F c n" and words: "\<forall>w \<in> set ws. w \<noteq> '''' \<and> (\<forall>x \<in> set w. toupper x \<in> set d_chars) \<and> length w \<le> max_len"
    and sent: "send_debug_msg wpm False pause draws (unwords ws) = Inr msgs"
    and report: "report = concat (map (\<lambda>w. map toupper w @ '' '') ws)" "min_len < length report"
    and line: "map fst line = key_line n msgs @ replicate m False" "21 * n \<le> m"
  shows "\<exists>st d. cw_keyed F now line (cw_new F junk freq c n min_len max_len) = Inr ([st], d) \<and>
    data st ''pdu'' = Some (Blob (map of_char report))"
proof -
  define R where "R = cw_new F junk freq c n min_len max_len"
  let ?t = "morse_tree_new CHR ''?'' max_len junk" and ?ws = "map (map toupper) ws"
  have mar': "cw_margins F (d_confidence R) n" using mar by (simp add: R_def cw_new_def)
  have dur: "cw_durations n R" by (simp add: R_def cw_new_def cw_durations_def)
  have init: "R = cw_at R 0 ?t '''' NO_SYNC (d_snr R)" by (simp add: R_def cw_at_def cw_new_def)
  have t0: "tree_at max_len '''' ?t" using morse_tree_new_inv [of "CHR ''?''" max_len junk]
    by (simp add: tree_at_def) (simp add: morse_tree_new_def get_word_def)
  have ne: "ws \<noteq> []" using report by auto
  then obtain w0 where "w0 \<in> set ws" by (cases ws) auto
  then have "w0 \<noteq> ''''" "length w0 \<le> max_len" using words by auto
  then have k: "0 < max_len" by (cases w0) auto
  obtain j where "msgs = (send_chars False draws (unwords ws) @ [MORSE_L_SPACE]) @ replicate j MORSE_INTRA_SPACE"
    using sent by (auto simp: send_debug_msg_def split: if_splits)
  then have msgs: "msgs = concat (map word_line ?ws) @ replicate j MORSE_INTRA_SPACE"
    using send_unwords [of ws draws] words ne by (simp add: comp_def)
  have intra: "key_line n (replicate j MORSE_INTRA_SPACE) = replicate (j * n) False"
    by (induction j) (simp_all add: key_down_def replicate_add)
  have "map fst line = key_line n (concat (map word_line ?ws)) @ replicate (j * n + m) False"
    using line(1) by (simp add: msgs intra replicate_add)
  then obtain xs ys where x: "line = xs @ ys" "map fst xs = key_line n (concat (map word_line ?ws))"
    "map fst ys = replicate (j * n + m) False" unfolding map_eq_append_conv by metis
  have ws': "\<forall>w \<in> set ?ws. w \<noteq> [] \<and> set w \<subseteq> set d_chars \<and> length w \<le> max_len" using words by auto
  obtain b' t' v' where 1: "cw_keyed F now xs R = Inr ([], cw_at R b' t' report NO_SYNC v')" "b' \<le> 7 * n" "tree_at max_len '''' t'"
    using run_words [OF mar' dur ws' t0 _ x(2), where b = 0 and s = "''''" and v = "d_snr R" and now = now] init report(1) by (auto simp: comp_def)
  have l: "length ys = j * n + m" "list_all (\<lambda>x. \<not> fst x) ys" using map_fst_replicate [OF x(3)] by (simp_all add: list_all_iff)
  have n: "4 \<le> n" by (rule cw_marginsD(1) [OF mar])
  have long: "d_long_pause_duration R = 7 * n - n div 4" using dur by (simp add: cw_durations_def)
  have "b' \<le> 3 * d_long_pause_duration R" "3 * d_long_pause_duration R < b' + length ys"
    using 1(2) l(1) line(2) n unfolding long by linarith+
  moreover have "d_min_len R < length report" using report(2) by (simp add: R_def cw_new_def)
  ultimately obtain st d where "cw_keyed F now ys (cw_at R b' t' report NO_SYNC v') = Inr ([st], d)"
    "data st ''pdu'' = Some (Blob (map of_char report))"
    using run_end [OF 1(3) k l(2)] by blast
  then show ?thesis using cw_keyed_append [OF 1(1)] x(1) by (auto simp: R_def)
qed

text \<open>With exact arithmetic a confidence from 0.6 up to, but not including, 1 leaves the margins, for every
  dot of at least four values.\<close>

lemma cw_margins_exact:
  assumes "4 \<le> n" and "3 / 5 \<le> c" and "c < 1"
  shows "cw_margins rat_ops c n"
proof -
  define q where "q = n div 4"
  have q: "1 \<le> q" "4 * q \<le> n" using assms(1) by (simp_all add: q_def)
  have lower: "\<not> cw_conf rat_ops c w t" if "5 * w \<le> 3 * t" for w t
  proof -
    have "of_nat w \<le> (3 / 5 :: rat) * of_nat t" using that by (simp add: field_simps)
    also have "\<dots> \<le> c * of_nat t" using assms(2) by (intro mult_right_mono) simp_all
    finally show ?thesis by (simp add: cw_conf_def rat_ops_def mult.commute)
  qed
  have upper: "cw_conf rat_ops c w t" if "t \<le> w" "0 < t" for w t
  proof -
    have "of_nat t * c < (of_nat t :: rat)" using assms(3) that(2) by simp
    also have "\<dots> \<le> of_nat w" using that(1) by simp
    finally show ?thesis by (simp add: cw_conf_def rat_ops_def)
  qed
  have "\<not> cw_conf rat_ops c w (3 * n - q)" if "w < n" for w using that q by (intro lower) linarith
  moreover have "\<not> cw_conf rat_ops c w (7 * n - q)" if "w < 4 * n" for w using that q by (intro lower) linarith
  moreover have "cw_conf rat_ops c (n - 1) (n - q)" "cw_conf rat_ops c (3 * n - 1) (3 * n - q)"
    "cw_conf rat_ops c (4 * n - 1) (3 * n - q)" "cw_conf rat_ops c (7 * n) (7 * n - q)"
    using q assms(1) by (intro upper; linarith)+
  moreover have "7 * n < 11 * n" using assms(1) by simp
  ultimately show ?thesis
    using assms(1) unfolding cw_margins_def q_def [symmetric] list_all_iff list_ex_iff set_upt by auto
qed

theorem cw_link_roundtrip_witness:
  "\<exists>st d. cw_keyed rat_ops ''now''
      (map (\<lambda>k. (k, 10)) (key_line 8 (send_chars False (\<lambda>_. False) ''sos k2'' @ [MORSE_L_SPACE] @ replicate (120 div (1200 div 20)) MORSE_INTRA_SPACE)
        @ replicate 168 False))
      (cw_new rat_ops (\<lambda>_. CHR 0x00) 0 (9 / 10) 8 5 256) = Inr ([st], d) \<and>
    data st ''pdu'' = Some (Blob (map of_char ''SOS K2 ''))"
proof (rule cw_link_roundtrip [where ws = "[''sos'', ''k2'']" and wpm = 20 and pause = 120 and draws = "\<lambda>_. False" and m = 168])
  show "cw_margins rat_ops (9 / 10) 8" by (rule cw_margins_exact) simp_all
  show "''SOS K2 '' = concat (map (\<lambda>w. map toupper w @ '' '') [''sos'', ''k2''])" by code_simp
  show "\<forall>w \<in> set [''sos'', ''k2'']. w \<noteq> '''' \<and> (\<forall>x \<in> set w. toupper x \<in> set d_chars) \<and> length w \<le> 256"
    by code_simp
qed (simp_all add: send_debug_msg_def comp_def del: send_chars.simps key_line_simps)

end
