(* ===== verification/Base64.thy ===== *)
theory Base64
  imports Metadata
begin

text \<open>
  \<open>include/satnogs/base64.h\<close> and \<open>lib/json_converter_impl.cc\<close>: the encoding in which the PDU enters a JSON
  object, its inverse, and the block that converts dictionaries of the decoders to text. A string of
  bytes is a list of bytes, a text a list of characters.
\<close>

unbundle bit_operations_syntax

section \<open>The alphabet\<close>

definition base64_chars :: string where
  "base64_chars = ''ABCDEFGHIJKLMNOPQRSTUVWXYZabcdefghijklmnopqrstuvwxyz0123456789+/''"

text \<open>\<open>isalnum\<close> in the C locale.\<close>

definition isalnum :: "char \<Rightarrow> bool" where
  "isalnum c \<longleftrightarrow> (let n = of_char c :: nat in 48 \<le> n \<and> n \<le> 57 \<or> 65 \<le> n \<and> n \<le> 90 \<or> 97 \<le> n \<and> n \<le> 122)"

definition is_base64 :: "char \<Rightarrow> bool" where
  "is_base64 c \<longleftrightarrow> isalnum c \<or> c = CHR ''+'' \<or> c = CHR ''/''"

text \<open>\<open>std::string::find\<close>, then \<open>& 0xff\<close>.\<close>

fun find_from :: "string \<Rightarrow> char \<Rightarrow> nat \<Rightarrow> nat option" where
  "find_from [] c i = None"
| "find_from (x # xs) c i = (if x = c then Some i else find_from xs c (i + 1))"

definition char_value :: "char \<Rightarrow> u8" where
  "char_value c = (case find_from base64_chars c 0 of Some i \<Rightarrow> of_nat i AND 0xff | None \<Rightarrow> 0xff)"

section \<open>base64_encode\<close>

text \<open>The four values of three bytes.\<close>

definition split3 :: "u8 \<Rightarrow> u8 \<Rightarrow> u8 \<Rightarrow> u8 list" where
  "split3 a b c =
     [drop_bit 2 (a AND 0xfc),
      push_bit 4 (a AND 0x03) + drop_bit 4 (b AND 0xf0),
      push_bit 2 (b AND 0x0f) + drop_bit 6 (c AND 0xc0),
      c AND 0x3f]"

definition base64_char :: "u8 \<Rightarrow> char" where
  "base64_char v = base64_chars ! unat v"

text \<open>The loop; \<open>pend\<close> holds the \<open>i\<close> bytes collected in \<open>char_array_3\<close>.\<close>

fun encode_loop :: "u8 list \<Rightarrow> u8 list \<Rightarrow> string \<Rightarrow> u8 list \<times> string" where
  "encode_loop [] pend ret = (pend, ret)"
| "encode_loop (x # xs) pend ret =
     (let pend = pend @ [x]
      in if length pend = 3
         then encode_loop xs [] (ret @ map base64_char (split3 (pend ! 0) (pend ! 1) (pend ! 2)))
         else encode_loop xs pend ret)"

definition encode_rest :: "u8 list \<Rightarrow> string" where
  "encode_rest pend =
     (let i = length pend;
          a = pend @ replicate (3 - i) 0;
          v = split3 (a ! 0) (a ! 1) (a ! 2)
      in map base64_char (take (i + 1) v) @ replicate (3 - i) CHR ''='')"

definition base64_encode :: "u8 list \<Rightarrow> string" where
  "base64_encode bytes =
     (let (pend, ret) = encode_loop bytes [] ''''
      in if length pend \<noteq> 0 then ret @ encode_rest pend else ret)"

section \<open>base64_decode\<close>

text \<open>The three bytes of four values.\<close>

definition join4 :: "u8 \<Rightarrow> u8 \<Rightarrow> u8 \<Rightarrow> u8 \<Rightarrow> u8 list" where
  "join4 a b c d =
     [push_bit 2 a + drop_bit 4 (b AND 0x30),
      push_bit 4 (b AND 0xf) + drop_bit 2 (c AND 0x3c),
      push_bit 6 (c AND 0x3) + d]"

fun decode_loop :: "string \<Rightarrow> char list \<Rightarrow> u8 list \<Rightarrow> char list \<times> u8 list" where
  "decode_loop [] pend ret = (pend, ret)"
| "decode_loop (x # xs) pend ret =
     (if x \<noteq> CHR ''='' \<and> is_base64 x
      then let pend = pend @ [x]
        in if length pend = 4
           then let v = map char_value pend in decode_loop xs [] (ret @ join4 (v ! 0) (v ! 1) (v ! 2) (v ! 3))
           else decode_loop xs pend ret
      else (pend, ret))"

text \<open>The last bytes are computed from what \<open>char_array_4\<close> holds; its unset elements (0 here) reach only
  bytes that are not copied to the result.\<close>

definition decode_rest :: "char list \<Rightarrow> u8 list" where
  "decode_rest pend =
     (let i = length pend;
          v = map char_value pend @ replicate (4 - i) 0
      in take (i - 1) (join4 (v ! 0) (v ! 1) (v ! 2) (v ! 3)))"

definition base64_decode :: "string \<Rightarrow> u8 list" where
  "base64_decode s =
     (let (pend, ret) = decode_loop s [] []
      in if length pend \<noteq> 0 then ret @ decode_rest pend else ret)"

section \<open>Six bits\<close>

lemma alphabet:
  "list_all (\<lambda>i. char_value (base64_chars ! i) = of_nat i \<and> is_base64 (base64_chars ! i) \<and> base64_chars ! i \<noteq> CHR ''='') [0..<64]"
  by code_simp

lemma char_value_base64_char:
  assumes "unat v < 64"
  shows "char_value (base64_char v) = v" "is_base64 (base64_char v)" "base64_char v \<noteq> CHR ''=''"
proof -
  have "unat v \<in> set [0..<64]" using assms by simp
  then have "char_value (base64_char v) = of_nat (unat v) \<and> is_base64 (base64_char v) \<and> base64_char v \<noteq> CHR ''=''"
    using alphabet unfolding list_all_iff base64_char_def by blast
  then show "char_value (base64_char v) = v" "is_base64 (base64_char v)" "base64_char v \<noteq> CHR ''=''" by simp_all
qed

lemma plus_or: "x + y = x OR y" if "x AND y = 0" for x y :: u8
proof (rule disjunctive_add)
  show "\<not> bit x n \<or> \<not> bit y n" for n
    using arg_cong [OF that, of "\<lambda>w. bit w n"] by (simp add: bit_and_iff)
qed

lemma byte_eq:
  "x = y \<longleftrightarrow> (bit x 0 \<longleftrightarrow> bit y 0) \<and> (bit x 1 \<longleftrightarrow> bit y 1) \<and> (bit x 2 \<longleftrightarrow> bit y 2) \<and> (bit x 3 \<longleftrightarrow> bit y 3) \<and>
    (bit x 4 \<longleftrightarrow> bit y 4) \<and> (bit x 5 \<longleftrightarrow> bit y 5) \<and> (bit x 6 \<longleftrightarrow> bit y 6) \<and> (bit x 7 \<longleftrightarrow> bit y 7)" for x y :: u8
proof
  assume bits: "(bit x 0 \<longleftrightarrow> bit y 0) \<and> (bit x 1 \<longleftrightarrow> bit y 1) \<and> (bit x 2 \<longleftrightarrow> bit y 2) \<and> (bit x 3 \<longleftrightarrow> bit y 3) \<and>
    (bit x 4 \<longleftrightarrow> bit y 4) \<and> (bit x 5 \<longleftrightarrow> bit y 5) \<and> (bit x 6 \<longleftrightarrow> bit y 6) \<and> (bit x 7 \<longleftrightarrow> bit y 7)"
  show "x = y"
  proof (rule bit_word_eqI)
    fix n assume "n < LENGTH(8)"
    then have "n = 0 \<or> n = 1 \<or> n = 2 \<or> n = 3 \<or> n = 4 \<or> n = 5 \<or> n = 6 \<or> n = 7" by simp arith
    then show "bit x n \<longleftrightarrow> bit y n" using bits by blast
  qed
qed simp

lemma split3_or:
  "split3 a b c = [drop_bit 2 (a AND 0xfc), push_bit 4 (a AND 0x03) OR drop_bit 4 (b AND 0xf0),
      push_bit 2 (b AND 0x0f) OR drop_bit 6 (c AND 0xc0), c AND 0x3f]"
proof -
  have "push_bit 4 (a AND 0x03) AND drop_bit 4 (b AND 0xf0) = 0" "push_bit 2 (b AND 0x0f) AND drop_bit 6 (c AND 0xc0) = 0"
    by (simp_all add: byte_eq bit_simps)
  then show ?thesis by (simp add: split3_def plus_or)
qed

lemma join4_or:
  assumes "drop_bit 6 d = 0"
  shows "join4 a b c d = [push_bit 2 a OR drop_bit 4 (b AND 0x30), push_bit 4 (b AND 0xf) OR drop_bit 2 (c AND 0x3c),
      push_bit 6 (c AND 0x3) OR d]"
proof -
  have "push_bit 2 a AND drop_bit 4 (b AND 0x30) = 0" "push_bit 4 (b AND 0xf) AND drop_bit 2 (c AND 0x3c) = 0"
    by (simp_all add: byte_eq bit_simps)
  moreover have "push_bit 6 (c AND 0x3) AND d = 0"
    using assms by (simp add: byte_eq bit_simps)
  ultimately show ?thesis by (simp add: join4_def plus_or)
qed

lemma join_split:
  assumes "v = split3 a b c"
  shows "join4 (v ! 0) (v ! 1) (v ! 2) (v ! 3) = [a, b, c]"
proof -
  have "drop_bit 6 (c AND 0x3f) = 0" by (simp add: byte_eq bit_simps)
  then show ?thesis
    unfolding assms split3_or by (simp add: join4_or) (simp add: byte_eq bit_simps)
qed

lemma split3_small: "v \<in> set (split3 a b c) \<Longrightarrow> unat v < 64"
proof -
  assume v: "v \<in> set (split3 a b c)"
  have "list_all (\<lambda>v. drop_bit 6 v = 0) (split3 a b c)"
    unfolding split3_or by (simp add: byte_eq bit_simps)
  then have "drop_bit 6 v = 0" using v by (simp only: list_all_iff)
  then have "unat v div 2 ^ 6 = 0" by (metis unat_drop_bit_eq drop_bit_eq_div unat_0)
  then show "unat v < 64" by simp
qed

section \<open>Reference definitions\<close>

text \<open>Without the loops: three bytes give four characters, one or two left over give two or three and padding.\<close>

fun base64_spec :: "u8 list \<Rightarrow> string" where
  "base64_spec [] = ''''"
| "base64_spec [a] = map base64_char (take 2 (split3 a 0 0)) @ ''==''"
| "base64_spec [a, b] = map base64_char (take 3 (split3 a b 0)) @ ''=''"
| "base64_spec (a # b # c # xs) = map base64_char (split3 a b c) @ base64_spec xs"

lemma encode_loop_ret: "encode_loop xs pend ret = (fst (encode_loop xs pend ''''), ret @ snd (encode_loop xs pend ''''))"
proof (induction xs arbitrary: pend ret)
  case (Cons x xs)
  show ?case
    using Cons [of "[]" "ret @ map base64_char (split3 ((pend @ [x]) ! 0) ((pend @ [x]) ! 1) ((pend @ [x]) ! 2))"]
      Cons [of "[]" "map base64_char (split3 ((pend @ [x]) ! 0) ((pend @ [x]) ! 1) ((pend @ [x]) ! 2))"] Cons [of "pend @ [x]" ret]
    by (simp add: Let_def)
qed simp

lemma base64_encode_spec: "base64_encode xs = base64_spec xs"
proof (induction xs rule: base64_spec.induct)
  case (4 a b c xs)
  have "encode_loop (a # b # c # xs) [] '''' = encode_loop xs [] (map base64_char (split3 a b c))" by simp
  also have "\<dots> = (fst (encode_loop xs [] ''''), map base64_char (split3 a b c) @ snd (encode_loop xs [] ''''))"
    by (rule encode_loop_ret)
  finally show ?case using 4 by (cases "fst (encode_loop xs [] [])") (simp_all add: base64_encode_def split_def Let_def)
qed (simp_all add: base64_encode_def encode_rest_def split3_def numeral_eq_Suc)

lemma decode_loop_ret: "decode_loop s pend ret = (fst (decode_loop s pend []), ret @ snd (decode_loop s pend []))"
proof (induction s arbitrary: pend ret)
  case (Cons x s)
  let ?v = "map char_value (pend @ [x])"
  show ?case
    using Cons [of "[]" "ret @ join4 (?v ! 0) (?v ! 1) (?v ! 2) (?v ! 3)"] Cons [of "[]" "join4 (?v ! 0) (?v ! 1) (?v ! 2) (?v ! 3)"]
      Cons [of "pend @ [x]" ret]
    by (simp add: Let_def)
qed simp

lemma split3_list: "split3 a b c = [split3 a b c ! 0, split3 a b c ! 1, split3 a b c ! 2, split3 a b c ! 3]"
  by (simp add: split3_def)

lemma base64_decode_block:
  "base64_decode (map base64_char (split3 a b c) @ s) = [a, b, c] @ base64_decode s"
proof -
  let ?v = "split3 a b c"
  have in_v: "?v ! 0 \<in> set ?v" "?v ! 1 \<in> set ?v" "?v ! 2 \<in> set ?v" "?v ! 3 \<in> set ?v" by (simp_all add: split3_def)
  note ok = in_v [THEN split3_small, THEN char_value_base64_char(1)] in_v [THEN split3_small, THEN char_value_base64_char(2)]
    in_v [THEN split3_small, THEN char_value_base64_char(3)]
  note ok = ok [unfolded One_nat_def]
  have "decode_loop (map base64_char ?v @ s) [] [] = decode_loop s [] (join4 (?v ! 0) (?v ! 1) (?v ! 2) (?v ! 3))"
    by (subst split3_list) (simp add: ok Let_def)
  also have "\<dots> = (fst (decode_loop s [] []), [a, b, c] @ snd (decode_loop s [] []))"
    by (subst decode_loop_ret) (simp only: join_split [OF refl])
  finally show ?thesis by (cases "fst (decode_loop s [] [])") (simp_all add: base64_decode_def split_def Let_def)
qed

lemma base64_decode_tail:
  "base64_decode (map base64_char (take 2 (split3 a 0 0)) @ ''=='') = [a]"
  "base64_decode (map base64_char (take 3 (split3 a b 0)) @ ''='') = [a, b]"
proof -
  have v: "split3 a b c ! 0 \<in> set (split3 a b c)" "split3 a b c ! Suc 0 \<in> set (split3 a b c)" "split3 a b c ! 2 \<in> set (split3 a b c)" for b c
    by (simp_all add: split3_def)
  note ok = v [THEN split3_small, THEN char_value_base64_char(1)] v [THEN split3_small, THEN char_value_base64_char(2)]
    v [THEN split3_small, THEN char_value_base64_char(3)]
  note ok' = ok [unfolded numeral_2_eq_2]
  have t: "take 2 (split3 a 0 0) = [split3 a 0 0 ! 0, split3 a 0 0 ! Suc 0]" "take 3 (split3 a b 0) = [split3 a b 0 ! 0, split3 a b 0 ! Suc 0, split3 a b 0 ! 2]"
    by (simp_all add: split3_def numeral_eq_Suc)
  have j: "join4 (split3 a b c ! 0) (split3 a b c ! Suc 0) (split3 a b c ! 2) (split3 a b c ! 3) = [a, b, c]" for b c
    using join_split [OF refl, of a b c] by simp
  have z: "split3 a 0 0 ! 2 = 0" "split3 a 0 0 ! 3 = 0" "split3 a b 0 ! 3 = 0" by (simp_all add: split3_def)
  show "base64_decode (map base64_char (take 2 (split3 a 0 0)) @ ''=='') = [a]"
    using j [of 0 0, unfolded z] unfolding t by (simp add: base64_decode_def decode_rest_def ok ok' z Let_def numeral_eq_Suc)
  show "base64_decode (map base64_char (take 3 (split3 a b 0)) @ ''='') = [a, b]"
    using j [of b 0, unfolded z] unfolding t by (simp add: base64_decode_def decode_rest_def ok ok' z Let_def numeral_eq_Suc)
qed

section \<open>The JSON converter\<close>

text \<open>
  \<open>lib/json_converter_impl.cc\<close>. The parser and the printer of the JSON library are parameters; values of
  the extra text are kept apart from those of the dictionary. A text that does not parse is ignored.
\<close>

definition json_convert ::
    "(string \<Rightarrow> 'x option) \<Rightarrow> ((string \<Rightarrow> (json + 'x) option) \<Rightarrow> string) \<Rightarrow> string \<Rightarrow> dict \<Rightarrow> pmt res" where
  "json_convert parse dump extra m =
     res_bind (to_json base64_encode m) (\<lambda>j.
     let j = map_option Inl \<circ> j;
         j = (case parse extra of Some e \<Rightarrow> j(''extra'' \<mapsto> Inr e) | None \<Rightarrow> j)
     in Inr (Blob (map of_char (dump j))))"

lemma base64_decode_encode: "base64_decode (base64_encode xs) = xs"
  unfolding base64_encode_spec
proof (induction xs rule: base64_spec.induct)
  case 1
  show ?case by (simp add: base64_decode_def)
next
  case (4 a b c xs)
  then show ?case by (simp add: base64_decode_block)
qed (simp_all add: base64_decode_tail)

text \<open>C34: The PDU survives the way through JSON: whatever else a dictionary of a decoder holds and whatever
  extra text is added, the object that is printed has the PDU in base64 under its key, which decodes to
  the bytes of the PDU; the text equals the one of the plain recursion \<open>base64_spec\<close>.\<close>

theorem json_carries_pdu:
  assumes "well_typed m" and "m ''pdu'' = Some (Blob b)"
  shows "\<exists>j. json_convert parse dump extra m = Inr (Blob (map of_char (dump j))) \<and>
    j ''pdu'' = Some (Inl (JString (base64_spec b))) \<and> base64_decode (base64_spec b) = b"
proof -
  obtain j where j: "to_json base64_encode m = Inr j" "\<forall>k s. value_of k = Inr s \<longrightarrow> j s = json_entry base64_encode m k"
    using to_json_entries [OF assms(1), of base64_encode] by blast
  have p: "j ''pdu'' = Some (JString (base64_encode b))"
    using j(2) [rule_format, of PDU "''pdu''"] assms(2) by (simp add: json_entry_def conv_of_def)
  show ?thesis
  proof (cases "parse extra")
    case None
    then show ?thesis using j(1) p base64_decode_encode [of b] unfolding json_convert_def base64_encode_spec
      by (auto simp: base64_encode_spec [symmetric])
  next
    case (Some e)
    then show ?thesis using j(1) p base64_decode_encode [of b] unfolding json_convert_def
      by (auto simp: base64_encode_spec [symmetric] intro!: exI [of _ "(map_option Inl \<circ> j)(''extra'' \<mapsto> Inr e)"])
  qed
qed

theorem json_carries_pdu_witness:
  "\<exists>j. json_convert (\<lambda>s. None) (\<lambda>j. ''{}'') ''note'' (add_pdu Map.empty [0x4D, 0x61, 0x6E, 0x21] 4) = Inr (Blob [0x7B, 0x7D]) \<and>
    (j :: string \<Rightarrow> (json + unit) option) ''pdu'' = Some (Inl (JString ''TWFuIQ==''))"
proof -
  let ?m = "add_pdu Map.empty [0x4D, 0x61, 0x6E, 0x21] 4"
  have "well_typed ?m" "?m ''pdu'' = Some (Blob [0x4D, 0x61, 0x6E, 0x21])" by auto (simp add: add_pdu_def dict_put_def)
  moreover have "base64_spec [0x4D, 0x61, 0x6E, 0x21] = ''TWFuIQ==''" by code_simp
  ultimately show ?thesis
    using json_carries_pdu [of ?m "[0x4D, 0x61, 0x6E, 0x21]" "\<lambda>s. None" "\<lambda>j. ''{}''" "''note''"] by auto
qed

end
