(* ===== verification/Ber_Calculator.thy ===== *)
theory Ber_Calculator
  imports Crc_Async Whitening
begin

text \<open>
  \<open>lib/ber_calculator_impl.cc\<close>: the block that measures the rate of lost frames. It sends numbered frames,
  checks those that come back and counts. The random bytes of a frame are an argument; the ratio of the
  counters is kept as a fraction, and the logarithms of \<open>ber\<close> are left out.
\<close>

unbundle bit_operations_syntax

section \<open>Memory\<close>

definition load64 :: "bool \<Rightarrow> u8 list \<Rightarrow> u64" where
  "load64 be bs0 =
     (let bs = (if be then rev (take 8 bs0) else take 8 bs0)
      in foldr (\<lambda>b a. ucast b OR push_bit 8 a) bs 0)"



section \<open>The block\<close>

record ber_calculator =
  d_frame_size :: nat
  d_nframes :: nat
  d_skip :: nat
  d_cnt :: u64
  d_inval_cnt :: u64
  d_last_ack :: u64
  d_dropped :: u64
  d_received :: u64

definition ber_new :: "nat \<Rightarrow> nat \<Rightarrow> nat \<Rightarrow> ber_calculator res" where
  "ber_new frame_size nframes skip =
     (if frame_size < 8 then Inl (Invalid_argument ''ber_calculator: Minimum supported frame size is 8 bytes'')
      else Inr \<lparr>d_frame_size = frame_size, d_nframes = nframes, d_skip = skip, d_cnt = 0, d_inval_cnt = 0,
                d_last_ack = 0, d_dropped = 0, d_received = 0\<rparr>)"

text \<open>\<open>memcpy\<close> into the middle of a buffer.\<close>

definition put :: "u8 list \<Rightarrow> nat \<Rightarrow> u8 list \<Rightarrow> u8 list" where
  "put b i xs = take i b @ xs @ drop (i + length xs) b"

text \<open>The random bytes of the frame are an argument. The last component tells whether the end of the
  experiment is signalled; it is compared with the counter after the increment.\<close>

definition ber_frame :: "'l lfsr_ops \<Rightarrow> bool \<Rightarrow> u64 \<Rightarrow> u8 list \<Rightarrow> u8 list" where
  "ber_frame L be cnt noise =
     (let n = length noise;
          d = put noise 0 (mem64 be cnt);
          crc = crc32_c (take (n - 4) d);
          d = put d (n - 4) (mem32 be crc);
          (w, _) = make_ccsds L 0 True
      in fst (scramble L w d))"

definition create_pdu :: "'l lfsr_ops \<Rightarrow> bool \<Rightarrow> u8 list \<Rightarrow> ber_calculator \<Rightarrow> pmt \<times> bool \<times> ber_calculator" where
  "create_pdu L be noise b =
     (let frame = ber_frame L be (d_cnt b) (take (d_frame_size b) noise);
          b = b\<lparr>d_cnt := d_cnt b + 1\<rparr>
      in (Pair PMT_NIL (Blob frame), d_nframes b \<noteq> 0 \<and> d_cnt b = of_nat (d_nframes b), b))"

text \<open>What arrives: a blob, a dictionary of the decoders, a pair.\<close>

datatype ber_msg = Msg pmt | Dict dict

fun received_blob :: "ber_msg \<Rightarrow> u8 list res" where
  "received_blob (Dict m) =
     (case m ''pdu'' of
        Some (Blob d) \<Rightarrow> Inr d
      | Some v \<Rightarrow> Inl (Runtime_error ''wrong_type'')
      | None \<Rightarrow> Inl (Runtime_error ''ber_calculator: received a malformed pdu message''))"
| "received_blob (Msg (Blob d)) = Inr d"
| "received_blob (Msg (Pair a (Blob d))) = Inr d"
| "received_blob (Msg (Pair a v)) = Inl (Runtime_error ''wrong_type'')"
| "received_blob (Msg v) = Inl (Runtime_error ''ber_calculator: received a malformed pdu message'')"

definition received_frame :: "'l lfsr_ops \<Rightarrow> bool \<Rightarrow> u8 list \<Rightarrow> ber_calculator \<Rightarrow> ber_calculator" where
  "received_frame L be d b =
     (let n = d_frame_size b in
      if length d \<noteq> n then b\<lparr>d_inval_cnt := d_inval_cnt b + 1\<rparr>
      else let (w, _) = make_ccsds L 0 True;
               d = fst (descramble L w d)
        in if crc32_c (take (n - 4) d) \<noteq> load32 be (drop (n - 4) d) then b\<lparr>d_inval_cnt := d_inval_cnt b + 1\<rparr>
           else let cnt = load64 be d
             in if cnt < d_last_ack b \<or> d_cnt b < cnt then b\<lparr>d_inval_cnt := d_inval_cnt b + 1\<rparr>
                else if cnt < of_nat (d_skip b) then b\<lparr>d_last_ack := cnt + 1\<rparr>
                else b\<lparr>d_last_ack := cnt + 1, d_dropped := d_dropped b + (cnt - d_last_ack b), d_received := d_received b + 1\<rparr>)"

definition received_pdu :: "'l lfsr_ops \<Rightarrow> bool \<Rightarrow> ber_msg \<Rightarrow> ber_calculator \<Rightarrow> ber_calculator res" where
  "received_pdu L be msg b = res_bind (received_blob msg) (\<lambda>d. Inr (received_frame L be d b))"

text \<open>The rate of lost frames, as a fraction.\<close>

definition fer :: "ber_calculator \<Rightarrow> nat \<times> nat" where
  "fer b = (if d_last_ack b = 0 then (1, 1) else (unat (d_dropped b), unat (d_last_ack b)))"

section \<open>Frames\<close>

lemma length_put_bytes [simp]: "i + length xs \<le> length b \<Longrightarrow> length (put b i xs) = length b"
  by (simp add: put_def)

lemma ber_frame_length: "8 \<le> length noise \<Longrightarrow> length (ber_frame L be cnt noise) = length noise"
proof -
  have l: "length (fst (map_state f l xs)) = length xs" for f :: "'b \<Rightarrow> u8 \<Rightarrow> u8 \<times> 'b" and l xs
    by (induction xs arbitrary: l) (simp_all add: split_def Let_def)
  assume "8 \<le> length noise"
  then show ?thesis by (simp add: ber_frame_def make_ccsds_def whitening_make_def scramble_def l split_def Let_def)
qed


section \<open>An experiment\<close>


text \<open>The number of frames up to the last one that arrived.\<close>

definition ack_of :: "bool list \<Rightarrow> nat" where
  "ack_of outs = length (dropWhile Not (rev outs))"

lemma ack_of_snoc [simp]: "ack_of [] = 0" "ack_of (outs @ [x]) = (if x then Suc (length outs) else ack_of outs)"
  by (simp_all add: ack_of_def)




text \<open>The frames that count as lost: those between the last one that arrived during the skipped part and
  the last one that arrived at all.\<close>

definition lost :: "nat \<Rightarrow> bool list \<Rightarrow> nat" where
  "lost s outs = length (filter Not (drop (ack_of (take s outs)) (take (ack_of outs) outs)))"

lemma lost_start [simp]: "lost s [] = 0"
  by (simp add: lost_def)




lemma filter_lost [simp]: "filter id (drop k [False]) = []"
  by (cases k) simp_all







section \<open>Frames that are too small\<close>

lemma high_bit: "8 \<le> n \<Longrightarrow> \<not> bit x n" for x :: u8
  using bit_imp_le_length [of x n] by auto

lemma load64_high:
  assumes "length xs = 4" and "m < 32"
  shows "bit (load64 False (xs @ mem32 False c)) (32 + m) = bit c m"
proof -
  obtain x y z w where x: "xs = [x, y, z, w]" using assms(1) by (auto simp: numeral_eq_Suc length_Suc_conv)
  show ?thesis unfolding x
    by (rule all_upto_32 [OF assms(2)]) (simp_all add: load64_def mem32_def Let_def bit_simps high_bit)
qed

text \<open>The smallest frame that the constructor accepts cannot work: in a frame of eight bytes the checksum
  overwrites half of the counter, and a frame that arrives as it was sent is counted as invalid.\<close>

theorem ber_small_frame_invalid:
  assumes "d_frame_size b = 8" and "length noise = 8" and "d_cnt b < 2 ^ 31" and "crc32_c (take 4 (mem64 False (d_cnt b))) \<noteq> 0"
    and "create_pdu L False noise b = (Pair PMT_NIL (Blob f), finished, b')"
  shows "received_pdu L False (Msg (Pair PMT_NIL (Blob f))) b' = Inr (b'\<lparr>d_inval_cnt := d_inval_cnt b' + 1\<rparr>)"
proof -
  let ?m = "mem64 False (d_cnt b)" and ?w = "fst (make_ccsds L 0 True)"
  let ?c = "crc32_c (take 4 ?m)"
  define d where "d = take 4 ?m @ mem32 False ?c"
  have f: "f = fst (scramble L ?w d)" "b' = b\<lparr>d_cnt := d_cnt b + 1\<rparr>"
    using assms(1,2,5) by (auto simp: create_pdu_def ber_frame_def put_def d_def split_def Let_def)
  have desc: "fst (descramble L ?w f) = d" by (simp add: f make_ccsds_def whitening_make_def descramble_scramble)
  have lf: "length f = 8" using assms(1,2,5) ber_frame_length [of noise] by (auto simp: create_pdu_def Let_def)
  obtain m where m: "bit ?c m" using assms(4) by (metis bit_eqI bit_0_eq bot_apply bot_bool_def)
  then have "m < 32" using bit_imp_le_length by fastforce
  then have hb: "bit (load64 False d) (32 + m)" using load64_high [of "take 4 ?m" m ?c] m by (simp add: d_def)
  have "2 ^ 32 \<le> load64 False d"
  proof (rule ccontr)
    assume "\<not> 2 ^ 32 \<le> load64 False d"
    then have "unat (load64 False d) < 2 ^ 32" by (simp add: word_le_nat_alt)
    then have "take_bit 32 (unat (load64 False d)) = unat (load64 False d)" by (simp add: take_bit_nat_eq_self)
    moreover have "bit (unat (load64 False d)) (32 + m)" using hb by (simp add: bit_unsigned_iff)
    ultimately show False by (metis bit_take_bit_iff not_add_less1)
  qed
  moreover have "d_cnt b + 1 < 2 ^ 32"
  proof -
    have "unat (d_cnt b) < 2 ^ 31" using assms(3) by (simp add: word_less_nat_alt)
    then have "unat (d_cnt b + 1) = unat (d_cnt b) + 1" by (subst unat_word_ariths) simp
    then show ?thesis using \<open>unat (d_cnt b) < 2 ^ 31\<close> by (simp add: word_less_nat_alt)
  qed
  ultimately have "d_cnt b' < load64 False d" by (simp add: f(2))
  then have "received_frame L False f b' = b'\<lparr>d_inval_cnt := d_inval_cnt b' + 1\<rparr>"
    using assms(1) lf desc by (simp add: received_frame_def f(2) split_def Let_def)
  then show ?thesis by (simp add: received_pdu_def)
qed

theorem ber_small_frame_invalid_witness:
  "\<exists>b0 f b1. ber_new 8 0 0 = Inr b0 \<and> create_pdu fib_lfsr False (replicate 8 7) b0 = (Pair PMT_NIL (Blob f), False, b1) \<and>
    received_pdu fib_lfsr False (Msg (Pair PMT_NIL (Blob f))) b1 = Inr (b1\<lparr>d_inval_cnt := 1\<rparr>)"
proof -
  obtain b0 where b0: "ber_new 8 0 0 = Inr b0" "d_frame_size b0 = 8" "d_nframes b0 = 0" "d_cnt b0 = 0" "d_inval_cnt b0 = 0"
    by (simp add: ber_new_def)
  define f where "f = ber_frame fib_lfsr False (d_cnt b0) (replicate 8 7)"
  define b1 where "b1 = b0\<lparr>d_cnt := d_cnt b0 + 1\<rparr>"
  have s: "create_pdu fib_lfsr False (replicate 8 7) b0 = (Pair PMT_NIL (Blob f), False, b1)"
    using b0 by (simp add: create_pdu_def f_def b1_def)
  have "crc32_c [0, 0, 0, 0] \<noteq> 0" by code_simp
  moreover have "take 4 (mem64 False 0) = [0, 0, 0, 0]" by (simp add: mem64_def)
  ultimately have "received_pdu fib_lfsr False (Msg (Pair PMT_NIL (Blob f))) b1 = Inr (b1\<lparr>d_inval_cnt := d_inval_cnt b1 + 1\<rparr>)"
    using b0 by (intro ber_small_frame_invalid [OF b0(2) _ _ _ s]) simp_all
  then show ?thesis using b0 s by (auto simp: b1_def)
qed

end
