(* ===== verification/Amsat_Table.thy ===== *)
theory Amsat_Table
  imports Prelude
begin

text \<open>
  \<open>include/satnogs/amsat_duv_decoder.h\<close>: the table of the 8b10b code of the AMSAT Fox satellites, and the
  fact that no word of ten bits belongs to two bytes.
\<close>

unbundle bit_operations_syntax

section \<open>The table\<close>

text \<open>The two words of every byte, for the two disparities; the table has eleven bits, ten of which count.\<close>

definition lookup_neg :: "int list" where
  "lookup_neg =
    [0x274, 0x1d4, 0x2d4, 0x71b, 0x354, 0x69b, 0x59b, 0x78b, 0x394, 0x65b, 0x55b, 0x74b,
     0x4db, 0x6cb, 0x5cb, 0x174, 0x1b4, 0x63b, 0x53b, 0x72b, 0x4bb, 0x6ab, 0x5ab, 0x3a4,
     0x334, 0x66b, 0x56b, 0x364, 0x4eb, 0x2e4, 0x1e4, 0x2b4, 0x679, 0x5d9, 0x6d9, 0x319,
     0x759, 0x299, 0x199, 0x389, 0x799, 0x259, 0x159, 0x349, 0x0d9, 0x2c9, 0x1c9, 0x579,
     0x5b9, 0x239, 0x139, 0x329, 0x0b9, 0x2a9, 0x1a9, 0x7a9, 0x739, 0x269, 0x169, 0x769,
     0x0e9, 0x6e9, 0x5e9, 0x6b9, 0x675, 0x5d5, 0x6d5, 0x315, 0x755, 0x295, 0x195, 0x385,
     0x795, 0x255, 0x155, 0x345, 0x0d5, 0x2c5, 0x1c5, 0x575, 0x5b5, 0x235, 0x135, 0x325,
     0x0b5, 0x2a5, 0x1a5, 0x7a5, 0x735, 0x265, 0x165, 0x765, 0x0e5, 0x6e5, 0x5e5, 0x6b5,
     0x673, 0x5d3, 0x6d3, 0x31c, 0x753, 0x29c, 0x19c, 0x38c, 0x793, 0x25c, 0x15c, 0x34c,
     0x0dc, 0x2cc, 0x1cc, 0x573, 0x5b3, 0x23c, 0x13c, 0x32c, 0x0bc, 0x2ac, 0x1ac, 0x7a3,
     0x733, 0x26c, 0x16c, 0x763, 0x0ec, 0x6e3, 0x5e3, 0x6b3, 0x272, 0x1d2, 0x2d2, 0x71d,
     0x352, 0x69d, 0x59d, 0x78d, 0x392, 0x65d, 0x55d, 0x74d, 0x4dd, 0x6cd, 0x5cd, 0x172,
     0x1b2, 0x63d, 0x53d, 0x72d, 0x4bd, 0x6ad, 0x5ad, 0x3a2, 0x332, 0x66d, 0x56d, 0x362,
     0x4ed, 0x2e2, 0x1e2, 0x2b2, 0x67a, 0x5da, 0x6da, 0x31a, 0x75a, 0x29a, 0x19a, 0x38a,
     0x79a, 0x25a, 0x15a, 0x34a, 0x0da, 0x2ca, 0x1ca, 0x57a, 0x5ba, 0x23a, 0x13a, 0x32a,
     0x0ba, 0x2aa, 0x1aa, 0x7aa, 0x73a, 0x26a, 0x16a, 0x76a, 0x0ea, 0x6ea, 0x5ea, 0x6ba,
     0x676, 0x5d6, 0x6d6, 0x316, 0x756, 0x296, 0x196, 0x386, 0x796, 0x256, 0x156, 0x346,
     0x0d6, 0x2c6, 0x1c6, 0x576, 0x5b6, 0x236, 0x136, 0x326, 0x0b6, 0x2a6, 0x1a6, 0x7a6,
     0x736, 0x266, 0x166, 0x766, 0x0e6, 0x6e6, 0x5e6, 0x6b6, 0x271, 0x1d1, 0x2d1, 0x71e,
     0x351, 0x69e, 0x59e, 0x78e, 0x391, 0x65e, 0x55e, 0x74e, 0x4de, 0x6ce, 0x5ce, 0x171,
     0x1b1, 0x637, 0x537, 0x72e, 0x4b7, 0x6ae, 0x5ae, 0x3a1, 0x331, 0x66e, 0x56e, 0x361,
     0x4ee, 0x2e1, 0x1e1, 0x2b1]"

definition lookup_pos :: "int list" where
  "lookup_pos =
    [0x58b, 0x62b, 0x52b, 0x314, 0x4ab, 0x294, 0x194, 0x074, 0x46b, 0x254, 0x154, 0x344,
     0x0d4, 0x2c4, 0x1c4, 0x68b, 0x64b, 0x234, 0x134, 0x324, 0x0b4, 0x2a4, 0x1a4, 0x45b,
     0x4cb, 0x264, 0x164, 0x49b, 0x0e4, 0x51b, 0x61b, 0x54b, 0x189, 0x229, 0x129, 0x719,
     0x0a9, 0x699, 0x599, 0x479, 0x069, 0x659, 0x559, 0x749, 0x4d9, 0x6c9, 0x5c9, 0x289,
     0x249, 0x639, 0x539, 0x729, 0x4b9, 0x6a9, 0x5a9, 0x059, 0x0c9, 0x669, 0x569, 0x099,
     0x4e9, 0x119, 0x219, 0x149, 0x185, 0x225, 0x125, 0x715, 0x0a5, 0x695, 0x595, 0x475,
     0x065, 0x655, 0x555, 0x745, 0x4d5, 0x6c5, 0x5c5, 0x285, 0x245, 0x635, 0x535, 0x725,
     0x4b5, 0x6a5, 0x5a5, 0x055, 0x0c5, 0x665, 0x565, 0x095, 0x4e5, 0x115, 0x215, 0x145,
     0x18c, 0x22c, 0x12c, 0x713, 0x0ac, 0x693, 0x593, 0x473, 0x06c, 0x653, 0x553, 0x743,
     0x4d3, 0x6c3, 0x5c3, 0x28c, 0x24c, 0x633, 0x533, 0x723, 0x4b3, 0x6a3, 0x5a3, 0x05c,
     0x0cc, 0x663, 0x563, 0x09c, 0x4e3, 0x11c, 0x21c, 0x14c, 0x58d, 0x62d, 0x52d, 0x312,
     0x4ad, 0x292, 0x192, 0x072, 0x46d, 0x252, 0x152, 0x342, 0x0d2, 0x2c2, 0x1c2, 0x68d,
     0x64d, 0x232, 0x132, 0x322, 0x0b2, 0x2a2, 0x1a2, 0x45d, 0x4cd, 0x262, 0x162, 0x49d,
     0x0e2, 0x51d, 0x61d, 0x54d, 0x18a, 0x22a, 0x12a, 0x71a, 0x0aa, 0x69a, 0x59a, 0x47a,
     0x06a, 0x65a, 0x55a, 0x74a, 0x4da, 0x6ca, 0x5ca, 0x28a, 0x24a, 0x63a, 0x53a, 0x72a,
     0x4ba, 0x6aa, 0x5aa, 0x05a, 0x0ca, 0x66a, 0x56a, 0x09a, 0x4ea, 0x11a, 0x21a, 0x14a,
     0x186, 0x226, 0x126, 0x716, 0x0a6, 0x696, 0x596, 0x476, 0x066, 0x656, 0x556, 0x746,
     0x4d6, 0x6c6, 0x5c6, 0x286, 0x246, 0x636, 0x536, 0x726, 0x4b6, 0x6a6, 0x5a6, 0x056,
     0x0c6, 0x666, 0x566, 0x096, 0x4e6, 0x116, 0x216, 0x146, 0x58e, 0x62e, 0x52e, 0x311,
     0x4ae, 0x291, 0x191, 0x071, 0x46e, 0x251, 0x151, 0x348, 0x0d1, 0x2c8, 0x1c8, 0x68e,
     0x64e, 0x231, 0x131, 0x321, 0x0b1, 0x2a1, 0x1a1, 0x45e, 0x4ce, 0x261, 0x161, 0x49e,
     0x0e1, 0x51e, 0x61e, 0x54e]"

section \<open>The table is one to one\<close>

text \<open>
  A word determines its byte: \<open>unique d\<close> checks of pairs of a word and a byte that no two with the same low
  \<open>d\<close> bits differ in the byte, splitting on the last bit. The table is checked in four parts.
\<close>

fun unique :: "nat \<Rightarrow> (int \<times> int) list \<Rightarrow> bool" where
  "unique d [] = True"
| "unique 0 ((v, k) # ps) = list_all (\<lambda>p. snd p = k) ps"
| "unique (Suc d) ((v, k) # ps) =
     (list_all (\<lambda>p. snd p = k) ps \<or>
      unique d (map (\<lambda>p. (fst p div 2, snd p)) (filter (\<lambda>p. even (fst p)) ((v, k) # ps))) \<and>
      unique d (map (\<lambda>p. (fst p div 2, snd p)) (filter (\<lambda>p. odd (fst p)) ((v, k) # ps))))"

lemma split_low_bit:
  assumes "v mod 2 ^ Suc d = w mod (2 ^ Suc d :: int)"
  shows "v div 2 mod 2 ^ d = w div 2 mod 2 ^ d" "even v \<longleftrightarrow> even w"
proof -
  have "2 * (v div 2 mod 2 ^ d) + v mod 2 = 2 * (w div 2 mod 2 ^ d) + w mod 2"
    using assms zmod_zmult2_eq [of "2 ^ d" v 2] zmod_zmult2_eq [of "2 ^ d" w 2] by simp
  moreover have "2 * a + x mod 2 = 2 * b + y mod 2 \<Longrightarrow> a = b \<and> x mod 2 = y mod 2" for a b x y :: int by presburger
  ultimately have "v div 2 mod 2 ^ d = w div 2 mod 2 ^ d" "v mod 2 = w mod 2" by blast+
  then show "v div 2 mod 2 ^ d = w div 2 mod 2 ^ d" "even v \<longleftrightarrow> even w" by (simp_all add: even_iff_mod_2_eq_zero)
qed

lemma unique_inj:
  "unique d ps \<Longrightarrow> (v, i) \<in> set ps \<Longrightarrow> (w, j) \<in> set ps \<Longrightarrow> v mod 2 ^ d = w mod 2 ^ d \<Longrightarrow> i = j"
proof (induction d ps arbitrary: v w rule: unique.induct)
  case (3 d v0 k ps)
  show ?case
  proof (cases "list_all (\<lambda>p. snd p = k) ps")
    case True
    then have "i = k" "j = k" using "3.prems"(2,3) by (auto simp: list_all_iff)
    then show ?thesis by simp
  next
    case False
    note m = split_low_bit [OF "3.prems"(4)]
    have in_half: "(x div 2, l) \<in> set (map (\<lambda>p. (fst p div 2, snd p)) (filter (\<lambda>p. Q (fst p)) ps'))"
      if "(x, l) \<in> set ps'" "Q x" for x l Q and ps' :: "(int \<times> int) list" using that by force
    show ?thesis
    proof (cases "even v")
      case True
      show ?thesis
        using "3.IH"(1) [OF _ in_half [where Q = even, OF "3.prems"(2) True] in_half [where Q = even, OF "3.prems"(3)] m(1)]
          "3.prems"(1) False True m(2) by simp
    next
      case odd: False
      show ?thesis
        using "3.IH"(2) [OF _ in_half [where Q = odd, OF "3.prems"(2) odd] in_half [where Q = odd, OF "3.prems"(3)] m(1)]
          "3.prems"(1) False odd m(2) by simp
    qed
  qed
next
  case (2 v0 k ps)
  then have "i = k" "j = k" by (auto simp: list_all_iff)
  then show ?case by simp
qed simp

definition byte_words :: "(int \<times> int) list" where
  "byte_words = zip lookup_neg [0..255] @ zip lookup_pos [0..255]"

definition low_part :: "int \<Rightarrow> (int \<times> int) list" where
  "low_part r = map (\<lambda>p. (fst p div 4, snd p)) (filter (\<lambda>p. fst p mod 4 = r) byte_words)"

lemma unique_part_0: "unique 8 (low_part 0)"
  by code_simp

lemma unique_part_1: "unique 8 (low_part 1)"
  by code_simp

lemma unique_part_2: "unique 8 (low_part 2)"
  by code_simp

lemma unique_part_3: "unique 8 (low_part 3)"
  by code_simp

lemma byte_words_inj:
  assumes "(v, i) \<in> set byte_words" and "(w, j) \<in> set byte_words" and "v mod 1024 = w mod 1024"
  shows "i = j"
proof -
  have m: "x mod 1024 = 4 * (x div 4 mod 256) + x mod 4" for x :: int using zmod_zmult2_eq [of 256 x 4] by simp
  have four: "4 * a + x mod 4 = 4 * b + y mod 4 \<Longrightarrow> a = b \<and> x mod 4 = y mod 4" for a b x y :: int by presburger
  have "4 * (v div 4 mod 256) + v mod 4 = 4 * (w div 4 mod 256) + w mod 4" using assms(3) unfolding m .
  from four [OF this] have vw: "v div 4 mod 2 ^ 8 = w div 4 mod 2 ^ 8" "w mod 4 = v mod 4" by simp_all
  have part: "(x div 4, l) \<in> set (low_part r)" if "(x, l) \<in> set byte_words" "x mod 4 = r" for x l r
    using that unfolding low_part_def by force
  have "v mod 4 = 0 \<or> v mod 4 = 1 \<or> v mod 4 = 2 \<or> v mod 4 = 3" by presburger
  then have "unique 8 (low_part (v mod 4))"
    using unique_part_0 unique_part_1 unique_part_2 unique_part_3 by auto
  then show ?thesis
    by (rule unique_inj [OF _ part [OF assms(1) refl] part [OF assms(2) vw(2)] vw(1)])
qed

end
