(* ===== verification/Amsat_Duv_Decoder.thy ===== *)
theory Amsat_Duv_Decoder
  imports Rs_Code Metadata Utils Amsat_Table
begin

text \<open>
  \<open>lib/amsat_duv_decoder.cc\<close>: the decoder of the DUV telemetry of the AMSAT Fox satellites: the search for
  the control symbol, the nearest byte of every ten bits with its erasures, the Reed-Solomon decoder
  and the report. The functions take \<open>count_bits16\<close> of GNU Radio as \<open>cb\<close> and the time of the report as
  \<open>now\<close>; \<open>decode\<close> returns after at most two iterations of its endless loop, the fuel it is given.
\<close>

unbundle bit_operations_syntax

section \<open>The nearest word\<close>

text \<open>
  One of the two searches of \<open>process_10b\<close>: the first entry at the smallest distance below the one known
  already; it ends at distance zero. \<open>count_bits16\<close> is a function of GNU Radio, here \<open>cb\<close>.
\<close>

fun nearest :: "(u16 \<Rightarrow> nat) \<Rightarrow> u16 \<Rightarrow> int list \<Rightarrow> nat \<Rightarrow> u8 \<times> nat \<Rightarrow> u8 \<times> nat" where
  "nearest cb word [] i best = best"
| "nearest cb word (v # vs) i (min_pos, min_dist) =
     (if min_dist = 0 then (min_pos, min_dist)
      else let diff_bits = (word XOR word_of_int v) AND 0x3FF;
               curr_dist = cb diff_bits
        in nearest cb word vs (i + 1) (if curr_dist < min_dist then (of_nat i, curr_dist) else (min_pos, min_dist)))"

definition search_10b :: "(u16 \<Rightarrow> nat) \<Rightarrow> u16 \<Rightarrow> u8 \<times> nat" where
  "search_10b cb word = nearest cb word lookup_pos 0 (nearest cb word lookup_neg 0 (0, 11))"

section \<open>The class\<close>

datatype amsat_state_t = SEARCH_SYNC | DECODING

record amsat_duv_decoder = decoder_base +
  d_erasure_cnt :: nat
  d_control_symbol_pos :: u16
  d_control_symbol_neg :: u16
  d_data_reg :: u16
  d_wrong_bits :: u16
  d_wrong_bits_neg :: u16
  d_nwrong :: nat
  d_nwrong_neg :: nat
  d_word_cnt :: nat
  d_8b_words :: "u8 list"
  d_erasures_indexes :: "int list"
  d_state :: amsat_state_t
  d_bitstream_idx :: nat
  d_bitstream :: "u8 list"

definition amsat_fox_duv_frame_size :: nat where
  "amsat_fox_duv_frame_size = 6 + 58"

definition amsat_fox_spacecraft_id :: "u8 list" where
  "amsat_fox_spacecraft_id = [0x1, 0x2, 0x3, 0x4, 0x5]"

text \<open>The two control symbols; \<open>None\<close> when the text has not ten characters.\<close>

definition set_access_code :: "string \<Rightarrow> u16 \<Rightarrow> (u16 \<times> u16) option" where
  "set_access_code control_symbol start =
     (if length control_symbol \<noteq> 10 then None
      else let pos = fold (\<lambda>c r. push_bit 1 r OR (of_char c AND 0x1)) control_symbol start
        in Some (pos, NOT pos AND 0x3FF))"

definition amsat_new :: "int \<Rightarrow> (nat \<Rightarrow> u8) \<Rightarrow> (nat \<Rightarrow> int) \<Rightarrow> string \<Rightarrow> nat \<Rightarrow> amsat_duv_decoder res" where
  "amsat_new base_unique_id junk junki control_symbol max_frame_len =
     (case set_access_code control_symbol 0 of
        None \<Rightarrow> Inl (Runtime_error ''control_symbol is not 10 bits'')
      | Some (pos, neg) \<Rightarrow>
          Inr (decoder_base.extend (fst (decoder_new ''amsat_duv'' ''1.0'' 1 max_frame_len base_unique_id))
            (amsat_duv_decoder.fields 0 pos neg 0 0 0 0 0 0 (map junk [0..<max_frame_len]) (map junki [0..<max_frame_len])
               SEARCH_SYNC 0 [])))"

definition amsat_make :: "int \<Rightarrow> (nat \<Rightarrow> u8) \<Rightarrow> (nat \<Rightarrow> int) \<Rightarrow> string \<Rightarrow> nat \<Rightarrow> amsat_duv_decoder res" where
  "amsat_make = amsat_new"

definition process_10b :: "(u16 \<Rightarrow> nat) \<Rightarrow> u16 \<Rightarrow> nat \<Rightarrow> amsat_duv_decoder \<Rightarrow> amsat_duv_decoder res" where
  "process_10b cb word write_pos d =
     (let (min_pos, min_dist) = search_10b cb word
      in res_bind (buf_set (d_8b_words d) write_pos min_pos) (\<lambda>ws.
         let d = d\<lparr>d_8b_words := ws\<rparr>
         in if min_dist \<noteq> 0
            then res_bind (buf_set (d_erasures_indexes d) (d_erasure_cnt d) (int write_pos)) (\<lambda>es.
                 Inr (d\<lparr>d_erasure_cnt := d_erasure_cnt d + 1, d_erasures_indexes := es\<rparr>))
            else Inr d))"

text \<open>Ten items of the stream from \<open>idx\<close> on, most significant bit first.\<close>

definition pack_10b :: "u8 list \<Rightarrow> u16" where
  "pack_10b xs =
     push_bit 9 (ucast (xs ! 0) AND 0x1) OR push_bit 8 (ucast (xs ! 1) AND 0x1) OR push_bit 7 (ucast (xs ! 2) AND 0x1) OR
     push_bit 6 (ucast (xs ! 3) AND 0x1) OR push_bit 5 (ucast (xs ! 4) AND 0x1) OR push_bit 4 (ucast (xs ! 5) AND 0x1) OR
     push_bit 3 (ucast (xs ! 6) AND 0x1) OR push_bit 2 (ucast (xs ! 7) AND 0x1) OR push_bit 1 (ucast (xs ! 8) AND 0x1) OR
     (ucast (xs ! 9) AND 0x1)"

definition pack_10b_word :: "nat \<Rightarrow> amsat_duv_decoder \<Rightarrow> u16" where
  "pack_10b_word idx d = pack_10b (drop idx (d_bitstream d))"

definition is_spacecraft_valid :: "u8 \<Rightarrow> bool" where
  "is_spacecraft_valid i \<longleftrightarrow> list_ex (\<lambda>x. x = i) amsat_fox_spacecraft_id"

text \<open>
  The Reed-Solomon decoder works on \<open>d_8b_words\<close> in place and writes the positions it corrected over the
  erasures. Given more than 32 erasures and a block that is no codeword, its loop over the erasure locator
  leaves the array \<open>lambda\<close> of 33 elements: the coefficient of degree 32, a product of field elements that
  are not zero, is not zero, so the code writes to the element behind the last.
\<close>

definition amsat_rs :: "amsat_duv_decoder \<Rightarrow> (int \<times> amsat_duv_decoder) res" where
  "amsat_rs d =
     (let pad = 255 - int (d_max_frame d);
          eras = take (d_erasure_cnt d) (d_erasures_indexes d)
      in if 0 < d_erasure_cnt d
         then if 32 < d_erasure_cnt d \<and> 0 \<le> pad \<and> pad \<le> 222 \<and>
                 fold (OR) (rs_syndromes fixed_macros (nat pad) (d_8b_words d)) 0 \<noteq> 0
              then Inl Oob_write
              else let (ret, out, pos) = decode_rs_8 (d_8b_words d) eras pad
                in Inr (ret, d\<lparr>d_8b_words := out,
                     d_erasures_indexes := map int pos @ drop (length pos) (d_erasures_indexes d)\<rparr>)
         else let (ret, out, pos) = decode_rs_8 (d_8b_words d) [] pad
           in Inr (ret, d\<lparr>d_8b_words := out\<rparr>))"

section \<open>decode\<close>

text \<open>One item of the search: the register and its distances to the two control symbols.\<close>

definition amsat_shift :: "(u16 \<Rightarrow> nat) \<Rightarrow> u8 \<Rightarrow> amsat_duv_decoder \<Rightarrow> amsat_duv_decoder" where
  "amsat_shift cb b d =
     (let reg = push_bit 1 (d_data_reg d) OR (ucast b AND 0x1);
          wrong_bits = (reg XOR d_control_symbol_pos d) AND 0x3FF;
          wrong_bits_neg = (reg XOR d_control_symbol_neg d) AND 0x3FF
      in d\<lparr>d_data_reg := reg, d_wrong_bits := wrong_bits, d_wrong_bits_neg := wrong_bits_neg,
           d_nwrong := cb wrong_bits, d_nwrong_neg := cb wrong_bits_neg\<rparr>)"

fun amsat_scan :: "(u16 \<Rightarrow> nat) \<Rightarrow> nat \<Rightarrow> u8 list \<Rightarrow> amsat_duv_decoder \<Rightarrow> nat option \<times> amsat_duv_decoder" where
  "amsat_scan cb i [] d = (None, d)"
| "amsat_scan cb i (b # bs) d =
     (let d = amsat_shift cb b d
      in if d_nwrong d = 0 \<or> d_nwrong_neg d = 0 then (Some i, d) else amsat_scan cb (i + 1) bs d)"

definition amsat_search_sync :: "(u16 \<Rightarrow> nat) \<Rightarrow> amsat_duv_decoder \<Rightarrow> amsat_duv_decoder res" where
  "amsat_search_sync cb d =
     (case amsat_scan cb 0 (d_bitstream d) d of
        (Some i, d) \<Rightarrow>
          let d = d\<lparr>d_erasure_cnt := 0, d_word_cnt := 0, d_state := DECODING\<rparr>
          in if 10 < i
             then res_bind (erase_front (i + 1) 9 (d_bitstream d)) (\<lambda>bs. Inr (d\<lparr>d_bitstream_idx := 9, d_bitstream := bs\<rparr>))
             else res_bind (erase_front 1 0 (d_bitstream d)) (\<lambda>bs. Inr (d\<lparr>d_bitstream_idx := i, d_bitstream := bs\<rparr>))
      | (None, d) \<Rightarrow> Inr (d\<lparr>d_bitstream := []\<rparr>))"

text \<open>The end of a frame: \<open>True\<close> when it was reported. The prefix of the stream that is erased is counted
  from the words of this call.\<close>

definition amsat_frame_end ::
    "string \<Rightarrow> nat \<Rightarrow> amsat_duv_decoder \<Rightarrow> decoder_status \<Rightarrow> (bool \<times> amsat_duv_decoder \<times> decoder_status) res" where
  "amsat_frame_end now i d status =
     (let d = d\<lparr>d_data_reg := 0, d_state := SEARCH_SYNC\<rparr>
      in res_bind (amsat_rs d) (\<lambda>(ret, d).
         if -1 < ret \<and> is_spacecraft_valid (d_8b_words d ! 0 AND 0x7)
         then if length (d_8b_words d) < amsat_fox_duv_frame_size then Inl Oob_read
              else let m = add_decoder (data status) (Some d);
                       m = add_pdu m (d_8b_words d) amsat_fox_duv_frame_size;
                       m = add_symbol_erasures m (of_nat (d_erasure_cnt d));
                       m = add_corrected_bits m (word_of_int ret);
                       m = add_time_iso8601 now m
                in res_bind (erase_front ((i + 1) * 10 + 1) 0 (d_bitstream d)) (\<lambda>bs.
                   Inr (True, d\<lparr>d_bitstream := bs\<rparr>, status\<lparr>decode_success := True, data := m\<rparr>))
         else Inr (False, d, status)))"

text \<open>The loop over the words that are there; \<open>None\<close> when no frame was completed.\<close>

fun amsat_words ::
    "(u16 \<Rightarrow> nat) \<Rightarrow> string \<Rightarrow> nat \<Rightarrow> nat \<Rightarrow> amsat_duv_decoder \<Rightarrow> decoder_status \<Rightarrow>
     (bool option \<times> amsat_duv_decoder \<times> decoder_status) res" where
  "amsat_words cb now i 0 d status = Inr (None, d, status)"
| "amsat_words cb now i (Suc n) d status =
     res_bind (process_10b cb (pack_10b_word (d_bitstream_idx d) d) (d_word_cnt d) d) (\<lambda>d.
     let d = d\<lparr>d_word_cnt := d_word_cnt d + 1\<rparr>
     in if d_word_cnt d = d_max_frame d
        then res_bind (amsat_frame_end now i d status) (\<lambda>(r, d, status). Inr (Some r, d, status))
        else amsat_words cb now (i + 1) n (d\<lparr>d_bitstream_idx := d_bitstream_idx d + 10\<rparr>) status)"

text \<open>
  One iteration of the endless loop. Were the index behind the stream, the difference of the two unsigned
  numbers would wrap around and the code read outside of the stream.
\<close>

definition amsat_iteration ::
    "(u16 \<Rightarrow> nat) \<Rightarrow> string \<Rightarrow> amsat_duv_decoder \<times> decoder_status \<Rightarrow>
     (amsat_duv_decoder \<times> decoder_status, unit) outcome res" where
  "amsat_iteration cb now = (\<lambda>(d, status).
     if length (d_bitstream d) < 11 then Inr (Return (d, status) ())
     else case d_state d of
       SEARCH_SYNC \<Rightarrow> res_bind (amsat_search_sync cb d) (\<lambda>d. Inr (Return (d, status) ()))
     | DECODING \<Rightarrow>
         if length (d_bitstream d) < d_bitstream_idx d then Inl Oob_read
         else if length (d_bitstream d) - d_bitstream_idx d < 10 then Inr (Return (d, status) ())
         else res_bind (amsat_words cb now 0 ((length (d_bitstream d) - d_bitstream_idx d) div 10) d status) (\<lambda>(r, d, status).
              if r = Some False then Inr (Continue (d, status)) else Inr (Return (d, status) ())))"

definition amsat_decode ::
    "(u16 \<Rightarrow> nat) \<Rightarrow> string \<Rightarrow> amsat_duv_decoder \<Rightarrow> u8 list \<Rightarrow> (amsat_duv_decoder \<times> decoder_status) res option" where
  "amsat_decode cb now d inp =
     (let d = d\<lparr>d_bitstream := d_bitstream d @ inp\<rparr>;
          status = status_new\<lparr>consumed := int (length inp)\<rparr>
      in map_option (\<lambda>r. res_bind r (\<lambda>(s, _). Inr s)) (run_loop (amsat_iteration cb now) 2 (d, status)))"

definition amsat_reset :: "amsat_duv_decoder \<Rightarrow> amsat_duv_decoder" where
  "amsat_reset d =
     d\<lparr>d_erasure_cnt := 0, d_word_cnt := 0, d_state := SEARCH_SYNC, d_bitstream_idx := 0, d_bitstream := []\<rparr>"

section \<open>What the search finds\<close>

text \<open>The documented behaviour of \<open>count_bits16\<close>.\<close>

definition counts_bits :: "(u16 \<Rightarrow> nat) \<Rightarrow> bool" where
  "counts_bits cb \<longleftrightarrow> (\<forall>w. cb w = popcount w)"

definition distance :: "(u16 \<Rightarrow> nat) \<Rightarrow> u16 \<Rightarrow> int \<Rightarrow> nat" where
  "distance cb word v = cb ((word XOR word_of_int v) AND 0x3FF)"

lemma nearest_best:
  "nearest cb word vs i (p, m) = (q, k) \<Longrightarrow>
   k \<le> m \<and> (\<forall>v \<in> set vs. k \<le> distance cb word v) \<and>
   (k = m \<and> q = p \<or> (\<exists>j < length vs. q = of_nat (i + j) \<and> distance cb word (vs ! j) = k))"
proof (induction vs arbitrary: i p m)
  case (Cons v vs)
  show ?case
  proof (cases "m = 0")
    case True
    then show ?thesis using Cons.prems by simp
  next
    case False
    define c where "c = distance cb word v"
    have "nearest cb word (v # vs) i (p, m) = nearest cb word vs (i + 1) (if c < m then (of_nat i, c) else (p, m))"
      using False unfolding c_def distance_def nearest.simps Let_def by (simp only: if_False)
    then have step: "nearest cb word vs (i + 1) (if c < m then (of_nat i, c) else (p, m)) = (q, k)"
      using Cons.prems by (simp only:)
    show ?thesis
    proof (cases "c < m")
      case True
      then have "nearest cb word vs (i + 1) (of_nat i, c) = (q, k)" using step by simp
      from Cons.IH [OF this] have ih: "k \<le> c" "\<forall>v \<in> set vs. k \<le> distance cb word v"
        "k = c \<and> q = of_nat i \<or> (\<exists>j < length vs. q = of_nat (i + 1 + j) \<and> distance cb word (vs ! j) = k)" by simp_all
      then have "\<exists>j < length (v # vs). q = of_nat (i + j) \<and> distance cb word ((v # vs) ! j) = k"
        using c_def by (auto intro: exI [of _ 0] exI [of _ "Suc j" for j])
      then show ?thesis using ih True c_def by auto
    next
      case m: False
      then have "nearest cb word vs (i + 1) (p, m) = (q, k)" using step by simp
      from Cons.IH [OF this] have ih: "k \<le> m" "\<forall>v \<in> set vs. k \<le> distance cb word v"
        "k = m \<and> q = p \<or> (\<exists>j < length vs. q = of_nat (i + 1 + j) \<and> distance cb word (vs ! j) = k)" by simp_all
      then have "k = m \<and> q = p \<or> (\<exists>j < length (v # vs). q = of_nat (i + j) \<and> distance cb word ((v # vs) ! j) = k)"
        by (auto intro: exI [of _ "Suc j" for j])
      then show ?thesis using ih m c_def by auto
    qed
  qed
qed simp

lemma popcount_le_10: "popcount (x AND 0x3FF :: u16) \<le> 10"
proof -
  have "popcount (x AND 0x3FF) = (\<Sum>i = 0..<16. of_bool (bit (x AND 0x3FF) i) :: nat)" by (simp add: popcount_def)
  also have "\<dots> \<le> (\<Sum>i = 0..<16. of_bool (i < (10 :: nat)))"
  proof (rule sum_mono)
    fix i :: nat
    have "0x3FF = (mask 10 :: u16)" by (simp add: mask_eq_exp_minus_1)
    then have "bit (0x3FF :: u16) i \<Longrightarrow> i < 10" by (simp only: bit_mask_iff)
    then show "(of_bool (bit (x AND 0x3FF) i) :: nat) \<le> of_bool (i < 10)" by (auto simp: bit_and_iff)
  qed
  also have "\<dots> = 10" by code_simp
  finally show ?thesis .
qed

definition words_of :: "u8 \<Rightarrow> int set" where
  "words_of b = {lookup_neg ! unat b, lookup_pos ! unat b}"

lemma length_lookup: "length lookup_neg = 256" "length lookup_pos = 256"
  by (simp_all add: lookup_neg_def lookup_pos_def)

lemma words_in_table:
  "v \<in> set lookup_neg \<union> set lookup_pos \<Longrightarrow> \<exists>b. v \<in> words_of b"
  "v \<in> words_of b \<Longrightarrow> (v, int (unat b)) \<in> set byte_words"
proof -
  assume "v \<in> set lookup_neg \<union> set lookup_pos"
  then obtain j where "j < 256" "v = lookup_neg ! j \<or> v = lookup_pos ! j"
    using length_lookup by (auto simp: in_set_conv_nth)
  moreover from this have "unat (of_nat j :: u8) = j" by (simp add: unat_of_nat)
  ultimately show "\<exists>b. v \<in> words_of b" unfolding words_of_def by (metis insertI1 insertI2)
next
  assume v: "v \<in> words_of b"
  have b: "unat b < 256" using unsigned_less [of b, where ?'a = nat] by simp
  have "[0..255] ! unat b = int (unat b)" using b by (subst nth_upto) (simp_all only: add_0_left of_nat_le_iff [of _ 255, simplified])
  have "length [0..255] = 256" by simp
  with \<open>[0..255] ! unat b = int (unat b)\<close> have "(lookup_neg ! unat b, int (unat b)) \<in> set (zip lookup_neg [0..255])" "(lookup_pos ! unat b, int (unat b)) \<in> set (zip lookup_pos [0..255])"
    using b length_lookup by (auto simp: in_set_zip intro!: exI [of _ "unat b"])
  then show "(v, int (unat b)) \<in> set byte_words" using v by (auto simp: words_of_def byte_words_def)
qed

lemma distance_zero:
  assumes "counts_bits cb"
  shows "distance cb word v = 0 \<longleftrightarrow> uint word mod 1024 = v mod 1024"
proof -
  have m: "x AND 0x3FF = take_bit 10 x" for x :: u16 by (simp add: take_bit_eq_mask mask_eq_exp_minus_1)
  have "distance cb word v = 0 \<longleftrightarrow> take_bit 10 (word XOR word_of_int v) = 0"
    using assms popcount_eq_0 unfolding counts_bits_def distance_def m by (metis popcount_zero)
  also have "\<dots> \<longleftrightarrow> take_bit 10 word = take_bit 10 (word_of_int v)"
    by (auto simp: bit_eq_iff bit_simps)
  also have "\<dots> \<longleftrightarrow> uint (take_bit 10 word) = uint (take_bit 10 (word_of_int v :: u16))"
    by (simp only: word_uint_eq_iff)
  also have "\<dots> \<longleftrightarrow> uint word mod 2 ^ 10 = (v mod 2 ^ 16) mod 2 ^ 10"
    unfolding unsigned_take_bit_eq uint_word_of_int by (simp add: take_bit_eq_mod del: mod_mod_cancel)
  also have "(v mod 2 ^ 16) mod 2 ^ 10 = v mod 2 ^ 10" by (rule mod_mod_cancel) simp
  also have "(2 :: int) ^ 10 = 1024" by simp
  finally show ?thesis .
qed

lemma search_10b_spec:
  assumes "counts_bits cb" and "search_10b cb word = (b, k)"
  shows "(\<exists>v \<in> words_of b. distance cb word v = k) \<and> (\<forall>c. \<forall>v \<in> words_of c. k \<le> distance cb word v) \<and>
    (\<forall>c. \<forall>v \<in> words_of c. distance cb word v = 0 \<longrightarrow> b = c)"
proof -
  obtain p m where n: "nearest cb word lookup_neg 0 (0, 11) = (p, m)" by fastforce
  have s: "nearest cb word lookup_pos 0 (p, m) = (b, k)" using assms(2) n by (simp add: search_10b_def)
  note bn = nearest_best [OF n] and bs = nearest_best [OF s]
  have le: "distance cb word v \<le> 10" for v
    using assms(1) popcount_le_10 unfolding counts_bits_def distance_def by simp
  have "lookup_neg ! 0 \<in> set lookup_neg" using length_lookup by simp
  then have "m \<noteq> 11" using bn le [of "lookup_neg ! 0"] by fastforce
  then obtain j where j: "j < 256" "p = of_nat j" "distance cb word (lookup_neg ! j) = m" using bn length_lookup by auto
  have u: "i < 256 \<Longrightarrow> unat (of_nat i :: u8) = i" for i by (simp add: unat_of_nat)
  have at: "\<exists>v \<in> words_of b. distance cb word v = k"
  proof (cases "k = m \<and> b = p")
    case True
    then show ?thesis using j u by (auto simp: words_of_def)
  next
    case False
    then obtain i where "i < 256" "b = of_nat i" "distance cb word (lookup_pos ! i) = k" using bs length_lookup by auto
    then show ?thesis using u by (auto simp: words_of_def)
  qed
  have min: "k \<le> distance cb word v" if "v \<in> words_of c" for v c
  proof -
    have "unat c < 256" using unsigned_less [of c, where ?'a = nat] by simp
    then have "v \<in> set lookup_neg \<union> set lookup_pos" using that length_lookup by (auto simp: words_of_def)
    then show ?thesis using bn bs by fastforce
  qed
  have "b = c" if v: "v \<in> words_of c" "distance cb word v = 0" for v c
  proof -
    obtain w where w: "w \<in> words_of b" "distance cb word w = 0" using at min [OF v(1)] v(2) by auto
    then have "w mod 1024 = v mod 1024" using v(2) distance_zero [OF assms(1)] by simp
    then have "int (unat b) = int (unat c)" using byte_words_inj words_in_table(2) w(1) v(1) by blast
    then have "unat b = unat c" by (simp only: of_nat_eq_iff)
    then show ?thesis by (simp only: word_unat_eq_iff)
  qed
  then show ?thesis using at min by blast
qed
text \<open>The search decides for a byte one of whose two words is nearest to the ten bits received, and at
  distance zero, when no erasure is recorded, for the only byte with that word.\<close>

theorem search_10b_nearest:
  assumes "counts_bits cb" and "search_10b cb word = (b, k)"
  shows "(\<exists>v \<in> words_of b. distance cb word v = k) \<and> (\<forall>c. \<forall>v \<in> words_of c. k \<le> distance cb word v) \<and>
    (\<forall>c. \<forall>v \<in> words_of c. distance cb word v = 0 \<longrightarrow> b = c)"
  by (rule search_10b_spec [OF assms])

section \<open>The calls of decode are safe\<close>

definition amsat_inv :: "amsat_duv_decoder \<Rightarrow> bool" where
  "amsat_inv d \<longleftrightarrow> 64 \<le> d_max_frame d \<and> length (d_8b_words d) = d_max_frame d \<and>
     length (d_erasures_indexes d) = d_max_frame d \<and>
     (d_state d = DECODING \<longrightarrow> d_bitstream_idx d \<le> length (d_bitstream d) \<and> d_word_cnt d < d_max_frame d \<and>
        d_erasure_cnt d \<le> d_word_cnt d)"

text \<open>The erasures among the first \<open>n\<close> words of a stream.\<close>

fun bad_words :: "(u16 \<Rightarrow> nat) \<Rightarrow> u8 list \<Rightarrow> nat \<Rightarrow> nat" where
  "bad_words cb bs 0 = 0"
| "bad_words cb bs (Suc n) = of_bool (snd (search_10b cb (pack_10b bs)) \<noteq> 0) + bad_words cb (drop 10 bs) n"

text \<open>What a reported frame is: a block the Reed-Solomon decoder accepted or corrected, from a known spacecraft.\<close>

definition amsat_report :: "nat \<Rightarrow> decoder_status \<Rightarrow> bool" where
  "amsat_report n st \<longleftrightarrow> decode_success st \<and>
     (\<exists>received eras ret out pos. length received = n \<and> decode_rs_8 received eras (255 - int n) = (ret, out, pos) \<and>
        0 \<le> ret \<and> is_spacecraft_valid (out ! 0 AND 0x7) \<and> data st ''pdu'' = Some (Blob (take 64 out)) \<and>
        data st ''symbol_erasures'' = Some (U64 (ucast (of_nat (length eras) :: u32))) \<and>
        data st ''corrected_bits'' = Some (U64 (ucast (word_of_int ret :: u32))))"

lemma rs_chien_length:
  "length found < deg \<Longrightarrow> length (rs_chien C deg i k n reg found) \<le> deg"
  by (induction C deg i k n reg found rule: rs_chien.induct) (auto simp: Let_def)

lemma decode_rs_8_sizes:
  assumes "decode_rs_8 ws eras pad = (ret, out, pos)"
  shows "length out = length ws" "length pos \<le> 32"
proof -
  have c: "length (rs_correct C p lam om deg x bs) = length bs" for C p lam om deg x bs
    by (cases x) (simp add: rs_correct_def Let_def)
  have f: "length (fold (rs_correct C p lam om deg) xs bs) = length bs" for C p lam om deg xs bs
    by (induction xs arbitrary: bs) (simp_all add: c)
  show "length out = length ws"
    using assms by (auto simp: decode_rs_8_def decode_rs_def Let_def f split: if_splits)
  have g: "fold (\<lambda>i deg. if lam ! i \<noteq> m then i else deg) xs b \<le> 32" if "b \<le> 32" "set xs \<subseteq> {..32}"
    for lam :: "nat list" and m xs b
    using that by (induction xs arbitrary: b) auto
  have "rs_degree fixed_macros lam \<le> 32" for lam
    unfolding rs_degree_def by (rule g) (auto simp: fixed_macros_def)
  then show "length pos \<le> 32"
    using assms by (auto simp: decode_rs_8_def decode_rs_def Let_def split: if_splits)
qed

lemma amsat_rs_cases:
  assumes "64 \<le> length (d_8b_words d)" "length (d_erasures_indexes d) = length (d_8b_words d)" "d_erasure_cnt d \<le> length (d_8b_words d)"
  shows "(amsat_rs d = Inl Oob_write \<and> 32 < d_erasure_cnt d) \<or>
    (\<exists>ret out pos es. amsat_rs d = Inr (ret, d\<lparr>d_8b_words := out, d_erasures_indexes := es\<rparr>) \<and>
       length out = length (d_8b_words d) \<and> length es = length (d_8b_words d) \<and>
       decode_rs_8 (d_8b_words d) (take (d_erasure_cnt d) (d_erasures_indexes d)) (255 - int (d_max_frame d)) = (ret, out, pos))"
proof -
  obtain ret out pos where
    dec: "decode_rs_8 (d_8b_words d) (take (d_erasure_cnt d) (d_erasures_indexes d)) (255 - int (d_max_frame d)) = (ret, out, pos)"
    by (metis prod_cases3)
  note sz = decode_rs_8_sizes [OF dec]
  show ?thesis
  proof (cases "d_erasure_cnt d = 0")
    case True
    then have "amsat_rs d = Inr (ret, d\<lparr>d_8b_words := out, d_erasures_indexes := d_erasures_indexes d\<rparr>)"
      using dec by (simp add: amsat_rs_def)
    then show ?thesis using dec sz assms by blast
  next
    case False
    let ?es = "map int pos @ drop (length pos) (d_erasures_indexes d)"
    have "length ?es = length (d_8b_words d)" using sz assms by simp
    moreover have "amsat_rs d = Inl Oob_write \<and> 32 < d_erasure_cnt d \<or>
        amsat_rs d = Inr (ret, d\<lparr>d_8b_words := out, d_erasures_indexes := ?es\<rparr>)"
      using False dec by (simp add: amsat_rs_def Let_def)
    ultimately show ?thesis using dec sz by blast
  qed
qed

lemma amsat_frame_end_cases:
  assumes "64 \<le> d_max_frame d" "length (d_8b_words d) = d_max_frame d" "length (d_erasures_indexes d) = d_max_frame d" "d_erasure_cnt d \<le> d_max_frame d"
  shows "(case amsat_frame_end now i d status of
      Inl e \<Rightarrow> e = Oob_write \<and> 32 < d_erasure_cnt d \<or> e = Bad_erase \<and> length (d_bitstream d) < (i + 1) * 10 + 1
    | Inr (r, d', st) \<Rightarrow> amsat_inv d' \<and> d_max_frame d' = d_max_frame d \<and> d_state d' = SEARCH_SYNC \<and> consumed st = consumed status \<and>
        (if r then amsat_report (d_max_frame d) st else st = status))"
proof -
  let ?d = "d\<lparr>d_data_reg := 0, d_state := SEARCH_SYNC\<rparr>"
  consider "amsat_rs ?d = Inl Oob_write" "32 < d_erasure_cnt d"
    | ret out pos es where "amsat_rs ?d = Inr (ret, ?d\<lparr>d_8b_words := out, d_erasures_indexes := es\<rparr>)"
       "length out = d_max_frame d" "length es = d_max_frame d"
       "decode_rs_8 (d_8b_words d) (take (d_erasure_cnt d) (d_erasures_indexes d)) (255 - int (d_max_frame d)) = (ret, out, pos)"
    using amsat_rs_cases [of ?d] assms by auto
  then show ?thesis
  proof cases
    case 1
    then show ?thesis by (simp add: amsat_frame_end_def Let_def)
  next
    case 2
    show ?thesis
    proof (cases "-1 < ret \<and> is_spacecraft_valid (out ! 0 AND 0x7)")
      case False
      then have "amsat_frame_end now i d status = Inr (False, ?d\<lparr>d_8b_words := out, d_erasures_indexes := es\<rparr>, status)"
        using 2(1) by (auto simp: amsat_frame_end_def Let_def)
      then show ?thesis using 2 assms by (simp add: amsat_inv_def)
    next
      case True
      let ?e = "?d\<lparr>d_8b_words := out, d_erasures_indexes := es\<rparr>"
      define m where "m = add_time_iso8601 now (add_corrected_bits (add_symbol_erasures
        (add_pdu (add_decoder (data status) (Some ?e)) out amsat_fox_duv_frame_size)
        (of_nat (d_erasure_cnt d))) (word_of_int ret))"
      have e: "amsat_frame_end now i d status = res_bind (erase_front ((i + 1) * 10 + 1) 0 (d_bitstream d))
          (\<lambda>bs. Inr (True, ?e\<lparr>d_bitstream := bs\<rparr>, status\<lparr>decode_success := True, data := m\<rparr>))"
        using 2(1,2) True assms by (simp add: amsat_frame_end_def Let_def m_def amsat_fox_duv_frame_size_def)
      have "m ''pdu'' = Some (Blob (take 64 out))" "m ''symbol_erasures'' = Some (U64 (ucast (of_nat (d_erasure_cnt d) :: u32)))"
        "m ''corrected_bits'' = Some (U64 (ucast (word_of_int ret :: u32)))"
        by (simp_all add: m_def add_time_iso8601_def add_corrected_bits_def add_symbol_erasures_def add_pdu_def dict_put_def
          amsat_fox_duv_frame_size_def)
      moreover have "length (take (d_erasure_cnt d) (d_erasures_indexes d)) = d_erasure_cnt d" using assms by simp
      ultimately have "amsat_report (d_max_frame d) (status\<lparr>decode_success := True, data := m\<rparr>)"
        using 2(4) True assms(2) unfolding amsat_report_def
        by (intro conjI exI [of _ "d_8b_words d"] exI [of _ "take (d_erasure_cnt d) (d_erasures_indexes d)"] exI [of _ ret] exI [of _ out] exI [of _ pos])
           simp_all
      then show ?thesis using e 2(2,3) assms by (simp add: erase_front_def amsat_inv_def)
    qed
  qed
qed

lemma process_10b_ok:
  assumes "p < length (d_8b_words d)" "d_erasure_cnt d < length (d_erasures_indexes d)" and s: "search_10b cb w = (b, k)"
  shows "\<exists>es. length es = length (d_erasures_indexes d) \<and>
    process_10b cb w p d = Inr (d\<lparr>d_erasure_cnt := d_erasure_cnt d + of_bool (k \<noteq> 0),
      d_8b_words := (d_8b_words d)[p := b], d_erasures_indexes := es\<rparr>)"
proof (cases "k = 0")
  case True
  then have "process_10b cb w p d = Inr (d\<lparr>d_erasure_cnt := d_erasure_cnt d + of_bool (k \<noteq> 0),
      d_8b_words := (d_8b_words d)[p := b], d_erasures_indexes := d_erasures_indexes d\<rparr>)"
    using assms by (simp add: process_10b_def buf_simps)
  then show ?thesis by blast
next
  case False
  then have "process_10b cb w p d = Inr (d\<lparr>d_erasure_cnt := d_erasure_cnt d + of_bool (k \<noteq> 0),
      d_8b_words := (d_8b_words d)[p := b], d_erasures_indexes := (d_erasures_indexes d)[d_erasure_cnt d := int p]\<rparr>)"
    using assms by (simp add: process_10b_def buf_simps)
  then show ?thesis by (intro exI) (rule conjI, simp_all)
qed

lemma amsat_words_cases:
  assumes "amsat_inv d" "d_state d = DECODING" "d_bitstream_idx d + 10 * n \<le> length (d_bitstream d)" "10 * i \<le> d_bitstream_idx d"
  shows "(case amsat_words cb now i n d status of
      Inl e \<Rightarrow> e = Oob_write \<and> 32 < d_erasure_cnt d + bad_words cb (drop (d_bitstream_idx d) (d_bitstream d)) (min n (d_max_frame d - d_word_cnt d)) \<or>
        e = Bad_erase \<and> d_bitstream_idx d = 10 * i
    | Inr (r, d', st) \<Rightarrow> amsat_inv d' \<and> d_max_frame d' = d_max_frame d \<and> consumed st = consumed status \<and>
        (r = None \<longrightarrow> st = status) \<and>
        (r = Some False \<longrightarrow> d_state d' = SEARCH_SYNC \<and> st = status) \<and> (r = Some True \<longrightarrow> amsat_report (d_max_frame d) st))"
  using assms
proof (induction n arbitrary: i d)
  case 0
  then show ?case by simp
next
  case (Suc n)
  let ?w = "pack_10b_word (d_bitstream_idx d) d"
  obtain b k where s: "search_10b cb ?w = (b, k)" by fastforce
  have "d_word_cnt d < length (d_8b_words d)" "d_erasure_cnt d < length (d_erasures_indexes d)"
    using Suc.prems by (simp_all add: amsat_inv_def)
  from process_10b_ok [OF this s] obtain es where es: "length es = length (d_erasures_indexes d)"
    "process_10b cb ?w (d_word_cnt d) d = Inr (d\<lparr>d_erasure_cnt := d_erasure_cnt d + of_bool (k \<noteq> 0),
      d_8b_words := (d_8b_words d)[d_word_cnt d := b], d_erasures_indexes := es\<rparr>)" by blast
  define d1 where "d1 = d\<lparr>d_erasure_cnt := d_erasure_cnt d + of_bool (k \<noteq> 0),
      d_8b_words := (d_8b_words d)[d_word_cnt d := b], d_erasures_indexes := es, d_word_cnt := d_word_cnt d + 1\<rparr>"
  have w: "amsat_words cb now i (Suc n) d status =
      (if d_word_cnt d1 = d_max_frame d1
       then res_bind (amsat_frame_end now i d1 status) (\<lambda>(r, d, status). Inr (Some r, d, status))
       else amsat_words cb now (i + 1) n (d1\<lparr>d_bitstream_idx := d_bitstream_idx d1 + 10\<rparr>) status)"
    by (simp add: es(2) d1_def)
  have bad: "snd (search_10b cb (pack_10b (drop (d_bitstream_idx d) (d_bitstream d)))) = k"
    using s by (simp add: pack_10b_word_def)
  have ec: "d_erasure_cnt d1 \<le> d_word_cnt d1" using Suc.prems by (simp add: d1_def amsat_inv_def)
  show ?case
  proof (cases "d_word_cnt d1 = d_max_frame d1")
    case True
    then have m: "min (Suc n) (d_max_frame d - d_word_cnt d) = Suc 0" by (simp add: d1_def)
    have "(case amsat_frame_end now i d1 status of
      Inl e \<Rightarrow> e = Oob_write \<and> 32 < d_erasure_cnt d1 \<or> e = Bad_erase \<and> length (d_bitstream d1) < (i + 1) * 10 + 1
    | Inr (r, d', st) \<Rightarrow> amsat_inv d' \<and> d_max_frame d' = d_max_frame d1 \<and> d_state d' = SEARCH_SYNC \<and> consumed st = consumed status \<and>
        (if r then amsat_report (d_max_frame d1) st else st = status))"
      using Suc.prems True es(1) ec by (intro amsat_frame_end_cases) (simp_all add: d1_def amsat_inv_def)
    then show ?thesis using w True m bad Suc.prems(3,4)
      by (auto simp: d1_def split: sum.splits if_splits)
  next
    case False
    let ?d2 = "d1\<lparr>d_bitstream_idx := d_bitstream_idx d1 + 10\<rparr>"
    have "amsat_inv ?d2" "d_state ?d2 = DECODING" "d_bitstream_idx ?d2 + 10 * n \<le> length (d_bitstream ?d2)" "10 * (i + 1) \<le> d_bitstream_idx ?d2"
      using Suc.prems False es(1) ec by (simp_all add: d1_def amsat_inv_def)
    note ih = Suc.IH [OF this, unfolded w [symmetric]]
    have m: "min (Suc n) (d_max_frame d - d_word_cnt d) = Suc (min n (d_max_frame d - (d_word_cnt d + 1)))"
      using Suc.prems(1,2) by (auto simp: amsat_inv_def min_def)
    show ?thesis using ih w False bad unfolding m bad_words.simps
      by (auto simp: d1_def add.commute split: sum.splits)
  qed
qed

lemma amsat_scan_frame:
  "amsat_scan cb i bs d = (r, d') \<Longrightarrow>
     (\<forall>j. r = Some j \<longrightarrow> i \<le> j \<and> j < i + length bs) \<and> d_bitstream d' = d_bitstream d \<and> d_8b_words d' = d_8b_words d \<and>
     d_erasures_indexes d' = d_erasures_indexes d \<and> d_max_frame d' = d_max_frame d \<and> d_state d' = d_state d"
proof (induction bs arbitrary: i d)
  case (Cons b bs)
  define d1 where "d1 = amsat_shift cb b d"
  have f: "d_bitstream d1 = d_bitstream d" "d_8b_words d1 = d_8b_words d" "d_erasures_indexes d1 = d_erasures_indexes d"
    "d_max_frame d1 = d_max_frame d" "d_state d1 = d_state d"
    unfolding d1_def amsat_shift_def Let_def by simp_all
  have e: "amsat_scan cb i (b # bs) d = (if d_nwrong d1 = 0 \<or> d_nwrong_neg d1 = 0 then (Some i, d1) else amsat_scan cb (i + 1) bs d1)"
    unfolding amsat_scan.simps Let_def d1_def [symmetric] ..
  show ?case
  proof (cases "d_nwrong d1 = 0 \<or> d_nwrong_neg d1 = 0")
    case True
    then have "(r, d') = (Some i, d1)" using Cons.prems unfolding e by (simp only: if_True)
    then show ?thesis by (simp add: f)
  next
    case False
    then have "amsat_scan cb (i + 1) bs d1 = (r, d')" using Cons.prems unfolding e by (simp only: if_False)
    from Cons.IH [OF this] show ?thesis by (auto simp: f)
  qed
qed simp

lemma amsat_search_sync_ok:
  assumes "amsat_inv d" "11 \<le> length (d_bitstream d)" "d_state d = SEARCH_SYNC"
  shows "\<exists>d'. amsat_search_sync cb d = Inr d' \<and> amsat_inv d' \<and> d_max_frame d' = d_max_frame d"
proof -
  obtain r d1 where s: "amsat_scan cb 0 (d_bitstream d) d = (r, d1)" by fastforce
  note f = amsat_scan_frame [OF s]
  show ?thesis
  proof (cases r)
    case None
    then show ?thesis using s f assms by (simp add: amsat_search_sync_def amsat_inv_def)
  next
    case (Some i)
    then have i: "i < length (d_bitstream d)" using f by simp
    show ?thesis
    proof (cases "10 < i")
      case True
      then have "amsat_search_sync cb d = Inr (d1\<lparr>d_erasure_cnt := 0, d_word_cnt := 0, d_state := DECODING,
          d_bitstream_idx := 9, d_bitstream := drop (i + 1 - 9) (d_bitstream d)\<rparr>)"
        using Some i s f by (simp add: amsat_search_sync_def erase_front_def Let_def)
      then show ?thesis using True i f assms by (simp add: amsat_inv_def)
    next
      case False
      then have "amsat_search_sync cb d = Inr (d1\<lparr>d_erasure_cnt := 0, d_word_cnt := 0, d_state := DECODING,
          d_bitstream_idx := i, d_bitstream := drop 1 (d_bitstream d)\<rparr>)"
        using Some i s f by (simp add: amsat_search_sync_def erase_front_def Let_def)
      then show ?thesis using i f assms by (auto simp: amsat_inv_def)
    qed
  qed
qed

text \<open>The words of a call, and the erasures it can end a frame with.\<close>

definition amsat_erasures :: "(u16 \<Rightarrow> nat) \<Rightarrow> amsat_duv_decoder \<Rightarrow> nat" where
  "amsat_erasures cb d = d_erasure_cnt d + bad_words cb (drop (d_bitstream_idx d) (d_bitstream d))
     (min ((length (d_bitstream d) - d_bitstream_idx d) div 10) (d_max_frame d - d_word_cnt d))"

lemma amsat_iteration_cases:
  assumes "amsat_inv d"
  shows "(case amsat_iteration cb now (d, status) of
      Inl e \<Rightarrow> d_state d = DECODING \<and> (e = Oob_write \<and> 32 < amsat_erasures cb d \<or> e = Bad_erase \<and> d_bitstream_idx d = 0)
    | Inr (Continue (d', st)) \<Rightarrow> amsat_inv d' \<and> d_max_frame d' = d_max_frame d \<and> d_state d' = SEARCH_SYNC \<and> st = status
    | Inr (Return (d', st) _) \<Rightarrow> amsat_inv d' \<and> d_max_frame d' = d_max_frame d \<and> consumed st = consumed status \<and>
        (st = status \<or> amsat_report (d_max_frame d) st))"
proof (cases "length (d_bitstream d) < 11")
  case True
  then show ?thesis using assms by (simp add: amsat_iteration_def)
next
  case long: False
  show ?thesis
  proof (cases "d_state d")
    case SEARCH_SYNC
    with amsat_search_sync_ok [OF assms, of cb] long obtain d' where
      "amsat_search_sync cb d = Inr d'" "amsat_inv d'" "d_max_frame d' = d_max_frame d" by auto
    then show ?thesis using SEARCH_SYNC long by (simp add: amsat_iteration_def)
  next
    case DECODING
    define n where "n = (length (d_bitstream d) - d_bitstream_idx d) div 10"
    have i: "d_bitstream_idx d \<le> length (d_bitstream d)" using assms DECODING by (simp add: amsat_inv_def)
    then have n: "d_bitstream_idx d + 10 * n \<le> length (d_bitstream d)" unfolding n_def by linarith
    show ?thesis
    proof (cases "length (d_bitstream d) - d_bitstream_idx d < 10")
      case True
      then show ?thesis using DECODING i assms by (simp add: amsat_iteration_def)
    next
      case False
      have it: "amsat_iteration cb now (d, status) = res_bind (amsat_words cb now 0 n d status) (\<lambda>(r, d, status).
              if r = Some False then Inr (Continue (d, status)) else Inr (Return (d, status) ()))"
        using False DECODING i long by (simp add: amsat_iteration_def n_def)
      show ?thesis
      proof (cases "amsat_words cb now 0 n d status")
        case (Inl e)
        then show ?thesis using amsat_words_cases [OF assms DECODING n, where i = 0 and cb = cb and now = now and status = status] it DECODING
          by (simp add: amsat_erasures_def n_def)
      next
        case (Inr x)
        obtain r d' st where x: "x = (r, d', st)" by (cases x)
        have "amsat_inv d'" "d_max_frame d' = d_max_frame d" "consumed st = consumed status" "r = None \<longrightarrow> st = status"
          "r = Some False \<longrightarrow> d_state d' = SEARCH_SYNC \<and> st = status" "r = Some True \<longrightarrow> amsat_report (d_max_frame d) st"
          using amsat_words_cases [OF assms DECODING n, where i = 0 and cb = cb and now = now and status = status] Inr x by simp_all
        then show ?thesis using it Inr x by (cases r; cases "r = Some False") auto
      qed
    qed
  qed
qed

text \<open>C37: From its invariant, a call of the AMSAT decoder ends, keeps the invariant, consumes its whole input and
  reports only frames of a known spacecraft that the Reed-Solomon decoder accepted or corrected, with
  the counts of erasures and corrections. It can fail in two ways only, both while it decodes a
  frame: when more than 32 of the words are erasures, which overflow an array of the Reed-Solomon decoder, and
  when the frame starts at the first item of the stream, which makes it erase one item too many.\<close>

theorem amsat_decode_safe:
  assumes "amsat_inv d"
  shows "(case amsat_decode cb now d inp of
      None \<Rightarrow> False
    | Some (Inl e) \<Rightarrow> d_state d = DECODING \<and>
        (e = Oob_write \<and> 32 < amsat_erasures cb (d\<lparr>d_bitstream := d_bitstream d @ inp\<rparr>) \<or> e = Bad_erase \<and> d_bitstream_idx d = 0)
    | Some (Inr (d', st)) \<Rightarrow> amsat_inv d' \<and> d_max_frame d' = d_max_frame d \<and> consumed st = int (length inp) \<and>
        (decode_success st \<longrightarrow> amsat_report (d_max_frame d) st))"
proof -
  let ?d = "d\<lparr>d_bitstream := d_bitstream d @ inp\<rparr>"
  let ?s = "status_new\<lparr>consumed := int (length inp)\<rparr>"
  have inv: "amsat_inv ?d" using assms by (auto simp: amsat_inv_def)
  note it = amsat_iteration_cases [OF inv, where cb = cb and now = now and status = ?s]
  have dec: "amsat_decode cb now d inp = map_option (\<lambda>r. res_bind r (\<lambda>(s, _). Inr s)) (run_loop (amsat_iteration cb now) (Suc (Suc 0)) (?d, ?s))"
    by (simp add: amsat_decode_def Let_def numeral_2_eq_2)
  show ?thesis
  proof (cases "amsat_iteration cb now (?d, ?s)")
    case (Inl e)
    then show ?thesis using it dec by simp
  next
    case (Inr x)
    show ?thesis
    proof (cases x)
      case (Return y u)
      then show ?thesis using it dec Inr by (cases y) (auto simp: status_new_def)
    next
      case (Continue y)
      obtain d1 st where y: "y = (d1, st)" by (cases y)
      have c: "amsat_inv d1" "d_max_frame d1 = d_max_frame d" "d_state d1 = SEARCH_SYNC" "st = ?s"
        using it Inr Continue y by simp_all
      have ret: "\<exists>d2. amsat_iteration cb now (d1, st) = Inr (Return (d2, st) ()) \<and> amsat_inv d2 \<and> d_max_frame d2 = d_max_frame d"
      proof (cases "length (d_bitstream d1) < 11")
        case True
        then show ?thesis using c by (simp add: amsat_iteration_def)
      next
        case False
        with amsat_search_sync_ok [OF c(1) _ c(3), of cb] c show ?thesis by (auto simp: amsat_iteration_def)
      qed
      then show ?thesis using dec Inr Continue y c(4) by (auto simp: status_new_def)
    qed
  qed
qed

section \<open>A frame on the line\<close>

text \<open>A word of the table as ten items, most significant bit first.\<close>

definition word_bits :: "int \<Rightarrow> u8 list" where
  "word_bits v = map (\<lambda>k. of_bool (bit v (9 - k))) [0..<10]"

lemma word_bits_list:
  "word_bits v = [of_bool (bit v 9), of_bool (bit v 8), of_bool (bit v 7), of_bool (bit v 6), of_bool (bit v 5),
     of_bool (bit v 4), of_bool (bit v 3), of_bool (bit v 2), of_bool (bit v 1), of_bool (bit v 0)]"
  by (simp add: word_bits_def upt_rec)

lemma length_word_bits [simp]: "length (word_bits v) = 10"
  by (simp add: word_bits_def)

lemma pack_word_bits: "pack_10b (word_bits v @ r) = take_bit 10 (word_of_int v)"
proof -
  have b: "ucast (of_bool p :: u8) AND 0x1 = (of_bool p :: u16)" for p by (cases p) simp_all
  have i: "(i :: nat) < 16 \<Longrightarrow> i \<in> {0, 1, 2, 3, 4, 5, 6, 7, 8, 9, 10, 11, 12, 13, 14, 15}" for i by (auto simp: numeral_eq_Suc less_Suc_eq)
  let ?p = "push_bit 9 (of_bool (bit v 9)) OR push_bit 8 (of_bool (bit v 8)) OR push_bit 7 (of_bool (bit v 7)) OR
       push_bit 6 (of_bool (bit v 6)) OR push_bit 5 (of_bool (bit v 5)) OR push_bit 4 (of_bool (bit v 4)) OR
       push_bit 3 (of_bool (bit v 3)) OR push_bit 2 (of_bool (bit v 2)) OR push_bit 1 (of_bool (bit v 1)) OR
       of_bool (bit v 0) :: u16"
  have "pack_10b (word_bits v @ r) = ?p"
    unfolding pack_10b_def word_bits_list append_Cons by (simp only: nth_Cons_numeral nth_Cons_0 nth_Cons_Suc One_nat_def pred_numeral_simps numeral_One b
      Num.BitM.simps) (simp add: b)
  also have "?p = take_bit 10 (word_of_int v)"
  proof (rule bit_word_eqI)
    fix i :: nat
    assume "i < LENGTH(16)"
    then have "i \<in> {0, 1, 2, 3, 4, 5, 6, 7, 8, 9, 10, 11, 12, 13, 14, 15}" using i by simp
    then show "bit ?p i \<longleftrightarrow> bit (take_bit 10 (word_of_int v) :: u16) i"
      by (elim insertE emptyE; simp add: bit_simps)
  qed
  finally show ?thesis .
qed

lemma search_exact:
  assumes "counts_bits cb" "v \<in> words_of b"
  shows "search_10b cb (pack_10b (word_bits v @ r)) = (b, 0)"
proof -
  let ?w = "pack_10b (word_bits v @ r)"
  have "uint ?w mod 1024 = v mod 1024"
    unfolding pack_word_bits unsigned_take_bit_eq uint_word_of_int by (simp add: take_bit_eq_mod mod_mod_cancel)
  then have z: "distance cb ?w v = 0" by (simp only: distance_zero [OF assms(1)])
  obtain b' k where s: "search_10b cb ?w = (b', k)" by fastforce
  note sp = search_10b_spec [OF assms(1) s]
  have "k \<le> distance cb ?w v" using sp assms(2) by blast
  moreover have "b' = b" using sp assms(2) z by blast
  ultimately show ?thesis using s z by simp
qed

lemma amsat_words_exact:
  assumes "counts_bits cb" "list_all2 (\<lambda>v b. v \<in> words_of b) vs bs" "bs \<noteq> []"
    and "drop (d_bitstream_idx d) (d_bitstream d) = concat (map word_bits vs) @ rest"
    and "d_word_cnt d + length bs = d_max_frame d" "length (d_8b_words d) = d_max_frame d" "d_erasure_cnt d = 0"
    and "length (d_erasures_indexes d) = d_max_frame d" "length bs \<le> n"
  shows "\<exists>d'. amsat_words cb now i n d status =
      res_bind (amsat_frame_end now (i + length bs - 1) d' status) (\<lambda>(r, d, status). Inr (Some r, d, status)) \<and>
    d_8b_words d' = take (d_word_cnt d) (d_8b_words d) @ bs \<and> d_erasure_cnt d' = 0 \<and> d_bitstream d' = d_bitstream d \<and>
    d_max_frame d' = d_max_frame d"
  using assms(2-)
proof (induction vs bs arbitrary: d i n rule: list_all2_induct)
  case (Cons v vs b bs)
  obtain k where n: "n = Suc k" using Cons.prems by (cases n) auto
  have w: "pack_10b_word (d_bitstream_idx d) d = pack_10b (word_bits v @ concat (map word_bits vs) @ rest)"
    using Cons.prems by (simp add: pack_10b_word_def)
  have s: "search_10b cb (pack_10b_word (d_bitstream_idx d) d) = (b, 0)"
    unfolding w by (rule search_exact [OF assms(1) Cons.hyps(1)])
  define d1 where "d1 = d\<lparr>d_8b_words := (d_8b_words d)[d_word_cnt d := b], d_word_cnt := d_word_cnt d + 1\<rparr>"
  have l: "d_word_cnt d < length (d_8b_words d)" using Cons.prems by simp
  have p: "process_10b cb (pack_10b_word (d_bitstream_idx d) d) (d_word_cnt d) d = Inr (d\<lparr>d_8b_words := (d_8b_words d)[d_word_cnt d := b]\<rparr>)"
    using s l by (simp add: process_10b_def buf_simps)
  have e: "amsat_words cb now i n d status =
      (if d_word_cnt d1 = d_max_frame d1
       then res_bind (amsat_frame_end now i d1 status) (\<lambda>(r, d, status). Inr (Some r, d, status))
       else amsat_words cb now (i + 1) k (d1\<lparr>d_bitstream_idx := d_bitstream_idx d1 + 10\<rparr>) status)"
    by (simp add: p n d1_def)
  have t: "take (d_word_cnt d1) (d_8b_words d1) = take (d_word_cnt d) (d_8b_words d) @ [b]"
    using l by (simp add: d1_def take_Suc_conv_app_nth take_update_swap list_update_append)
  show ?case
  proof (cases "bs = []")
    case True
    then have "d_word_cnt d1 = d_max_frame d1" "take (d_word_cnt d1) (d_8b_words d1) = d_8b_words d1"
      using Cons.prems by (simp_all add: d1_def)
    moreover have "amsat_words cb now i n d status = res_bind (amsat_frame_end now i d1 status) (\<lambda>(r, d, status). Inr (Some r, d, status))"
      unfolding e by (rule if_P) fact
    moreover have "i + length (b # bs) - 1 = i" using True by simp
    moreover have "d_8b_words d1 = take (d_word_cnt d) (d_8b_words d) @ b # bs" using t True calculation(2) by (simp only:)
    moreover have "d_erasure_cnt d1 = 0" "d_bitstream d1 = d_bitstream d" "d_max_frame d1 = d_max_frame d"
      using Cons.prems by (simp_all add: d1_def)
    ultimately show ?thesis by (intro exI [of _ d1] conjI) (simp_all only:)
  next
    case False
    let ?d2 = "d1\<lparr>d_bitstream_idx := d_bitstream_idx d1 + 10\<rparr>"
    have "drop (d_bitstream_idx d + 10) (d_bitstream d) = drop 10 (drop (d_bitstream_idx d) (d_bitstream d))"
      by (simp add: add.commute)
    then have "drop (d_bitstream_idx ?d2) (d_bitstream ?d2) = concat (map word_bits vs) @ rest"
      using Cons.prems by (simp add: d1_def)
    moreover have "d_word_cnt ?d2 + length bs = d_max_frame ?d2" "length (d_8b_words ?d2) = d_max_frame ?d2" "d_erasure_cnt ?d2 = 0"
      "length (d_erasures_indexes ?d2) = d_max_frame ?d2" "length bs \<le> k"
      using Cons.prems n by (simp_all add: d1_def)
    ultimately obtain d' where x: "amsat_words cb now (i + 1) k ?d2 status =
        res_bind (amsat_frame_end now (i + 1 + length bs - 1) d' status) (\<lambda>(r, d, status). Inr (Some r, d, status))"
      "d_8b_words d' = take (d_word_cnt ?d2) (d_8b_words ?d2) @ bs" "d_erasure_cnt d' = 0" "d_bitstream d' = d_bitstream ?d2"
      "d_max_frame d' = d_max_frame ?d2"
      using Cons.IH [OF False] by blast
    have "d_word_cnt d1 \<noteq> d_max_frame d1" using Cons.prems(3) False by (cases bs) (simp_all add: d1_def)
    then have "amsat_words cb now i n d status = amsat_words cb now (i + 1) k ?d2 status" unfolding e by (rule if_not_P)
    moreover have "i + 1 + length bs - 1 = i + length (b # bs) - 1" by simp
    moreover have "d_8b_words d' = take (d_word_cnt d) (d_8b_words d) @ b # bs" using x(2) t by simp
    moreover have "d_bitstream d' = d_bitstream d" "d_max_frame d' = d_max_frame d" using x(4,5) by (simp_all add: d1_def)
    ultimately show ?thesis using x(1,3) by (intro exI [of _ d'] conjI) (simp_all only:)
  qed
qed simp

text \<open>C36: A frame reaches the receiver: when the stream holds, from the index of a decoder in synchronisation on,
  one of the two words of every byte of a Reed-Solomon block, in either disparity, and the block names a
  known spacecraft, then the call that completes it reports its first 64 bytes with no erasure and no
  correction, and the search for the next frame starts.\<close>

theorem amsat_link_roundtrip:
  assumes "counts_bits cb" "amsat_inv d" "d_state d = DECODING" "d_word_cnt d = 0" "d_erasure_cnt d = 0" "1 \<le> d_bitstream_idx d"
    and "d_max_frame d + pad = 255" "length bytes + pad = 223" "is_spacecraft_valid (bytes ! 0 AND 0x7)"
    and "list_all2 (\<lambda>v b. v \<in> words_of b) vs (bytes @ encode_rs_8 bytes pad)"
    and "drop (d_bitstream_idx d) (d_bitstream d @ inp) = concat (map word_bits vs) @ rest"
  shows "\<exists>d' st. amsat_decode cb now d inp = Some (Inr (d', st)) \<and> d_state d' = SEARCH_SYNC \<and> decode_success st \<and>
    data st ''pdu'' = Some (Blob (take 64 (bytes @ encode_rs_8 bytes pad))) \<and>
    data st ''symbol_erasures'' = Some (U64 0) \<and> data st ''corrected_bits'' = Some (U64 0)"
proof -
  define block where "block = bytes @ encode_rs_8 bytes pad"
  define status where "status = status_new\<lparr>consumed := int (length inp)\<rparr>"
  let ?d = "d\<lparr>d_bitstream := d_bitstream d @ inp\<rparr>"
  have pad: "64 \<le> d_max_frame d" "pad \<le> 222" "length bytes = 223 - pad" "255 - int (d_max_frame d) = int pad"
    using assms(2,7,8) by (simp_all add: amsat_inv_def)
  note rs = rs_accepts [OF pad(2,3)]
  have blk: "length block = d_max_frame d" using rs pad assms(7,8) by (simp add: block_def)
  have bl: "length vs = d_max_frame d" using assms(10) blk list_all2_lengthD by (fastforce simp: block_def)
  have "length (concat (map word_bits vs)) = 10 * length vs" by (induction vs) simp_all
  then have sz: "d_bitstream_idx d + 10 * d_max_frame d \<le> length (d_bitstream d @ inp)"
    using arg_cong [OF assms(11), of length] bl pad(1) by simp
  define n where "n = (length (d_bitstream d @ inp) - d_bitstream_idx d) div 10"
  have n: "d_max_frame d \<le> n" using sz unfolding n_def by linarith
  obtain d' where d': "amsat_words cb now 0 n ?d status =
      res_bind (amsat_frame_end now (0 + length block - 1) d' status) (\<lambda>(r, d, status). Inr (Some r, d, status))"
    "d_8b_words d' = block" "d_erasure_cnt d' = 0" "d_bitstream d' = d_bitstream d @ inp" "d_max_frame d' = d_max_frame d"
  proof -
    have "list_all2 (\<lambda>v b. v \<in> words_of b) vs block" "block \<noteq> []" "length block \<le> n"
      using assms(10) blk pad(1) n by (auto simp: block_def)
    moreover have "drop (d_bitstream_idx ?d) (d_bitstream ?d) = concat (map word_bits vs) @ rest" using assms(11) by simp
    moreover have "d_word_cnt ?d + length block = d_max_frame ?d" "length (d_8b_words ?d) = d_max_frame ?d" "d_erasure_cnt ?d = 0"
      "length (d_erasures_indexes ?d) = d_max_frame ?d"
      using assms(2,4,5) blk by (simp_all add: amsat_inv_def)
    ultimately obtain d' where x: "amsat_words cb now 0 n ?d status =
        res_bind (amsat_frame_end now (0 + length block - 1) d' status) (\<lambda>(r, d, status). Inr (Some r, d, status))"
      "d_8b_words d' = take (d_word_cnt ?d) (d_8b_words ?d) @ block" "d_erasure_cnt d' = 0" "d_bitstream d' = d_bitstream ?d"
      "d_max_frame d' = d_max_frame ?d"
      using amsat_words_exact [OF assms(1)] by blast
    then show thesis using assms(4) by (intro that [OF x(1)]) simp_all
  qed
  have "decode_rs_8 (d_8b_words d') [] (255 - int (d_max_frame d')) = (0, block, [])"
    using rs unfolding d' block_def pad(4) by blast
  then have r: "amsat_rs (d'\<lparr>d_data_reg := 0, d_state := SEARCH_SYNC\<rparr>) = Inr (0, d'\<lparr>d_data_reg := 0, d_state := SEARCH_SYNC\<rparr>)"
    using d' by (simp add: amsat_rs_def)
  have id: "is_spacecraft_valid (block ! 0 AND 0x7)" using assms(9) pad assms(7) by (simp add: block_def nth_append)
  have "\<exists>d2 st. amsat_frame_end now (0 + length block - 1) d' status = Inr (True, d2, st) \<and> d_state d2 = SEARCH_SYNC \<and> decode_success st \<and>
    data st ''pdu'' = Some (Blob (take 64 block)) \<and> data st ''symbol_erasures'' = Some (U64 0) \<and> data st ''corrected_bits'' = Some (U64 0)"
    using r id d' blk pad sz assms(6)
    by (simp add: amsat_frame_end_def Let_def amsat_fox_duv_frame_size_def erase_front_def add_time_iso8601_def
      add_corrected_bits_def add_symbol_erasures_def add_pdu_def dict_put_def)
  then obtain d2 st where fe: "amsat_frame_end now (0 + length block - 1) d' status = Inr (True, d2, st)" "d_state d2 = SEARCH_SYNC" "decode_success st"
    "data st ''pdu'' = Some (Blob (take 64 block))" "data st ''symbol_erasures'' = Some (U64 0)" "data st ''corrected_bits'' = Some (U64 0)" by blast
  have "amsat_iteration cb now (?d, status) = Inr (Return (d2, st) ())"
    using d'(1) fe(1) sz pad assms(3) by (simp add: amsat_iteration_def n_def)
  then have "amsat_decode cb now d inp = Some (Inr (d2, st))"
    by (simp add: amsat_decode_def Let_def numeral_2_eq_2 status_def)
  then show ?thesis using fe unfolding block_def by blast
qed

section \<open>The constructor\<close>

lemma amsat_new_inv:
  assumes "64 \<le> max_frame_len" "length control_symbol = 10"
  shows "\<exists>d. amsat_make base junk junki control_symbol max_frame_len = Inr d \<and> amsat_inv d \<and> d_state d = SEARCH_SYNC \<and>
    d_max_frame d = max_frame_len \<and> d_control_symbol_neg d = NOT (d_control_symbol_pos d) AND 0x3FF"
proof -
  obtain p where "set_access_code control_symbol 0 = Some (p, NOT p AND 0x3FF)"
    using assms(2) by (auto simp: set_access_code_def Let_def)
  then show ?thesis
    using assms(1) by (simp add: amsat_make_def amsat_new_def amsat_inv_def decoder_new_def decoder_base.defs amsat_duv_decoder.defs)
qed

section \<open>Examples\<close>

text \<open>A decoder in synchronisation, with the frame length of the DUV telemetry.\<close>

definition example_amsat :: amsat_duv_decoder where
  "example_amsat = decoder_base.extend (fst (decoder_new ''amsat_duv'' ''1.0'' 1 96 0))
     (amsat_duv_decoder.fields 0 0xFA 0x305 0 0 0 0 0 0 (replicate 96 0) (replicate 96 0) DECODING 9 (replicate 9 0))"

lemma example_amsat_inv: "amsat_inv example_amsat"
  by (simp add: example_amsat_def amsat_inv_def decoder_new_def decoder_base.defs amsat_duv_decoder.defs)

lemma popcount_counts_bits: "counts_bits popcount"
  by (simp add: counts_bits_def)

theorem search_10b_nearest_witness: "search_10b popcount 0x274 = (0, 0)"
proof -
  obtain b k where s: "search_10b popcount 0x274 = (b, k)" by fastforce
  have w: "0x274 \<in> words_of 0" by (simp add: words_of_def lookup_neg_def)
  have "distance popcount 0x274 0x274 = 0" by (simp add: distance_def)
  with w search_10b_nearest [OF popcount_counts_bits s] have "b = 0" "k = 0" by force+
  then show ?thesis using s by simp
qed

theorem amsat_decode_safe_witness:
  "\<exists>d' st. amsat_decode popcount ''now'' example_amsat [1] = Some (Inr (d', st)) \<and> amsat_inv d' \<and> consumed st = 1"
proof -
  have "d_bitstream_idx example_amsat = 9" "d_erasure_cnt example_amsat = 0" "length (d_bitstream example_amsat) = 9"
    by (simp_all add: example_amsat_def decoder_new_def decoder_base.defs amsat_duv_decoder.defs)
  then have "\<not> 32 < amsat_erasures popcount (example_amsat\<lparr>d_bitstream := d_bitstream example_amsat @ [1]\<rparr>)"
    "d_bitstream_idx example_amsat \<noteq> 0" by (simp_all add: amsat_erasures_def)
  then show ?thesis
    using amsat_decode_safe [OF example_amsat_inv, where cb = popcount and now = "''now''" and inp = "[1]"] by (auto split: option.splits sum.splits)
qed

theorem amsat_link_roundtrip_witness:
  "\<exists>d' st. amsat_decode popcount ''now'' example_amsat
      (concat (map (\<lambda>b. word_bits (lookup_neg ! unat b)) ((1 # replicate 63 0) @ encode_rs_8 (1 # replicate 63 0) 159))) = Some (Inr (d', st)) \<and>
    decode_success st \<and> data st ''pdu'' = Some (Blob (1 # replicate 63 0))"
proof -
  let ?b = "1 # replicate 63 0 :: u8 list"
  let ?blk = "?b @ encode_rs_8 ?b 159"
  let ?vs = "map (\<lambda>b. lookup_neg ! unat b) ?blk"
  have f: "d_bitstream_idx example_amsat = 9" "d_erasure_cnt example_amsat = 0" "d_word_cnt example_amsat = 0"
    "d_bitstream example_amsat = replicate 9 0" "d_state example_amsat = DECODING" "d_max_frame example_amsat = 96"
    by (simp_all add: example_amsat_def decoder_new_def decoder_base.defs amsat_duv_decoder.defs)
  have "is_spacecraft_valid (?b ! 0 AND 0x7)" by (simp add: is_spacecraft_valid_def amsat_fox_spacecraft_id_def)
  moreover have "list_all2 (\<lambda>v b. v \<in> words_of b) ?vs ?blk" by (auto simp only: list_all2_map1 list.rel_refl words_of_def intro!: list.rel_refl)
  moreover have "concat (map (\<lambda>b. word_bits (lookup_neg ! unat b)) ?blk) = concat (map word_bits ?vs)" by (simp only: map_map o_def)
  moreover have "take 64 ?blk = ?b" by simp
  ultimately show ?thesis
    using amsat_link_roundtrip [OF popcount_counts_bits example_amsat_inv, where pad = 159 and bytes = ?b and vs = ?vs and
      inp = "concat (map (\<lambda>b. word_bits (lookup_neg ! unat b)) ?blk)" and rest = "[]" and now = "''now''"] f
    by (simp only:) auto
qed

end
