(* ===== verification/Lrpt_Sync.thy ===== *)
theory Lrpt_Sync
  imports Utils
begin

text \<open>
  \<open>lib/lrpt_sync_impl.cc\<close>: the block that finds the coded sync word in a stream of QPSK symbols, in one of four positions of
  the constellation, and collects the symbols of a frame. A symbol is a value of any type \<open>'c\<close>; what GNU Radio, VOLK and the C++
  library do with it is the record \<open>qpsk_ops\<close>.
\<close>

unbundle bit_operations_syntax

section \<open>The block\<close>

text \<open>
  What it calls: the decision of the QPSK constellation and the bit count of GNU Radio, the complex numbers of the
  C++ library (a constructor and the product that VOLK applies to a whole window).
\<close>

record 'c qpsk_ops =
  decision_maker :: "'c \<Rightarrow> u32"
  count_bits64 :: "u64 \<Rightarrow> nat"
  gr_complex :: "int \<Rightarrow> int \<Rightarrow> 'c"
  cmul :: "'c \<Rightarrow> 'c \<Rightarrow> 'c"

text \<open>The buffers of the rotated windows are overwritten before every use and are not part of the state.\<close>

record 'c lrpt_sync =
  d_thresh :: nat
  d_asm_coded :: u64
  d_asm_coded_len :: nat
  d_asm_coded_mask :: u64
  d_window :: nat
  d_coded_cadu_len :: nat
  d_frame_sync :: bool
  d_received :: nat
  d_rotate :: 'c
  d_shift_reg0 :: u64
  d_shift_reg1 :: u64
  d_shift_reg2 :: u64
  d_shift_reg3 :: u64
  d_coded_cadu :: "u8 list"

definition lrpt_sync_impl_new :: "bool \<Rightarrow> 'c qpsk_ops \<Rightarrow> (nat \<Rightarrow> u8) \<Rightarrow> nat \<Rightarrow> 'c lrpt_sync res" where
  "lrpt_sync_impl_new be C junk threshold =
     (let len = 1020 * 2 + 4 * 2 - 128 * 2
      in res_bind (buf_copy (map junk [0..<len]) 0 (mem64 be (htonll be 0xd49c24ff2686b))) (\<lambda>buf.
         Inr \<lparr>d_thresh = threshold, d_asm_coded = 0xd49c24ff2686b, d_asm_coded_len = 52, d_asm_coded_mask = push_bit 52 1 - 1,
              d_window = (72 + 8) div 2, d_coded_cadu_len = len, d_frame_sync = False, d_received = 8, d_rotate = gr_complex C 1 0,
              d_shift_reg0 = 0x0, d_shift_reg1 = 0x0, d_shift_reg2 = 0x0, d_shift_reg3 = 0x0, d_coded_cadu = buf\<rparr>))"

definition found_sync :: "'c qpsk_ops \<Rightarrow> 'c lrpt_sync \<Rightarrow> u64 \<Rightarrow> bool" where
  "found_sync C d reg \<longleftrightarrow> count_bits64 C ((reg XOR d_asm_coded d) AND d_asm_coded_mask d) \<le> d_thresh d"

section \<open>Searching\<close>

text \<open>What follows a sync word: the register becomes the beginning of the frame.\<close>

definition sync_at :: "bool \<Rightarrow> 'c \<Rightarrow> u64 \<Rightarrow> 'c lrpt_sync \<Rightarrow> (bool \<times> 'c lrpt_sync) res" where
  "sync_at be rot reg d =
     res_bind (buf_copy (d_coded_cadu d) 0 (mem64 be (htonll be reg))) (\<lambda>buf.
     Inr (True, d\<lparr>d_rotate := rot, d_frame_sync := True, d_coded_cadu := buf\<rparr>))"

text \<open>One symbol, tried in the four positions of the constellation.\<close>

definition lrpt_symbol :: "bool \<Rightarrow> 'c qpsk_ops \<Rightarrow> 'c \<Rightarrow> 'c lrpt_sync \<Rightarrow> (bool \<times> 'c lrpt_sync) res" where
  "lrpt_symbol be C x d =
     (let d0 = d\<lparr>d_shift_reg0 := push_bit 2 (d_shift_reg0 d) OR ucast (decision_maker C x)\<rparr>
      in if found_sync C d0 (d_shift_reg0 d0) then sync_at be (gr_complex C 1 0) (d_shift_reg0 d0) d0
      else let d1 = d0\<lparr>d_shift_reg1 := push_bit 2 (d_shift_reg1 d0) OR ucast (decision_maker C (cmul C x (gr_complex C 0 1)))\<rparr>
      in if found_sync C d1 (d_shift_reg1 d1) then sync_at be (gr_complex C 0 1) (d_shift_reg1 d1) d1
      else let d2 = d1\<lparr>d_shift_reg2 := push_bit 2 (d_shift_reg2 d1) OR ucast (decision_maker C (cmul C x (gr_complex C (- 1) 0)))\<rparr>
      in if found_sync C d2 (d_shift_reg2 d2) then sync_at be (gr_complex C (- 1) 0) (d_shift_reg2 d2) d2
      else let d3 = d2\<lparr>d_shift_reg3 := push_bit 2 (d_shift_reg3 d2) OR ucast (decision_maker C (cmul C x (gr_complex C 0 (- 1))))\<rparr>
      in if found_sync C d3 (d_shift_reg3 d3) then sync_at be (gr_complex C 0 (- 1)) (d_shift_reg3 d3) d3
      else Inr (False, d3))"

fun no_sync_window :: "bool \<Rightarrow> 'c qpsk_ops \<Rightarrow> nat \<Rightarrow> 'c list \<Rightarrow> 'c lrpt_sync \<Rightarrow> (nat option \<times> 'c lrpt_sync) res" where
  "no_sync_window be C j [] d = Inr (None, d)"
| "no_sync_window be C j (x # xs) d =
     res_bind (lrpt_symbol be C x d) (\<lambda>(found, d).
     if found then Inr (Some (j + 1), d) else no_sync_window be C (j + 1) xs d)"

fun no_sync_windows :: "bool \<Rightarrow> 'c qpsk_ops \<Rightarrow> nat \<Rightarrow> nat \<Rightarrow> 'c list \<Rightarrow> 'c lrpt_sync \<Rightarrow> (nat option \<times> 'c lrpt_sync) res" where
  "no_sync_windows be C i 0 inp d = Inr (None, d)"
| "no_sync_windows be C i (Suc m) inp d =
     res_bind (no_sync_window be C (i * d_window d) (take (d_window d) inp) d) (\<lambda>(r, d).
     case r of
       Some n \<Rightarrow> Inr (Some n, d)
     | None \<Rightarrow> no_sync_windows be C (i + 1) m (drop (d_window d) inp) d)"

text \<open>The number of items consumed and the new state.\<close>

definition work_no_sync :: "bool \<Rightarrow> 'c qpsk_ops \<Rightarrow> 'c list \<Rightarrow> 'c lrpt_sync \<Rightarrow> (nat \<times> 'c lrpt_sync) res" where
  "work_no_sync be C inp d =
     res_bind (no_sync_windows be C 0 (length inp div d_window d) inp d) (\<lambda>(r, d).
     Inr (case r of Some n \<Rightarrow> n | None \<Rightarrow> length inp, d))"

section \<open>Receiving\<close>

definition symbols_byte :: "'c qpsk_ops \<Rightarrow> 'c \<Rightarrow> 'c \<Rightarrow> 'c \<Rightarrow> 'c \<Rightarrow> u8" where
  "symbols_byte C x0 x1 x2 x3 =
     (let b = ucast (push_bit 6 (decision_maker C x0)) :: u8;
          b = b OR ucast (push_bit 4 (decision_maker C x1));
          b = b OR ucast (push_bit 2 (decision_maker C x2))
      in b OR ucast (decision_maker C x3))"

text \<open>A window of corrected symbols; with the last byte of a frame the frame is published.\<close>

fun sync_window :: "'c qpsk_ops \<Rightarrow> nat \<Rightarrow> 'c list \<Rightarrow> 'c lrpt_sync \<Rightarrow> ((nat \<times> u8 list) option \<times> 'c lrpt_sync) res" where
  "sync_window C j [] d = Inr (None, d)"
| "sync_window C j (x0 # x1 # x2 # x3 # xs) d =
     res_bind (buf_set (d_coded_cadu d) (d_received d) (symbols_byte C x0 x1 x2 x3)) (\<lambda>buf.
     let d = d\<lparr>d_coded_cadu := buf, d_received := d_received d + 1\<rparr>
     in if d_received d = d_coded_cadu_len d
        then Inr (Some (j + 4, take (d_coded_cadu_len d) (d_coded_cadu d)), d\<lparr>d_received := 8, d_frame_sync := False\<rparr>)
        else sync_window C (j + 4) xs d)"
| "sync_window C j xs d = Inl Oob_read"

fun sync_windows :: "'c qpsk_ops \<Rightarrow> nat \<Rightarrow> nat \<Rightarrow> 'c list \<Rightarrow> 'c lrpt_sync \<Rightarrow> ((nat \<times> u8 list) option \<times> 'c lrpt_sync) res" where
  "sync_windows C i 0 inp d = Inr (None, d)"
| "sync_windows C i (Suc m) inp d =
     res_bind (sync_window C (i * d_window d) (map (\<lambda>x. cmul C x (d_rotate d)) (take (d_window d) inp)) d) (\<lambda>(r, d).
     case r of
       Some p \<Rightarrow> Inr (Some p, d)
     | None \<Rightarrow> sync_windows C (i + 1) m (drop (d_window d) inp) d)"

definition work_sync :: "'c qpsk_ops \<Rightarrow> 'c list \<Rightarrow> 'c lrpt_sync \<Rightarrow> (nat \<times> u8 list list \<times> 'c lrpt_sync) res" where
  "work_sync C inp d =
     res_bind (sync_windows C 0 (length inp div d_window d) inp d) (\<lambda>(r, d).
     Inr (case r of Some (n, cadu) \<Rightarrow> (n, [cadu], d) | None \<Rightarrow> (length inp, [], d)))"

definition lrpt_sync_work :: "bool \<Rightarrow> 'c qpsk_ops \<Rightarrow> 'c list \<Rightarrow> 'c lrpt_sync \<Rightarrow> (nat \<times> u8 list list \<times> 'c lrpt_sync) res" where
  "lrpt_sync_work be C inp d =
     (if \<not> d_frame_sync d then res_bind (work_no_sync be C inp d) (\<lambda>(n, d). Inr (n, [], d))
      else work_sync C inp d)"

section \<open>The search as a function of the symbols\<close>

text \<open>The four positions of the constellation, and their registers after a list of symbols.\<close>

definition turn :: "'c qpsk_ops \<Rightarrow> nat \<Rightarrow> 'c" where
  "turn C q = [gr_complex C 1 0, gr_complex C 0 1, gr_complex C (- 1) 0, gr_complex C 0 (- 1)] ! q"

definition turned :: "'c qpsk_ops \<Rightarrow> nat \<Rightarrow> 'c \<Rightarrow> 'c" where
  "turned C q x = (if q = 0 then x else cmul C x (turn C q))"

definition reg_in :: "'c qpsk_ops \<Rightarrow> nat \<Rightarrow> 'c \<Rightarrow> u64 \<Rightarrow> u64" where
  "reg_in C q x r = push_bit 2 r OR ucast (decision_maker C (turned C q x))"

definition regs_of :: "'c lrpt_sync \<Rightarrow> nat \<Rightarrow> u64" where
  "regs_of d q = [d_shift_reg0 d, d_shift_reg1 d, d_shift_reg2 d, d_shift_reg3 d] ! q"

definition set_regs :: "(nat \<Rightarrow> u64) \<Rightarrow> 'c lrpt_sync \<Rightarrow> 'c lrpt_sync" where
  "set_regs rs d = d\<lparr>d_shift_reg0 := rs 0, d_shift_reg1 := rs 1, d_shift_reg2 := rs 2, d_shift_reg3 := rs 3\<rparr>"

definition fed_regs :: "'c qpsk_ops \<Rightarrow> 'c list \<Rightarrow> (nat \<Rightarrow> u64) \<Rightarrow> nat \<Rightarrow> u64" where
  "fed_regs C xs rs q = fold (reg_in C q) xs (rs q)"

text \<open>The first symbol and the first position with a register that \<open>p\<close> accepts.\<close>

fun first_sync :: "'c qpsk_ops \<Rightarrow> (u64 \<Rightarrow> bool) \<Rightarrow> (nat \<Rightarrow> u64) \<Rightarrow> 'c list \<Rightarrow> (nat \<times> nat) option" where
  "first_sync C p rs [] = None"
| "first_sync C p rs (x # xs) =
     (let rs' = fed_regs C [x] rs
      in case find (\<lambda>q. p (rs' q)) [0, 1, 2, 3] of
           Some q \<Rightarrow> Some (1, q)
         | None \<Rightarrow> map_option (\<lambda>(n, q). (n + 1, q)) (first_sync C p rs' xs))"

definition lrpt_sync_ok :: "'c lrpt_sync \<Rightarrow> bool" where
  "lrpt_sync_ok d \<longleftrightarrow> d_window d = 40 \<and> d_coded_cadu_len d = 1792 \<and> length (d_coded_cadu d) = 1792 \<and>
     8 \<le> d_received d \<and> d_received d < 1792 \<and> (d_frame_sync d \<or> d_received d = 8)"

definition synced :: "bool \<Rightarrow> 'c qpsk_ops \<Rightarrow> nat \<Rightarrow> u64 \<Rightarrow> 'c lrpt_sync \<Rightarrow> 'c lrpt_sync" where
  "synced be C q r d = d\<lparr>d_rotate := turn C q, d_frame_sync := True, d_coded_cadu := mem64 be (htonll be r) @ drop 8 (d_coded_cadu d)\<rparr>"

text \<open>The registers when position \<open>q\<close> has accepted the last symbol: the positions after it have not seen it.\<close>

definition stop_regs :: "'c qpsk_ops \<Rightarrow> nat \<Rightarrow> 'c list \<Rightarrow> (nat \<Rightarrow> u64) \<Rightarrow> nat \<Rightarrow> u64" where
  "stop_regs C q xs rs q' = fed_regs C (if q' \<le> q then xs else butlast xs) rs q'"

lemma set_regs_simps [simp]:
  "found_sync C (set_regs rs d) = found_sync C d" "lrpt_sync_ok (set_regs rs d) = lrpt_sync_ok d"
  "set_regs rs (set_regs rs' d) = set_regs rs d" "set_regs (regs_of d) d = d"
  by (simp_all add: set_regs_def found_sync_def fun_eq_iff lrpt_sync_ok_def regs_of_def)

lemma fed_regs_cong: "(\<And>q. q < 4 \<Longrightarrow> rs q = rs' q) \<Longrightarrow> q < 4 \<Longrightarrow> fed_regs C xs rs q = fed_regs C xs rs' q"
  by (simp add: fed_regs_def)

lemma set_regs_cong: "(\<And>q. q < 4 \<Longrightarrow> rs q = rs' q) \<Longrightarrow> set_regs rs d = set_regs rs' d"
  by (simp add: set_regs_def)

lemma regs_of_set_regs: "q < 4 \<Longrightarrow> regs_of (set_regs rs d) q = rs q"
  by (auto simp: regs_of_def set_regs_def less_Suc_eq numeral_eq_Suc)

lemma fed_regs_append: "fed_regs C (xs @ ys) rs = fed_regs C ys (fed_regs C xs rs)"
  by (simp add: fun_eq_iff fed_regs_def)

lemma first_sync_cong: "(\<And>q. q < 4 \<Longrightarrow> rs q = rs' q) \<Longrightarrow> first_sync C p rs xs = first_sync C p rs' xs"
proof (induction xs arbitrary: rs rs')
  case (Cons x xs)
  have "q < 4 \<Longrightarrow> fed_regs C [x] rs q = fed_regs C [x] rs' q" for q using fed_regs_cong [of rs rs' q C "[x]"] Cons.prems by simp
  then show ?case using Cons.IH [of "fed_regs C [x] rs" "fed_regs C [x] rs'"] by (simp add: Let_def)
qed simp

lemma first_sync_less: "first_sync C p rs xs = Some (n, q) \<Longrightarrow> 0 < n \<and> n \<le> length xs \<and> q < 4"
proof (induction xs arbitrary: rs n q)
  case (Cons x xs)
  then show ?case
    by (auto simp: Let_def split: option.splits if_splits)
qed simp

text \<open>One symbol, then a list of them.\<close>

lemma lrpt_symbol_eq:
  assumes "lrpt_sync_ok d"
  shows "lrpt_symbol be C x d =
    Inr (case find (\<lambda>q. found_sync C d (fed_regs C [x] (regs_of d) q)) [0, 1, 2, 3] of
      Some q \<Rightarrow> (True, synced be C q (fed_regs C [x] (regs_of d) q) (set_regs (stop_regs C q [x] (regs_of d)) d))
    | None \<Rightarrow> (False, set_regs (fed_regs C [x] (regs_of d)) d))"
proof -
  have b: "buf_copy b 0 (mem64 be v) = Inr (mem64 be v @ drop 8 b)" if "length b = 1792" for b v
    using that by (simp add: buf_simps)
  have l: "length (d_coded_cadu d) = 1792" using assms by (simp add: lrpt_sync_ok_def)
  show ?thesis
    unfolding lrpt_symbol_def sync_at_def
    by (simp add: Let_def b l found_sync_def fed_regs_def regs_of_def reg_in_def turned_def turn_def synced_def set_regs_def stop_regs_def)
qed

lemma synced_ok: "lrpt_sync_ok d \<Longrightarrow> lrpt_sync_ok (synced be C q r d)"
  by (simp add: lrpt_sync_ok_def synced_def)

lemma no_sync_window_eq:
  "lrpt_sync_ok d \<Longrightarrow> no_sync_window be C j xs d =
    Inr (case first_sync C (found_sync C d) (regs_of d) xs of
      Some (n, q) \<Rightarrow> (Some (j + n), synced be C q (fed_regs C (take n xs) (regs_of d) q) (set_regs (stop_regs C q (take n xs) (regs_of d)) d))
    | None \<Rightarrow> (None, set_regs (fed_regs C xs (regs_of d)) d))"
proof (induction xs arbitrary: j d)
  case Nil
  have "fed_regs C [] (regs_of d) = regs_of d" by (simp add: fun_eq_iff fed_regs_def)
  then show ?case by simp
next
  case (Cons x xs)
  let ?rs = "fed_regs C [x] (regs_of d)"
  show ?case
  proof (cases "find (\<lambda>q. found_sync C d (?rs q)) [0, 1, 2, 3]")
    case (Some q)
    then show ?thesis by (simp add: lrpt_symbol_eq [OF Cons.prems] Let_def del: find.simps)
  next
    case None
    let ?d = "set_regs ?rs d"
    have r: "q < 4 \<Longrightarrow> regs_of ?d q = ?rs q" for q by (rule regs_of_set_regs)
    have a: "fed_regs C ys (regs_of ?d) q = fed_regs C (x # ys) (regs_of d) q" if "q < 4" for ys q
      using fed_regs_cong [of "regs_of ?d" ?rs q C ys] r that fed_regs_append [of C "[x]" ys "regs_of d"] by simp
    have s: "set_regs (stop_regs C q ys (regs_of ?d)) d = set_regs (stop_regs C q (x # ys) (regs_of d)) d" if "ys \<noteq> []" for ys q
      using a that by (intro set_regs_cong) (simp add: stop_regs_def)
    have e: "set_regs (fed_regs C xs (regs_of ?d)) ?d = set_regs (fed_regs C (x # xs) (regs_of d)) d"
      unfolding set_regs_simps by (intro set_regs_cong a)
    have f: "first_sync C (found_sync C d) (regs_of ?d) xs = first_sync C (found_sync C d) ?rs xs" by (rule first_sync_cong [OF r])
    have ih: "no_sync_window be C (j + 1) xs ?d =
      Inr (case first_sync C (found_sync C d) (regs_of ?d) xs of
        Some (n, q) \<Rightarrow> (Some (j + 1 + n), synced be C q (fed_regs C (take n xs) (regs_of ?d) q) (set_regs (stop_regs C q (take n xs) (regs_of ?d)) ?d))
      | None \<Rightarrow> (None, set_regs (fed_regs C xs (regs_of ?d)) ?d))"
      using Cons.IH [of ?d "j + 1"] Cons.prems by simp
    have step: "no_sync_window be C j (x # xs) d = no_sync_window be C (j + 1) xs ?d"
      using None by (simp add: lrpt_symbol_eq [OF Cons.prems] del: find.simps)
    show ?thesis
    proof (cases "first_sync C (found_sync C d) ?rs xs")
      case (Some nq)
      obtain n q where nq: "nq = (n, q)" by fastforce
      have n: "0 < n" "n \<le> length xs" "q < 4" using first_sync_less [OF Some [unfolded nq]] by simp_all
      then have "take n xs \<noteq> []" by auto
      then show ?thesis
        unfolding step ih f Some nq first_sync.simps using None Some nq by (simp add: Let_def s a [OF n(3)] del: find.simps)
    qed (unfold step ih f first_sync.simps e, use None in \<open>simp add: Let_def del: find.simps\<close>)
  qed
qed

text \<open>The windows of a call are one list of symbols.\<close>

lemma no_sync_window_state:
  assumes "lrpt_sync_ok d" "no_sync_window be C j xs d = Inr (r, d')"
  shows "lrpt_sync_ok d'" "r = None \<Longrightarrow> d_frame_sync d' = d_frame_sync d"
proof -
  have "d_frame_sync (set_regs rs d) = d_frame_sync d" for rs by (simp add: set_regs_def)
  then show "lrpt_sync_ok d'" "r = None \<Longrightarrow> d_frame_sync d' = d_frame_sync d"
    using assms(2) unfolding no_sync_window_eq [OF assms(1)]
    by (auto split: option.splits intro!: synced_ok simp: assms(1))
qed

lemma no_sync_window_append:
  "no_sync_window be C j (xs @ ys) d =
    res_bind (no_sync_window be C j xs d) (\<lambda>(r, d). case r of Some n \<Rightarrow> Inr (Some n, d) | None \<Rightarrow> no_sync_window be C (j + length xs) ys d)"
proof (induction xs arbitrary: j d)
  case (Cons x xs)
  then show ?case by (cases "lrpt_symbol be C x d") (auto simp: split_def cong: option.case_cong)
qed simp

lemma no_sync_windows_eq:
  "lrpt_sync_ok d \<Longrightarrow> m * 40 \<le> length inp \<Longrightarrow> no_sync_windows be C i m inp d = no_sync_window be C (i * 40) (take (m * 40) inp) d"
proof (induction m arbitrary: i inp d)
  case (Suc m)
  have w: "d_window d = 40" "length (take 40 inp) = 40" using Suc.prems by (simp_all add: lrpt_sync_ok_def)
  have t: "take (Suc m * 40) inp = take 40 inp @ take (m * 40) (drop 40 inp)" using take_add [of 40 "m * 40" inp] by simp
  have ih: "no_sync_windows be C (i + 1) m (drop 40 inp) d' = no_sync_window be C (i * 40 + 40) (take (m * 40) (drop 40 inp)) d'"
    if "lrpt_sync_ok d'" for d'
    using Suc.IH [OF that, of "drop 40 inp" "i + 1"] Suc.prems(2) by (simp add: add.commute)
  show ?case
  proof (cases "no_sync_window be C (i * 40) (take 40 inp) d")
    case (Inr p)
    obtain r d' where p: "p = (r, d')" by fastforce
    have ok: "lrpt_sync_ok d'" using no_sync_window_state(1) [OF Suc.prems(1) Inr [unfolded p]] .
    then have "d_window d' = 40" by (simp add: lrpt_sync_ok_def)
    then show ?thesis
      unfolding t no_sync_window_append w(2) using ih [OF ok] by (simp add: w(1) Inr p split: option.split)
  qed (unfold t no_sync_window_append, simp add: w(1))
qed simp

lemma work_no_sync_eq:
  assumes "lrpt_sync_ok d" "40 dvd length inp"
  shows "work_no_sync be C inp d =
    Inr (case first_sync C (found_sync C d) (regs_of d) inp of
      Some (n, q) \<Rightarrow> (n, synced be C q (fed_regs C (take n inp) (regs_of d) q) (set_regs (stop_regs C q (take n inp) (regs_of d)) d))
    | None \<Rightarrow> (length inp, set_regs (fed_regs C inp (regs_of d)) d))"
proof -
  have "d_window d = 40" using assms(1) by (simp add: lrpt_sync_ok_def)
  moreover have "length inp div 40 * 40 = length inp" using assms(2) by simp
  ultimately show ?thesis
    unfolding work_no_sync_def using no_sync_windows_eq [OF assms(1), of "length inp div 40" inp be C 0] no_sync_window_eq [OF assms(1), of be C 0 inp]
    by (auto split: option.splits)
qed

text \<open>What the first symbol is.\<close>

lemma find_four: "find p [0, 1, 2, 3] = None \<longleftrightarrow> (\<forall>q < 4. \<not> p q)" "find p [0, 1, 2, 3] = Some r \<Longrightarrow> r < 4 \<and> p r \<and> (\<forall>q < r. \<not> p q)"
  for p :: "nat \<Rightarrow> bool"
  by (auto simp: numeral_eq_Suc less_Suc_eq split: if_splits)

lemma fed_regs_Cons: "fed_regs C (x # ys) rs = fed_regs C ys (fed_regs C [x] rs)"
  using fed_regs_append [of C "[x]" ys rs] by simp

lemma fed_regs_Nil: "fed_regs C [] rs = rs"
  by (simp add: fun_eq_iff fed_regs_def)

lemma first_sync_None:
  "first_sync C p rs xs = None \<Longrightarrow> 0 < n \<Longrightarrow> n \<le> length xs \<Longrightarrow> q < 4 \<Longrightarrow> \<not> p (fed_regs C (take n xs) rs q)"
proof (induction xs arbitrary: rs n)
  case (Cons x xs)
  let ?rs = "fed_regs C [x] rs"
  have f: "find (\<lambda>q. p (?rs q)) [0, 1, 2, 3] = None" "first_sync C p ?rs xs = None"
    using Cons.prems(1) by (simp_all add: Let_def del: find.simps split: option.splits)
  show ?case
  proof (cases "n = 1")
    case True
    then show ?thesis using f(1) Cons.prems(4) unfolding find_four(1) by (simp add: fed_regs_Nil)
  next
    case False
    then obtain k where k: "n = Suc k" "0 < k" using Cons.prems(2) by (cases n) auto
    then show ?thesis using Cons.IH [OF f(2) k(2) _ Cons.prems(4)] Cons.prems(3) by (simp add: fed_regs_Cons [of C x "take k xs"])
  qed
qed simp

lemma first_sync_step:
  assumes "first_sync C p rs (x # xs) = Some (n, q)"
  shows "n = 1 \<and> q < 4 \<and> p (fed_regs C [x] rs q) \<and> (\<forall>q' < q. \<not> p (fed_regs C [x] rs q')) \<or>
    (\<forall>q' < 4. \<not> p (fed_regs C [x] rs q')) \<and> (\<exists>m. n = Suc m \<and> first_sync C p (fed_regs C [x] rs) xs = Some (m, q))"
proof (cases "find (\<lambda>q. p (fed_regs C [x] rs q)) [0, 1, 2, 3]")
  case None
  then have "\<exists>m. n = Suc m \<and> first_sync C p (fed_regs C [x] rs) xs = Some (m, q)"
    using assms by (auto simp: Let_def simp del: find.simps)
  then show ?thesis using None [unfolded find_four(1)] by blast
next
  case (Some r)
  then have "n = 1" "q = r" using assms by (simp_all add: Let_def del: find.simps)
  then show ?thesis using find_four(2) [OF Some] by blast
qed

lemma first_sync_near: "first_sync C p rs xs = Some (n, q) \<Longrightarrow> p (fed_regs C (take n xs) rs q)"
proof (induction xs arbitrary: rs n)
  case (Cons x xs)
  show ?case
    using first_sync_step [OF Cons.prems] Cons.IH [of "fed_regs C [x] rs"]
    by (auto simp: fed_regs_Nil fed_regs_Cons [of C x "take _ xs"])
qed simp

lemma first_sync_least:
  "first_sync C p rs xs = Some (n, q) \<Longrightarrow> 0 < n' \<Longrightarrow> q' < 4 \<Longrightarrow> n' < n \<or> n' = n \<and> q' < q \<Longrightarrow> \<not> p (fed_regs C (take n' xs) rs q')"
proof (induction xs arbitrary: rs n n')
  case (Cons x xs)
  note st = first_sync_step [OF Cons.prems(1)]
  show ?case
  proof (cases "n' = 1")
    case True
    then show ?thesis using st Cons.prems(3,4) by (auto simp: fed_regs_Nil)
  next
    case False
    then obtain k where k: "n' = Suc k" "0 < k" using Cons.prems(2) by (cases n') auto
    then show ?thesis
      using st Cons.IH [of "fed_regs C [x] rs" _ k] Cons.prems(3,4) by (auto simp: fed_regs_Cons [of C x "take k xs"])
  qed
qed simp

section \<open>Receiving a frame\<close>

fun pack_symbols :: "'c qpsk_ops \<Rightarrow> 'c list \<Rightarrow> u8 list" where
  "pack_symbols C (x0 # x1 # x2 # x3 # xs) = symbols_byte C x0 x1 x2 x3 # pack_symbols C xs"
| "pack_symbols C xs = []"

lemma length_pack_symbols [simp]: "length (pack_symbols C xs) = length xs div 4"
  by (induction C xs rule: pack_symbols.induct) simp_all

lemma four_dvd: "4 dvd Suc (Suc (Suc (Suc n))) \<longleftrightarrow> 4 dvd n"
  by presburger

lemma pack_symbols_append: "4 dvd length xs \<Longrightarrow> pack_symbols C (xs @ ys) = pack_symbols C xs @ pack_symbols C ys"
  by (induction C xs rule: pack_symbols.induct) (auto simp: four_dvd dest: dvd_imp_le)

text \<open>Bytes that arrive: they fill the frame up, or complete it.\<close>

definition receive :: "u8 list \<Rightarrow> 'c lrpt_sync \<Rightarrow> (nat \<times> u8 list) option \<times> 'c lrpt_sync" where
  "receive bs d =
     (let k = d_coded_cadu_len d - d_received d; got = take (d_received d) (d_coded_cadu d) @ take k bs
      in if length bs < k
         then (None, d\<lparr>d_coded_cadu := got @ drop (d_received d + length bs) (d_coded_cadu d), d_received := d_received d + length bs\<rparr>)
         else (Some (4 * k, got), d\<lparr>d_coded_cadu := got, d_received := 8, d_frame_sync := False\<rparr>))"

lemma receive_ok: "lrpt_sync_ok d \<Longrightarrow> d_frame_sync d \<Longrightarrow> lrpt_sync_ok (snd (receive bs d))"
  by (auto simp: lrpt_sync_ok_def receive_def Let_def)

lemma receive_None: "fst (receive bs d) = None \<Longrightarrow> d_rotate (snd (receive bs d)) = d_rotate d \<and> d_frame_sync (snd (receive bs d)) = d_frame_sync d"
  by (simp add: receive_def Let_def split: if_splits)

lemma receive_frame: "lrpt_sync_ok d \<Longrightarrow> fst (receive bs d) = Some (n, m) \<Longrightarrow> length m = 1792 \<and> 0 < n \<and> n \<le> 4 * length bs \<and> \<not> d_frame_sync (snd (receive bs d))"
  by (auto simp: receive_def Let_def lrpt_sync_ok_def split: if_splits)

lemma receive_one:
  assumes "lrpt_sync_ok d" "d_received d + 1 < 1792"
  shows "receive (b # bs) d =
    (let (r, d') = receive bs (d\<lparr>d_coded_cadu := (d_coded_cadu d)[d_received d := b], d_received := d_received d + 1\<rparr>)
     in (map_option (\<lambda>(n, m). (n + 4, m)) r, d'))"
proof -
  let ?r = "d_received d"
  have l: "d_coded_cadu_len d = 1792" "length (d_coded_cadu d) = 1792" using assms(1) by (simp_all add: lrpt_sync_ok_def)
  have t: "take (Suc ?r) ((d_coded_cadu d)[?r := b]) = take ?r (d_coded_cadu d) @ [b]"
    using l(2) assms(2) by (simp add: take_Suc_conv_app_nth)
  have s: "1792 - ?r = Suc (1792 - Suc ?r)" using assms(2) by simp
  show ?thesis by (auto simp: receive_def Let_def l t s)
qed

lemma sync_window_eq:
  "4 dvd length xs \<Longrightarrow> lrpt_sync_ok d \<Longrightarrow> d_frame_sync d \<Longrightarrow>
   sync_window C j xs d =
     (let (r, d') = receive (pack_symbols C xs) d in Inr (map_option (\<lambda>(n, m). (j + n, m)) r, d'))"
proof (induction C j xs d rule: sync_window.induct)
  case (1 C j d)
  then show ?case by (simp add: receive_def lrpt_sync_ok_def Let_def)
next
  case (2 C j x0 x1 x2 x3 xs d)
  let ?r = "d_received d" and ?b = "symbols_byte C x0 x1 x2 x3"
  let ?d = "d\<lparr>d_coded_cadu := (d_coded_cadu d)[?r := ?b], d_received := ?r + 1\<rparr>"
  have l: "d_coded_cadu_len d = 1792" "length (d_coded_cadu d) = 1792" "?r < 1792" using 2(3) by (simp_all add: lrpt_sync_ok_def)
  have s: "buf_set (d_coded_cadu d) ?r ?b = Inr ((d_coded_cadu d)[?r := ?b])" using l by (simp add: buf_simps)
  show ?case
  proof (cases "?r + 1 = 1792")
    case True
    have "take 1792 ((d_coded_cadu d)[?r := ?b]) = take ?r (d_coded_cadu d) @ [?b]"
      using l(2) True take_Suc_conv_app_nth [of ?r "(d_coded_cadu d)[?r := ?b]"] by simp
    moreover have "(d_coded_cadu d)[?r := ?b] = take 1792 ((d_coded_cadu d)[?r := ?b])" using l(2) by simp
    ultimately have b: "(d_coded_cadu d)[?r := ?b] = take ?r (d_coded_cadu d) @ [?b]" by simp
    have "1792 - ?r = 1" "length (take ?r (d_coded_cadu d) @ [?b]) = 1792" using l(2) True by simp_all
    then show ?thesis using True s [unfolded b] by (simp add: l receive_def Let_def)
  next
    case False
    have ok: "lrpt_sync_ok ?d" "d_frame_sync ?d" "4 dvd length xs" "?r + 1 < 1792"
      using 2(2-4) l(3) False by (simp_all add: lrpt_sync_ok_def four_dvd)
    obtain r d' where q: "receive (pack_symbols C xs) ?d = (r, d')" by fastforce
    have "sync_window C j (x0 # x1 # x2 # x3 # xs) d = sync_window C (j + 4) xs ?d" using False by (simp add: s l)
    also have "\<dots> = Inr (map_option (\<lambda>(n, m). (j + 4 + n, m)) r, d')"
      using 2(1) [OF refl _ ok(3,1,2)] False l(1) q by simp
    finally show ?thesis
      using receive_one [OF 2(3) ok(4), of ?b "pack_symbols C xs"] q by (simp add: option.map_comp o_def split_def add.commute add.left_commute)
  qed
qed (auto dest: dvd_imp_le)

lemma sync_window_append:
  "4 dvd length xs \<Longrightarrow> sync_window C j (xs @ ys) d =
    res_bind (sync_window C j xs d) (\<lambda>(r, d). case r of Some p \<Rightarrow> Inr (Some p, d) | None \<Rightarrow> sync_window C (j + length xs) ys d)"
proof (induction C j xs d rule: sync_window.induct)
  case (2 C j x0 x1 x2 x3 xs d)
  let ?b = "buf_set (d_coded_cadu d) (d_received d) (symbols_byte C x0 x1 x2 x3)"
  show ?case
  proof (cases ?b)
    case (Inr buf)
    have e: "j + length (x0 # x1 # x2 # x3 # xs) = j + 4 + length xs" by simp
    have "4 dvd length xs" using 2(2) by (simp add: four_dvd)
    then show ?thesis unfolding e using Inr 2(1) [OF refl, of buf] by (simp add: Let_def)
  qed simp
qed (auto dest: dvd_imp_le)

lemma sync_windows_eq:
  "lrpt_sync_ok d \<Longrightarrow> d_frame_sync d \<Longrightarrow> m * 40 \<le> length inp \<Longrightarrow>
   sync_windows C i m inp d = sync_window C (i * 40) (map (\<lambda>x. cmul C x (d_rotate d)) (take (m * 40) inp)) d"
proof (induction m arbitrary: i inp d)
  case (Suc m)
  let ?f = "map (\<lambda>x. cmul C x (d_rotate d))"
  have w: "d_window d = 40" "length (?f (take 40 inp)) = 40" using Suc.prems by (simp_all add: lrpt_sync_ok_def)
  have dv: "4 dvd length (?f (take 40 inp))" unfolding w(2) by simp
  have t: "take (Suc m * 40) inp = take 40 inp @ take (m * 40) (drop 40 inp)" using take_add [of 40 "m * 40" inp] by simp
  obtain r d' where r: "receive (pack_symbols C (?f (take 40 inp))) d = (r, d')" by fastforce
  have ok: "lrpt_sync_ok d'" using receive_ok [OF Suc.prems(1,2)] r by (metis snd_conv)
  show ?case
  proof (cases r)
    case None
    then have e: "d_rotate d' = d_rotate d" "d_frame_sync d'" using receive_None [of "pack_symbols C (?f (take 40 inp))" d] r Suc.prems(2) by simp_all
    have "d_window d' = 40" using ok by (simp add: lrpt_sync_ok_def)
    moreover have "sync_windows C (i + 1) m (drop 40 inp) d' = sync_window C (i * 40 + 40) (?f (take (m * 40) (drop 40 inp))) d'"
      using Suc.IH [OF ok e(2), of "drop 40 inp" "i + 1"] Suc.prems(3) e(1) by (simp add: add.commute)
    ultimately show ?thesis
      unfolding t map_append sync_window_append [OF dv] sync_window_eq [OF dv Suc.prems(1,2)] w(2) using None by (simp add: w(1) sync_window_eq [OF dv Suc.prems(1,2)] r)
  next
    case (Some p)
    then show ?thesis
      unfolding t map_append sync_window_append [OF dv] by (cases p) (simp add: w(1) sync_window_eq [OF dv Suc.prems(1,2)] r)
  qed
qed simp

lemma work_sync_receive:
  assumes "lrpt_sync_ok d" "d_frame_sync d" "40 dvd length inp"
  shows "work_sync C inp d =
    (let (r, d') = receive (pack_symbols C (map (\<lambda>x. cmul C x (d_rotate d)) inp)) d
     in Inr (case r of Some (n, cadu) \<Rightarrow> (n, [cadu], d') | None \<Rightarrow> (length inp, [], d')))"
proof -
  have w: "d_window d = 40" "length inp div 40 * 40 = length inp" using assms(1,3) by (simp_all add: lrpt_sync_ok_def)
  have "4 dvd length (map (\<lambda>x. cmul C x (d_rotate d)) inp)" using dvd_trans [of 4 40 "length inp"] assms(3) by simp
  note e = sync_window_eq [OF this assms(1,2), where j = 0 and C = C]
  show ?thesis
    unfolding work_sync_def w(1) using sync_windows_eq [OF assms(1,2), of "length inp div 40" inp C 0] e
    by (cases "receive (pack_symbols C (map (\<lambda>x. cmul C x (d_rotate d)) inp)) d") (auto simp: w(2) split: option.splits)
qed

text \<open>C39: A call never overruns the frame, whatever the symbols are, and uses at least one of them; what it publishes has the length of a coded
  frame, and it then searches for the next sync word.\<close>

theorem lrpt_sync_work_safe:
  assumes "lrpt_sync_ok d" "40 dvd length inp"
  shows "\<exists>n cadus d'. lrpt_sync_work be C inp d = Inr (n, cadus, d') \<and> lrpt_sync_ok d' \<and> n \<le> length inp \<and> (n = 0 \<longrightarrow> inp = []) \<and>
    (cadus = [] \<or> d_frame_sync d \<and> \<not> d_frame_sync d' \<and> (\<exists>cadu. cadus = [cadu] \<and> length cadu = 1792))"
proof (cases "d_frame_sync d")
  case True
  obtain r d' where r: "receive (pack_symbols C (map (\<lambda>x. cmul C x (d_rotate d)) inp)) d = (r, d')" by fastforce
  have ok: "lrpt_sync_ok d'" using receive_ok [OF assms(1) True] r by (metis snd_conv)
  have "lrpt_sync_work be C inp d = Inr (case r of Some (n, cadu) \<Rightarrow> (n, [cadu], d') | None \<Rightarrow> (length inp, [], d'))"
    using True by (simp add: lrpt_sync_work_def work_sync_receive [OF assms(1) True assms(2)] r)
  then show ?thesis
    using ok True receive_frame [OF assms(1), of "pack_symbols C (map (\<lambda>x. cmul C x (d_rotate d)) inp)"] r
    by (cases r) fastforce+
next
  case False
  show ?thesis
  proof (cases "first_sync C (found_sync C d) (regs_of d) inp")
    case (Some p)
    obtain n q where p: "p = (n, q)" by fastforce
    have "0 < n \<and> n \<le> length inp" using first_sync_less [OF Some [unfolded p]] by simp
    then show ?thesis
      using False Some p by (simp add: lrpt_sync_work_def work_no_sync_eq [OF assms] synced_ok assms(1))
  qed (use False in \<open>simp add: lrpt_sync_work_def work_no_sync_eq [OF assms] assms(1)\<close>)
qed

section \<open>An example\<close>

text \<open>Gaussian integers, with the decisions of the constellation of GNU Radio.\<close>

definition gauss_qpsk :: "(int \<times> int) qpsk_ops" where
  "gauss_qpsk = \<lparr>decision_maker = (\<lambda>(x, y). 2 * of_bool (0 < y) + of_bool (0 < x)), count_bits64 = popcount,
     gr_complex = Pair, cmul = (\<lambda>(a, b) (c, d). (a * c - b * d, a * d + b * c))\<rparr>"

definition example_sync :: "(int \<times> int) lrpt_sync" where
  "example_sync = projr (lrpt_sync_impl_new False gauss_qpsk (\<lambda>_. 0) 0)"

lemma example_sync: "lrpt_sync_impl_new False gauss_qpsk (\<lambda>_. 0) 0 = Inr example_sync"
  by (simp add: example_sync_def lrpt_sync_impl_new_def buf_copy_def Let_def)

lemma example_sync_ok: "lrpt_sync_ok example_sync" "\<not> d_frame_sync example_sync"
  by (simp_all add: example_sync_def lrpt_sync_impl_new_def buf_copy_def Let_def lrpt_sync_ok_def)

theorem lrpt_sync_work_safe_witness:
  "\<exists>n cadus d'. lrpt_sync_work False gauss_qpsk (replicate 40 (1, - 1)) example_sync = Inr (n, cadus, d') \<and> lrpt_sync_ok d' \<and> n \<le> 40"
proof -
  have l: "length (replicate 40 (1, - 1) :: (int \<times> int) list) = 40" "40 dvd (40 :: nat)" by simp_all
  show ?thesis
    using lrpt_sync_work_safe [OF example_sync_ok(1), of "replicate 40 (1, - 1)" False gauss_qpsk] unfolding l(1) using l(2) by blast
qed

end
