(* ===== verification/Viterbi27.thy ===== *)
theory Viterbi27
  imports Utils
begin

text \<open>
  \<open>lib/libfec/viterbi27_port.c\<close>, with the parity of \<open>fec.c\<close> and \<open>fec.h\<close>: the portable Viterbi decoder of the convolutional
  code of constraint length seven and rate one half. The dispatch of \<open>viterbi27.c\<close> calls these functions on every 64-bit
  host. An instance is the record \<open>v27\<close>, the variables of the file are \<open>v27_globals\<close>.
\<close>

unbundle bit_operations_syntax

section \<open>Parity\<close>

text \<open>\<open>partab_init\<close> of \<open>fec.c\<close> and \<open>parity\<close> of \<open>fec.h\<close>; the processor instruction used on x86 has the same result.\<close>

function partab_count :: "nat \<Rightarrow> nat \<Rightarrow> nat" where
  "partab_count ti cnt = (if ti = 0 then cnt else partab_count (drop_bit 1 ti) (if odd ti then cnt + 1 else cnt))"
  by pat_completeness auto
termination by (relation "measure fst") (simp_all add: drop_bit_eq_div)

declare partab_count.simps [simp del]

definition Partab :: "u8 list" where
  "Partab = map (\<lambda>i. of_nat (partab_count i 0) AND 1) [0..<256]"

definition parityb :: "u8 \<Rightarrow> u8" where
  "parityb x = Partab ! unat x"

definition parity :: "u32 \<Rightarrow> u8" where
  "parity x =
     (let x1 = x XOR signed_drop_bit 16 x;
          x2 = x1 XOR signed_drop_bit 8 x1
      in parityb (ucast x2))"

section \<open>The tables\<close>

text \<open>The variables of the file: the table of the branches and the counter \<open>Init\<close>.\<close>

record v27_globals =
  Branchtab27 :: "u8 list list"
  Init :: nat

definition iabs :: "u32 \<Rightarrow> u32" where
  "iabs p = (if sint p < 0 then - p else p)"

definition branch_sign :: "u32 \<Rightarrow> nat \<Rightarrow> u8" where
  "branch_sign p state =
     (if of_bool (sint p < 0) XOR parity (of_nat (2 * state) AND iabs p) \<noteq> 0 then 255 else 0)"

definition set_viterbi27_polynomial_port :: "u32 \<Rightarrow> u32 \<Rightarrow> v27_globals \<Rightarrow> v27_globals" where
  "set_viterbi27_polynomial_port p0 p1 g =
     g\<lparr>Branchtab27 := [map (branch_sign p0) [0..<32], map (branch_sign p1) [0..<32]], Init := Init g + 1\<rparr>"

section \<open>An instance\<close>

text \<open>
  The pointers \<open>old_metrics\<close> and \<open>new_metrics\<close> exchange the two buffers after every bit: \<open>old_is_1\<close> tells that the
  old one is \<open>metrics1\<close>. A decision is the list of its two words; \<open>dp\<close> is an index into the decisions.
\<close>

record v27 =
  metrics1 :: "u32 list"
  metrics2 :: "u32 list"
  old_is_1 :: bool
  dp :: nat
  decisions :: "u64 list list"

definition old_metrics :: "v27 \<Rightarrow> u32 list" where
  "old_metrics vp = (if old_is_1 vp then metrics1 vp else metrics2 vp)"

definition init_viterbi27_port :: "nat \<Rightarrow> v27 \<Rightarrow> v27" where
  "init_viterbi27_port starting_state vp =
     vp\<lparr>metrics1 := (replicate 64 63)[starting_state AND 63 := 0], old_is_1 := True, dp := 0\<rparr>"

definition V27POLYA :: u32 where "V27POLYA = 0x6d"
definition V27POLYB :: u32 where "V27POLYB = 0x4f"

text \<open>\<open>create_viterbi27_port\<close>, given what \<open>malloc\<close> returned: memory with old contents, or nothing.\<close>

definition create_viterbi27_port :: "nat \<Rightarrow> (u32 list \<times> u64 list list) option \<Rightarrow> v27_globals \<Rightarrow> v27 option \<times> v27_globals" where
  "create_viterbi27_port len mem g =
     (let g = (if Init g = 0 then set_viterbi27_polynomial_port V27POLYA V27POLYB g else g)
      in case mem of
           None \<Rightarrow> (None, g)
         | Some (junk, junkd) \<Rightarrow>
             (Some (init_viterbi27_port 0
                \<lparr>metrics1 = take 64 junk, metrics2 = take 64 (drop 64 junk), old_is_1 = True, dp = 0, decisions = take (len + 6) junkd\<rparr>), g))"

section \<open>Update\<close>

text \<open>The macro \<open>BFLY(i)\<close>: the two successors of the states \<open>i\<close> and \<open>i + 32\<close>.\<close>

definition bfly ::
    "v27_globals \<Rightarrow> u8 \<Rightarrow> u8 \<Rightarrow> u32 list \<Rightarrow> nat \<Rightarrow> u32 list \<times> u64 list \<Rightarrow> u32 list \<times> u64 list" where
  "bfly g sym0 sym1 old i = (\<lambda>(new, w).
     let metric = ucast (Branchtab27 g ! 0 ! i XOR sym0) + ucast (Branchtab27 g ! 1 ! i XOR sym1) :: u32;
         m0 = old ! i + metric;
         m1 = old ! (i + 32) + (510 - metric);
         dec0 = 0 < sint (m0 - m1);
         new0 = new[2 * i := if dec0 then m1 else m0];
         w0 = w[i div 16 := w ! (i div 16) OR push_bit (2 * i AND 31) (of_bool dec0)];
         m0' = m0 - (metric + metric - 510);
         m1' = m1 + (metric + metric - 510);
         dec1 = 0 < sint (m0' - m1')
     in (new0[2 * i + 1 := if dec1 then m1' else m0'],
         w0[i div 16 := w0 ! (i div 16) OR push_bit (2 * i + 1 AND 31) (of_bool dec1)]))"

text \<open>One bit: the 32 butterflies, the decision stored, the buffers exchanged.\<close>

definition update_bit :: "v27_globals \<Rightarrow> u8 \<Rightarrow> u8 \<Rightarrow> v27 \<Rightarrow> v27 res" where
  "update_bit g sym0 sym1 vp =
     (let old = old_metrics vp;
          new = (if old_is_1 vp then metrics2 vp else metrics1 vp);
          (new', w) = fold (bfly g sym0 sym1 old) [0..<32] (new, [0, 0])
      in res_bind (buf_set (decisions vp) (dp vp) w) (\<lambda>ds.
         Inr (if old_is_1 vp then vp\<lparr>metrics2 := new', old_is_1 := False, dp := dp vp + 1, decisions := ds\<rparr>
              else vp\<lparr>metrics1 := new', old_is_1 := True, dp := dp vp + 1, decisions := ds\<rparr>)))"

fun update_viterbi27_blk_port :: "v27_globals \<Rightarrow> v27 \<Rightarrow> u8 list \<Rightarrow> nat \<Rightarrow> v27 res" where
  "update_viterbi27_blk_port g vp syms 0 = Inr vp"
| "update_viterbi27_blk_port g vp (sym0 # sym1 # syms) (Suc nbits) =
     res_bind (update_bit g sym0 sym1 vp) (\<lambda>vp. update_viterbi27_blk_port g vp syms nbits)"
| "update_viterbi27_blk_port g vp syms (Suc nbits) = Inl Oob_read"

section \<open>Chainback\<close>

fun chainback_loop :: "u64 list list \<Rightarrow> nat \<Rightarrow> u32 \<Rightarrow> u8 list \<Rightarrow> u8 list res" where
  "chainback_loop d 0 endstate out = Inr out"
| "chainback_loop d (Suc nbits) endstate out =
     res_bind (buf_get d (6 + nbits)) (\<lambda>w.
       let s = unat (drop_bit 2 endstate);
           k = drop_bit (s mod 32) (w ! (s div 32)) AND 1;
           endstate = drop_bit 1 endstate OR push_bit 7 (ucast k)
       in res_bind (buf_set out (nbits div 8) (ucast endstate)) (\<lambda>out.
          chainback_loop d nbits endstate out))"

definition chainback_viterbi27_port :: "v27 \<Rightarrow> u8 list \<Rightarrow> nat \<Rightarrow> u32 \<Rightarrow> u8 list res" where
  "chainback_viterbi27_port vp out nbits endstate =
     chainback_loop (decisions vp) nbits (push_bit 2 (endstate mod 64)) out"

end
