(* ===== verification/Viterbi27_Code.thy ===== *)
theory Viterbi27_Code
  imports Viterbi27
begin

text \<open>
  The code that \<open>Viterbi27\<close> decodes: its encoder, the cost of a path of soft symbols, the cheapest paths as a recursion over
  the symbols, and the distances in the CCSDS code, by potentials on the 64 states.
\<close>

unbundle bit_operations_syntax

section \<open>The convolutional code\<close>

text \<open>
  The register of the encoder holds the six bits of its state and the new bit; each polynomial gives the parity of
  some of its bits, inverted when the polynomial is negative. The decoder is meant for polynomials that use the
  newest and the oldest bit.
\<close>

definition poly_ok :: "u32 \<Rightarrow> bool" where
  "poly_ok p \<longleftrightarrow> bit (iabs p) 0 \<and> bit (iabs p) 6 \<and> unat (iabs p) < 128"

definition reg :: "nat \<Rightarrow> bool \<Rightarrow> nat" where
  "reg s b = 2 * s + of_bool b"

definition next_state :: "nat \<Rightarrow> bool \<Rightarrow> nat" where
  "next_state s b = reg s b mod 64"

definition out_word :: "u32 \<Rightarrow> u32 \<Rightarrow> bool" where
  "out_word p w \<longleftrightarrow> (sint p < 0) \<noteq> odd (popcount (w AND iabs p))"

definition out_bit :: "u32 \<Rightarrow> nat \<Rightarrow> bool \<Rightarrow> bool" where
  "out_bit p s b = out_word p (of_nat (reg s b))"

text \<open>The distance of a soft symbol from a code bit, and of a pair of symbols from those of a branch.\<close>

definition sym_cost :: "u8 \<Rightarrow> bool \<Rightarrow> nat" where
  "sym_cost y c = (if c then 255 - unat y else unat y)"

definition branch_cost :: "u32 \<Rightarrow> u32 \<Rightarrow> nat \<Rightarrow> bool \<Rightarrow> u8 \<times> u8 \<Rightarrow> nat" where
  "branch_cost p0 p1 s b y = sym_cost (fst y) (out_bit p0 s b) + sym_cost (snd y) (out_bit p1 s b)"

lemma sym_cost_bounds: "sym_cost y c \<le> 255" "sym_cost y (\<not> c) = 255 - sym_cost y c"
proof -
  have "unat y \<le> 255" using unsigned_less [of y, where ?'a = nat] by simp
  then show "sym_cost y c \<le> 255" "sym_cost y (\<not> c) = 255 - sym_cost y c" by (simp_all add: sym_cost_def)
qed

lemma out_word_xor: "out_word p (v XOR w) \<longleftrightarrow> out_word p v \<noteq> odd (popcount (w AND iabs p))"
proof -
  have "(v XOR w) AND iabs p = (v AND iabs p) XOR (w AND iabs p)" by (rule bit_eqI) (auto simp: bit_simps)
  then show ?thesis by (auto simp: out_word_def odd_popcount_xor)
qed

lemma popcount_bit: "popcount (2 ^ n :: u32) = of_bool (n < 32)"
  by (auto simp: popcount_def bit_exp_iff of_bool_def)

lemma and_exp_bit: "2 ^ n AND p = (if bit p n then 2 ^ n else 0)" for p :: u32
  by (rule bit_eqI) (auto simp: bit_simps)

lemma one_in: "poly_ok p \<Longrightarrow> popcount (1 AND iabs p) = 1" "poly_ok p \<Longrightarrow> popcount (64 AND iabs p) = 1"
  using and_exp_bit [of 0 "iabs p"] and_exp_bit [of 6 "iabs p"] popcount_bit [of 0] popcount_bit [of 6]
  by (simp_all add: poly_ok_def)

lemma out_bit_newest: "poly_ok p \<Longrightarrow> out_bit p s True \<longleftrightarrow> \<not> out_bit p s False"
proof -
  assume p: "poly_ok p"
  have "of_nat (2 * s) AND 1 = (0 :: u32)" by (rule bit_eqI) (auto simp: bit_simps)
  then have "(of_nat (reg s True) :: u32) = of_nat (reg s False) XOR 2 ^ 0"
    by (simp add: reg_def disjunctive_add_eq_xor [symmetric])
  then show ?thesis using one_in [OF p] unfolding out_bit_def by (simp add: out_word_xor)
qed

lemma out_bit_oldest: "poly_ok p \<Longrightarrow> s < 32 \<Longrightarrow> out_bit p (s + 32) b \<longleftrightarrow> \<not> out_bit p s b"
proof -
  assume p: "poly_ok p" and s: "s < 32"
  have r: "reg (s + 32) b = reg s b + 64" "reg s b < 64" using s by (simp_all add: reg_def)
  have "take_bit 6 (reg s b) = reg s b" using r(2) by (simp add: take_bit_nat_eq_self_iff)
  then have "of_nat (reg s b) AND 2 ^ 6 = (0 :: u32)"
    by (metis (no_types) and_exp_bit and.commute bit_take_bit_iff bit_of_nat_iff less_irrefl)
  then have "(of_nat (reg (s + 32) b) :: u32) = of_nat (reg s b) XOR 2 ^ 6"
    by (simp add: r(1) disjunctive_add_eq_xor [symmetric])
  then show ?thesis using one_in [OF p] unfolding out_bit_def by (simp add: out_word_xor)
qed

lemma popcount_half: "popcount w = of_bool (odd w) + popcount (drop_bit 1 w)" for w :: "'a::len word"
proof -
  obtain m where m: "LENGTH('a) = Suc m" using gr0_implies_Suc [OF len_gt_0] by blast
  have "popcount w = (\<Sum>i = 0..<Suc m. of_bool (bit w i))" by (simp add: popcount_def m del: sum_of_bool_eq)
  also have "\<dots> = of_bool (odd w) + (\<Sum>i = 0..<m. of_bool (bit w (Suc i)))"
    by (simp add: sum.atLeast0_lessThan_Suc_shift bit_0 del: sum_of_bool_eq sum.op_ivl_Suc)
  also have "(\<Sum>i = 0..<m. of_bool (bit w (Suc i)) :: nat) = (\<Sum>i = 0..<m. of_bool (bit (drop_bit 1 w) i))"
    by (simp add: bit_drop_bit_eq del: sum_of_bool_eq)
  also have "\<dots> = (\<Sum>i = 0..<Suc m. of_bool (bit (drop_bit 1 w) i))"
    using m bit_imp_le_length [of w "Suc m"] by (auto simp: bit_drop_bit_eq simp del: sum_of_bool_eq)
  also have "\<dots> = popcount (drop_bit 1 w)" by (simp add: popcount_def m del: sum_of_bool_eq)
  finally show ?thesis .
qed

lemma partab_count_popcount: "partab_count (unat w) c = c + popcount w" for w :: "'a::len word"
proof (induction "unat w" arbitrary: w c rule: less_induct)
  case less
  show ?case
  proof (cases "w = 0")
    case True
    then show ?thesis by (simp add: partab_count.simps)
  next
    case False
    have u: "drop_bit 1 (unat w) = unat (drop_bit 1 w)" by (simp add: unat_drop_bit_eq)
    have h: "n div 2 ^ 1 < n" if "0 < n" for n :: nat using that by simp
    have "0 < unat w" using False by (simp add: unat_gt_0)
    then have "drop_bit 1 (unat w) < unat w" unfolding drop_bit_eq_div by (rule h)
    then have "unat (drop_bit 1 w) < unat w" by (simp only: u)
    moreover have "odd (unat w) \<longleftrightarrow> odd w" by (simp only: bit_0 [symmetric] bit_unsigned_iff) simp
    ultimately show ?thesis
      using less [of "drop_bit 1 w"] False u popcount_half [of w] by (subst partab_count.simps) (simp add: unat_eq_0 bit_0)
  qed
qed

lemma parityb_popcount: "parityb x = of_bool (odd (popcount x))"
proof -
  have "unat x < 256" using unsigned_less [of x, where ?'a = nat] by simp
  then have "parityb x = of_nat (popcount x) AND 1"
    using partab_count_popcount [of x 0] by (simp add: parityb_def Partab_def)
  also have "\<dots> = of_bool (odd (popcount x))" by (rule bit_word_eqI) (auto simp: bit_simps bit_of_nat_u8 bit_0)
  finally show ?thesis .
qed

lemma parity_small:
  assumes "unat w < 128"
  shows "parity w = of_bool (odd (popcount w))"
proof -
  have n: "\<not> bit w i" if "7 \<le> i" for i
  proof -
    have "take_bit 7 (unat w) = unat w" using assms by (simp add: take_bit_nat_eq_self_iff)
    then have "\<not> bit (unat w) i" using that by (metis bit_take_bit_iff leD)
    then show ?thesis by (simp add: bit_unsigned_iff)
  qed
  have z: "signed_drop_bit 16 w = 0" "signed_drop_bit 8 w = 0"
    by (rule bit_eqI; simp add: bit_signed_drop_bit_iff n)+
  have "unat (ucast w :: u8) = unat w" using assms by (simp add: unsigned_ucast_eq take_bit_nat_eq_self)
  then have "popcount (ucast w :: u8) = popcount w"
    using partab_count_popcount [of w 0] partab_count_popcount [of "ucast w :: u8" 0] by simp
  then show ?thesis by (simp add: parity_def z parityb_popcount)
qed

lemma branch_sign_out: "poly_ok p \<Longrightarrow> s < 32 \<Longrightarrow> branch_sign p s = (if out_bit p s False then 255 else 0)"
proof -
  assume p: "poly_ok p" and s: "s < 32"
  let ?w = "of_nat (2 * s) AND iabs p"
  have "?w \<le> iabs p" by (simp add: word_and_le1)
  then have "unat ?w < 128" using p by (simp add: poly_ok_def word_le_nat_alt)
  then show ?thesis
    by (auto simp: branch_sign_def parity_small out_bit_def out_word_def reg_def)
qed

lemma branch_cost_le: "branch_cost p0 p1 s b y \<le> 510"
  using sym_cost_bounds(1) [of "fst y" "out_bit p0 s b"] sym_cost_bounds(1) [of "snd y" "out_bit p1 s b"]
  by (simp add: branch_cost_def)

lemma bit_next_state: "bit (next_state p b) i \<longleftrightarrow> i < 6 \<and> (if i = 0 then b else bit p (i - 1))"
proof -
  have "next_state p b = take_bit 6 (2 * p + of_bool b)" by (simp add: next_state_def reg_def take_bit_eq_mod)
  then have "bit (next_state p b) i \<longleftrightarrow> i < 6 \<and> bit (2 * p + of_bool b) i" by (simp only: bit_take_bit_iff)
  also have "bit (2 * p + of_bool b) i \<longleftrightarrow> (if i = 0 then b else bit p (i - 1))" by (cases i) (auto simp: bit_0 bit_Suc)
  finally show ?thesis .
qed

section \<open>Paths\<close>

text \<open>
  The latest input and the latest symbols stand first. \<open>rcost\<close> is the cost of a path: the initial metric of the state it
  starts in and the costs of its branches; \<open>dist\<close> is the dynamic programme that the decoder runs.
\<close>

fun rstate :: "nat \<Rightarrow> bool list \<Rightarrow> nat" where
  "rstate s [] = s"
| "rstate s (b # bs) = next_state (rstate s bs) b"

fun rcost :: "(nat \<Rightarrow> bool \<Rightarrow> 'y \<Rightarrow> nat) \<Rightarrow> (nat \<Rightarrow> nat) \<Rightarrow> nat \<Rightarrow> bool list \<Rightarrow> 'y list \<Rightarrow> nat" where
  "rcost br f s (b # bs) (y # ys) = rcost br f s bs ys + br (rstate s bs) b y"
| "rcost br f s bs ys = f s"

fun dist :: "(nat \<Rightarrow> bool \<Rightarrow> 'y \<Rightarrow> nat) \<Rightarrow> (nat \<Rightarrow> nat) \<Rightarrow> 'y list \<Rightarrow> nat \<Rightarrow> nat" where
  "dist br f [] t = f t"
| "dist br f (y # ys) t =
     min (dist br f ys (t div 2) + br (t div 2) (odd t) y) (dist br f ys (t div 2 + 32) + br (t div 2 + 32) (odd t) y)"

text \<open>The decision for a state: the path over the second predecessor is strictly cheaper.\<close>

definition decision :: "(nat \<Rightarrow> bool \<Rightarrow> 'y \<Rightarrow> nat) \<Rightarrow> (nat \<Rightarrow> nat) \<Rightarrow> 'y list \<Rightarrow> 'y \<Rightarrow> nat \<Rightarrow> bool" where
  "decision br f ys y t \<longleftrightarrow>
     dist br f ys (t div 2 + 32) + br (t div 2 + 32) (odd t) y < dist br f ys (t div 2) + br (t div 2) (odd t) y"

fun survivor :: "(nat \<Rightarrow> bool \<Rightarrow> 'y \<Rightarrow> nat) \<Rightarrow> (nat \<Rightarrow> nat) \<Rightarrow> 'y list \<Rightarrow> nat \<Rightarrow> nat \<times> bool list" where
  "survivor br f [] t = (t, [])"
| "survivor br f (y # ys) t =
     (let (s, bs) = survivor br f ys (t div 2 + (if decision br f ys y t then 32 else 0)) in (s, odd t # bs))"

lemma next_state_less [simp]: "next_state s b < 64"
  by (simp add: next_state_def)

lemma rstate_less [simp]: "s < 64 \<Longrightarrow> rstate s bs < 64"
  by (cases bs) simp_all

lemma next_state_pred:
  "t < 64 \<Longrightarrow> next_state (t div 2) (odd t) = t" "t < 64 \<Longrightarrow> next_state (t div 2 + 32) (odd t) = t"
proof -
  have r: "reg (t div 2) (odd t) = t" "reg (t div 2 + 32) b = reg (t div 2) b + 64" for b
    by (simp_all add: reg_def odd_two_times_div_two_succ)
  show "t < 64 \<Longrightarrow> next_state (t div 2) (odd t) = t" "t < 64 \<Longrightarrow> next_state (t div 2 + 32) (odd t) = t"
    unfolding next_state_def r by simp_all
qed

lemma next_state_cases: "s < 64 \<Longrightarrow> odd (next_state s b) = b \<and> (s = next_state s b div 2 \<or> s = next_state s b div 2 + 32)"
  by (cases b; cases "s < 32") (auto simp: next_state_def reg_def mod_if)

text \<open>The programme computes the least cost, and the survivor is a path that has it.\<close>

lemma dist_le: "s < 64 \<Longrightarrow> length bs = length ys \<Longrightarrow> dist br f ys (rstate s bs) \<le> rcost br f s bs ys"
proof (induction bs arbitrary: ys)
  case (Cons b bs)
  then obtain y ys' where ys: "ys = y # ys'" by (cases ys) auto
  let ?p = "rstate s bs"
  have "dist br f ys' ?p \<le> rcost br f s bs ys'" using Cons ys by simp
  moreover have "odd (next_state ?p b) = b" "?p = next_state ?p b div 2 \<or> ?p = next_state ?p b div 2 + 32"
    using next_state_cases [of ?p b] Cons.prems by auto
  then have "dist br f ys (next_state ?p b) \<le> dist br f ys' ?p + br ?p b y"
    unfolding ys dist.simps by (elim disjE) (simp_all only: min.cobounded1 min.cobounded2)
  ultimately show ?case by (simp add: ys)
qed simp

lemma survivor_path:
  "t < 64 \<Longrightarrow> survivor br f ys t = (s, bs) \<Longrightarrow> s < 64 \<and> length bs = length ys \<and> rstate s bs = t \<and> rcost br f s bs ys = dist br f ys t"
proof (induction ys arbitrary: t bs)
  case (Cons y ys)
  define p where "p = t div 2 + (if decision br f ys y t then 32 else 0)"
  have "t div 2 < 32" using Cons.prems(1) by presburger
  then have p: "p < 64" by (simp add: p_def)
  obtain s' bs' where r: "survivor br f ys p = (s', bs')" by fastforce
  then have s: "s' = s" "bs = odd t # bs'" using Cons.prems(2) by (simp_all add: p_def [symmetric])
  have "next_state p (odd t) = t" using next_state_pred Cons.prems(1) by (simp add: p_def)
  moreover have "dist br f (y # ys) t = dist br f ys p + br p (odd t) y"
    by (auto simp: p_def decision_def)
  ultimately show ?case using Cons.IH [OF p r [unfolded s(1)]] s by simp
qed simp

section \<open>What an update computes\<close>

lemma sint_diff_less:
  fixes x y :: u32
  assumes "unat x < 2 ^ 31" "unat y < 2 ^ 31"
  shows "0 < sint (x - y) \<longleftrightarrow> unat y < unat x"
proof -
  have p: "sint w = int (unat w)" if "unat w < 2 ^ 31" for w :: u32
  proof -
    have "int (unat w) < int (2 ^ 31)" using that by (simp only: of_nat_less_iff)
    then have "- (2 ^ 31) \<le> uint w" "uint w < 2 ^ 31"
      by (simp_all add: order_trans [OF _ uint_ge_0])
    then show ?thesis by (simp add: sint_uint signed_take_bit_int_eq_self)
  qed
  have "sint (x - y) = signed_take_bit 31 (sint x - sint y)" by (simp add: sint_word_ariths(2))
  also have "\<dots> = sint x - sint y"
  proof (rule signed_take_bit_int_eq_self)
    have "int (unat x) < 2 ^ 31" "int (unat y) < 2 ^ 31" using assms by (simp_all only: of_nat_less_numeral_power_cancel_iff)
    then show "- (2 ^ 31) \<le> sint x - sint y" "sint x - sint y < 2 ^ 31"
      unfolding p [OF assms(1)] p [OF assms(2)] by linarith+
  qed
  finally have "0 < sint (x - y) \<longleftrightarrow> 0 < int (unat x) - int (unat y)" by (simp only: p [OF assms(1)] p [OF assms(2)])
  then show ?thesis by linarith
qed

text \<open>The metric of the state \<open>j\<close> on the way over a predecessor, as a word, and the update of one state.\<close>

definition via :: "u32 \<Rightarrow> u32 \<Rightarrow> u8 \<times> u8 \<Rightarrow> u32 list \<Rightarrow> nat \<Rightarrow> bool \<Rightarrow> u32" where
  "via p0 p1 y old p b = old ! p + of_nat (branch_cost p0 p1 p b y)"

definition put_state :: "(nat \<Rightarrow> u32) \<Rightarrow> (nat \<Rightarrow> bool) \<Rightarrow> nat \<Rightarrow> u32 list \<times> u64 list \<Rightarrow> u32 list \<times> u64 list" where
  "put_state N D j = (\<lambda>(new, w). (new[j := N j], w[j div 32 := w ! (j div 32) OR push_bit (j mod 32) (of_bool (D j))]))"

lemma xor_sign: "unat ((if c then 255 else 0) XOR y :: u8) = sym_cost y c"
proof -
  have m: "(255 :: u8) = - 1" by simp
  have "255 XOR y = NOT y" unfolding m by simp
  moreover have "NOT y = 255 - y" unfolding m by (simp add: not_eq_complement)
  then have "unat (NOT y) = 255 - unat y" using unat_sub [of y 255] word_n1_ge [of y, folded m] by simp
  ultimately show ?thesis by (simp add: sym_cost_def)
qed

section \<open>Distances in the code\<close>

definition ccsds_polys :: "u32 \<Rightarrow> u32 \<Rightarrow> bool" where
  "ccsds_polys p0 p1 \<longleftrightarrow> iabs p0 = 0x4f \<and> iabs p1 = 0x6d \<or> iabs p0 = 0x6d \<and> iabs p1 = 0x4f"

definition branch_weight :: "nat \<Rightarrow> bool \<Rightarrow> nat" where
  "branch_weight d b = of_bool (b \<noteq> (bit d 0 \<noteq> (bit d 1 \<noteq> (bit d 2 \<noteq> bit d 5)))) + of_bool (b \<noteq> (bit d 1 \<noteq> (bit d 2 \<noteq> (bit d 4 \<noteq> bit d 5))))"

definition near_zero :: "nat list" where
  "near_zero = [0, 8, 7, 7, 5, 7, 6, 6, 3, 5, 6, 6, 6, 6, 5, 7, 3, 7, 4, 6, 6, 6, 5, 7, 4, 6, 7, 5, 5, 7, 6, 6,
     2, 8, 5, 7, 3, 7, 6, 6, 5, 5, 6, 6, 4, 6, 7, 7, 3, 5, 4, 6, 6, 6, 5, 7, 4, 4, 7, 7, 5, 7, 6, 6]"

definition near_zero_one :: "nat list" where
  "near_zero_one = [10, 8, 7, 7, 5, 7, 6, 6, 9, 7, 6, 8, 6, 6, 5, 7, 9, 7, 8, 6, 6, 6, 7, 7, 6, 6, 7, 7, 5, 7, 6, 6,
     8, 8, 5, 7, 7, 7, 6, 6, 7, 7, 6, 8, 6, 6, 7, 7, 9, 5, 8, 6, 6, 6, 7, 7, 6, 8, 7, 7, 5, 7, 6, 6]"

text \<open>A potential on the states that are not zero: two sevenths of a unit are gained with every branch between them.\<close>

definition away :: "nat list" where
  "away = [10, 8, 10, 10, 6, 8, 10, 10, 8, 4, 10, 10, 8, 5, 7, 7, 6, 7, 9, 9, 4, 8, 8, 8, 8, 6, 10, 10, 5, 2, 10, 10,
     10, 10, 8, 5, 10, 10, 7, 2, 9, 9, 6, 3, 10, 10, 4, 6, 10, 10, 8, 4, 5, 5, 8, 6, 10, 10, 0, 8, 10, 10, 6, 8]"

definition near_ok :: "nat \<Rightarrow> bool" where
  "near_ok d \<longleftrightarrow>
     near_zero ! d \<le> branch_weight d False + near_zero ! next_state d False \<and>
     near_zero ! d \<le> branch_weight d True + near_zero ! next_state d True \<and>
     near_zero_one ! d \<le> branch_weight d False + near_zero_one ! next_state d False \<and>
     near_zero_one ! d \<le> branch_weight d True + near_zero ! next_state d True \<and> 5 \<le> near_zero_one ! d"

definition away_ok :: "nat \<Rightarrow> bool" where
  "away_ok d \<longleftrightarrow> away ! d \<le> 10 \<and> (d = 0 \<or>
     (next_state d False = 0 \<or> 2 + away ! next_state d False \<le> 7 * branch_weight d False + away ! d) \<and>
     (next_state d True = 0 \<or> 2 + away ! next_state d True \<le> 7 * branch_weight d True + away ! d))"

lemma upt_64: "[0..<64] = [0, 1, 2, 3, 4, 5, 6, 7, 8, 9, 10, 11, 12, 13, 14, 15, 16, 17, 18, 19, 20, 21, 22, 23, 24, 25, 26, 27, 28, 29, 30, 31, 32, 33, 34, 35, 36, 37, 38, 39, 40, 41, 42, 43, 44, 45, 46, 47, 48, 49, 50, 51, 52, 53, 54, 55, 56, 57, 58, 59, 60, 61, 62, 63]"
  by (simp add: upt_rec)

lemma tables_ok: "\<forall>d \<in> set [0..<64]. near_ok d" "\<forall>d \<in> set [0..<64]. away_ok d"
  unfolding upt_64 list.set ball_simps
  by (intro conjI TrueI; simp add: near_ok_def away_ok_def near_zero_def near_zero_one_def away_def branch_weight_def next_state_def reg_def bit_Suc_0_iff)+

section \<open>Paths in the order of time\<close>

fun fstate :: "nat \<Rightarrow> bool list \<Rightarrow> nat" where
  "fstate s [] = s"
| "fstate s (b # bs) = fstate (next_state s b) bs"

fun path_cost :: "(nat \<Rightarrow> bool \<Rightarrow> 'y \<Rightarrow> nat) \<Rightarrow> nat \<Rightarrow> bool list \<Rightarrow> 'y list \<Rightarrow> nat" where
  "path_cost br s (b # bs) (y # ys) = br s b y + path_cost br (next_state s b) bs ys"
| "path_cost br s bs ys = 0"

lemma fstate_append: "fstate s (xs @ ys) = fstate (fstate s xs) ys"
  by (induction xs arbitrary: s) simp_all

lemma fstate_less [simp]: "s < 64 \<Longrightarrow> fstate s bs < 64"
  by (induction bs arbitrary: s) simp_all

lemma path_cost_append:
  "length bs = length ys \<Longrightarrow> path_cost br s (bs @ bs') (ys @ ys') = path_cost br s bs ys + path_cost br (fstate s bs) bs' ys'"
  by (induction bs ys arbitrary: s rule: list_induct2) simp_all

lemma rstate_rev: "rstate s (rev bs) = fstate s bs"
proof -
  have a: "rstate s (rs @ [b]) = rstate (next_state s b) rs" for rs b s by (induction rs) simp_all
  show ?thesis by (induction bs arbitrary: s) (simp_all add: a)
qed

lemma rcost_rev:
  "length bs = length ys \<Longrightarrow> rcost br f s (rev bs) (rev ys) = f s + path_cost br s bs ys"
proof (induction bs ys arbitrary: s f rule: list_induct2)
  case (Cons b bs y ys)
  have a: "length rs = length rys \<Longrightarrow>
      rcost br f s (rs @ [b]) (rys @ [y]) = rcost br (\<lambda>_. f s + br s b y) (next_state s b) rs rys" for rs rys
  proof (induction rs rys rule: list_induct2)
    case (Cons x xs z zs)
    have "rstate s (xs @ [b]) = rstate (next_state s b) xs" by (induction xs) simp_all
    then show ?case using Cons.IH by simp
  qed simp
  show ?case using a [of "rev bs" "rev ys"] Cons.IH [of "\<lambda>_. f s + br s b y" "next_state s b"] Cons.hyps by simp
qed simp

section \<open>Two paths\<close>

definition differences :: "bool list \<Rightarrow> bool list \<Rightarrow> bool list" where
  "differences bs bs' = map (\<lambda>(b, b'). b \<noteq> b') (zip bs bs')"

fun weight27 :: "nat \<Rightarrow> bool list \<Rightarrow> nat" where
  "weight27 d [] = 0"
| "weight27 d (b # bs) = branch_weight d b + weight27 (next_state d b) bs"

lemma differences_simps [simp]:
  "differences [] bs = []" "differences (b # bs) (b' # bs') = (b \<noteq> b') # differences bs bs'"
  by (simp_all add: differences_def)

lemma length_differences [simp]: "length bs = length bs' \<Longrightarrow> length (differences bs bs') = length bs"
  by (simp add: differences_def)

lemma take_differences: "take k (differences bs bs') = differences (take k bs) (take k bs')"
  by (simp add: differences_def take_map take_zip)

lemma drop_differences: "drop k (differences bs bs') = differences (drop k bs) (drop k bs')"
  by (simp add: differences_def drop_map drop_zip)

lemma no_differences: "length bs = length bs' \<Longrightarrow> True \<notin> set (differences bs bs') \<Longrightarrow> bs = bs'"
  by (induction bs bs' rule: list_induct2) auto

lemma next_state_xor: "next_state (s XOR s') (b \<noteq> b') = next_state s b XOR next_state s' b'"
  by (rule bit_eqI) (auto simp: bit_next_state bit_xor_iff)

lemma fstate_xor:
  "length bs = length bs' \<Longrightarrow> fstate (s XOR s') (differences bs bs') = fstate s bs XOR fstate s' bs'"
proof (induction bs bs' arbitrary: s s' rule: list_induct2)
  case (Cons b bs b' bs')
  show ?case by (simp only: differences_simps fstate.simps next_state_xor Cons.IH)
qed simp

lemma bit_reg: "bit (of_nat (reg d b) :: u32) i \<longleftrightarrow> i < 32 \<and> (if i = 0 then b else bit d (i - 1))"
proof -
  have "bit (reg d b) i \<longleftrightarrow> (if i = 0 then b else bit d (i - 1))"
    unfolding reg_def by (cases i) (auto simp: bit_0 bit_Suc)
  moreover have "bit (of_nat k :: u32) i \<longleftrightarrow> i < 32 \<and> bit k i" for k
    by transfer (simp add: bit_take_bit_iff bit_of_nat_iff_bit)
  ultimately show ?thesis by simp
qed

lemma odd_and_xor: "odd (popcount (w AND (a XOR b))) \<longleftrightarrow> odd (popcount (w AND a)) \<noteq> odd (popcount (w AND b))" for w a b :: u32
proof -
  have "w AND (a XOR b) = (w AND a) XOR (w AND b)" by (rule bit_eqI) (auto simp: bit_simps)
  then show ?thesis by (simp add: odd_popcount_xor)
qed

lemma odd_and_exp: "n < 32 \<Longrightarrow> odd (popcount (w AND 2 ^ n)) \<longleftrightarrow> bit w n" for w :: u32
  using popcount_bit [of n] and_exp_bit [of n w] by (simp add: and.commute)

lemma odd_polys:
  "odd (popcount (of_nat (reg d b) AND 0x4f :: u32)) \<longleftrightarrow> (b \<noteq> (bit d 0 \<noteq> (bit d 1 \<noteq> (bit d 2 \<noteq> bit d 5))))"
  "odd (popcount (of_nat (reg d b) AND 0x6d :: u32)) \<longleftrightarrow> (b \<noteq> (bit d 1 \<noteq> (bit d 2 \<noteq> (bit d 4 \<noteq> bit d 5))))"
proof -
  have "(0x4f :: u32) = 2 ^ 0 XOR (2 ^ 1 XOR (2 ^ 2 XOR (2 ^ 3 XOR 2 ^ 6)))" "(0x6d :: u32) = 2 ^ 0 XOR (2 ^ 2 XOR (2 ^ 3 XOR (2 ^ 5 XOR 2 ^ 6)))"
    by simp_all
  then show "odd (popcount (of_nat (reg d b) AND 0x4f :: u32)) \<longleftrightarrow> (b \<noteq> (bit d 0 \<noteq> (bit d 1 \<noteq> (bit d 2 \<noteq> bit d 5))))"
    "odd (popcount (of_nat (reg d b) AND 0x6d :: u32)) \<longleftrightarrow> (b \<noteq> (bit d 1 \<noteq> (bit d 2 \<noteq> (bit d 4 \<noteq> bit d 5))))"
    by (simp_all only: odd_and_xor odd_and_exp bit_reg) simp_all
qed

lemma out_bit_differs:
  "out_bit p s b \<noteq> out_bit p s' b' \<longleftrightarrow> odd (popcount (of_nat (reg (s XOR s') (b \<noteq> b')) AND iabs p :: u32))"
proof -
  have "(of_nat (reg (s XOR s') (b \<noteq> b')) :: u32) = of_nat (reg s b) XOR of_nat (reg s' b')"
    by (rule bit_eqI) (auto simp: bit_reg bit_xor_iff)
  then have "of_nat (reg (s XOR s') (b \<noteq> b')) AND iabs p = (of_nat (reg s b) AND iabs p) XOR (of_nat (reg s' b') AND iabs p)"
    by (auto intro!: bit_eqI simp: bit_simps)
  then show ?thesis by (auto simp: out_bit_def out_word_def odd_popcount_xor)
qed

lemma branch_triangle:
  assumes "ccsds_polys p0 p1"
  shows "255 * branch_weight (s XOR s') (b \<noteq> b') \<le> branch_cost p0 p1 s b y + branch_cost p0 p1 s' b' y"
proof -
  have c: "255 * of_bool (c \<noteq> c') \<le> sym_cost z c + sym_cost z c'" for c c' z
    using sym_cost_bounds [of z c] by (cases c'; cases c) auto
  have "branch_weight (s XOR s') (b \<noteq> b') = of_bool (out_bit p0 s b \<noteq> out_bit p0 s' b') + of_bool (out_bit p1 s b \<noteq> out_bit p1 s' b')"
    using assms unfolding ccsds_polys_def out_bit_differs branch_weight_def
    by (elim disjE conjE) (simp_all only: odd_polys add.commute)
  then show ?thesis
    using c [of "out_bit p0 s b" "out_bit p0 s' b'" "fst y"] c [of "out_bit p1 s b" "out_bit p1 s' b'" "snd y"]
    by (simp only: branch_cost_def add_mult_distrib2)
qed

lemma path_triangle:
  assumes "ccsds_polys p0 p1"
  shows "length bs = length bs' \<Longrightarrow> length bs' = length ys \<Longrightarrow>
    255 * weight27 (s XOR s') (differences bs bs') \<le> path_cost (branch_cost p0 p1) s bs ys + path_cost (branch_cost p0 p1) s' bs' ys"
proof (induction bs bs' ys arbitrary: s s' rule: list_induct3)
  case (Cons b bs b' bs' y ys)
  have h: "x \<le> c + d \<Longrightarrow> y \<le> e + f \<Longrightarrow> y + x \<le> e + c + (f + d)" for x c d y e f :: nat by simp
  show ?case
    unfolding differences_simps weight27.simps path_cost.simps next_state_xor add_mult_distrib2
    by (rule h [OF Cons.IH branch_triangle [OF assms]])
qed simp

lemma near_zero_weight:
  assumes "d < 64" "fstate d bs = 0"
  shows "near_zero ! d \<le> weight27 d bs" "True \<in> set bs \<Longrightarrow> near_zero_one ! d \<le> weight27 d bs"
proof -
  have t: "near_ok d" if "d < 64" for d using tables_ok(1) that by simp
  have "near_zero ! d \<le> weight27 d bs \<and> (True \<in> set bs \<longrightarrow> near_zero_one ! d \<le> weight27 d bs)" using assms
  proof (induction bs arbitrary: d)
    case (Cons b bs)
    have "near_zero ! next_state d b \<le> weight27 (next_state d b) bs"
      "True \<in> set bs \<Longrightarrow> near_zero_one ! next_state d b \<le> weight27 (next_state d b) bs"
      using Cons.IH [of "next_state d b"] Cons.prems by simp_all
    then show ?case using t [OF Cons.prems(1)] by (cases b) (force simp: near_ok_def)+
  qed (simp add: near_zero_def)
  then show "near_zero ! d \<le> weight27 d bs" "True \<in> set bs \<Longrightarrow> near_zero_one ! d \<le> weight27 d bs" by simp_all
qed

lemma away_weight:
  assumes "d < 64" "\<And>i. i \<le> length bs \<Longrightarrow> fstate d (take i bs) \<noteq> 0"
  shows "2 * length bs \<le> 7 * weight27 d bs + away ! d"
proof -
  have t: "away_ok d" if "d < 64" for d using tables_ok(2) that by simp
  have "2 * length bs + away ! fstate d bs \<le> 7 * weight27 d bs + away ! d" using assms
  proof (induction bs arbitrary: d)
    case (Cons b bs)
    have z: "d \<noteq> 0" "next_state d b \<noteq> 0" using Cons.prems(2) [of 0] Cons.prems(2) [of 1] by simp_all
    have "fstate (next_state d b) (take i bs) \<noteq> 0" if "i \<le> length bs" for i
      using Cons.prems(2) [of "Suc i"] that by simp
    then show ?case using t [OF Cons.prems(1)] z Cons.IH [of "next_state d b"] by (cases b) (auto simp: away_ok_def)
  qed simp
  then show ?thesis by simp
qed

section \<open>The encoder\<close>

text \<open>The encoder, and its bits as soft symbols of a given strength.\<close>

fun encode27 :: "u32 \<Rightarrow> u32 \<Rightarrow> nat \<Rightarrow> bool list \<Rightarrow> (bool \<times> bool) list" where
  "encode27 p0 p1 s [] = []"
| "encode27 p0 p1 s (b # bs) = (out_bit p0 s b, out_bit p1 s b) # encode27 p0 p1 (next_state s b) bs"

definition soft :: "u8 \<Rightarrow> bool \<times> bool \<Rightarrow> u8 \<times> u8" where
  "soft r c = ((if fst c then 255 - r else r), (if snd c then 255 - r else r))"

lemma length_encode27 [simp]: "length (encode27 p0 p1 s bs) = length bs"
  by (induction bs arbitrary: s) simp_all

lemma sym_cost_soft: "sym_cost (if c then 255 - r else r) c = unat r"
proof -
  have m: "(255 :: u8) = - 1" by simp
  have "r \<le> 255" unfolding m by (rule word_n1_ge)
  then have "unat (255 - r) = 255 - unat r" using unat_sub [of r 255] by simp
  moreover have "unat r \<le> 255" using unsigned_less [of r, where ?'a = nat] by simp
  ultimately show ?thesis by (simp add: sym_cost_def)
qed

lemma path_cost_soft: "path_cost (branch_cost p0 p1) s bs (map (soft r) (encode27 p0 p1 s bs)) = 2 * unat r * length bs"
  by (induction bs arbitrary: s) (simp_all add: branch_cost_def soft_def sym_cost_soft)

lemma path_cost_bound: "length bs = length ys \<Longrightarrow> path_cost (branch_cost p0 p1) s bs ys \<le> 510 * length bs"
proof (induction bs ys arbitrary: s rule: list_induct2)
  case (Cons b bs y ys)
  then show ?case using add_mono [OF branch_cost_le [of p0 p1 s b y] Cons.IH [of "next_state s b"]] by simp
qed simp

lemma encode27_append: "encode27 p0 p1 s (xs @ ys) = encode27 p0 p1 s xs @ encode27 p0 p1 (fstate s xs) ys"
  by (induction xs arbitrary: s) simp_all

end
