(* ===== verification/Viterbi27_Decoder.thy ===== *)
theory Viterbi27_Decoder
  imports Viterbi27_Code
begin

text \<open>
  The decoder against the code: its metrics are the costs of the cheapest paths, its decisions their last branches, a
  chainback returns the inputs of such a path. A block with its tail is decoded to a most likely path, and exactly, if the noise is
  less than half of the free distance.
\<close>

unbundle bit_operations_syntax

definition tabs_ok :: "u32 \<Rightarrow> u32 \<Rightarrow> v27_globals \<Rightarrow> bool" where
  "tabs_ok p0 p1 g \<longleftrightarrow> poly_ok p0 \<and> poly_ok p1 \<and>
     Branchtab27 g = [map (branch_sign p0) [0..<32], map (branch_sign p1) [0..<32]]"

lemma tabs_okI: "poly_ok p0 \<Longrightarrow> poly_ok p1 \<Longrightarrow> tabs_ok p0 p1 (set_viterbi27_polynomial_port p0 p1 g)"
  by (simp add: tabs_ok_def set_viterbi27_polynomial_port_def)

text \<open>The two words that a state is reached with, and the decision between them.\<close>

definition new_metric :: "u32 \<Rightarrow> u32 \<Rightarrow> u8 \<times> u8 \<Rightarrow> u32 list \<Rightarrow> nat \<Rightarrow> u32" where
  "new_metric p0 p1 y old t =
     (if 0 < sint (via p0 p1 y old (t div 2) (odd t) - via p0 p1 y old (t div 2 + 32) (odd t))
      then via p0 p1 y old (t div 2 + 32) (odd t) else via p0 p1 y old (t div 2) (odd t))"

definition new_decision :: "u32 \<Rightarrow> u32 \<Rightarrow> u8 \<times> u8 \<Rightarrow> u32 list \<Rightarrow> nat \<Rightarrow> bool" where
  "new_decision p0 p1 y old t \<longleftrightarrow> 0 < sint (via p0 p1 y old (t div 2) (odd t) - via p0 p1 y old (t div 2 + 32) (odd t))"

lemma branch_cost_cases:
  assumes "poly_ok p0" "poly_ok p1" "i < 32"
  shows "branch_cost p0 p1 i False y \<le> 510" "branch_cost p0 p1 (i + 32) False y = 510 - branch_cost p0 p1 i False y"
    "branch_cost p0 p1 i True y = 510 - branch_cost p0 p1 i False y" "branch_cost p0 p1 (i + 32) True y = branch_cost p0 p1 i False y"
  using assms sym_cost_bounds [of "fst y" "out_bit p0 i False"] sym_cost_bounds [of "snd y" "out_bit p1 i False"]
  by (simp_all add: branch_cost_def out_bit_newest out_bit_oldest)

lemma bfly_put:
  assumes "tabs_ok p0 p1 g" "i < 32"
  shows "bfly g (fst y) (snd y) old i x =
    put_state (new_metric p0 p1 y old) (new_decision p0 p1 y old) (2 * i + 1)
      (put_state (new_metric p0 p1 y old) (new_decision p0 p1 y old) (2 * i) x)"
proof -
  let ?c = "branch_cost p0 p1 i False y"
  note ok = assms(1)[unfolded tabs_ok_def]
  define metric where "metric = (ucast (Branchtab27 g ! 0 ! i XOR fst y) + ucast (Branchtab27 g ! 1 ! i XOR snd y) :: u32)"
  have u: "ucast v = (of_nat (unat v) :: u32)" for v :: u8 by simp
  have m: "metric = of_nat ?c"
    using ok assms(2) unfolding metric_def u
    by (simp add: branch_sign_out xor_sign branch_cost_def del: of_nat_unat)
  note c = branch_cost_cases [OF conjunct1 [OF ok] conjunct1 [OF conjunct2 [OF ok]] assms(2), of y]
  have m': "510 - metric = of_nat (510 - ?c)" using c(1) by (simp add: m of_nat_diff)
  have v: "via p0 p1 y old i False = old ! i + metric" "via p0 p1 y old (i + 32) False = old ! (i + 32) + (510 - metric)"
    "via p0 p1 y old i True = old ! i + metric - (metric + metric - 510)"
    "via p0 p1 y old (i + 32) True = old ! (i + 32) + (510 - metric) + (metric + metric - 510)"
    unfolding via_def c m' by (simp_all add: m of_nat_diff c(1))
  have a: "j AND 31 = j mod 32" for j :: nat
    using take_bit_eq_mask [of 5 j] take_bit_eq_mod [of 5 j] by (simp add: mask_eq_exp_minus_1)
  have d: "2 * i div 32 = i div 16" "(2 * i + 1) div 32 = i div 16" "2 * i div 2 = i" "(2 * i + 1) div 2 = i" by linarith+
  show ?thesis
    unfolding bfly_def Let_def metric_def [symmetric] put_state_def new_metric_def new_decision_def d a
    by (cases x) (simp add: v)
qed

lemma put_states:
  assumes "length new = 64" "m \<le> 64"
  shows "\<exists>new' w. fold (put_state N D) [0..<m] (new, [0, 0]) = (new', w) \<and> length new' = 64 \<and> length w = 2 \<and>
    (\<forall>j < m. new' ! j = N j) \<and> (\<forall>j < 64. bit (w ! (j div 32)) (j mod 32) \<longleftrightarrow> j < m \<and> D j)"
  using assms(2)
proof (induction m)
  case 0
  have "[0, 0 :: u64] ! (j div 32) = 0" if "j < 64" for j
    using that less_2_cases [of "j div 32"] by (auto simp: less_mult_imp_div_less)
  then show ?case using assms(1) by auto
next
  case (Suc m)
  then obtain new' w where ih: "fold (put_state N D) [0..<m] (new, [0, 0]) = (new', w)" "length new' = 64" "length w = 2"
    "\<forall>j < m. new' ! j = N j" "\<And>j. j < 64 \<Longrightarrow> bit (w ! (j div 32)) (j mod 32) \<longleftrightarrow> j < m \<and> D j" by auto
  let ?w = "w[m div 32 := w ! (m div 32) OR push_bit (m mod 32) (of_bool (D m))]"
  have q: "m div 32 < length w" using Suc.prems ih(3) by (simp add: less_mult_imp_div_less)
  have "bit (?w ! (j div 32)) (j mod 32) \<longleftrightarrow> j < Suc m \<and> D j" if j: "j < 64" for j
  proof (cases "j div 32 = m div 32")
    case True
    have "j mod 32 = m mod 32 \<longleftrightarrow> j = m" using True by (metis div_mult_mod_eq)
    moreover have "bit (push_bit (m mod 32) (of_bool (D m)) :: u64) (j mod 32) \<longleftrightarrow> j mod 32 = m mod 32 \<and> D m"
    proof -
      have "j mod 32 < 64" by (rule less_trans [OF mod_less_divisor]) simp_all
      then show ?thesis by (cases "D m") (auto simp: bit_exp_iff)
    qed
    ultimately show ?thesis using True q ih(5) [OF j] by (auto simp: bit_or_iff less_Suc_eq)
  next
    case False
    then have "j \<noteq> m" by auto
    then show ?thesis using False ih(5) [OF j] by (auto simp: less_Suc_eq)
  qed
  moreover have "fold (put_state N D) [0..<Suc m] (new, [0, 0]) = (new'[m := N m], ?w)"
    using ih(1) by (simp add: put_state_def [of N D m])
  moreover have "\<forall>j < Suc m. new'[m := N m] ! j = N j" using ih(2,4) Suc.prems by (auto simp: less_Suc_eq)
  ultimately show ?case using ih(2,3) by (intro exI [of _ "new'[m := N m]"] exI [of _ ?w]) simp
qed

lemma bfly_fold:
  assumes "tabs_ok p0 p1 g" "n \<le> 32"
  shows "fold (bfly g (fst y) (snd y) old) [0..<n] x = fold (put_state (new_metric p0 p1 y old) (new_decision p0 p1 y old)) [0..<2 * n] x"
  using assms(2)
proof (induction n)
  case (Suc n)
  then show ?case using bfly_put [OF assms(1), of n y old] by simp
qed simp

text \<open>The metrics of an instance are bounded, and one bit of the update is one step of the programme.\<close>

definition v27_inv :: "v27 \<Rightarrow> bool" where
  "v27_inv vp \<longleftrightarrow> length (metrics1 vp) = 64 \<and> length (metrics2 vp) = 64"

definition metric_of :: "v27 \<Rightarrow> nat \<Rightarrow> nat" where
  "metric_of vp t = unat (old_metrics vp ! t)"

definition decided :: "u64 list \<Rightarrow> nat \<Rightarrow> bool" where
  "decided w t \<longleftrightarrow> bit (w ! (t div 32)) (t mod 32)"

lemma via_unat:
  assumes "unat (old ! p) + 510 < 2 ^ 31"
  shows "unat (via p0 p1 y old p b) = unat (old ! p) + branch_cost p0 p1 p b y"
proof -
  have "unat (of_nat (branch_cost p0 p1 p b y) :: u32) = branch_cost p0 p1 p b y"
    using branch_cost_le [of p0 p1 p b y] by (simp add: unat_of_nat)
  then show ?thesis using assms branch_cost_le [of p0 p1 p b y] unfolding via_def
    by (subst unat_add_lem [THEN iffD1]) simp_all
qed

lemma update_bit_step:
  assumes "tabs_ok p0 p1 g" "v27_inv vp" "\<And>t. t < 64 \<Longrightarrow> metric_of vp t + 510 < 2 ^ 31" "dp vp < length (decisions vp)"
  shows "\<exists>vp' w. update_bit g (fst y) (snd y) vp = Inr vp' \<and> v27_inv vp' \<and> dp vp' = dp vp + 1 \<and>
    decisions vp' = (decisions vp)[dp vp := w] \<and>
    (\<forall>t < 64. metric_of vp' t = min (metric_of vp (t div 2) + branch_cost p0 p1 (t div 2) (odd t) y)
      (metric_of vp (t div 2 + 32) + branch_cost p0 p1 (t div 2 + 32) (odd t) y)) \<and>
    (\<forall>t < 64. decided w t \<longleftrightarrow> metric_of vp (t div 2 + 32) + branch_cost p0 p1 (t div 2 + 32) (odd t) y <
      metric_of vp (t div 2) + branch_cost p0 p1 (t div 2) (odd t) y)"
proof -
  let ?old = "old_metrics vp"
  define new where "new = (if old_is_1 vp then metrics2 vp else metrics1 vp)"
  have "length new = 64" using assms(2) by (simp add: new_def v27_inv_def)
  from put_states [OF this order_refl, where N = "new_metric p0 p1 y ?old" and D = "new_decision p0 p1 y ?old"] obtain new' w where
    f: "fold (put_state (new_metric p0 p1 y ?old) (new_decision p0 p1 y ?old)) [0..<64] (new, [0, 0]) = (new', w)"
    "length new' = 64" "\<forall>j < 64. new' ! j = new_metric p0 p1 y ?old j"
    "\<forall>j < 64. decided w j \<longleftrightarrow> j < 64 \<and> new_decision p0 p1 y ?old j"
    unfolding decided_def by blast
  have e: "fold (bfly g (fst y) (snd y) ?old) [0..<32] (new, [0, 0]) =
      fold (put_state (new_metric p0 p1 y ?old) (new_decision p0 p1 y ?old)) [0..<2 * 32] (new, [0, 0])"
    by (rule bfly_fold [OF assms(1), of 32 y ?old "(new, [0, 0])", OF order_refl])
  have m: "[0..<2 * 32] = [0..<(64 :: nat)]" by (rule arg_cong) simp
  have fo: "fold (bfly g (fst y) (snd y) ?old) [0..<32] (new, [0, 0]) = (new', w)"
    using e unfolding m f(1) .
  define vp' where "vp' = (if old_is_1 vp then vp\<lparr>metrics2 := new', old_is_1 := False, dp := dp vp + 1, decisions := (decisions vp)[dp vp := w]\<rparr>
        else vp\<lparr>metrics1 := new', old_is_1 := True, dp := dp vp + 1, decisions := (decisions vp)[dp vp := w]\<rparr>)"
  have u: "update_bit g (fst y) (snd y) vp = Inr vp'"
    unfolding update_bit_def Let_def new_def [symmetric] fo prod.case buf_set_ok [OF assms(4)] res_bind_simps vp'_def ..
  have s: "old_metrics vp' = new'" "v27_inv vp'" "dp vp' = dp vp + 1" "decisions vp' = (decisions vp)[dp vp := w]"
    using assms(2) f(2) by (simp_all add: vp'_def old_metrics_def v27_inv_def)
  define a b where "a t = metric_of vp (t div 2) + branch_cost p0 p1 (t div 2) (odd t) y"
    and "b t = metric_of vp (t div 2 + 32) + branch_cost p0 p1 (t div 2 + 32) (odd t) y" for t
  have v: "unat (via p0 p1 y ?old (t div 2) (odd t)) = a t" "unat (via p0 p1 y ?old (t div 2 + 32) (odd t)) = b t"
    "a t < 2 ^ 31" "b t < 2 ^ 31" if "t < 64" for t
  proof -
    have "t div 2 < 64" "t div 2 + 32 < 64" using that by presburger+
    note m = assms(3) [OF this(1)] assms(3) [OF this(2)]
    show "unat (via p0 p1 y ?old (t div 2) (odd t)) = a t" "unat (via p0 p1 y ?old (t div 2 + 32) (odd t)) = b t"
      using m by (simp_all add: via_unat metric_of_def a_def b_def)
    show "a t < 2 ^ 31" "b t < 2 ^ 31"
      using m branch_cost_le [of p0 p1 "t div 2" "odd t" y] branch_cost_le [of p0 p1 "t div 2 + 32" "odd t" y]
      by (simp_all add: a_def b_def)
  qed
  have d: "new_decision p0 p1 y ?old t \<longleftrightarrow> b t < a t" if "t < 64" for t
    using sint_diff_less v [OF that] unfolding new_decision_def by simp
  have n: "unat (new_metric p0 p1 y ?old t) = min (a t) (b t)" if "t < 64" for t
    using d [OF that] v [OF that] unfolding new_metric_def new_decision_def [symmetric] by auto
  have "\<forall>t < 64. metric_of vp' t = min (a t) (b t)" "\<forall>t < 64. decided w t \<longleftrightarrow> b t < a t"
    using f(3,4) n d by (simp_all add: metric_of_def s(1))
  then show ?thesis using u s(2-4) unfolding a_def b_def by blast
qed

lemma dist_bound:
  assumes "\<And>t. f t \<le> 63" and "\<And>s b y. br s b y \<le> 510"
  shows "dist br f ys t \<le> 63 + 510 * length ys"
proof (induction ys arbitrary: t)
  case (Cons y ys)
  have "dist br f (y # ys) t \<le> dist br f ys (t div 2) + br (t div 2) (odd t) y" by simp
  then show ?case using Cons [of "t div 2"] assms(2) [of "t div 2" "odd t" y] by simp
qed (simp add: assms)

text \<open>An instance that has seen the symbols \<open>ys\<close>.\<close>

definition v27_at :: "u32 \<Rightarrow> u32 \<Rightarrow> (nat \<Rightarrow> nat) \<Rightarrow> (u8 \<times> u8) list \<Rightarrow> v27 \<Rightarrow> bool" where
  "v27_at p0 p1 f ys vp \<longleftrightarrow> v27_inv vp \<and> dp vp = length ys \<and> length ys \<le> length (decisions vp) \<and>
     (\<forall>t < 64. metric_of vp t = dist (branch_cost p0 p1) f (rev ys) t) \<and>
     (\<forall>i < length ys. \<forall>t < 64. decided (decisions vp ! i) t \<longleftrightarrow> decision (branch_cost p0 p1) f (rev (take i ys)) (ys ! i) t)"

fun flat :: "(u8 \<times> u8) list \<Rightarrow> u8 list" where
  "flat [] = []"
| "flat ((a, b) # ys) = a # b # flat ys"

lemma update_bit_at:
  assumes "tabs_ok p0 p1 g" "v27_at p0 p1 f ys vp" "length ys < length (decisions vp)" "\<And>t. f t \<le> 63" "63 + 510 * (length ys + 1) < (2 :: nat) ^ 31"
  shows "\<exists>vp'. update_bit g (fst y) (snd y) vp = Inr vp' \<and> v27_at p0 p1 f (ys @ [y]) vp' \<and> length (decisions vp') = length (decisions vp)"
proof -
  note at = assms(2)[unfolded v27_at_def]
  have "metric_of vp t + 510 < 2 ^ 31" if "t < 64" for t
    using at that dist_bound [of f "branch_cost p0 p1" "rev ys" t] assms(4,5) branch_cost_le by fastforce
  from update_bit_step [OF assms(1) _ this] at assms(3) obtain vp' w where
    u: "update_bit g (fst y) (snd y) vp = Inr vp'" "v27_inv vp'" "dp vp' = dp vp + 1" "decisions vp' = (decisions vp)[dp vp := w]"
    "\<forall>t < 64. metric_of vp' t = min (metric_of vp (t div 2) + branch_cost p0 p1 (t div 2) (odd t) y)
      (metric_of vp (t div 2 + 32) + branch_cost p0 p1 (t div 2 + 32) (odd t) y)"
    "\<forall>t < 64. decided w t \<longleftrightarrow> metric_of vp (t div 2 + 32) + branch_cost p0 p1 (t div 2 + 32) (odd t) y <
      metric_of vp (t div 2) + branch_cost p0 p1 (t div 2) (odd t) y"
    by (metis (no_types, lifting))
  have p: "t div 2 < 64 \<and> t div 2 + 32 < 64" if "t < 64" for t :: nat using that by presburger
  have m: "metric_of vp' t = dist (branch_cost p0 p1) f (rev (ys @ [y])) t" if "t < 64" for t
    using u(5) at p [OF that] that by simp
  have w: "decided w t \<longleftrightarrow> decision (branch_cost p0 p1) f (rev ys) y t" if "t < 64" for t
    using u(6) at p [OF that] that by (simp add: decision_def)
  have "decided (decisions vp' ! i) t \<longleftrightarrow> decision (branch_cost p0 p1) f (rev (take i (ys @ [y]))) ((ys @ [y]) ! i) t"
    if "i < length (ys @ [y])" "t < 64" for i t
  proof (cases "i = length ys")
    case True
    then show ?thesis using u(4) w [OF that(2)] at assms(3) by simp
  next
    case False
    then show ?thesis using u(4) that at by (simp add: nth_append)
  qed
  then show ?thesis using u(1-4) m at assms(3) unfolding v27_at_def by (intro exI [of _ vp']) simp
qed

lemma update_blk_at:
  assumes "tabs_ok p0 p1 g" "\<And>t. f t \<le> 63"
  shows "v27_at p0 p1 f xs vp \<Longrightarrow> length xs + length ys \<le> length (decisions vp) \<Longrightarrow> 63 + 510 * (length xs + length ys) < (2 :: nat) ^ 31 \<Longrightarrow>
    \<exists>vp'. update_viterbi27_blk_port g vp (flat ys @ rest) (length ys) = Inr vp' \<and> v27_at p0 p1 f (xs @ ys) vp' \<and>
      length (decisions vp') = length (decisions vp)"
proof (induction ys arbitrary: xs vp)
  case (Cons y ys)
  obtain vp1 where v: "update_bit g (fst y) (snd y) vp = Inr vp1" "v27_at p0 p1 f (xs @ [y]) vp1" "length (decisions vp1) = length (decisions vp)"
    using update_bit_at [OF assms(1) Cons.prems(1) _ assms(2), of y] Cons.prems(2,3) by auto
  from Cons.IH [OF v(2)] show ?case using v Cons.prems(2,3) by (cases y) simp
qed simp

lemma init_at:
  assumes "length (metrics1 vp) = 64" "length (metrics2 vp) = 64"
  shows "v27_at p0 p1 (\<lambda>t. if t = start mod 64 then 0 else 63) [] (init_viterbi27_port start vp)"
proof -
  have a: "start AND 63 = start mod 64"
    using take_bit_eq_mask [of 6 start] take_bit_eq_mod [of 6 start] by (simp add: mask_eq_exp_minus_1)
  show ?thesis
    using assms unfolding v27_at_def init_viterbi27_port_def a
    by (auto simp: v27_inv_def metric_of_def old_metrics_def nth_list_update)
qed

section \<open>What a chainback reads\<close>

lemma rstate_bits: "i < 6 \<Longrightarrow> i < length rbs \<Longrightarrow> bit (rstate s rbs) i \<longleftrightarrow> rbs ! i"
proof (induction rbs arbitrary: i)
  case (Cons b rbs)
  then show ?case by (cases i) (simp_all add: bit_next_state)
qed simp

definition byte_bits :: "u32 \<Rightarrow> bool list" where
  "byte_bits e = map (\<lambda>k. bit e (7 - k)) [0..<8]"

lemma chainback_step:
  fixes e :: u32 and w :: "u64 list"
  assumes "unat e < 256"
  defines "s \<equiv> unat (drop_bit 2 e)"
  defines "e' \<equiv> drop_bit 1 e OR push_bit 7 (ucast (drop_bit (s mod 32) (w ! (s div 32)) AND 1))"
  shows "s < 64" "unat e' < 256" "unat (drop_bit 2 e') = s div 2 + (if decided w s then 32 else 0)"
    "byte_bits e' = decided w s # butlast (byte_bits e)" "bit e' n \<longleftrightarrow> n = 7 \<and> decided w s \<or> n < 7 \<and> bit e (Suc n)"
proof -
  have "s = unat e div 2 ^ 2" unfolding s_def unat_drop_bit_eq by (rule drop_bit_eq_div)
  moreover have "m div 2 ^ 2 < 64" if "m < 256" for m :: nat using that by simp
  ultimately show s: "s < 64" using assms(1) by (simp only:)
  have eb: "\<not> bit e i" if "8 \<le> i" for i
  proof -
    have "take_bit 8 (unat e) = unat e" using assms(1) by (simp add: take_bit_nat_eq_self_iff)
    then have "\<not> bit (unat e) i" using that by (metis bit_take_bit_iff leD)
    then show ?thesis by (simp add: bit_unsigned_iff)
  qed
  show b: "bit e' n \<longleftrightarrow> n = 7 \<and> decided w s \<or> n < 7 \<and> bit e (Suc n)" for n
    using eb by (auto simp: e'_def decided_def bit_simps)
  have "take_bit 8 e' = e'" by (rule bit_eqI) (auto simp: bit_take_bit_iff b)
  then have "take_bit 8 (unat e') = unat e'" by (metis unsigned_take_bit_eq)
  then show "unat e' < 256" by (simp add: take_bit_nat_eq_self_iff)
  show "byte_bits e' = decided w s # butlast (byte_bits e)"
  proof (rule nth_equalityI)
    fix i assume "i < length (byte_bits e')"
    then have i: "i < 8" by (simp add: byte_bits_def)
    show "byte_bits e' ! i = (decided w s # butlast (byte_bits e)) ! i"
    proof (cases i)
      case (Suc m)
      moreover have "Suc (7 - Suc m) = 7 - m" "m < 7" using i Suc by simp_all
      ultimately show ?thesis unfolding byte_bits_def using i by (auto simp: b nth_butlast)
    qed (simp add: byte_bits_def b)
  qed (simp add: byte_bits_def)
  have sb: "\<not> bit s i" if "6 \<le> i" for i
  proof -
    have "take_bit 6 s = s" using s by (simp add: take_bit_nat_eq_self_iff)
    then show ?thesis using that by (metis bit_take_bit_iff leD)
  qed
  have "unat (drop_bit 2 e') = drop_bit 1 s OR push_bit 5 (of_bool (decided w s))"
  proof (rule bit_eqI)
    fix n
    have "bit s (Suc n) \<longleftrightarrow> bit e (n + 3)"
      using bit_imp_le_length [of e "n + 3"] by (auto simp: s_def bit_unsigned_iff bit_drop_bit_eq numeral_eq_Suc)
    moreover have "bit (unat (drop_bit 2 e')) n \<longleftrightarrow> bit e' (n + 2)"
      using bit_imp_le_length [of e' "n + 2"] by (auto simp: bit_unsigned_iff bit_drop_bit_eq numeral_eq_Suc)
    moreover have "bit e' (n + 2) \<longleftrightarrow> n = 5 \<and> decided w s \<or> n < 5 \<and> bit e (n + 3)" by (simp add: b numeral_eq_Suc)
    moreover have "bit (push_bit 5 (of_bool (decided w s)) :: nat) n \<longleftrightarrow> n = 5 \<and> decided w s"
      by (auto simp: bit_push_bit_iff of_bool_def bit_1_iff bit_Suc_0_iff)
    moreover have "\<not> bit e (n + 3)" if "5 \<le> n" using that by (intro eb) simp
    ultimately show "bit (unat (drop_bit 2 e')) n \<longleftrightarrow> bit (drop_bit 1 s OR push_bit 5 (of_bool (decided w s))) n"
      unfolding bit_or_iff bit_drop_bit_eq by (metis One_nat_def not_le plus_1_eq_Suc comp_apply)
  qed
  also have "\<dots> = drop_bit 1 s + push_bit 5 (of_bool (decided w s))"
  proof (rule disjunctive_add_eq_or [symmetric])
    show "drop_bit 1 s AND push_bit 5 (of_bool (decided w s)) = 0"
      by (rule bit_eqI) (auto simp: bit_and_iff bit_drop_bit_eq bit_push_bit_iff of_bool_def bit_1_iff sb)
  qed
  finally show "unat (drop_bit 2 e') = s div 2 + (if decided w s then 32 else 0)"
    by (simp add: drop_bit_eq_div push_bit_eq_mult of_bool_def)
qed

lemma survivor_bit5:
  assumes "survivor br f ys t = (s, rbs)" "t < 64" "length ys = n + 6"
  shows "bit t 5 \<longleftrightarrow> rev rbs ! n"
proof -
  have l: "length rbs = n + 6" "rstate s rbs = t" using survivor_path [OF assms(2,1)] assms(3) by simp_all
  have "bit t 5 \<longleftrightarrow> rbs ! 5" using rstate_bits [of 5 rbs s] l by simp
  also have "rbs ! 5 = rev rbs ! n" using l(1) by (simp add: rev_nth)
  finally show ?thesis .
qed

text \<open>
  The bytes written by a chainback over \<open>n\<close> bits are the inputs of the survivor that ends, after \<open>n + 6\<close> bits, in the state
  that the register holds; the last of them are filled up from the register.
\<close>

lemma chainback_survivor:
  assumes "\<And>i t. i < length ys \<Longrightarrow> t < 64 \<Longrightarrow> decided (d ! i) t \<longleftrightarrow> decision br f (rev (take i ys)) (ys ! i) t"
    and "length ys \<le> length d"
  shows "n + 6 \<le> length ys \<Longrightarrow> unat e < 256 \<Longrightarrow> n \<le> 8 * length out \<Longrightarrow>
    survivor br f (rev (take (n + 6) ys)) (unat (drop_bit 2 e)) = (s, rbs) \<Longrightarrow>
    \<exists>out'. chainback_loop d n e out = Inr out' \<and> length out' = length out \<and>
      (\<forall>j k. 8 * j < n \<longrightarrow> k < 8 \<longrightarrow> (bit (out' ! j) (7 - k) \<longleftrightarrow> (take n (rev rbs) @ byte_bits e) ! (8 * j + k))) \<and>
      (\<forall>j. (n + 7) div 8 \<le> j \<longrightarrow> j < length out \<longrightarrow> out' ! j = out ! j)"
proof (induction n arbitrary: e out rbs)
  case (Suc n)
  let ?t = "unat (drop_bit 2 e)"
  let ?w = "d ! (6 + n)"
  define k where "k = decided ?w ?t"
  define e' where "e' = drop_bit 1 e OR push_bit 7 (ucast (drop_bit (?t mod 32) (?w ! (?t div 32)) AND 1))"
  note st = chainback_step(1) [OF Suc.prems(2)] chainback_step(2-) [OF Suc.prems(2), where w = ?w, folded e'_def k_def]
  have i: "6 + n < length ys" "6 + n < length d" "n div 8 < length out" using Suc.prems(1,3) assms(2) by auto
  have k: "k \<longleftrightarrow> decision br f (rev (take (n + 6) ys)) (ys ! (n + 6)) ?t"
    using assms(1) [OF i(1) st(1)] by (simp add: k_def add.commute)
  have rv: "rev (take (Suc n + 6) ys) = ys ! (n + 6) # rev (take (n + 6) ys)"
    using take_Suc_conv_app_nth [of "n + 6" ys] i(1) by (simp add: add.commute)
  obtain s1 rbs1 where sv: "survivor br f (rev (take (n + 6) ys)) (unat (drop_bit 2 e')) = (s1, rbs1)" by fastforce
  then have sr: "s1 = s" "rbs = odd ?t # rbs1"
    using Suc.prems(4) unfolding rv survivor.simps st(3) k [symmetric] by simp_all
  note sv = sv [unfolded sr(1)]
  have t': "unat (drop_bit 2 e') < 64" proof -
    have "m div 2 + (if k then 32 else 0) < 64" if "m < 64" for m :: nat using that by auto
    from this [OF st(1)] show ?thesis unfolding st(3) .
  qed
  have l1: "length rbs1 = n + 6" using survivor_path [OF t' sv] i(1) by simp
  have "bit (unat (drop_bit 2 e')) 5 \<longleftrightarrow> rev rbs1 ! n" using survivor_bit5 [OF sv t', of n] i(1) by simp
  moreover have "bit (unat (drop_bit 2 e')) 5 \<longleftrightarrow> k"
    using st(5) [of 7] by (simp add: bit_unsigned_iff bit_drop_bit_eq k_def)
  ultimately have kb: "rev rbs1 ! n = k" by simp
  let ?out1 = "out[n div 8 := ucast e']"
  have c: "chainback_loop d (Suc n) e out = chainback_loop d n e' ?out1"
    using i(2,3) by (simp add: buf_simps Let_def e'_def)
  obtain out' where ih: "chainback_loop d n e' ?out1 = Inr out'" "length out' = length ?out1"
    "\<And>j k. 8 * j < n \<Longrightarrow> k < 8 \<Longrightarrow> bit (out' ! j) (7 - k) \<longleftrightarrow> (take n (rev rbs1) @ byte_bits e') ! (8 * j + k)"
    "\<And>j. (n + 7) div 8 \<le> j \<Longrightarrow> j < length out \<Longrightarrow> out' ! j = ?out1 ! j"
    using Suc.IH [OF _ st(2) _ sv, of ?out1] Suc.prems(1,3) by auto
  have x: "take (Suc n) (rev rbs) @ byte_bits e = take n (rev rbs1) @ k # byte_bits e"
    using l1 kb by (simp add: sr(2) take_Suc_conv_app_nth)
  have y: "take n (rev rbs1) @ byte_bits e' = take n (rev rbs1) @ k # butlast (byte_bits e)" by (simp add: st(4))
  have le: "length (byte_bits e) = 8" "length (take n (rev rbs1)) = n" using l1 by (simp_all add: byte_bits_def)
  have eq: "(take (Suc n) (rev rbs) @ byte_bits e) ! m = (take n (rev rbs1) @ byte_bits e') ! m" if "m < n + 8" for m
    unfolding x y using that le by (auto simp: nth_append nth_Cons nth_butlast split: nat.split)
  have "bit (out' ! j) (7 - k) \<longleftrightarrow> (take (Suc n) (rev rbs) @ byte_bits e) ! (8 * j + k)" if j: "8 * j < Suc n" "k < 8" for j k
  proof (cases "8 * j < n")
    case True
    then show ?thesis using ih(3) [OF True j(2)] eq [of "8 * j + k"] j by simp
  next
    case False
    then have n: "n = 8 * j" using j by simp
    then have "out' ! j = ucast e'" using ih(4) [of j] i(3) by simp
    then have "bit (out' ! j) (7 - k) \<longleftrightarrow> bit e' (7 - k)" using j(2) by (auto simp: bit_ucast_iff)
    also have "\<dots> \<longleftrightarrow> (take n (rev rbs1) @ byte_bits e') ! (8 * j + k)"
      using le n j(2) by (simp add: nth_append byte_bits_def)
    finally show ?thesis using eq [of "8 * j + k"] n j by simp
  qed
  moreover have "out' ! j = out ! j" if "(Suc n + 7) div 8 \<le> j" "j < length out" for j
  proof -
    have "(n + 7) div 8 \<le> j" "j \<noteq> n div 8" using that(1) by linarith+
    then show ?thesis using ih(4) [of j] that(2) by simp
  qed
  ultimately show ?case using c ih(1,2) by simp
qed auto

text \<open>Whatever the decisions are, a chainback keeps its register in one byte and writes within the bytes of its bits.\<close>

lemma chainback_any:
  "unat e < 256 \<Longrightarrow> n + m \<le> 8 * length out \<Longrightarrow> 6 + n + m \<le> length d \<Longrightarrow>
   \<exists>e' out'. unat e' < 256 \<and> length out' = length out \<and> chainback_loop d (m + n) e out = chainback_loop d n e' out'"
proof (induction m arbitrary: e out)
  case (Suc m)
  let ?t = "unat (drop_bit 2 e)"
  let ?w = "d ! (6 + (m + n))"
  define e' where "e' = drop_bit 1 e OR push_bit 7 (ucast (drop_bit (?t mod 32) (?w ! (?t div 32)) AND 1))"
  note st = chainback_step(2) [OF Suc.prems(1), of ?w, folded e'_def]
  have "6 + (m + n) < length d" "(m + n) div 8 < length out" using Suc.prems(2,3) by auto
  then have "chainback_loop d (Suc m + n) e out = chainback_loop d (m + n) e' (out[(m + n) div 8 := ucast e'])"
    by (simp add: buf_simps Let_def e'_def)
  then show ?case using Suc.IH [OF st, of "out[(m + n) div 8 := ucast e']"] Suc.prems(2,3) by auto
qed auto

section \<open>The decoder is a maximum likelihood decoder\<close>

definition bits_of :: "u8 list \<Rightarrow> bool list" where
  "bits_of bs = concat (map (\<lambda>b. map (\<lambda>k. bit b (7 - k)) [0..<8]) bs)"

lemma bits_of_simps [simp]: "bits_of [] = []" "bits_of (b # bs) = map (\<lambda>k. bit b (7 - k)) [0..<8] @ bits_of bs"
  by (simp_all add: bits_of_def)

lemma length_bits_of [simp]: "length (bits_of bs) = 8 * length bs"
  by (induction bs) simp_all

lemma bits_of_nth: "j < length bs \<Longrightarrow> k < 8 \<Longrightarrow> bits_of bs ! (8 * j + k) = bit (bs ! j) (7 - k)"
proof (induction bs arbitrary: j)
  case (Cons b bs)
  then show ?case by (cases j) (simp_all add: nth_append)
qed simp

lemma bits_of_eqI:
  assumes "length xs = 8 * length bs" "\<And>j k. j < length bs \<Longrightarrow> k < 8 \<Longrightarrow> bit (bs ! j) (7 - k) = xs ! (8 * j + k)"
  shows "bits_of bs = xs"
proof (rule nth_equalityI)
  fix i assume "i < length (bits_of bs)"
  then have "i div 8 < length bs" "i mod 8 < 8" by (simp_all add: less_mult_imp_div_less)
  from bits_of_nth [OF this] assms(2) [OF this] show "bits_of bs ! i = xs ! i" by simp
qed (simp add: assms(1))

lemma bits_of_inj:
  assumes "length bs = length cs" "bits_of bs = bits_of cs"
  shows "bs = cs"
proof (rule nth_equalityI)
  fix j assume j: "j < length bs"
  show "bs ! j = cs ! j"
  proof (rule bit_word_eqI)
    fix i assume "i < LENGTH(8)"
    then have "7 - i < 8" "7 - (7 - i) = i" by simp_all
    then show "bit (bs ! j) i = bit (cs ! j) i"
      using bits_of_nth [of j bs "7 - i"] bits_of_nth [of j cs "7 - i"] j assms by simp
  qed
qed (rule assms(1))

definition start_metric :: "nat \<Rightarrow> nat \<Rightarrow> nat" where
  "start_metric start s = (if s = start mod 64 then 0 else 63)"

lemma start_metric_le: "start_metric start s \<le> 63"
  by (simp add: start_metric_def)

text \<open>The survivor of a state in the order of time: a cheapest path to it.\<close>

lemma survivor_best:
  assumes "survivor br f (rev ys) t = (s, rbs)" "t < 64"
  shows "s < 64" "length rbs = length ys" "fstate s (rev rbs) = t"
    "\<And>s' bs'. s' < 64 \<Longrightarrow> length bs' = length ys \<Longrightarrow> fstate s' bs' = t \<Longrightarrow>
      f s + path_cost br s (rev rbs) ys \<le> f s' + path_cost br s' bs' ys"
proof -
  note p = survivor_path [OF assms(2,1)]
  show "s < 64" "length rbs = length ys" using p by simp_all
  show "fstate s (rev rbs) = t" using p rstate_rev [of s "rev rbs"] by simp
  fix s' bs'
  assume a: "s' < 64" "length bs' = length ys" "fstate s' bs' = t"
  have "dist br f (rev ys) t \<le> rcost br f s' (rev bs') (rev ys)"
    using dist_le [of s' "rev bs'" "rev ys" br f] a by (simp add: rstate_rev)
  then show "f s + path_cost br s (rev rbs) ys \<le> f s' + path_cost br s' bs' ys"
    using p rcost_rev [of "rev rbs" ys br f s] rcost_rev [OF a(2), of br f s'] by simp
qed

text \<open>Initialisation, an update with \<open>n + m\<close> pairs and a chainback, in one.\<close>

definition viterbi27_block ::
    "v27_globals \<Rightarrow> v27 \<Rightarrow> nat \<Rightarrow> u8 list \<Rightarrow> nat \<Rightarrow> u8 list \<Rightarrow> nat \<Rightarrow> u32 \<Rightarrow> (v27 \<times> u8 list) res" where
  "viterbi27_block g vp start syms npairs out nbits endstate =
     res_bind (update_viterbi27_blk_port g (init_viterbi27_port start vp) syms npairs) (\<lambda>vp.
     res_bind (chainback_viterbi27_port vp out nbits endstate) (\<lambda>out. Inr (vp, out)))"

definition v27_shape :: "nat \<Rightarrow> v27 \<Rightarrow> bool" where
  "v27_shape len vp \<longleftrightarrow> length (metrics1 vp) = 64 \<and> length (metrics2 vp) = 64 \<and> length (decisions vp) = len + 6"

lemma update_from_start:
  assumes "tabs_ok p0 p1 g" "v27_shape len vp" "length ys \<le> len + 6" "len < 4000000"
  shows "\<exists>vp'. update_viterbi27_blk_port g (init_viterbi27_port start vp) (flat ys @ rest) (length ys) = Inr vp' \<and>
    v27_at p0 p1 (start_metric start) ys vp' \<and> length (decisions vp') = len + 6"
proof -
  let ?vp = "init_viterbi27_port start vp"
  have i: "v27_at p0 p1 (start_metric start) [] ?vp"
    using init_at [of vp p0 p1 start] assms(2) unfolding start_metric_def v27_shape_def by simp
  have "length (decisions ?vp) = len + 6" using assms(2) by (simp add: init_viterbi27_port_def v27_shape_def)
  then show ?thesis
    using update_blk_at [OF assms(1) start_metric_le i, of ys rest] assms(3,4) by simp
qed

lemma register_of_state: "unat (push_bit 2 (endstate mod 64 :: u32)) < 256" "unat (drop_bit 2 (push_bit 2 (endstate mod 64 :: u32))) = unat endstate mod 64"
proof -
  have u: "unat (endstate mod 64) = unat endstate mod 64" by (simp add: unat_mod)
  then have l: "unat (endstate mod 64) < 64" by simp
  have p: "unat (push_bit 2 (endstate mod 64)) = 4 * unat (endstate mod 64)"
    using l by (simp add: push_bit_eq_mult unat_word_ariths)
  then show "unat (push_bit 2 (endstate mod 64)) < 256" using l by simp
  have "unat (drop_bit 2 (push_bit 2 (endstate mod 64))) = unat (push_bit 2 (endstate mod 64)) div 4"
    unfolding unat_drop_bit_eq by (simp add: drop_bit_eq_div)
  then show "unat (drop_bit 2 (push_bit 2 (endstate mod 64))) = unat endstate mod 64" using p u by simp
qed

text \<open>What the decoder returns for a block with its tail: the inputs of the survivor of the end state.\<close>

lemma viterbi27_block_survivor:
  assumes "tabs_ok p0 p1 g" "v27_shape (8 * n) vp" "length ys = 8 * n + 6" "n < 500000" "length out = n"
    and "survivor (branch_cost p0 p1) (start_metric start) (rev ys) (unat endstate mod 64) = (s, rbs)"
  shows "\<exists>vp' out'. viterbi27_block g vp start (flat ys) (8 * n + 6) out (8 * n) endstate = Inr (vp', out') \<and>
    length out' = n \<and> bits_of out' = take (8 * n) (rev rbs)"
proof -
  let ?e = "push_bit 2 (endstate mod 64)"
  obtain vp' where u: "update_viterbi27_blk_port g (init_viterbi27_port start vp) (flat ys @ []) (length ys) = Inr vp'"
    "v27_at p0 p1 (start_metric start) ys vp'" "length (decisions vp') = 8 * n + 6"
    using update_from_start [OF assms(1,2), of ys start "[]"] assms(3,4) by auto
  have d: "decided (decisions vp' ! i) t \<longleftrightarrow> decision (branch_cost p0 p1) (start_metric start) (rev (take i ys)) (ys ! i) t"
    if "i < length ys" "t < 64" for i t using u(2) that by (simp add: v27_at_def)
  have "take (8 * n + 6) ys = ys" using assms(3) by simp
  then obtain out' where c: "chainback_loop (decisions vp') (8 * n) ?e out = Inr out'" "length out' = n"
    "\<And>j k. 8 * j < 8 * n \<Longrightarrow> k < 8 \<Longrightarrow> bit (out' ! j) (7 - k) \<longleftrightarrow> (take (8 * n) (rev rbs) @ byte_bits ?e) ! (8 * j + k)"
    using chainback_survivor [OF d, where n = "8 * n" and e = ?e and out = out and s = s and rbs = rbs] register_of_state [of endstate] assms(3,5,6) u(3) by auto
  have l: "length rbs = 8 * n + 6" using survivor_best(2) [OF assms(6)] assms(3) by simp
  have "bits_of out' = take (8 * n) (rev rbs)"
    using c(2,3) l by (intro bits_of_eqI) (simp_all add: nth_append)
  moreover have "viterbi27_block g vp start (flat ys) (8 * n + 6) out (8 * n) endstate = Inr (vp', out')"
    using u(1) c(1) assms(3) by (simp add: viterbi27_block_def chainback_viterbi27_port_def)
  ultimately show ?thesis using c(2) by blast
qed

text \<open>C5: A block with its tail is decoded to the inputs of a most likely path: among all paths of the encoder that end in the
  state given, none is nearer to the soft symbols received, the bias of the start state included.\<close>

theorem viterbi27_maximum_likelihood:
  assumes "poly_ok p0" "poly_ok p1" "v27_shape (8 * n) vp" "length ys = 8 * n + 6" "n < 500000" "length out = n"
  shows "\<exists>vp' out' s bs. viterbi27_block (set_viterbi27_polynomial_port p0 p1 g) vp start (flat ys) (8 * n + 6) out (8 * n) endstate = Inr (vp', out') \<and>
    length out' = n \<and> bits_of out' = take (8 * n) bs \<and> s < 64 \<and> length bs = 8 * n + 6 \<and> fstate s bs = unat endstate mod 64 \<and>
    (\<forall>s' bs'. s' < 64 \<and> length bs' = 8 * n + 6 \<and> fstate s' bs' = unat endstate mod 64 \<longrightarrow>
       start_metric start s + path_cost (branch_cost p0 p1) s bs ys \<le> start_metric start s' + path_cost (branch_cost p0 p1) s' bs' ys)"
proof -
  obtain s rbs where sv: "survivor (branch_cost p0 p1) (start_metric start) (rev ys) (unat endstate mod 64) = (s, rbs)" by fastforce
  note b = survivor_best [OF sv]
  show ?thesis
    using viterbi27_block_survivor [OF tabs_okI [OF assms(1,2)] assms(3-6) sv, of g] b assms(4)
    by (metis (no_types, lifting) length_rev mod_less_divisor zero_less_numeral)
qed

definition example_v27 :: v27 where
  "example_v27 = \<lparr>metrics1 = replicate 64 0, metrics2 = replicate 64 0, old_is_1 = True, dp = 0, decisions = replicate 14 [0, 0]\<rparr>"

theorem viterbi27_maximum_likelihood_witness:
  "\<exists>vp' out' s bs. viterbi27_block (set_viterbi27_polynomial_port 0x4f 0x6d \<lparr>Branchtab27 = [], Init = 0\<rparr>) example_v27 0 (flat (replicate 14 (0, 200))) 14 [0] 8 0 = Inr (vp', out') \<and>
    bits_of out' = take 8 bs \<and> fstate s bs = 0 \<and>
    start_metric 0 s + path_cost (branch_cost 0x4f 0x6d) s bs (replicate 14 (0, 200)) \<le> path_cost (branch_cost 0x4f 0x6d) 0 (replicate 14 False) (replicate 14 (0, 200))"
proof -
  have f: "fstate 0 (replicate n False) = 0" for n by (induction n) (simp_all add: next_state_def reg_def)
  have p: "poly_ok 0x4f" "poly_ok 0x6d" by (simp_all add: poly_ok_def iabs_def)
  have v: "v27_shape (8 * 1) example_v27" by (simp add: v27_shape_def example_v27_def)
  have b: "8 + 6 = (14 :: nat)" "8 * 1 = (8 :: nat)" "unat (0 :: u32) mod 64 = 0" "length [0 :: u8] = 1" by simp_all
  have l: "length (replicate 14 (0, 200) :: (u8 \<times> u8) list) = 8 * 1 + 6" "(1 :: nat) < 500000" by simp_all
  obtain vp' out' s bs where r: "viterbi27_block (set_viterbi27_polynomial_port 0x4f 0x6d \<lparr>Branchtab27 = [], Init = 0\<rparr>) example_v27 0 (flat (replicate 14 (0, 200))) 14 [0] 8 0 = Inr (vp', out')"
    "bits_of out' = take 8 bs" "fstate s bs = 0"
    "\<And>s' bs'. s' < 64 \<and> length bs' = 14 \<and> fstate s' bs' = 0 \<Longrightarrow>
      start_metric 0 s + path_cost (branch_cost 0x4f 0x6d) s bs (replicate 14 (0, 200)) \<le> start_metric 0 s' + path_cost (branch_cost 0x4f 0x6d) s' bs' (replicate 14 (0, 200))"
    using viterbi27_maximum_likelihood [OF p v l b(4), of "\<lparr>Branchtab27 = [], Init = 0\<rparr>" 0 0, unfolded b(2-), unfolded b(1)] by blast
  have "start_metric 0 0 = 0" by (simp add: start_metric_def)
  then show ?thesis using r(1-3) r(4) [of 0 "replicate 14 False"] f [of 14] by (metis add_0 length_replicate zero_less_numeral)
qed

section \<open>Noise it corrects\<close>

lemma fstate_tail: "s < 64 \<Longrightarrow> fstate s (bs @ replicate 6 False) = 0"
proof -
  assume "s < 64"
  have "\<not> bit (fstate s (bs @ replicate 6 False)) i" for i
  proof (cases "i < 6")
    case True
    then show ?thesis using rstate_bits [of i "rev (bs @ replicate 6 False)" s] unfolding rstate_rev by (simp add: nth_append)
  next
    case False
    have "take_bit 6 (fstate s (bs @ replicate 6 False)) = fstate s (bs @ replicate 6 False)"
      using \<open>s < 64\<close> by (simp add: take_bit_nat_eq_self_iff)
    then show ?thesis using False by (metis bit_take_bit_iff)
  qed
  then show ?thesis by (intro bit_eqI) simp
qed

lemma xor_less_64: "s < 64 \<Longrightarrow> s' < 64 \<Longrightarrow> s XOR s' < (64 :: nat)"
proof -
  assume "s < 64" "s' < 64"
  then have "take_bit 6 (s XOR s') = s XOR s'" unfolding take_bit_xor by (simp add: take_bit_nat_eq_self)
  then show ?thesis using take_bit_nat_less_exp [of 6 "s XOR s'"] by simp
qed

text \<open>C7: With the polynomials of the CCSDS code, a block that starts and ends in the state zero is decoded exactly when the total distance
  of its soft symbols from the code word is less than two and a half symbols, however it is spread.\<close>

theorem viterbi27_corrects:
  assumes "poly_ok p0" "poly_ok p1" "ccsds_polys p0 p1" "v27_shape (8 * length bytes) vp" "length bytes < 500000" "length out = length bytes"
    and "length ys = 8 * length bytes + 6" "2 * path_cost (branch_cost p0 p1) 0 (bits_of bytes @ replicate 6 False) ys < 1275"
  shows "\<exists>vp'. viterbi27_block (set_viterbi27_polynomial_port p0 p1 g) vp 0 (flat ys) (8 * length bytes + 6) out (8 * length bytes) 0 = Inr (vp', bytes)"
proof -
  let ?T = "bits_of bytes @ replicate 6 False" and ?br = "branch_cost p0 p1"
  obtain s rbs where sv: "survivor ?br (start_metric 0) (rev ys) (unat (0 :: u32) mod 64) = (s, rbs)" by fastforce
  have z: "unat (0 :: u32) mod 64 = 0" by simp
  note b = survivor_best [OF sv, unfolded z, simplified]
  obtain vp' out' where r: "viterbi27_block (set_viterbi27_polynomial_port p0 p1 g) vp 0 (flat ys) (8 * length bytes + 6) out (8 * length bytes) 0 = Inr (vp', out')"
    "length out' = length bytes" "bits_of out' = take (8 * length bytes) (rev rbs)"
    using viterbi27_block_survivor [OF tabs_okI [OF assms(1,2)] assms(4,7,5,6) sv] by blast
  have T: "fstate 0 ?T = 0" "length ?T = length ys" using fstate_tail [of 0] assms(7) by simp_all
  have "path_cost ?br s (rev rbs) ys \<le> path_cost ?br 0 ?T ys"
    using b(4) [of 0 ?T] T by (simp add: start_metric_def)
  moreover have "255 * weight27 (s XOR 0) (differences (rev rbs) ?T) \<le> path_cost ?br s (rev rbs) ys + path_cost ?br 0 ?T ys"
    using b(2) T(2) by (intro path_triangle [OF assms(3)]) simp_all
  ultimately have w: "weight27 s (differences (rev rbs) ?T) < 5" using assms(8) by simp
  have "fstate s (differences (rev rbs) ?T) = 0"
    using fstate_xor [of "rev rbs" ?T s 0] b(2,3) T by simp
  then have "True \<notin> set (differences (rev rbs) ?T)"
    using near_zero_weight(2) [OF b(1), of "differences (rev rbs) ?T"] bspec [OF tables_ok(1), of s] b(1) w
    by (auto simp: near_ok_def)
  then have "rev rbs = ?T" using b(2) T(2) by (intro no_differences) simp_all
  then have "bits_of out' = bits_of bytes" using r(3) by simp
  then show ?thesis using r(1,2) bits_of_inj by blast
qed

theorem viterbi27_corrects_witness:
  "\<exists>vp'. viterbi27_block (set_viterbi27_polynomial_port 0x4f 0x6d \<lparr>Branchtab27 = [], Init = 0\<rparr>) example_v27 0
     (flat (map (soft 10) (encode27 0x4f 0x6d 0 (bits_of [0xA5] @ replicate 6 False)))) 14 [0] 8 0 = Inr (vp', [0xA5])"
proof -
  let ?bytes = "[0xA5 :: u8]"
  let ?T = "bits_of ?bytes @ replicate 6 False"
  let ?ys = "map (soft 10) (encode27 0x4f 0x6d 0 ?T)"
  have p: "poly_ok 0x4f" "poly_ok 0x6d" by (simp_all add: poly_ok_def iabs_def)
  have c: "ccsds_polys 0x4f 0x6d" by (simp add: ccsds_polys_def iabs_def)
  have b: "8 * length ?bytes + 6 = 14" "8 * length ?bytes = 8" by simp_all
  have v: "v27_shape (8 * length ?bytes) example_v27" by (simp add: v27_shape_def example_v27_def)
  have "length ?T = 14" unfolding length_append length_bits_of length_replicate by simp
  then have "2 * path_cost (branch_cost 0x4f 0x6d) 0 ?T ?ys < 1275" unfolding path_cost_soft by simp
  moreover have "length ?ys = 8 * length ?bytes + 6" using \<open>length ?T = 14\<close> unfolding length_map length_encode27 by simp
  ultimately show ?thesis
    using viterbi27_corrects [OF p c v, of "[0]" ?ys "\<lparr>Branchtab27 = [], Init = 0\<rparr>", unfolded b] by simp
qed

end
