(* ===== verification/Viterbi27_Stream.thy ===== *)
theory Viterbi27_Stream
  imports Viterbi27_Decoder
begin

text \<open>
  The decoder as \<open>lrpt_decoder\<close> uses it, on a block of a running stream: the encoder starts anywhere and no tail follows, the last
  decisions are never written. Without noise only the last five bytes can be wrong.
\<close>

unbundle bit_operations_syntax

section \<open>A stream without a tail\<close>

text \<open>Six inputs lead into any state.\<close>

definition steer :: "nat \<Rightarrow> bool list" where
  "steer t = map (\<lambda>i. bit t (5 - i)) [0..<6]"

lemma fstate_steer:
  assumes "s < 64" "t < 64"
  shows "fstate s (bs @ steer t) = t"
proof (rule bit_eqI)
  fix i
  show "bit (fstate s (bs @ steer t)) i \<longleftrightarrow> bit t i"
  proof (cases "i < 6")
    case True
    then have "steer t ! (5 - i) = bit t i" unfolding steer_def by (subst nth_map_upt) simp_all
    then have "rev (bs @ steer t) ! i = bit t i" using True by (simp add: nth_append rev_nth steer_def del: nth_map_upt)
    then show ?thesis using rstate_bits [of i "rev (bs @ steer t)" s] True unfolding rstate_rev by (simp add: steer_def)
  next
    case False
    have "take_bit 6 x = x" if "x < 64" for x :: nat using that by (simp add: take_bit_nat_eq_self)
    then show ?thesis using assms False fstate_less [OF assms(1)] by (metis bit_take_bit_iff)
  qed
qed

lemma soft_prefix_free:
  "path_cost (branch_cost p0 p1) s (take k cs) (take k (map (soft 0) (encode27 p0 p1 s cs))) = 0"
proof -
  have "take k (map (soft 0) (encode27 p0 p1 s cs)) = map (soft 0) (encode27 p0 p1 s (take k cs))"
    using encode27_append [of p0 p1 s "take k cs" "drop k cs"] by (cases "k \<le> length cs") (simp_all add: take_map)
  then show ?thesis using path_cost_soft [of p0 p1 s "take k cs" 0] by simp
qed

lemma weight27_append: "weight27 d (xs @ ys) = weight27 d xs + weight27 (fstate d xs) ys"
  by (induction xs arbitrary: d) simp_all

text \<open>A cheapest path into a state costs at most twelve symbols more than the path that was sent.\<close>

lemma survivor_weight:
  assumes "ccsds_polys p0 p1" "s < 64" "s0 < 64" "length bs = length cs" "6 \<le> length cs" "f s0 \<le> 63"
  defines "ys \<equiv> map (soft 0) (encode27 p0 p1 s0 cs)"
  assumes best: "\<And>bs'. length bs' = length cs \<Longrightarrow> fstate s0 bs' = fstate s bs \<Longrightarrow>
      f s + path_cost (branch_cost p0 p1) s bs ys \<le> f s0 + path_cost (branch_cost p0 p1) s0 bs' ys"
  shows "weight27 (s XOR s0) (differences bs cs) \<le> 12"
proof -
  let ?br = "branch_cost p0 p1" and ?n = "length cs - 6" and ?t = "fstate s bs"
  let ?q = "take ?n cs @ steer ?t"
  have l: "length ys = length cs" "length (steer ?t) = 6" by (simp_all add: ys_def steer_def)
  have "path_cost ?br s0 ?q ys = path_cost ?br s0 (take ?n cs) (take ?n ys) + path_cost ?br (fstate s0 (take ?n cs)) (steer ?t) (drop ?n ys)"
    using path_cost_append [of "take ?n cs" "take ?n ys" ?br s0 "steer ?t" "drop ?n ys"] l by simp
  also have "\<dots> \<le> 510 * 6"
    using soft_prefix_free [of p0 p1 s0 ?n cs] path_cost_bound [of "steer ?t" "drop ?n ys" p0 p1 "fstate s0 (take ?n cs)"] l assms(5)
    by (simp add: ys_def)
  finally have "f s + path_cost ?br s bs ys \<le> 63 + 3060"
    using best [of ?q] assms(5,6) l(2) fstate_steer [OF assms(3), of ?t] fstate_less [OF assms(2)] by fastforce
  moreover have "255 * weight27 (s XOR s0) (differences bs cs) \<le> path_cost ?br s bs ys + path_cost ?br s0 cs ys"
    using assms(4) l(1) by (intro path_triangle [OF assms(1)]) simp_all
  ultimately show ?thesis using soft_prefix_free [of p0 p1 s0 "length cs" cs] by (simp add: ys_def)
qed

text \<open>Differences of so little weight meet zero for the last time within the last forty branches.\<close>

lemma last_meeting:
  assumes "d < 64" "weight27 d D \<le> 12" "48 \<le> length D"
  obtains k where "length D - 40 \<le> k" "k \<le> length D" "fstate d (take k D) = 0"
proof -
  let ?L = "length D"
  define M where "M = {i. i \<le> ?L \<and> fstate d (take i D) = 0}"
  have fin: "finite M" by (rule finite_subset [of _ "{..?L}"]) (auto simp: M_def)
  have "M \<noteq> {}"
  proof
    assume "M = {}"
    then have "2 * ?L \<le> 7 * weight27 d D + away ! d" by (intro away_weight [OF assms(1)]) (auto simp: M_def)
    moreover have "away ! d \<le> 10" using bspec [OF tables_ok(2), of d] assms(1) by (simp add: away_ok_def)
    ultimately show False using assms(2,3) by simp
  qed
  define k where "k = Max M"
  have "k \<in> M" using fin \<open>M \<noteq> {}\<close> by (simp add: k_def)
  then have k: "k \<le> ?L" "fstate d (take k D) = 0" by (simp_all add: M_def)
  have after: "fstate d (take i D) \<noteq> 0" if "k < i" "i \<le> ?L" for i
  proof
    assume "fstate d (take i D) = 0"
    then have "i \<in> M" using that by (simp add: M_def)
    then show False using Max_ge [OF fin, of i] that(1) by (simp add: k_def)
  qed
  have "?L - 40 \<le> k"
  proof (cases "drop k D")
    case (Cons b rest)
    have ft: "fstate d (take (k + Suc i) D) = fstate (next_state 0 b) (take i rest)" for i
      using take_add [of k "Suc i" D] k(2) by (simp only: Cons take_Suc_Cons fstate_append fstate.simps)
    have lr: "length rest + k + 1 = ?L" using arg_cong [OF Cons, of length] k(1) by simp
    have "next_state 0 b \<noteq> 0" using ft [of 0] after [of "k + 1"] lr by simp
    then have b: "b" "next_state 0 b = 1" by (cases b; simp add: next_state_def reg_def)+
    have "fstate 1 (take i rest) \<noteq> 0" if "i \<le> length rest" for i
      using ft [of i] after [of "k + Suc i"] that lr b(2) by simp
    then have "2 * length rest \<le> 7 * weight27 1 rest + away ! 1" by (intro away_weight) simp_all
    moreover have "weight27 d D = weight27 d (take k D) + weight27 0 (drop k D)"
      using weight27_append [of d "take k D" "drop k D"] unfolding append_take_drop_id k(2) .
    then have "weight27 d D = weight27 d (take k D) + weight27 0 (b # rest)" unfolding Cons .
    moreover have "branch_weight 0 True = 2" by (simp add: branch_weight_def)
    ultimately show ?thesis using assms(2) b lr by (simp add: away_def)
  qed (use k(1) in simp)
  with k show thesis by (intro that)
qed

lemma nat_xor_eq_0: "m XOR n = (0 :: nat) \<longleftrightarrow> m = n"
proof
  assume "m XOR n = 0"
  then have "\<not> bit (m XOR n) i" for i by simp
  then show "m = n" by (intro bit_eqI) (simp add: bit_xor_iff)
qed simp

text \<open>
  So a cheapest path into any state agrees with the path that was sent but for the last forty inputs: up to
  the last meeting the path sent would be cheaper.
\<close>

lemma survivor_agrees:
  assumes "ccsds_polys p0 p1" "s < 64" "s0 < 64" "length bs = length cs" "48 \<le> length cs" "f s0 \<le> 63"
  defines "ys \<equiv> map (soft 0) (encode27 p0 p1 s0 cs)"
  assumes best: "\<And>bs'. length bs' = length cs \<Longrightarrow> fstate s0 bs' = fstate s bs \<Longrightarrow>
      f s + path_cost (branch_cost p0 p1) s bs ys \<le> f s0 + path_cost (branch_cost p0 p1) s0 bs' ys"
  shows "take (length cs - 40) bs = take (length cs - 40) cs"
proof -
  let ?br = "branch_cost p0 p1" and ?L = "length cs" and ?d = "s XOR s0" and ?D = "differences bs cs"
  have d64: "?d < 64" using xor_less_64 assms(2,3) by simp
  have ly: "length ys = ?L" by (simp add: ys_def)
  have free: "path_cost ?br s0 (take k cs) (take k ys) = 0" for k unfolding ys_def by (rule soft_prefix_free)
  have six: "6 \<le> length cs" using assms(5) by simp
  have "weight27 ?d ?D \<le> 12"
    by (rule survivor_weight [where f = f, OF assms(1-4) six assms(6) best [unfolded ys_def]])
  then obtain k where k: "?L - 40 \<le> k" "k \<le> ?L" "fstate ?d (take k ?D) = 0"
    using last_meeting [OF d64, of ?D] assms(4,5) by auto
  have meet: "fstate s (take k bs) = fstate s0 (take k cs)"
    using k(3) fstate_xor [of "take k bs" "take k cs" s s0] assms(4) unfolding take_differences by (simp add: nat_xor_eq_0)
  let ?p = "take k cs @ drop k bs"
  have "fstate s0 ?p = fstate s bs" using meet fstate_append [of s "take k bs" "drop k bs"] by (simp add: fstate_append)
  then have "f s + path_cost ?br s bs ys \<le> f s0 + path_cost ?br s0 ?p ys" using best [of ?p] assms(4) k(2) by simp
  moreover have "path_cost ?br s bs ys = path_cost ?br s (take k bs) (take k ys) + path_cost ?br (fstate s (take k bs)) (drop k bs) (drop k ys)"
    using path_cost_append [of "take k bs" "take k ys" ?br s "drop k bs" "drop k ys"] assms(4) ly by simp
  moreover have "path_cost ?br s0 ?p ys = path_cost ?br (fstate s0 (take k cs)) (drop k bs) (drop k ys)"
    using path_cost_append [of "take k cs" "take k ys" ?br s0 "drop k bs" "drop k ys"] free [of k] ly by simp
  ultimately have "path_cost ?br s (take k bs) (take k ys) \<le> 63" using assms(6) meet by simp
  moreover have "255 * weight27 ?d (take k ?D) \<le> path_cost ?br s (take k bs) (take k ys) + path_cost ?br s0 (take k cs) (take k ys)"
    unfolding take_differences using assms(4) ly by (intro path_triangle [OF assms(1)]) simp_all
  ultimately have "weight27 ?d (take k ?D) = 0" using free [of k] by simp
  moreover have "5 \<le> near_zero_one ! ?d" using bspec [OF tables_ok(1), of ?d] d64 by (simp add: near_ok_def)
  ultimately have "True \<notin> set (take k ?D)" using near_zero_weight(2) [OF d64 k(3)] by auto
  then have "take k bs = take k cs" unfolding take_differences using assms(4) by (intro no_differences) simp_all
  then have "take (?L - 40) (take k bs) = take (?L - 40) (take k cs)" by simp
  then show ?thesis using k(1) by (simp add: min_absorb1)
qed

text \<open>
  A block of a stream that goes on: as many decisions as bits are read, the last six of them never written; the
  encoder may have been in any state. What these decisions hold, and the end state, move only the last bytes.
\<close>

lemma viterbi27_block_stream:
  assumes "tabs_ok p0 p1 g" "v27_shape (8 * n) vp" "length ys = 8 * n" "6 \<le> n" "n < 500000" "length out = n"
  shows "\<exists>vp' out' s bs t. viterbi27_block g vp start (flat ys) (8 * n) out (8 * n) endstate = Inr (vp', out') \<and>
    v27_shape (8 * n) vp' \<and> length out' = n \<and> t < 64 \<and> survivor (branch_cost p0 p1) (start_metric start) (rev ys) t = (s, rev bs) \<and>
    (\<forall>j k. 8 * j < 8 * n - 6 \<longrightarrow> 8 * j + k < 8 * n - 6 \<longrightarrow> k < 8 \<longrightarrow> bit (out' ! j) (7 - k) = bs ! (8 * j + k))"
proof -
  let ?e = "push_bit 2 (endstate mod 64)" and ?n = "8 * n - 6"
  obtain vp' where u: "update_viterbi27_blk_port g (init_viterbi27_port start vp) (flat ys @ []) (length ys) = Inr vp'"
    "v27_at p0 p1 (start_metric start) ys vp'" "length (decisions vp') = 8 * n + 6"
    using update_from_start [OF assms(1,2), of ys start "[]"] assms(3,5) by auto
  have d: "decided (decisions vp' ! i) t \<longleftrightarrow> decision (branch_cost p0 p1) (start_metric start) (rev (take i ys)) (ys ! i) t"
    if "i < length ys" "t < 64" for i t using u(2) that by (simp add: v27_at_def)
  obtain e out1 where e: "unat e < 256" "length out1 = n" "chainback_loop (decisions vp') (6 + ?n) ?e out = chainback_loop (decisions vp') ?n e out1"
    using chainback_any [of ?e ?n 6 out "decisions vp'"] register_of_state(1) [of endstate] u(3) assms(4,6) by auto
  have t: "unat (drop_bit 2 e) < 64"
    using e(1) unfolding unat_drop_bit_eq by (simp add: drop_bit_eq_div)
  obtain s rbs where sv: "survivor (branch_cost p0 p1) (start_metric start) (rev ys) (unat (drop_bit 2 e)) = (s, rbs)" by fastforce
  have l: "length rbs = 8 * n" using survivor_path [OF t sv] assms(3) by simp
  have b6: "?n + 6 = 8 * n" using assms(4) by simp
  have tk: "take (?n + 6) ys = ys" unfolding b6 using assms(3) by simp
  obtain out' where c: "chainback_loop (decisions vp') ?n e out1 = Inr out'" "length out' = n"
    "\<And>j k. 8 * j < ?n \<Longrightarrow> k < 8 \<Longrightarrow> bit (out' ! j) (7 - k) \<longleftrightarrow> (take ?n (rev rbs) @ byte_bits e) ! (8 * j + k)"
    using chainback_survivor [OF d, where n = ?n and e = e and out = out1 and s = s and rbs = rbs, unfolded tk] sv e(1,2) assms(3,4) u(3) by auto
  have "viterbi27_block g vp start (flat ys) (8 * n) out (8 * n) endstate = Inr (vp', out')"
    using u(1) c(1) e(3) b6 assms(3) by (simp add: viterbi27_block_def chainback_viterbi27_port_def add.commute)
  moreover have "bit (out' ! j) (7 - k) = rev rbs ! (8 * j + k)" if "8 * j < ?n" "8 * j + k < ?n" "k < 8" for j k
    using c(3) [OF that(1,3)] that(2) l by (simp add: nth_append)
  moreover have "v27_shape (8 * n) vp'" using u(2,3) by (simp add: v27_shape_def v27_at_def v27_inv_def)
  ultimately show ?thesis using c(2) t sv by (metis rev_rev_ident)
qed

text \<open>Without noise all bytes but the last five are the bytes that were sent.\<close>

lemma viterbi27_stream:
  assumes "tabs_ok p0 p1 g" "ccsds_polys p0 p1" "v27_shape (8 * length bytes) vp" "6 \<le> length bytes" "length bytes < 500000"
    "length out = length bytes" "s0 < 64"
  shows "\<exists>vp' out'. viterbi27_block g vp start (flat (map (soft 0) (encode27 p0 p1 s0 (bits_of bytes))))
      (8 * length bytes) out (8 * length bytes) endstate = Inr (vp', out') \<and>
    v27_shape (8 * length bytes) vp' \<and> length out' = length bytes \<and> take (length bytes - 5) out' = take (length bytes - 5) bytes"
proof -
  let ?n = "length bytes" and ?cs = "bits_of bytes" and ?br = "branch_cost p0 p1"
  let ?ys = "map (soft 0) (encode27 p0 p1 s0 ?cs)"
  obtain vp' out' s bs t where r: "viterbi27_block g vp start (flat ?ys) (8 * ?n) out (8 * ?n) endstate = Inr (vp', out')"
    "v27_shape (8 * ?n) vp'" "length out' = ?n" "t < 64" "survivor ?br (start_metric start) (rev ?ys) t = (s, rev bs)"
    "\<And>j k. 8 * j < 8 * ?n - 6 \<Longrightarrow> 8 * j + k < 8 * ?n - 6 \<Longrightarrow> k < 8 \<Longrightarrow> bit (out' ! j) (7 - k) = bs ! (8 * j + k)"
    using viterbi27_block_stream [OF assms(1,3) _ assms(4-6), of ?ys start endstate] by auto
  note b = survivor_best [OF r(5,4), unfolded rev_rev_ident]
  have best: "\<And>bs'. length bs' = length ?cs \<Longrightarrow> fstate s0 bs' = fstate s bs \<Longrightarrow>
      start_metric start s + path_cost ?br s bs ?ys \<le> start_metric start s0 + path_cost ?br s0 bs' ?ys"
    using b(3) by (intro b(4) assms(7)) simp_all
  have six: "48 \<le> length ?cs" "length bs = length ?cs" using assms(4) b(2) by simp_all
  have agree: "take (8 * ?n - 40) bs = take (8 * ?n - 40) ?cs"
    using survivor_agrees [where f = "start_metric start", OF assms(2) b(1) assms(7) six(2,1) start_metric_le best] by simp
  have "take (?n - 5) out' = take (?n - 5) bytes"
  proof (rule nth_equalityI)
    fix j assume "j < length (take (?n - 5) out')"
    then have j: "j < ?n - 5" by simp
    have "out' ! j = bytes ! j"
    proof (rule bit_word_eqI)
      fix i assume "i < LENGTH(8)"
      then have i: "i = 7 - (7 - i)" "7 - i < 8" by simp_all
      have m: "8 * j + (7 - i) < 8 * ?n - 40" using j i(2) by linarith
      have "bit (out' ! j) (7 - (7 - i)) = bs ! (8 * j + (7 - i))" using m i(2) by (intro r(6)) linarith+
      also have "\<dots> = ?cs ! (8 * j + (7 - i))" using arg_cong [OF agree, of "\<lambda>xs. xs ! (8 * j + (7 - i))"] m by simp
      also have "\<dots> = bit (bytes ! j) (7 - (7 - i))" using j i(2) by (intro bits_of_nth) simp_all
      finally show "bit (out' ! j) i = bit (bytes ! j) i" using i(1) by simp
    qed
    then show "take (?n - 5) out' ! j = take (?n - 5) bytes ! j" using j by simp
  qed (simp add: r(3))
  then show ?thesis using r(1-3) by blast
qed

end
