(* ===== verification/Lrpt_Decoder.thy ===== *)
theory Lrpt_Decoder
  imports Viterbi27_Stream Whitening
begin

text \<open>
  \<open>lib/lrpt_decoder_impl.cc\<close>: the block that takes a coded frame of the LRPT downlink of Metop and Meteor, decodes it, removes the
  scrambler and publishes the frame if its header is wanted. The scrambler is that of \<open>Whitening\<close> over a shift register of
  GNU Radio.
\<close>

unbundle bit_operations_syntax

section \<open>The block\<close>

text \<open>The pointers \<open>d_cadu\<close>, \<open>d_coded_cadu_syms\<close> and \<open>d_mpdu\<close> own buffers of a fixed size.\<close>

record 'l lrpt_decoder =
  d_cadu_len :: nat
  d_coded_cadu_len :: nat
  d_mpdu_max_len :: nat
  d_scrambler :: "'l whitening"
  d_have_mpdu :: bool
  d_coded_cadu_syms :: "u8 list"
  d_cadu :: "u8 list"
  d_mpdu :: "u8 list"
  d_vt :: v27

text \<open>
  The constructor; \<open>mem\<close> is what the allocation of the Viterbi decoder returned, \<open>junk\<close> the old contents of the
  other buffers. It sets the polynomials for every decoder of the process.
\<close>

definition lrpt_decoder_impl_new ::
    "'l lfsr_ops \<Rightarrow> int \<Rightarrow> (nat \<Rightarrow> u8) \<Rightarrow> (u32 list \<times> u64 list list) option \<Rightarrow> v27_globals \<Rightarrow> 'l lrpt_decoder res \<times> v27_globals" where
  "lrpt_decoder_impl_new L base_unique_id junk mem g =
     (let cadu_len = 1020 + 4 - 128; coded_len = 1020 * 2 + 4 * 2 - 128 * 2; mpdu_len = 59400;
          (vt, g1) = create_viterbi27_port (cadu_len * 8) mem g
      in case vt of
           None \<Rightarrow> (Inl (Runtime_error ''lrpt_decoder: Failed to init Viterbi decoder''), g1)
         | Some vp \<Rightarrow>
             (Inr \<lparr>d_cadu_len = cadu_len, d_coded_cadu_len = coded_len, d_mpdu_max_len = mpdu_len,
                   d_scrambler = fst (whitening_make L base_unique_id 0x2A9 0xFF 7 False False), d_have_mpdu = False,
                   d_coded_cadu_syms = map junk [0..<coded_len * 8], d_cadu = map junk [0..<cadu_len],
                   d_mpdu = map junk [0..<mpdu_len], d_vt = vp\<rparr>,
              set_viterbi27_polynomial_port 0x4f 0x6d g1))"

text \<open>
  \<open>decode_ccsds_packet\<close>, with the frames it publishes. The sequence number it computes is not used, the filters
  that are comments are not there.
\<close>

definition hdr_ptr_of :: "u8 list \<Rightarrow> u16" where
  "hdr_ptr_of cvcdu = (let hdr_ptr = ucast (cvcdu ! 8 AND 0x7) in push_bit 8 hdr_ptr OR ucast (cvcdu ! 9))"

definition decode_ccsds_packet :: "u8 list \<Rightarrow> 'l lrpt_decoder \<Rightarrow> u8 list list \<times> 'l lrpt_decoder" where
  "decode_ccsds_packet cvcdu d =
     (if drop_bit 6 (cvcdu ! 0) \<noteq> 0x1 then ([], d)
      else if cvcdu ! 6 \<noteq> 0x0 \<or> cvcdu ! 7 \<noteq> 0x0 then ([], d)
      else if \<not> d_have_mpdu d \<and> hdr_ptr_of cvcdu \<noteq> 0 then ([], d)
      else ([take (d_cadu_len d - 4) cvcdu], d\<lparr>d_have_mpdu := True\<rparr>))"

text \<open>One coded byte as eight symbols, the full amplitude for a set bit.\<close>

definition byte_syms :: "u8 \<Rightarrow> u8 list" where
  "byte_syms b = [0xFF * drop_bit 7 b, 0xFF * (drop_bit 6 b AND 0x1), 0xFF * (drop_bit 5 b AND 0x1), 0xFF * (drop_bit 4 b AND 0x1),
     0xFF * (drop_bit 3 b AND 0x1), 0xFF * (drop_bit 2 b AND 0x1), 0xFF * (drop_bit 1 b AND 0x1), 0xFF * (b AND 0x1)]"

definition lrpt_decode :: "'l lfsr_ops \<Rightarrow> v27_globals \<Rightarrow> u8 list \<Rightarrow> 'l lrpt_decoder \<Rightarrow> (u8 list list \<times> 'l lrpt_decoder) res" where
  "lrpt_decode L g coded_cadu d =
     (if length coded_cadu \<noteq> d_coded_cadu_len d then Inr ([], d)
      else res_bind (buf_copy (d_coded_cadu_syms d) 0 (concat (map byte_syms coded_cadu))) (\<lambda>syms.
           res_bind (update_viterbi27_blk_port g (init_viterbi27_port 0 (d_vt d)) syms (d_cadu_len d * 8)) (\<lambda>vp.
           res_bind (chainback_viterbi27_port vp (d_cadu d) (d_cadu_len d * 8) 0) (\<lambda>cadu.
           let (frame, w) = descramble L (whitening_reset L (d_scrambler d)) (drop 4 cadu)
           in Inr (decode_ccsds_packet frame
                (d\<lparr>d_coded_cadu_syms := syms, d_vt := vp, d_cadu := take 4 cadu @ frame, d_scrambler := w\<rparr>))))))"

section \<open>Any message\<close>

definition lrpt_ok :: "'l lfsr_ops \<Rightarrow> 'l lrpt_decoder \<Rightarrow> bool" where
  "lrpt_ok L d \<longleftrightarrow> d_cadu_len d = 896 \<and> d_coded_cadu_len d = 1792 \<and> length (d_coded_cadu_syms d) = 14336 \<and>
     length (d_cadu d) = 896 \<and> \<not> d_self_sync (d_scrambler d) \<and> v27_shape 7168 (d_vt d)"

lemma v27_shape_create:
  assumes "128 \<le> length junk" "len + 6 \<le> length junkd" "fst (create_viterbi27_port len (Some (junk, junkd)) g) = Some vp"
  shows "v27_shape len vp"
  using assms by (auto simp: create_viterbi27_port_def init_viterbi27_port_def v27_shape_def Let_def)

lemma length_byte_syms [simp]: "length (byte_syms b) = 8"
  by (simp add: byte_syms_def)

lemma length_concat_syms: "length (concat (map byte_syms bs)) = 8 * length bs"
  by (induction bs) simp_all

lemma flat_pairs: "length xs = 2 * n \<Longrightarrow> \<exists>ys. xs = flat ys \<and> length ys = n"
proof (induction n arbitrary: xs)
  case (Suc n)
  then obtain a b zs where x: "xs = a # b # zs" by (auto simp: length_Suc_conv)
  then obtain ys where "zs = flat ys" "length ys = n" using Suc.IH [of zs] Suc.prems by auto
  then show ?case using x by (intro exI [of _ "(a, b) # ys"]) simp
qed simp

lemma length_decode_ccsds: "d_cadu_len d - 4 \<le> length cvcdu \<Longrightarrow> f \<in> set (fst (decode_ccsds_packet cvcdu d)) \<Longrightarrow> length f = d_cadu_len d - 4"
  by (auto simp: decode_ccsds_packet_def split: if_splits)

lemma decode_ccsds_state:
  "d_cadu_len (snd (decode_ccsds_packet f d)) = d_cadu_len d" "d_coded_cadu_len (snd (decode_ccsds_packet f d)) = d_coded_cadu_len d"
  "d_coded_cadu_syms (snd (decode_ccsds_packet f d)) = d_coded_cadu_syms d" "d_cadu (snd (decode_ccsds_packet f d)) = d_cadu d"
  "d_scrambler (snd (decode_ccsds_packet f d)) = d_scrambler d" "d_vt (snd (decode_ccsds_packet f d)) = d_vt d"
  by (simp_all add: decode_ccsds_packet_def)

text \<open>A message of the right size goes through the Viterbi decoder, the scrambler and the filter.\<close>

lemma lrpt_decode_block:
  assumes "lrpt_ok L d" "length coded = 1792"
    and "viterbi27_block g (d_vt d) 0 (concat (map byte_syms coded)) 7168 (d_cadu d) 7168 0 = Inr (vp', cadu)"
    "v27_shape 7168 vp'" "length cadu = 896"
  obtains frame d1 where "frame = fst (descramble L (whitening_reset L (d_scrambler d)) (drop 4 cadu))"
    "d_have_mpdu d1 = d_have_mpdu d" "d_cadu_len d1 = 896" "length frame = 892"
    "lrpt_decode L g coded d = Inr (decode_ccsds_packet frame d1)" "lrpt_ok L (snd (decode_ccsds_packet frame d1))"
proof -
  note ok = assms(1) [unfolded lrpt_ok_def]
  let ?syms = "concat (map byte_syms coded)"
  obtain frame w where f: "descramble L (whitening_reset L (d_scrambler d)) (drop 4 cadu) = (frame, w)" by fastforce
  define d1 where "d1 = d\<lparr>d_coded_cadu_syms := ?syms, d_vt := vp', d_cadu := take 4 cadu @ frame, d_scrambler := w\<rparr>"
  have fl: "length frame = 892" "\<not> d_self_sync w"
    using f ok assms(5) by (auto simp: descramble_def scramble_def whitening_reset_def split_def Let_def)
  have s: "buf_copy (d_coded_cadu_syms d) 0 ?syms = Inr ?syms"
    using ok assms(2) length_concat_syms [of coded] by (simp add: buf_copy_def)
  obtain vp1 where u: "update_viterbi27_blk_port g (init_viterbi27_port 0 (d_vt d)) ?syms 7168 = Inr vp1"
      "chainback_viterbi27_port vp1 (d_cadu d) 7168 0 = Inr cadu" "vp1 = vp'"
    using assms(3) unfolding viterbi27_block_def by (auto simp: res_bind_def split: sum.splits)
  have n: "d_cadu_len d * 8 = 7168" "length coded = d_coded_cadu_len d" using ok assms(2) by simp_all
  have r: "lrpt_decode L g coded d = Inr (decode_ccsds_packet frame d1)"
    unfolding lrpt_decode_def n(1) s by (simp add: n(2) u(1,2) [unfolded u(3)] f d1_def)
  have sel: "d_have_mpdu d1 = d_have_mpdu d" "d_cadu_len d1 = 896" "d_coded_cadu_len d1 = 1792" "length (d_coded_cadu_syms d1) = 14336"
      "length (d_cadu d1) = 896" "d_scrambler d1 = w" "d_vt d1 = vp'"
    using ok assms(2,5) fl(1) length_concat_syms [of coded] by (simp_all add: d1_def)
  then have "lrpt_ok L (snd (decode_ccsds_packet frame d1))"
    using fl(2) assms(4) unfolding lrpt_ok_def decode_ccsds_state by simp
  then show thesis using that [of frame d1] r sel(1,2) fl(1) f by simp
qed

text \<open>C40: Whatever the message is, no buffer is overrun; the decoder stays well formed and publishes at most one
  frame, of 892 bytes.\<close>

theorem lrpt_decode_safe:
  assumes "lrpt_ok L d" "tabs_ok 0x4f 0x6d g"
  shows "\<exists>frames d'. lrpt_decode L g coded d = Inr (frames, d') \<and> lrpt_ok L d' \<and> length frames \<le> 1 \<and> (\<forall>f \<in> set frames. length f = 892)"
proof (cases "length coded = 1792")
  case False
  then show ?thesis using assms(1) by (simp add: lrpt_decode_def lrpt_ok_def)
next
  case True
  note ok = assms(1) [unfolded lrpt_ok_def]
  obtain ys where ys: "concat (map byte_syms coded) = flat ys" "length ys = 8 * 896"
    using flat_pairs [of "concat (map byte_syms coded)" "8 * 896"] length_concat_syms [of coded] True by auto
  obtain vp' cadu where "viterbi27_block g (d_vt d) 0 (flat ys) 7168 (d_cadu d) 7168 0 = Inr (vp', cadu)" "v27_shape 7168 vp'" "length cadu = 896"
    using viterbi27_block_stream [where n = 896 and vp = "d_vt d" and ys = ys and out = "d_cadu d" and start = 0 and endstate = 0, OF assms(2)] ok ys(2) by auto
  then obtain frame d1 where f: "d_cadu_len d1 = 896" "length frame = 892"
      "lrpt_decode L g coded d = Inr (decode_ccsds_packet frame d1)" "lrpt_ok L (snd (decode_ccsds_packet frame d1))"
    using lrpt_decode_block [OF assms(1) True] unfolding ys(1) by metis
  have "length (fst (decode_ccsds_packet frame d1)) \<le> 1" by (simp add: decode_ccsds_packet_def)
  then show ?thesis using f length_decode_ccsds [of d1 frame] by (cases "decode_ccsds_packet frame d1") auto
qed

section \<open>A channel without noise\<close>

lemma byte_syms_bits: "byte_syms b = map (\<lambda>k. if bit b (7 - k) then 255 else 0) [0..<8]"
proof -
  have t: "0xFF * (drop_bit k b AND 0x1) = (if bit b k then 255 else 0)" for k
    by (simp add: and_one_eq mod_2_eq_odd bit_iff_odd_drop_bit)
  have "drop_bit 7 b AND 0x1 = drop_bit 7 b" by (rule bit_word_eqI) (auto simp: bit_simps dest: bit_imp_le_length)
  then show ?thesis using t [of 7] t [of 6] t [of 5] t [of 4] t [of 3] t [of 2] t [of 1] t [of 0]
    by (simp add: byte_syms_def upt_rec numeral_eq_Suc)
qed

lemma concat_syms_bits: "concat (map byte_syms bs) = map (\<lambda>b. if b then 255 else 0) (bits_of bs)"
  by (induction bs) (simp_all only: list.map concat.simps bits_of_simps map_append byte_syms_bits map_map o_def)

fun bit_stream :: "(bool \<times> bool) list \<Rightarrow> bool list" where
  "bit_stream [] = []"
| "bit_stream ((a, b) # cs) = a # b # bit_stream cs"

lemma flat_soft: "flat (map (soft 0) cs) = map (\<lambda>b. if b then 255 else 0) (bit_stream cs)"
  by (induction cs rule: bit_stream.induct) (simp_all add: soft_def)

lemma map_state_take: "take n (fst (map_state f l xs)) = fst (map_state f l (take n xs))"
  by (induction xs arbitrary: l n) (simp_all add: split_def Let_def take_Cons split: nat.split)

lemma descramble_prefix: "take n (fst (descramble L w xs)) = fst (descramble L w (take n xs))"
  by (simp add: descramble_def scramble_def split_def Let_def map_state_take)

text \<open>What the filter lets through depends on the header of the frame and on what was seen before.\<close>

definition vcdu_wanted :: "bool \<Rightarrow> u8 list \<Rightarrow> bool" where
  "vcdu_wanted seen f \<longleftrightarrow> drop_bit 6 (f ! 0) = 1 \<and> f ! 6 = 0 \<and> f ! 7 = 0 \<and> (seen \<or> hdr_ptr_of f = 0)"

lemma decode_ccsds_wanted:
  "decode_ccsds_packet f d =
     (if vcdu_wanted (d_have_mpdu d) f then ([take (d_cadu_len d - 4) f], d\<lparr>d_have_mpdu := True\<rparr>) else ([], d))"
  by (auto simp: decode_ccsds_packet_def vcdu_wanted_def)

lemma vcdu_wanted_prefix:
  assumes "take n f = take n f'" "10 \<le> n"
  shows "vcdu_wanted seen f = vcdu_wanted seen f'"
proof -
  have "f ! i = f' ! i" if "i < 10" for i using arg_cong [OF assms(1), of "\<lambda>xs. xs ! i"] that assms(2) by simp
  then show ?thesis by (simp add: vcdu_wanted_def hdr_ptr_of_def)
qed

text \<open>A frame that was scrambled, encoded and received without noise, whatever the sync marker and whatever state the
  encoder was in: it is published exactly if its header is wanted, and all of it but the last five bytes is what was sent.\<close>

lemma lrpt_decode_noiseless:
  assumes "lrpt_ok L d" "tabs_ok 0x4f 0x6d g" "length asm = 4" "length vcdu = 892" "s0 < 64"
    and "bits_of coded = bit_stream (encode27 0x4f 0x6d s0 (bits_of (asm @ fst (scramble L (whitening_reset L (d_scrambler d)) vcdu))))"
  shows "\<exists>frame d'. lrpt_decode L g coded d = Inr (if vcdu_wanted (d_have_mpdu d) vcdu then [frame] else [], d') \<and>
    length frame = 892 \<and> take 887 frame = take 887 vcdu \<and> lrpt_ok L d' \<and>
    d_have_mpdu d' = (d_have_mpdu d \<or> vcdu_wanted (d_have_mpdu d) vcdu)"
proof -
  note ok = assms(1) [unfolded lrpt_ok_def]
  let ?w = "whitening_reset L (d_scrambler d)"
  define sent where "sent = asm @ fst (scramble L ?w vcdu)"
  let ?cs = "encode27 0x4f 0x6d s0 (bits_of sent)"
  have w: "\<not> d_self_sync ?w" using ok by (simp add: whitening_reset_def)
  have ls: "length (fst (scramble L ?w vcdu)) = 892" using assms(4) by (simp add: scramble_def split_def Let_def)
  then have l: "length sent = 896" using assms(3) by (simp add: sent_def)
  have "length (bit_stream cs) = 2 * length cs" for cs by (induction cs rule: bit_stream.induct) simp_all
  then have lc: "length coded = 1792"
    using arg_cong [OF assms(6) [folded sent_def], of length] l by simp
  have c: "ccsds_polys 0x4f 0x6d" by (simp add: ccsds_polys_def iabs_def)
  have syms: "concat (map byte_syms coded) = flat (map (soft 0) ?cs)" unfolding concat_syms_bits flat_soft assms(6) [folded sent_def] ..
  have pre: "v27_shape (8 * length sent) (d_vt d)" "6 \<le> length sent" "length sent < 500000" "length (d_cadu d) = length sent"
    using ok unfolding l by simp_all
  have "\<exists>vp' cadu. viterbi27_block g (d_vt d) 0 (flat (map (soft 0) ?cs)) (8 * length sent) (d_cadu d) (8 * length sent) 0 = Inr (vp', cadu) \<and>
      v27_shape (8 * length sent) vp' \<and> length cadu = length sent \<and> take (length sent - 5) cadu = take (length sent - 5) sent"
    by (rule viterbi27_stream [OF assms(2) c pre assms(5)])
  then obtain vp' cadu where v: "viterbi27_block g (d_vt d) 0 (flat (map (soft 0) ?cs)) (8 * length sent) (d_cadu d) (8 * length sent) 0 = Inr (vp', cadu)"
      "v27_shape (8 * length sent) vp'" "length cadu = length sent" "take (length sent - 5) cadu = take (length sent - 5) sent"
    by blast
  have eight: "8 * 896 = (7168 :: nat)" by simp
  note v = v [unfolded l eight]
  obtain frame d1 where f: "frame = fst (descramble L ?w (drop 4 cadu))" "d_have_mpdu d1 = d_have_mpdu d" "d_cadu_len d1 = 896" "length frame = 892"
      "lrpt_decode L g coded d = Inr (decode_ccsds_packet frame d1)" "lrpt_ok L (snd (decode_ccsds_packet frame d1))"
    using lrpt_decode_block [OF assms(1) lc v(1-3) [folded syms]] by blast
  have "drop 4 (take 891 cadu) = drop 4 (take 891 sent)" using v(4) by simp
  then have "take 887 (drop 4 cadu) = take 887 (fst (scramble L ?w vcdu))" using assms(3) by (simp add: drop_take sent_def)
  then have "take 887 frame = take 887 vcdu"
    unfolding f(1) descramble_prefix [of 887] using descramble_prefix [of 887 L ?w "fst (scramble L ?w vcdu)"]
    by (simp add: descramble_scramble [OF w])
  moreover from this have "vcdu_wanted (d_have_mpdu d) frame = vcdu_wanted (d_have_mpdu d) vcdu" by (rule vcdu_wanted_prefix) simp
  ultimately show ?thesis using f(2-6) unfolding decode_ccsds_wanted
    by (intro exI [of _ frame] exI [of _ "snd (decode_ccsds_packet frame d1)"]) (simp add: decode_ccsds_wanted)
qed

text \<open>The state of a new decoder is well formed, and the tables are those of its polynomials.\<close>

lemma lrpt_new_ok:
  assumes "128 \<le> length m" "7174 \<le> length ds"
  shows "\<exists>d. lrpt_decoder_impl_new L i junk (Some (m, ds)) g = (Inr d, snd (lrpt_decoder_impl_new L i junk (Some (m, ds)) g)) \<and>
    lrpt_ok L d \<and> \<not> d_have_mpdu d \<and> tabs_ok 0x4f 0x6d (snd (lrpt_decoder_impl_new L i junk (Some (m, ds)) g))"
proof -
  obtain vp g1 where c: "create_viterbi27_port 7168 (Some (m, ds)) g = (Some vp, g1)"
    by (simp add: create_viterbi27_port_def Let_def)
  have "v27_shape 7168 vp" using v27_shape_create [of m 7168 ds g vp] assms c by simp
  moreover have "poly_ok 0x4f" "poly_ok 0x6d" by (simp_all add: poly_ok_def iabs_def)
  ultimately show ?thesis
    by (simp add: lrpt_decoder_impl_new_def c lrpt_ok_def whitening_make_def tabs_okI)
qed

definition example_vcdu :: "u8 list" where
  "example_vcdu = 0x40 # replicate 891 0"

definition example_lrpt :: "(u32 \<times> u32 \<times> u32) lrpt_decoder res \<times> v27_globals" where
  "example_lrpt = lrpt_decoder_impl_new fib_lfsr 1 (\<lambda>_. 0) (Some (replicate 128 0, replicate 7174 [0, 0])) \<lparr>Branchtab27 = [], Init = 0\<rparr>"

lemma example_lrpt_ok:
  obtains d where "fst example_lrpt = Inr d" "lrpt_ok fib_lfsr d" "\<not> d_have_mpdu d" "tabs_ok 0x4f 0x6d (snd example_lrpt)"
  using lrpt_new_ok [of "replicate 128 0" "replicate 7174 [0, 0]" fib_lfsr 1 "\<lambda>_. 0" "\<lparr>Branchtab27 = [], Init = 0\<rparr>"]
  unfolding example_lrpt_def [symmetric] length_replicate by (metis fst_conv order_refl)

theorem lrpt_decode_safe_witness:
  "\<exists>d frames d'. fst example_lrpt = Inr d \<and> lrpt_decode fib_lfsr (snd example_lrpt) (replicate 1792 0x5A) d = Inr (frames, d') \<and>
     lrpt_ok fib_lfsr d' \<and> length frames \<le> 1"
proof -
  obtain d where d: "fst example_lrpt = Inr d" "lrpt_ok fib_lfsr d" "tabs_ok 0x4f 0x6d (snd example_lrpt)" by (rule example_lrpt_ok)
  show ?thesis using lrpt_decode_safe [OF d(2,3), of "replicate 1792 0x5A"] d(1) by blast
qed

end
