(* ===== verification/Lrpt_Link.thy ===== *)
theory Lrpt_Link
  imports Lrpt_Sync Lrpt_Decoder
begin

text \<open>
  The two LRPT blocks together: the sync word is the code of the CCSDS sync marker, it is found wherever it comes in, and the
  symbols that follow it are the frame that the decoder publishes.
\<close>

unbundle bit_operations_syntax

section \<open>Bits of the symbols\<close>

definition bits64 :: "u64 \<Rightarrow> bool list" where
  "bits64 r = map (\<lambda>i. bit r (63 - i)) [0..<64]"

definition dibit :: "'c qpsk_ops \<Rightarrow> 'c \<Rightarrow> bool \<times> bool" where
  "dibit C x = (bit (decision_maker C x) 1, bit (decision_maker C x) 0)"

text \<open>The documented behaviour of the constellation and of the complex product: four points, and a one that is neutral.\<close>

definition qpsk_ok :: "'c qpsk_ops \<Rightarrow> bool" where
  "qpsk_ok C \<longleftrightarrow> (\<forall>x. decision_maker C x < 4) \<and> (\<forall>x. cmul C x (gr_complex C 1 0) = x)"

lemma turned_eq: "qpsk_ok C \<Longrightarrow> turned C q x = cmul C x (turn C q)"
  by (simp add: qpsk_ok_def turned_def turn_def)

lemma bit_decision: "qpsk_ok C \<Longrightarrow> bit (decision_maker C x) i \<Longrightarrow> i < 2"
proof -
  assume "qpsk_ok C" "bit (decision_maker C x) i"
  moreover from this have "decision_maker C x < 2 ^ 2" by (simp add: qpsk_ok_def)
  then have "take_bit 2 (decision_maker C x) = decision_maker C x" by (rule less_mask_eq [unfolded take_bit_eq_mask [symmetric]])
  ultimately show "i < 2" by (metis bit_take_bit_iff)
qed

lemma bits_of_network_order: "bits_of (mem64 be (htonll be r)) = bits64 r"
proof -
  have m: "mem64 be (htonll be r) = map (\<lambda>k. ucast (drop_bit (8 * (7 - k)) r)) [0..<8]"
  proof (cases be)
    case False
    have h: "htonll False r = push_bit 32 (ucast (bswap32 (ucast r)) AND 0xFFFFFFFF) OR ucast (bswap32 (ucast (drop_bit 32 r)))"
      by (simp add: htonll_def htonl_def bswap32_def)
    have "bit (htonll False r) n = bit r (8 * (7 - n div 8) + n mod 8)" if n: "n < 64" for n
      unfolding h by (rule all_upto_64 [OF n], simp add: bswap32_def bit_simps) (simp add: numeral_2_eq_2)
    then have c: "ucast (drop_bit (8 * k) (htonll False r)) = (ucast (drop_bit (8 * (7 - k)) r) :: u8)" if "k < 8" for k
      using that by (intro bit_word_eqI) (simp add: bit_simps)
    have "mem64 False (htonll False r) = map (\<lambda>k. ucast (drop_bit (8 * (7 - k)) r)) [0, 1, 2, 3, 4, 5, 6, 7]"
      unfolding mem64_def Let_def using c [of 0] c [of 1] c [of 2] c [of 3] c [of 4] c [of 5] c [of 6] c [of 7] by simp
    then show ?thesis using False by (simp add: upt_rec)
  qed (simp add: mem64_def htonll_def htonl_def upt_rec Let_def)
  have e: "8 * (7 - j) + 7 - k = 63 - (8 * j + k)" if "j < 8" "k < 8" for j k :: nat using that by linarith
  have "length (mem64 be (htonll be r)) = 8" by simp
  then show ?thesis
    by (intro bits_of_eqI) (auto simp: m bits64_def bit_simps e)
qed

lemma bit_stream_append: "bit_stream (xs @ ys) = bit_stream xs @ bit_stream ys"
  by (induction xs rule: bit_stream.induct) simp_all

lemma length_bit_stream [simp]: "length (bit_stream cs) = 2 * length cs"
  by (induction cs rule: bit_stream.induct) simp_all

lemma bits64_reg_in:
  assumes "qpsk_ok C"
  shows "bits64 (reg_in C q x r) = drop 2 (bits64 r) @ bit_stream [dibit C (turned C q x)]"
proof (rule nth_equalityI)
  fix i assume "i < length (bits64 (reg_in C q x r))"
  then have i: "i < 64" by (simp add: bits64_def)
  have z: "bit (decision_maker C y) j \<Longrightarrow> j < 2" for y j using bit_decision [OF assms] .
  show "bits64 (reg_in C q x r) ! i = (drop 2 (bits64 r) @ bit_stream [dibit C (turned C q x)]) ! i"
  proof (cases "i < 62")
    case True
    then show ?thesis using z [of "turned C q x" "63 - i"] by (auto simp: bits64_def nth_append reg_in_def bit_simps)
  next
    case False
    then consider "i = 62" | "i = 63" using i by linarith
    then show ?thesis by cases (simp_all add: bits64_def nth_append reg_in_def dibit_def bit_simps)
  qed
qed (simp add: bits64_def)

lemma bits64_fold:
  assumes "qpsk_ok C"
  shows "bits64 (fold (reg_in C q) xs r) = drop (2 * length xs) (bits64 r @ bit_stream (map (\<lambda>x. dibit C (turned C q x)) xs))"
proof (induction xs arbitrary: r)
  case (Cons x xs)
  have l: "length (bits64 r) = 64" for r by (simp add: bits64_def)
  let ?b = "bit_stream [dibit C (turned C q x)]" and ?bs = "bit_stream (map (\<lambda>x. dibit C (turned C q x)) xs)"
  have "bits64 (fold (reg_in C q) (x # xs) r) = drop (2 * length xs) (drop 2 (bits64 r) @ ?b @ ?bs)"
    using Cons by (simp add: bits64_reg_in [OF assms])
  also have "drop 2 (bits64 r) @ ?b @ ?bs = drop 2 (bits64 r @ ?b @ ?bs)" using l by simp
  also have "?b @ ?bs = bit_stream (map (\<lambda>x. dibit C (turned C q x)) (x # xs))" by (simp add: bit_stream_append [symmetric])
  finally show ?case unfolding append_assoc [symmetric] by (simp only: drop_drop length_Cons) (simp add: add.commute)
qed simp

lemma bits_of_symbols_byte:
  assumes "qpsk_ok C"
  shows "bits_of [symbols_byte C x0 x1 x2 x3] = bit_stream (map (dibit C) [x0, x1, x2, x3])"
proof -
  have z: "2 \<le> n \<Longrightarrow> \<not> bit (decision_maker C x) n" for x n using bit_decision [OF assms, of x n] by linarith
  show ?thesis
    by (simp add: symbols_byte_def dibit_def bit_simps upt_rec z)
qed

lemma bits_of_append: "bits_of (xs @ ys) = bits_of xs @ bits_of ys"
  by (simp add: bits_of_def)

lemma bits_of_pack_symbols:
  "qpsk_ok C \<Longrightarrow> 4 dvd length xs \<Longrightarrow> bits_of (pack_symbols C xs) = bit_stream (map (dibit C) xs)"
proof (induction C xs rule: pack_symbols.induct)
  case (1 C x0 x1 x2 x3 xs)
  have "bits_of (pack_symbols C (x0 # x1 # x2 # x3 # xs)) = bits_of [symbols_byte C x0 x1 x2 x3] @ bits_of (pack_symbols C xs)"
    unfolding pack_symbols.simps bits_of_append [symmetric] by simp
  also have "\<dots> = bit_stream (map (dibit C) [x0, x1, x2, x3]) @ bit_stream (map (dibit C) xs)"
    unfolding bits_of_symbols_byte [OF 1(2)] using 1 by (simp add: four_dvd)
  finally show ?case by (simp add: bit_stream_append [symmetric])
qed (auto dest: dvd_imp_le)

section \<open>From the symbols to the frame\<close>

text \<open>Two calls of a receiver that has found the sync word: the frame it publishes holds the bits of the symbols since its beginning.\<close>

lemma receive_whole:
  assumes "lrpt_sync_ok d" "d_received d = 8" "1784 \<le> length bs"
  shows "receive bs d = (Some (7136, take 8 (d_coded_cadu d) @ take 1784 bs),
    d\<lparr>d_coded_cadu := take 8 (d_coded_cadu d) @ take 1784 bs, d_received := 8, d_frame_sync := False\<rparr>)"
  using assms by (simp add: receive_def lrpt_sync_ok_def Let_def)

lemma sync_then_frame:
  assumes "qpsk_ok C" "lrpt_sync_ok ds" "\<not> d_frame_sync ds" "40 dvd length inp" "40 dvd length inp'" "7136 \<le> length inp'"
    and "first_sync C (found_sync C ds) (regs_of ds) inp = Some (n, q)" "32 \<le> n"
  obtains ds' ds'' cadu where "lrpt_sync_work be C inp ds = Inr (n, [], ds')" "lrpt_sync_work be C inp' ds' = Inr (7136, [cadu], ds'')"
    "\<not> d_frame_sync ds''" "bits_of cadu = bit_stream (map (\<lambda>x. dibit C (turned C q x)) (drop (n - 32) (take n inp) @ take 7136 inp'))"
proof -
  let ?r = "fed_regs C (take n inp) (regs_of ds) q" and ?f = "\<lambda>x. dibit C (turned C q x)"
  define ds' where "ds' = synced be C q ?r (set_regs (stop_regs C q (take n inp) (regs_of ds)) ds)"
  have n: "n \<le> length inp" using first_sync_less [OF assms(7)] by simp
  have d1: "lrpt_sync_work be C inp ds = Inr (n, [], ds')"
    using assms(3) by (simp add: lrpt_sync_work_def work_no_sync_eq [OF assms(2,4)] assms(7) ds'_def)
  have rec: "d_received ds = 8" "length (d_coded_cadu ds) = 1792" using assms(2,3) by (simp_all add: lrpt_sync_ok_def)
  have ok: "lrpt_sync_ok ds'" "d_frame_sync ds'" "d_received ds' = 8" "d_rotate ds' = turn C q" "take 8 (d_coded_cadu ds') = mem64 be (htonll be ?r)"
    using rec by (simp_all add: ds'_def synced_ok assms(2)) (simp_all add: synced_def set_regs_def)
  let ?bs = "pack_symbols C (map (\<lambda>x. cmul C x (turn C q)) inp')"
  let ?cadu = "take 8 (d_coded_cadu ds') @ take 1784 ?bs"
  have "1784 \<le> length ?bs" using assms(6) by (simp add: div_le_mono [of 7136 "length inp'" 4, simplified])
  note r = receive_whole [OF ok(1,3) this]
  have d2: "lrpt_sync_work be C inp' ds' = Inr (7136, [?cadu], ds'\<lparr>d_coded_cadu := ?cadu, d_received := 8, d_frame_sync := False\<rparr>)"
    using ok(2) by (simp add: lrpt_sync_work_def work_sync_receive [OF ok(1,2) assms(5)] ok(4) r)
  have "pack_symbols C (map (turned C q) (take 7136 inp' @ drop 7136 inp')) =
      pack_symbols C (map (turned C q) (take 7136 inp')) @ pack_symbols C (map (turned C q) (drop 7136 inp'))"
    using assms(6) by (simp only: map_append) (intro pack_symbols_append, simp)
  then have "take 1784 ?bs = pack_symbols C (map (turned C q) (take 7136 inp'))"
    using assms(6) by (simp add: turned_eq [OF assms(1), symmetric])
  then have b2: "bits_of (take 1784 ?bs) = bit_stream (map ?f (take 7136 inp'))"
    using assms(6) by (simp add: bits_of_pack_symbols [OF assms(1)] o_def)
  have "take n inp = take (n - 32) inp @ drop (n - 32) (take n inp)"
    using append_take_drop_id [of "n - 32" "take n inp"] by (simp add: min_def)
  then have "?r = fold (reg_in C q) (drop (n - 32) (take n inp)) (fold (reg_in C q) (take (n - 32) inp) (regs_of ds q))"
    unfolding fed_regs_def by (metis fold_append comp_apply)
  moreover have l64: "length (bits64 x) = 64" for x by (simp add: bits64_def)
  moreover have "length (drop (n - 32) (take n inp)) = 32" using n assms(8) by simp
  ultimately have "bits64 ?r = bit_stream (map ?f (drop (n - 32) (take n inp)))"
    by (simp add: bits64_fold [OF assms(1)] l64)
  then have "bits_of ?cadu = bit_stream (map ?f (drop (n - 32) (take n inp) @ take 7136 inp'))"
    by (simp only: bits_of_append ok(5) bits_of_network_order b2 map_append bit_stream_append)
  then show thesis using that [OF d1 d2] by simp
qed

text \<open>C6: From the symbols to the frame. If the 32 symbols up to the sync word found, in its position of the constellation, and those that follow
  are the coded bits of a sync marker and a scrambled frame, the two blocks publish that frame, but for its last five bytes, if its header is wanted.\<close>

theorem lrpt_link:
  assumes "qpsk_ok C" "lrpt_sync_ok ds" "\<not> d_frame_sync ds" "40 dvd length inp" "40 dvd length inp'" "7136 \<le> length inp'"
    and "first_sync C (found_sync C ds) (regs_of ds) inp = Some (n, q)" "32 \<le> n"
    and "lrpt_ok L d" "tabs_ok 0x4f 0x6d g" "length asm = 4" "length vcdu = 892" "s0 < 64"
    and "map (\<lambda>x. dibit C (turned C q x)) (drop (n - 32) (take n inp) @ take 7136 inp') =
      encode27 0x4f 0x6d s0 (bits_of (asm @ fst (scramble L (whitening_reset L (d_scrambler d)) vcdu)))"
  shows "\<exists>ds' ds'' cadu frame d'. lrpt_sync_work be C inp ds = Inr (n, [], ds') \<and> lrpt_sync_work be C inp' ds' = Inr (7136, [cadu], ds'') \<and>
    \<not> d_frame_sync ds'' \<and> lrpt_decode L g cadu d = Inr (if vcdu_wanted (d_have_mpdu d) vcdu then [frame] else [], d') \<and>
    length frame = 892 \<and> take 887 frame = take 887 vcdu"
proof -
  obtain ds' ds'' cadu where s: "lrpt_sync_work be C inp ds = Inr (n, [], ds')" "lrpt_sync_work be C inp' ds' = Inr (7136, [cadu], ds'')"
    "\<not> d_frame_sync ds''" "bits_of cadu = bit_stream (map (\<lambda>x. dibit C (turned C q x)) (drop (n - 32) (take n inp) @ take 7136 inp'))"
    using sync_then_frame [OF assms(1-8)] by blast
  show ?thesis using lrpt_decode_noiseless [OF assms(9-13) s(4) [unfolded assms(14)]] s(1-3) by blast
qed

section \<open>The sync word\<close>

text \<open>The sync marker of CCSDS frames, and its code from the state zero.\<close>

definition sync_marker :: "u8 list" where
  "sync_marker = [0x1A, 0xCF, 0xFC, 0x1D]"

definition coded_marker :: "(bool \<times> bool) list" where
  "coded_marker = [(False, False), (False, False), (False, False), (True, True), (False, True), (False, True), (True, True), (False, True), (False, True), (False, False), (True, False), (False, True), (True, True), (False, False), (False, False), (True, False), (False, True), (False, False), (True, True), (True, True), (True, True), (True, True), (False, False), (True, False), (False, True), (True, False), (True, False), (False, False), (False, True), (True, False), (True, False), (True, True)]"

lemma marker_bits: "bits_of sync_marker = [False, False, False, True, True, False, True, False, True, True, False, False, True, True, True, True, True, True, True, True, True, True, False, False, False, False, False, True, True, True, False, True]"
  by (simp add: sync_marker_def upt_rec)

lemma out_bit_polys:
  "out_bit 0x4f s b \<longleftrightarrow> (b \<noteq> (bit s 0 \<noteq> (bit s 1 \<noteq> (bit s 2 \<noteq> bit s 5))))"
  "out_bit 0x6d s b \<longleftrightarrow> (b \<noteq> (bit s 1 \<noteq> (bit s 2 \<noteq> (bit s 4 \<noteq> bit s 5))))"
proof -
  have p: "sint (0x4f :: u32) = 0x4f" "sint (0x6d :: u32) = 0x6d" "iabs 0x4f = 0x4f" "iabs 0x6d = 0x6d" by (simp_all add: iabs_def)
  show "out_bit 0x4f s b \<longleftrightarrow> (b \<noteq> (bit s 0 \<noteq> (bit s 1 \<noteq> (bit s 2 \<noteq> bit s 5))))"
    "out_bit 0x6d s b \<longleftrightarrow> (b \<noteq> (bit s 1 \<noteq> (bit s 2 \<noteq> (bit s 4 \<noteq> bit s 5))))"
    unfolding out_bit_def out_word_def p odd_polys by simp_all
qed

lemma encode_marker: "encode27 0x4f 0x6d 0 (bits_of sync_marker) = coded_marker"
  unfolding marker_bits coded_marker_def
  by (simp add: out_bit_polys next_state_def reg_def bit_Suc_0_iff)

text \<open>After six inputs the state of the encoder before the marker is forgotten.\<close>

lemma encode_marker_any:
  assumes "s0 < 64"
  shows "drop 6 (encode27 0x4f 0x6d s0 (bits_of sync_marker)) = drop 6 coded_marker"
proof -
  have t: "take 6 (bits_of sync_marker) = steer 6" unfolding marker_bits steer_def by (simp add: upt_rec bit_Suc_0_iff)
  then have b: "bits_of sync_marker = steer 6 @ drop 6 (bits_of sync_marker)" by (metis append_take_drop_id)
  have "drop 6 (encode27 0x4f 0x6d s (bits_of sync_marker)) = encode27 0x4f 0x6d 6 (drop 6 (bits_of sync_marker))" if "s < 64" for s
    using fstate_steer [OF that, of 6 "[]"] encode27_append [of "0x4f" "0x6d" s "steer 6" "drop 6 (bits_of sync_marker)"]
    by (subst b) (simp add: steer_def)
  from this [OF assms] this [of 0] show ?thesis by (simp add: encode_marker)
qed

lemma bits64_asm: "drop 12 (bits64 0xd49c24ff2686b) = bit_stream (drop 6 coded_marker)"
  by (simp add: bits64_def coded_marker_def upt_rec)

lemma bits64_nth: "i < 64 \<Longrightarrow> bits64 r ! i = bit r (63 - i)"
  unfolding bits64_def by (subst nth_map_upt) simp_all

text \<open>C38: The constant of the receiver is the code of the sync marker with the polynomials of the decoder: when the 32 symbols of a
  marker without noise have come in, in any position of the constellation, after anything else and from any state of the encoder, the register of that position
  passes the test, whatever the threshold.\<close>

theorem marker_is_found:
  assumes "qpsk_ok C" "count_bits64 C 0 = 0" "lrpt_sync_impl_new be C junk threshold = Inr d" "s0 < 64"
    and "map (\<lambda>x. dibit C (turned C q x)) xs = encode27 0x4f 0x6d s0 (bits_of sync_marker)"
  shows "found_sync C d (fed_regs C (pre @ xs) rs q)"
proof -
  let ?r = "fed_regs C (pre @ xs) rs q" and ?s = "fold (reg_in C q) pre (rs q)"
  have p: "d_asm_coded d = 0xd49c24ff2686b" "d_asm_coded_mask d = push_bit 52 1 - 1"
    using assms(3) by (auto simp: lrpt_sync_impl_new_def res_bind_Inr_iff Let_def)
  have l: "length xs = 32" using arg_cong [OF assms(5), of length] by (simp add: sync_marker_def)
  have l64: "length (bits64 x) = 64" for x by (simp add: bits64_def)
  have "bits64 ?r = drop (2 * length xs) (bits64 ?s @ bit_stream (map (\<lambda>x. dibit C (turned C q x)) xs))"
    unfolding fed_regs_def fold_append comp_def by (rule bits64_fold [OF assms(1)])
  then have "bits64 ?r = bit_stream (encode27 0x4f 0x6d s0 (bits_of sync_marker))" using l l64 by (simp add: assms(5))
  moreover have "drop (2 * m) (bit_stream cs) = bit_stream (drop m cs)" for m cs
  proof (induction m arbitrary: cs)
    case (Suc m)
    then show ?case by (cases cs rule: bit_stream.cases) simp_all
  qed simp
  from this [of 6] have "drop 12 (bit_stream cs) = bit_stream (drop 6 cs)" for cs by simp
  ultimately have e: "drop 12 (bits64 ?r) = drop 12 (bits64 0xd49c24ff2686b)"
    using encode_marker_any [OF assms(4)] bits64_asm by simp
  have "bit ?r i = bit (0xd49c24ff2686b :: u64) i" if "i < 52" for i
    using arg_cong [OF e, of "\<lambda>bs. bs ! (51 - i)"] that by (simp add: l64 bits64_nth)
  note low = this
  have m: "push_bit 52 1 - 1 = (mask 52 :: u64)" by (simp add: mask_eq_exp_minus_1 push_bit_eq_mult)
  have "(?r XOR d_asm_coded d) AND d_asm_coded_mask d = 0"
  proof (rule bit_word_eqI)
    fix n show "bit ((?r XOR d_asm_coded d) AND d_asm_coded_mask d) n = bit (0 :: u64) n"
      unfolding p m using low [of n] by (cases "n < 52") (simp_all add: bit_and_iff bit_xor_iff bit_mask_iff)
  qed
  then show ?thesis using assms(2) by (simp add: found_sync_def)
qed

section \<open>An example of both blocks\<close>

definition qpsk_point :: "bool \<times> bool \<Rightarrow> int \<times> int" where
  "qpsk_point c = (if snd c then 1 else - 1, if fst c then 1 else - 1)"

lemma gauss_ok: "qpsk_ok gauss_qpsk" "count_bits64 gauss_qpsk 0 = 0"
  by (auto simp: qpsk_ok_def gauss_qpsk_def)

lemma dibit_point: "dibit gauss_qpsk (qpsk_point c) = c"
  by (cases c) (auto simp: dibit_def gauss_qpsk_def qpsk_point_def)

lemma dibit_turned_point: "dibit gauss_qpsk (turned gauss_qpsk 0 (qpsk_point c)) = c"
  by (simp add: turned_def dibit_point)

theorem marker_is_found_witness:
  "found_sync gauss_qpsk example_sync (fed_regs gauss_qpsk ([(1, 1), (- 1, 1)] @ map qpsk_point coded_marker) (\<lambda>_. 7) 0)"
  by (rule marker_is_found [OF gauss_ok example_sync, of 0]) (simp_all add: comp_def dibit_turned_point encode_marker)

lemma popcount_zero_iff: "popcount w = 0 \<longleftrightarrow> w = 0"
proof
  assume "popcount w = 0"
  then have "\<forall>i \<in> {0..<LENGTH('a)}. of_bool (bit w i) = (0 :: nat)" unfolding popcount_def by (subst (asm) sum_eq_0_iff) simp_all
  then show "w = 0" by (intro bit_word_eqI) simp
qed simp

lemma first_sync_four:
  "first_sync C p ((!) [a, b, c, d]) (x # xs) =
    (let a' = reg_in C 0 x a; b' = reg_in C 1 x b; c' = reg_in C 2 x c; d' = reg_in C 3 x d
     in if p a' then Some (1, 0) else if p b' then Some (1, 1) else if p c' then Some (1, 2) else if p d' then Some (1, 3)
        else map_option (\<lambda>(n, q). (n + 1, q)) (first_sync C p ((!) [a', b', c', d']) xs))"
proof -
  have e: "first_sync C p (fed_regs C [x] ((!) [a, b, c, d])) xs = first_sync C p ((!) [reg_in C 0 x a, reg_in C 1 x b, reg_in C 2 x c, reg_in C 3 x d]) xs"
    by (rule first_sync_cong) (auto simp: fed_regs_def numeral_eq_Suc less_Suc_eq)
  show ?thesis unfolding first_sync.simps Let_def e by (simp add: fed_regs_def)
qed

lemma example_first_sync:
  "first_sync gauss_qpsk (found_sync gauss_qpsk example_sync) (regs_of example_sync) (replicate 8 (1, 1) @ map qpsk_point coded_marker) = Some (40, 0)"
proof -
  have p: "found_sync gauss_qpsk example_sync = (\<lambda>r. (r XOR 0xd49c24ff2686b) AND 0xFFFFFFFFFFFFF = 0)"
    by (simp add: example_sync_def lrpt_sync_impl_new_def buf_copy_def Let_def found_sync_def gauss_qpsk_def popcount_zero_iff fun_eq_iff)
  have r: "regs_of example_sync = (!) [0, 0, 0, 0]"
    by (simp add: example_sync_def lrpt_sync_impl_new_def buf_copy_def Let_def regs_of_def fun_eq_iff)
  have i: "reg_in gauss_qpsk 0 (x, y) r = 4 * r OR (2 * of_bool (0 < y) + of_bool (0 < x))"
    "reg_in gauss_qpsk 1 (x, y) r = 4 * r OR (2 * of_bool (0 < x) + of_bool (0 < - y))"
    "reg_in gauss_qpsk 2 (x, y) r = 4 * r OR (2 * of_bool (0 < - y) + of_bool (0 < - x))"
    "reg_in gauss_qpsk 3 (x, y) r = 4 * r OR (2 * of_bool (0 < - x) + of_bool (0 < y))" for x y r
    by (simp_all add: reg_in_def turned_def turn_def gauss_qpsk_def push_bit_eq_mult mult.commute)
  have x: "replicate 8 (1, 1) @ map qpsk_point coded_marker = [(1, 1), (1, 1), (1, 1), (1, 1), (1, 1), (1, 1), (1, 1), (1, 1), (- 1, - 1), (- 1, - 1), (- 1, - 1), (1, 1), (1, - 1), (1, - 1), (1, 1), (1, - 1), (1, - 1), (- 1, - 1), (- 1, 1), (1, - 1), (1, 1), (- 1, - 1), (- 1, - 1), (- 1, 1), (1, - 1), (- 1, - 1), (1, 1), (1, 1), (1, 1), (1, 1), (- 1, - 1), (- 1, 1), (1, - 1), (- 1, 1), (- 1, 1), (- 1, - 1), (1, - 1), (- 1, 1), (- 1, 1), (1, 1)]"
    by (simp add: coded_marker_def qpsk_point_def numeral_eq_Suc)
  show ?thesis
    unfolding p r x by (simp add: first_sync_four Let_def i del: first_sync.simps(2) One_nat_def)
qed

definition example_stream :: "(u32 \<times> u32 \<times> u32) lrpt_decoder \<Rightarrow> (bool \<times> bool) list" where
  "example_stream d = encode27 0x4f 0x6d 0 (bits_of (sync_marker @ fst (scramble fib_lfsr (whitening_reset fib_lfsr (d_scrambler d)) example_vcdu)))"

lemma example_stream: "take 32 (example_stream d) = coded_marker" "length (example_stream d) = 7168"
proof -
  have l: "length (bits_of sync_marker) = 32" "length coded_marker = 32" "length example_vcdu = 892"
    by (simp_all add: sync_marker_def coded_marker_def example_vcdu_def)
  show "take 32 (example_stream d) = coded_marker"
    unfolding example_stream_def bits_of_append encode27_append encode_marker using l(2) by simp
  show "length (example_stream d) = 7168"
    unfolding example_stream_def length_encode27 length_bits_of using l(3) by (simp add: sync_marker_def scramble_def split_def Let_def)
qed

theorem lrpt_link_witness:
  "\<exists>d ds' ds'' cadu frame d'. fst example_lrpt = Inr d \<and>
     lrpt_sync_work False gauss_qpsk (replicate 8 (1, 1) @ map qpsk_point coded_marker) example_sync = Inr (40, [], ds') \<and>
     lrpt_sync_work False gauss_qpsk (map qpsk_point (drop 32 (example_stream d)) @ replicate 24 (1, 1)) ds' = Inr (7136, [cadu], ds'') \<and>
     lrpt_decode fib_lfsr (snd example_lrpt) cadu d = Inr ([frame], d') \<and> take 887 frame = take 887 example_vcdu"
proof -
  obtain d where d: "fst example_lrpt = Inr d" "lrpt_ok fib_lfsr d" "\<not> d_have_mpdu d" "tabs_ok 0x4f 0x6d (snd example_lrpt)" by (rule example_lrpt_ok)
  let ?inp = "replicate 8 (1, 1) @ map qpsk_point coded_marker :: (int \<times> int) list"
  let ?inp' = "map qpsk_point (drop 32 (example_stream d)) @ replicate 24 (1, 1)"
  have ds: "lrpt_sync_ok example_sync" "\<not> d_frame_sync example_sync"
    by (simp_all add: example_sync_def lrpt_sync_impl_new_def buf_copy_def Let_def lrpt_sync_ok_def)
  have lm: "length coded_marker = 32" "length example_vcdu = 892" "length sync_marker = 4" by (simp_all add: coded_marker_def example_vcdu_def sync_marker_def)
  have li: "40 dvd length ?inp" "40 dvd length ?inp'" "7136 \<le> length ?inp'" "(32 :: nat) \<le> 40" "(0 :: nat) < 64"
    using lm(1) example_stream(2) [of d] by simp_all
  have "drop (40 - 32) (take 40 ?inp) @ take 7136 ?inp' = map qpsk_point (coded_marker @ drop 32 (example_stream d))"
    using lm(1) example_stream(2) [of d] by simp
  also have "coded_marker @ drop 32 (example_stream d) = example_stream d"
    using append_take_drop_id [of 32 "example_stream d"] unfolding example_stream(1) .
  finally have s: "map (\<lambda>x. dibit gauss_qpsk (turned gauss_qpsk 0 x)) (drop (40 - 32) (take 40 ?inp) @ take 7136 ?inp') =
      encode27 0x4f 0x6d 0 (bits_of (sync_marker @ fst (scramble fib_lfsr (whitening_reset fib_lfsr (d_scrambler d)) example_vcdu)))"
    by (simp only: map_map comp_def dibit_turned_point map_ident flip: example_stream_def)
  have w: "vcdu_wanted (d_have_mpdu d) example_vcdu"
    by (simp add: vcdu_wanted_def hdr_ptr_of_def example_vcdu_def)
  show ?thesis
    using lrpt_link [OF gauss_ok(1) ds li(1-3) example_first_sync li(4) d(2,4) lm(3,2) li(5) s, where be = False, unfolded if_P [OF w]] d(1)
    by (elim exE conjE) (intro exI conjI)
qed

end
