(* ===== verification/Spec2Isabelle.thy ===== *)
theory Spec2Isabelle
  imports Shift_Reg Golay Deinterleaver Ax25_Encoder Ax25_Link Frame_Blocks Ax100_Mode5 Ax100_Mode6 Rs_Encoder Cw_Link
    Base64 Ber_Calculator Amsat_Duv_Decoder Lrpt_Link
begin

text \<open>
  A model of gr-satnogs, the GNU Radio module of the SatNOGS ground stations: the decoders and encoders that
  turn hard bits into frames and frames into bits, the codes below them and the blocks around them.

  The program. A flowgraph feeds items, mostly one bit per byte, to the block \<open>frame_decoder\<close>
  (\<open>lib/frame_decoder_impl.cc\<close>). The block owns an object of the class \<open>decoder\<close> (\<open>lib/decoder.cc\<close>) and calls
  its virtual \<open>decode\<close> until the input is consumed; each call returns a \<open>decoder_status\<close> with the number of
  items consumed and, when a frame is complete, a dictionary of metadata (\<open>lib/metadata.cc\<close>). The subclasses
  are state machines over shift registers, buffers and queues; they call the checksums, the Golay and
  Reed-Solomon codes and the scramblers. \<open>frame_encoder\<close> does the opposite with the class \<open>encoder\<close>. Other
  blocks exchange messages only: checksums (\<open>crc_async\<close>), JSON, the frame error counter, the Morse source.

  The theories, in the order the code has its layers. Names in brackets are files under \<open>src/\<close>.

  \<^item> \<open>Prelude\<close>: results of fallible code (\<open>Inl\<close> an error, \<open>Inr\<close> a value), checked buffers and queues, bits and
    bytes, loops (\<open>run_loop\<close>, with the locales \<open>partial_loop\<close> and \<open>step_loop\<close>), byte words.
  \<^item> \<open>Utils\<close> [\<open>lib/utils.cc\<close>], \<open>Shift_Reg\<close> [\<open>lib/shift_reg.cc\<close>], \<open>Crc\<close> [\<open>lib/crc.cc\<close>], \<open>Golay\<close> [\<open>lib/golay24.cc\<close>],
    \<open>Whitening\<close> [\<open>lib/whitening.cc\<close>], \<open>Deinterleaver\<close> [\<open>lib/convolutional_deinterleaver.cc\<close>]: the arithmetic below
    the decoders, each with the fact that makes it right: the checksums are polynomial divisions, \<open>decode24\<close>
    is the bounded distance decoder of radius three, byte scrambling is bit scrambling, the deinterleaver
    delays by branch.
  \<^item> \<open>Reed_Solomon\<close>, \<open>Rs_Field\<close>, \<open>Rs_Code\<close> [\<open>lib/libfec/*rs*\<close>, \<open>init_rs.h\<close>, \<open>gen_ccsds*.c\<close>]: the codec, the field its
    tables compute in, and the code: encoded blocks are accepted unchanged, and 32 wrong bytes never turn
    one block into another. \<open>Rs_Encoder\<close> [\<open>lib/rs_encoder.cc\<close>] is the block that calls it.
  \<^item> \<open>Metadata\<close> [\<open>lib/metadata.cc\<close>, \<open>lib/decoder.cc\<close>]: dictionaries, their JSON form, and the base class of the
    decoders, the record \<open>decoder_base\<close> that the decoders extend. \<open>Base64\<close> [\<open>base64.h\<close>,
    \<open>lib/json_converter_impl.cc\<close>] is the encoding of the PDU and the block that prints it.
  \<^item> \<open>Ax25\<close>, \<open>Ax25_Encoder\<close>, \<open>Ax25_Decoder\<close>, \<open>Ax25_Link\<close> [\<open>ax25.h\<close>, \<open>lib/ax25_encoder.cc\<close>, \<open>lib/ax25_decoder.cc\<close>]: the
    encoder refines an abstract line (flags, stuffed frame, flags); the decoder is safe, loses no item and
    reports only frames followed by their check sequence; \<open>ax25_link_roundtrip\<close> composes them.
  \<^item> \<open>Argos_Decoder\<close> [\<open>lib/argos_ldr_decoder.cc\<close>], \<open>Ieee_Decoder\<close>, \<open>Ieee_Encoder\<close> [\<open>lib/ieee802_15_4_*.cc\<close>],
    \<open>Ax100_Mode5\<close>, \<open>Ax100_Mode6\<close> [\<open>lib/ax100_*.cc\<close>], \<open>Amsat_Table\<close>, \<open>Amsat_Duv_Decoder\<close> [\<open>amsat_duv_decoder.h\<close>,
    \<open>lib/amsat_duv_decoder.cc\<close>]: the other decoders, each with its invariant, the termination or safety
    of its calls, the soundness of its reports and, where there is a sender, the round trip.
  \<^item> \<open>Frame_Blocks\<close> [\<open>lib/frame_decoder_impl.cc\<close>, \<open>lib/frame_encoder_impl.cc\<close>]: the virtual interface as a record
    of functions, the locale \<open>decoder_contract\<close> of what a block relies on, its interpretations for the decoders,
    and the progress of the block under the scheduler (\<open>feed\<close>).
  \<^item> \<open>Crc_Async\<close> [\<open>lib/crc_async_impl.cc\<close>], \<open>Ber_Calculator\<close> [\<open>lib/ber_calculator_impl.cc\<close>]: message handlers.
  \<^item> \<open>Viterbi27\<close>, \<open>Viterbi27_Code\<close>, \<open>Viterbi27_Decoder\<close>, \<open>Viterbi27_Stream\<close> [\<open>lib/libfec/viterbi27_port.c\<close>]: the
    Viterbi decoder of rate one half, refined to cheapest paths in the trellis: a block with its tail is decoded to a most
    likely path, noise below half the free distance is corrected, and a block of a running stream without noise is
    right but for its last five bytes.
  \<^item> \<open>Lrpt_Sync\<close>, \<open>Lrpt_Decoder\<close>, \<open>Lrpt_Link\<close> [\<open>lib/lrpt_sync_impl.cc\<close>, \<open>lib/lrpt_decoder_impl.cc\<close>]: the blocks of the
    LRPT downlink, from QPSK symbols in an unknown position of the constellation to the frame; \<open>lrpt_link\<close> composes them.
  \<^item> \<open>Morse\<close>, \<open>Morse_Source\<close>, \<open>Cw_Encoder\<close>, \<open>Cw_Decoder\<close>, \<open>Cw_Link\<close> [\<open>lib/morse_tree.cc\<close>,
    \<open>lib/morse_debug_source_impl.cc\<close>, \<open>lib/cw_encoder_impl.cc\<close>, \<open>lib/cw_decoder_priv.cc\<close>, \<open>moving_sum.h\<close>]: telegraphy, from the
    sentence to the keyed line and back.

  Correspondence. A class is a record with the fields of the class, under their names; a method is a function
  that takes the record and returns it updated, in \<open>res\<close> when the code can throw or leave a buffer. Integers
  of fixed width are words (\<open>u8\<close> to \<open>u64\<close>), counters of type \<open>size_t\<close> are natural numbers where an invariant bounds
  them, with the wrap-around written out where the code relies on it or falls into it. Arrays are lists of
  the allocated length; an access outside is the error \<open>Oob_read\<close> or \<open>Oob_write\<close>, and erasing more of a queue
  than it holds is \<open>Bad_erase\<close>. Memory that the code allocates and does not fill is an argument (\<open>junk\<close>).
  Parameters of the model are the functions of other projects: the shift register of the scramblers
  (\<open>lfsr_ops\<close>), the oscillator of the encoder (\<open>nco_ops\<close>), the constellation and the complex product (\<open>qpsk_ops\<close>), \<open>count_bits16\<close>, the parser and printer of JSON, the byte order
  of the host (\<open>be\<close>), the memory that \<open>malloc\<close> returns, the time of a report (\<open>now\<close>), and the operations of \<open>float\<close> (\<open>float_ops\<close>).

  Loops. The endless loops of \<open>decode\<close> run on fuel, and the theorems say that the fuel given is enough:
  \<open>2n + 3\<close> iterations for AX.25, where \<open>n\<close> is the length of the queue, \<open>(3n + 3)(16m + 40)\<close> for ARGOS and mode 6, where a
  rejected frame is read again until \<open>m\<close>, the maximum length, is reached, and two for AMSAT. A Viterbi instance counts at most \<open>4000000\<close> bits, so that its 32-bit metrics do not wrap. The loop of the CW
  encoder that looks for a window size is a partial function, shown to return.

  Not modelled. Floating point signal processing (the spectrum in front of the CW channels, Doppler, FFT,
  image and audio sinks), as the theories at hand have no IEEE arithmetic; sockets, files, threads and
  clocks; logging; the vector and assembly variants of libfec and its Reed-Solomon codec for \<open>int\<close> symbols;
  the vendored date library; the Viterbi decoders for other codes, which no block calls; tests, bindings and documentation.
\<close>

end
